(* ===== verification/Vexa_Prelude.thy ===== *)
theory Vexa_Prelude
  imports Main "HOL-Library.Word"
begin

text \<open>
  Shared vocabulary of the development: the exceptions of the program as values, sequencing of
  fallible computations, little-endian byte strings, and the generic facts on lists, bits and
  words that the component theories rely on.
\<close>

unbundle bit_operations_syntax

named_theorems res_simps "rewrite rules for sequencing fallible computations"
named_theorems sort_simps "computing the sort of a term from the sorts of its children"
named_theorems sem_simps "computing the value of a term from the values of its children"
named_theorems page_simps "reading a page after an operation on the memory"

section \<open>Exceptions and sequencing\<close>

text \<open>
  \<open>THROW(msg)\<close> logs its message and throws \<open>std::runtime_error\<close>; \<open>VEXA_ASSERT(cond)\<close> is a
  \<open>THROW\<close>. The other constructors are the failures the C++ has without naming them: an exception
  of the term manager on an ill-sorted term, \<open>std::out_of_range\<close> of \<open>at()\<close>, a null pointer that
  is dereferenced, an access outside of a buffer, and a loop that never ends.
\<close>

datatype exn =
    Throw string
  | Assert_failed string
  | Bitwuzla_exception
  | Out_of_range
  | Null_dereference
  | Undefined_behaviour
  | Diverges

type_synonym 'a res = "exn + 'a"

definition res_bind :: "'a res \<Rightarrow> ('a \<Rightarrow> 'b res) \<Rightarrow> 'b res" where
  "res_bind m f = (case m of Inl e \<Rightarrow> Inl e | Inr x \<Rightarrow> f x)"

definition vexa_assert :: "string \<Rightarrow> bool \<Rightarrow> unit res" where
  "vexa_assert msg c = (if c then Inr () else Inl (Assert_failed msg))"

fun res_fold :: "('a \<Rightarrow> 's \<Rightarrow> 's res) \<Rightarrow> 'a list \<Rightarrow> 's \<Rightarrow> 's res" where
  "res_fold f [] s = Inr s"
| "res_fold f (x # xs) s = res_bind (f x s) (res_fold f xs)"

lemma res_bind_Inr [simp, res_simps]: "res_bind (Inr x) f = f x"
  by (simp add: res_bind_def)

lemma res_bind_Inl [simp, res_simps]: "res_bind (Inl e) f = Inl e"
  by (simp add: res_bind_def)

lemma res_bind_eq_Inr: "res_bind m f = Inr y \<longleftrightarrow> (\<exists>x. m = Inr x \<and> f x = Inr y)"
  by (cases m) simp_all

lemma res_bind_eq_Inl: "res_bind m f = Inl e \<longleftrightarrow> m = Inl e \<or> (\<exists>x. m = Inr x \<and> f x = Inl e)"
  by (cases m) auto

lemma res_bindE:
  assumes "res_bind m f = Inr y"
  obtains x where "m = Inr x" and "f x = Inr y"
  using assms by (auto simp: res_bind_eq_Inr)

lemma vexa_assert_True [simp, res_simps]: "vexa_assert msg True = Inr ()"
  by (simp add: vexa_assert_def)

lemma vexa_assert_False [simp, res_simps]: "vexa_assert msg False = Inl (Assert_failed msg)"
  by (simp add: vexa_assert_def)

lemma vexa_assert_Inr [simp]: "vexa_assert msg c = Inr u \<longleftrightarrow> c"
  by (simp add: vexa_assert_def)

lemma res_fold_append:
  "res_fold f (xs @ ys) s = res_bind (res_fold f xs s) (res_fold f ys)"
  by (induction xs arbitrary: s) (auto simp: res_bind_def split: sum.splits)

lemma res_fold_invariant:
  assumes step: "\<And>x s s'. x \<in> set xs \<Longrightarrow> I s \<Longrightarrow> f x s = Inr s' \<Longrightarrow> I s'"
    and "I s" and "res_fold f xs s = Inr s'"
  shows "I s'"
  using assms
proof (induction xs arbitrary: s)
  case Nil
  then show ?case by simp
next
  case (Cons x xs)
  from Cons.prems(3) obtain t where t: "f x s = Inr t" "res_fold f xs t = Inr s'"
    by (auto simp: res_bind_eq_Inr)
  have "I t" using Cons.prems(1,2) t(1) by auto
  with t(2) Cons.IH Cons.prems(1) show ?case by auto
qed

section \<open>Numbers as text\<close>

text \<open>\<open>std::to_string\<close> of an unsigned number.\<close>

fun show_nat :: "nat \<Rightarrow> string" where
  "show_nat n = (if n < 10 then [char_of (48 + n)] else show_nat (n div 10) @ [char_of (48 + n mod 10)])"

declare show_nat.simps [simp del]

section \<open>Bits of integers\<close>

text \<open>Bit vectors of width \<open>w\<close> are the integers \<open>v\<close> with \<open>take_bit w v = v\<close>.\<close>

abbreviation fits :: "nat \<Rightarrow> int \<Rightarrow> bool" where
  "fits w v \<equiv> take_bit w v = v"

lemma fits_iff: "fits w v \<longleftrightarrow> 0 \<le> v \<and> v < 2 ^ w"
  by (metis take_bit_int_eq_self_iff)

lemma fits_take_bit [simp]: "fits w (take_bit w v)"
  by simp

lemma fits_mono: "fits m v \<Longrightarrow> m \<le> n \<Longrightarrow> fits n v"
  by (metis min.absorb2 take_bit_take_bit)

lemma fits_of_bool [simp]: "0 < w \<Longrightarrow> fits w (of_bool b)"
  by (cases b) auto

lemma fits_concat:
  assumes "fits m a" and "fits n b"
  shows "fits (m + n) (push_bit n a OR b)"
proof (rule bit_eqI)
  fix k
  have "bit a i \<Longrightarrow> i < m" and "bit b j \<Longrightarrow> j < n" for i j
    using assms by (metis bit_take_bit_iff)+
  then show "bit (take_bit (m + n) (push_bit n a OR b)) k = bit (push_bit n a OR b) k"
    by (auto simp: bit_take_bit_iff bit_or_iff bit_push_bit_iff) fastforce+
qed

lemma take_bit_concat_low:
  assumes "fits n b"
  shows "take_bit n (push_bit n a OR b) = (b::int)"
  using assms by (simp add: take_bit_push_bit)

lemma drop_bit_concat_high:
  assumes "fits n b"
  shows "drop_bit n (push_bit n a OR b) = (a::int)"
proof -
  have "drop_bit n b = 0"
    using assms by (metis drop_bit_take_bit cancel_comm_monoid_add_class.diff_cancel take_bit_0)
  then show ?thesis by (simp add: drop_bit_push_bit_int)
qed

lemma fits_bit_lt: "fits w v \<Longrightarrow> bit v n \<Longrightarrow> n < w"
  by (metis bit_take_bit_iff)

text \<open>Splitting a vector at bit \<open>n\<close> and putting the two halves together again.\<close>

lemma concat_split:
  "push_bit n (take_bit m (drop_bit n v)) OR take_bit n v = take_bit (m + n) (v::int)"
  by (rule bit_eqI) (auto simp: bit_simps)

lemma replicate_at_numeral: "replicate (numeral k) x = x # replicate (pred_numeral k) x"
  by (simp add: numeral_eq_Suc)

lemma unat_bound: "unat (w :: 'a::len word) < 2 ^ LENGTH('a)"
  by (rule unsigned_less)

section \<open>Little-endian bytes\<close>

type_synonym byte = "8 word"
type_synonym u64 = "64 word"

text \<open>\<open>le_bytes n v\<close> is what \<open>memcpy(dst, &v, n)\<close> copies on the little-endian machine VEXA runs on.\<close>

fun le_bytes :: "nat \<Rightarrow> int \<Rightarrow> byte list" where
  "le_bytes 0 v = []"
| "le_bytes (Suc n) v = word_of_int v # le_bytes n (drop_bit 8 v)"

fun le_val :: "byte list \<Rightarrow> int" where
  "le_val [] = 0"
| "le_val (b # bs) = push_bit 8 (le_val bs) OR uint b"

lemma length_le_bytes [simp]: "length (le_bytes n v) = n"
  by (induction n arbitrary: v) auto

lemma uint_byte_of_int [simp]: "uint (word_of_int v :: byte) = take_bit 8 v"
  by (simp add: uint_word_of_int take_bit_eq_mod)

lemma le_val_le_bytes: "le_val (le_bytes n v) = take_bit (8 * n) v"
proof (induction n arbitrary: v)
  case 0
  then show ?case by simp
next
  case (Suc n)
  have "le_val (le_bytes (Suc n) v) = push_bit 8 (take_bit (8 * n) (drop_bit 8 v)) OR take_bit 8 v"
    by (simp add: Suc.IH)
  also have "\<dots> = take_bit (8 * n + 8) v"
    by (rule concat_split)
  finally show ?case by (simp add: algebra_simps)
qed

lemma nth_le_bytes: "i < n \<Longrightarrow> le_bytes n v ! i = word_of_int (drop_bit (8 * i) v)"
proof (induction n arbitrary: v i)
  case 0
  then show ?case by simp
next
  case (Suc n)
  then show ?case
    by (cases i) (simp_all add: drop_bit_drop_bit algebra_simps)
qed

lemma le_bytes_le_val: "length bs = n \<Longrightarrow> le_bytes n (le_val bs) = bs"
proof (induction bs arbitrary: n)
  case (Cons b bs)
  have fits: "fits 8 (uint b)" using uint_byte_of_int [of "uint b"] by simp
  have "drop_bit 8 (push_bit 8 (le_val bs) OR uint b) = le_val bs"
    using drop_bit_concat_high [OF fits] .
  moreover have "(word_of_int (push_bit 8 (le_val bs) OR uint b) :: byte) = b"
    using take_bit_concat_low [OF fits, of "le_val bs"] by (metis uint_byte_of_int word_uint_eqI)
  ultimately show ?case using Cons by auto
qed simp

end
