(* ===== verification/Bw_Term.thy ===== *)
theory Bw_Term
  imports Vexa_Prelude "HOL-Library.Signed_Division"
begin

text \<open>
  The terms the program builds through Bitwuzla's \<open>TermManager\<close>, their sorts, and their values
  under the standard semantics of SMT-LIB's fixed-size bit vectors, which is what the documentation
  of the solver refers to. This theory is the vocabulary in which the components state what they
  build; the solver itself (\<open>simplify\<close>, \<open>check_sat\<close>, \<open>get_value\<close>) is a parameter, the record
  \<open>solver\<close>, and \<open>sound_solver\<close> states what its documentation promises.
\<close>

section \<open>Terms\<close>

datatype bw_sort = BoolSort | BvSort nat

text \<open>The kinds the program passes to \<open>mk_term\<close>, by their names in \<open>bitwuzla::Kind\<close>
  (\<open>BOOL_NOT\<close> is \<open>Kind::NOT\<close>).\<close>

datatype bw_kind =
    EQUAL | DISTINCT | BOOL_NOT | ITE
  | BV_ADD | BV_SUB | BV_MUL | BV_UDIV | BV_UREM | BV_SDIV | BV_SREM
  | BV_AND | BV_OR | BV_XOR | BV_SHL | BV_SHR | BV_ASHR
  | BV_NEG | BV_NOT
  | BV_ULT | BV_ULE | BV_UGT | BV_UGE | BV_SLT | BV_SLE | BV_SGT | BV_SGE
  | BV_CONCAT | BV_EXTRACT | BV_ZERO_EXTEND | BV_SIGN_EXTEND

text \<open>A constant carries the number of the \<open>mk_const\<close> call that made it: two calls with the same
  symbol give different constants.\<close>

datatype bw_term =
    BwConst nat string nat
  | BwBv nat int
  | BwBool bool
  | BwApp bw_kind "bw_term list" "nat list"

definition bv_binary_kinds :: "bw_kind list" where
  "bv_binary_kinds =
     [BV_ADD, BV_SUB, BV_MUL, BV_UDIV, BV_UREM, BV_SDIV, BV_SREM, BV_AND, BV_OR, BV_XOR,
      BV_SHL, BV_SHR, BV_ASHR]"

definition bv_compare_kinds :: "bw_kind list" where
  "bv_compare_kinds = [BV_ULT, BV_ULE, BV_UGT, BV_UGE, BV_SLT, BV_SLE, BV_SGT, BV_SGE]"

text \<open>The sort of an application, or \<open>None\<close> where \<open>mk_term\<close> refuses it.\<close>

definition app_sort :: "bw_kind \<Rightarrow> bw_sort list \<Rightarrow> nat list \<Rightarrow> bw_sort option" where
  "app_sort k ss ix =
     (if k \<in> set bv_binary_kinds then
        (case (ss, ix) of ([BvSort m, BvSort n], []) \<Rightarrow> if m = n then Some (BvSort m) else None
         | _ \<Rightarrow> None)
      else if k \<in> set bv_compare_kinds then
        (case (ss, ix) of ([BvSort m, BvSort n], []) \<Rightarrow> if m = n then Some BoolSort else None
         | _ \<Rightarrow> None)
      else if k \<in> {EQUAL, DISTINCT} then
        (case (ss, ix) of ([s, s'], []) \<Rightarrow> if s = s' then Some BoolSort else None | _ \<Rightarrow> None)
      else if k = BOOL_NOT then
        (case (ss, ix) of ([BoolSort], []) \<Rightarrow> Some BoolSort | _ \<Rightarrow> None)
      else if k = ITE then
        (case (ss, ix) of ([BoolSort, s, s'], []) \<Rightarrow> if s = s' then Some s else None | _ \<Rightarrow> None)
      else if k \<in> {BV_NEG, BV_NOT} then
        (case (ss, ix) of ([BvSort n], []) \<Rightarrow> Some (BvSort n) | _ \<Rightarrow> None)
      else if k = BV_CONCAT then
        (case (ss, ix) of ([BvSort m, BvSort n], []) \<Rightarrow> Some (BvSort (m + n)) | _ \<Rightarrow> None)
      else if k = BV_EXTRACT then
        (case (ss, ix) of ([BvSort n], [h, l]) \<Rightarrow>
           if l \<le> h \<and> h < n then Some (BvSort (h - l + 1)) else None
         | _ \<Rightarrow> None)
      else
        (case (ss, ix) of ([BvSort n], [e]) \<Rightarrow> Some (BvSort (n + e)) | _ \<Rightarrow> None))"

fun sort_of :: "bw_term \<Rightarrow> bw_sort option" where
  "sort_of (BwConst u s w) = (if 0 < w then Some (BvSort w) else None)"
| "sort_of (BwBv w v) = (if 0 < w \<and> fits w v then Some (BvSort w) else None)"
| "sort_of (BwBool b) = Some BoolSort"
| "sort_of (BwApp k ts ix) =
     (case those (map sort_of ts) of None \<Rightarrow> None | Some ss \<Rightarrow> app_sort k ss ix)"

definition bv_width :: "bw_term \<Rightarrow> nat" where
  "bv_width t = (case sort_of t of Some (BvSort w) \<Rightarrow> w | _ \<Rightarrow> 0)"

fun is_value :: "bw_term \<Rightarrow> bool" where
  "is_value (BwBv w v) = True"
| "is_value (BwBool b) = True"
| "is_value _ = False"

section \<open>The term manager\<close>

definition mk_term :: "bw_kind \<Rightarrow> bw_term list \<Rightarrow> nat list \<Rightarrow> bw_term res" where
  "mk_term k ts ix =
     (if sort_of (BwApp k ts ix) = None then Inl Bitwuzla_exception else Inr (BwApp k ts ix))"

text \<open>\<open>mk_bv_value_uint64\<close> cuts a number that does not fit to the width of the sort; sorts have at
  least one bit.\<close>

definition mk_bv_value :: "nat \<Rightarrow> int \<Rightarrow> bw_term res" where
  "mk_bv_value w v = (if w = 0 then Inl Bitwuzla_exception else Inr (BwBv w (take_bit w v)))"

definition mk_const :: "nat \<Rightarrow> string \<Rightarrow> nat \<Rightarrow> bw_term res" where
  "mk_const u name w = (if w = 0 then Inl Bitwuzla_exception else Inr (BwConst u name w))"

section \<open>Values\<close>

text \<open>An assignment gives every constant a number; a constant of width \<open>w\<close> reads its low \<open>w\<close> bits.
  The value of a Boolean term is \<open>1\<close> or \<open>0\<close>.\<close>

type_synonym assignment = "nat \<Rightarrow> int"

definition to_signed :: "nat \<Rightarrow> int \<Rightarrow> int" where
  "to_signed w v = signed_take_bit (w - 1) v"

text \<open>SMT-LIB's signed division truncates towards zero, and by zero gives \<open>-1\<close> or \<open>1\<close>; the
  remainder takes the sign of the dividend.\<close>

definition smt_sdiv :: "int \<Rightarrow> int \<Rightarrow> int" where
  "smt_sdiv a b = (if b = 0 then (if 0 \<le> a then -1 else 1) else sgn a * sgn b * (\<bar>a\<bar> div \<bar>b\<bar>))"

definition smt_srem :: "int \<Rightarrow> int \<Rightarrow> int" where
  "smt_srem a b = (if b = 0 then a else sgn a * (\<bar>a\<bar> mod \<bar>b\<bar>))"

definition app_sem :: "bw_kind \<Rightarrow> nat list \<Rightarrow> nat list \<Rightarrow> int list \<Rightarrow> int" where
  "app_sem k ix ws vs =
     (let w = ws ! 0; a = vs ! 0; b = vs ! 1 in
      case k of
        EQUAL \<Rightarrow> of_bool (a = b)
      | DISTINCT \<Rightarrow> of_bool (a \<noteq> b)
      | BOOL_NOT \<Rightarrow> of_bool (a = 0)
      | ITE \<Rightarrow> if a \<noteq> 0 then vs ! 1 else vs ! 2
      | BV_ADD \<Rightarrow> take_bit w (a + b)
      | BV_SUB \<Rightarrow> take_bit w (a - b)
      | BV_MUL \<Rightarrow> take_bit w (a * b)
      | BV_UDIV \<Rightarrow> if b = 0 then 2 ^ w - 1 else a div b
      | BV_UREM \<Rightarrow> if b = 0 then a else a mod b
      | BV_SDIV \<Rightarrow> take_bit w (smt_sdiv (to_signed w a) (to_signed w b))
      | BV_SREM \<Rightarrow> take_bit w (smt_srem (to_signed w a) (to_signed w b))
      | BV_AND \<Rightarrow> a AND b
      | BV_OR \<Rightarrow> a OR b
      | BV_XOR \<Rightarrow> a XOR b
      | BV_SHL \<Rightarrow> if int w \<le> b then 0 else take_bit w (push_bit (nat b) a)
      | BV_SHR \<Rightarrow> if int w \<le> b then 0 else drop_bit (nat b) a
      | BV_ASHR \<Rightarrow> take_bit w (drop_bit (if int w \<le> b then w else nat b) (to_signed w a))
      | BV_NEG \<Rightarrow> take_bit w (- a)
      | BV_NOT \<Rightarrow> take_bit w (NOT a)
      | BV_ULT \<Rightarrow> of_bool (a < b)
      | BV_ULE \<Rightarrow> of_bool (a \<le> b)
      | BV_UGT \<Rightarrow> of_bool (b < a)
      | BV_UGE \<Rightarrow> of_bool (b \<le> a)
      | BV_SLT \<Rightarrow> of_bool (to_signed w a < to_signed w b)
      | BV_SLE \<Rightarrow> of_bool (to_signed w a \<le> to_signed w b)
      | BV_SGT \<Rightarrow> of_bool (to_signed w b < to_signed w a)
      | BV_SGE \<Rightarrow> of_bool (to_signed w b \<le> to_signed w a)
      | BV_CONCAT \<Rightarrow> push_bit (ws ! 1) a OR b
      | BV_EXTRACT \<Rightarrow> take_bit (ix ! 0 - ix ! 1 + 1) (drop_bit (ix ! 1) a)
      | BV_ZERO_EXTEND \<Rightarrow> a
      | BV_SIGN_EXTEND \<Rightarrow> take_bit (w + ix ! 0) (to_signed w a))"

fun eval :: "assignment \<Rightarrow> bw_term \<Rightarrow> int" where
  "eval env (BwConst u s w) = take_bit w (env u)"
| "eval env (BwBv w v) = v"
| "eval env (BwBool b) = of_bool b"
| "eval env (BwApp k ts ix) = app_sem k ix (map bv_width ts) (map (eval env) ts)"

definition satisfies :: "assignment \<Rightarrow> bw_term list \<Rightarrow> bool" where
  "satisfies env ts \<longleftrightarrow> (\<forall>t \<in> set ts. eval env t \<noteq> 0)"

section \<open>The solver\<close>

datatype bw_result = SAT | UNSAT | UNKNOWN

text \<open>\<open>get_value\<close> reads the model of the last \<open>check_sat\<close>, so it takes the assumptions of that
  call. A query that runs into the time limit answers \<open>UNKNOWN\<close>. \<open>slv_hash\<close> is
  \<open>std::hash<Term>\<close>, which only ever becomes part of a name.\<close>

record solver =
  slv_simplify :: "bw_term \<Rightarrow> bw_term"
  slv_check_sat :: "bw_term list \<Rightarrow> bw_result"
  slv_get_value :: "bw_term list \<Rightarrow> bw_term \<Rightarrow> bw_term"
  slv_hash :: "bw_term \<Rightarrow> nat"

text \<open>The value term that stands for the number \<open>v\<close> in a sort.\<close>

fun value_term :: "bw_sort \<Rightarrow> int \<Rightarrow> bw_term" where
  "value_term BoolSort v = BwBool (v \<noteq> 0)"
| "value_term (BvSort w) v = BwBv w v"

text \<open>What the documentation promises: simplification gives an equivalent term of the same sort,
  \<open>UNSAT\<close> means no assignment satisfies the assumptions, and after \<open>SAT\<close>
  the values are those of one assignment that does.\<close>

definition sound_solver :: "solver \<Rightarrow> bool" where
  "sound_solver S \<longleftrightarrow>
     (\<forall>t s. sort_of t = Some s \<longrightarrow>
        sort_of (slv_simplify S t) = Some s \<and> (\<forall>env. eval env (slv_simplify S t) = eval env t)) \<and>
     (\<forall>ts env. slv_check_sat S ts = UNSAT \<longrightarrow> \<not> satisfies env ts) \<and>
     (\<forall>ts. slv_check_sat S ts = SAT \<longrightarrow>
        (\<exists>env. satisfies env ts \<and>
           (\<forall>t s. sort_of t = Some s \<longrightarrow> slv_get_value S ts t = value_term s (eval env t))))"

text \<open>The constants of a term; a term without any is rewritten to a value at the rewrite level that
  VEXA asks for.\<close>

fun consts_of :: "bw_term \<Rightarrow> (nat \<times> nat) list" where
  "consts_of (BwConst u s w) = [(u, w)]"
| "consts_of (BwBv w v) = []"
| "consts_of (BwBool b) = []"
| "consts_of (BwApp k ts ix) = concat (map consts_of ts)"

definition folds_constants :: "solver \<Rightarrow> bool" where
  "folds_constants S \<longleftrightarrow>
     (\<forall>t s. sort_of t = Some s \<and> consts_of t = [] \<longrightarrow> is_value (slv_simplify S t))"

section \<open>Sorts and values of applications\<close>

lemmas kind_defs = bv_binary_kinds_def bv_compare_kinds_def

lemma those_eq_Some: "those xs = Some ys \<longleftrightarrow> xs = map Some ys"
  by (induction xs arbitrary: ys) (auto split: option.splits simp: Cons_eq_map_conv)

text \<open>The sorts of the applications the program builds.\<close>

lemma sort_bv_binary [sort_simps]:
  assumes "k \<in> set bv_binary_kinds" "sort_of a = Some (BvSort w)" "sort_of b = Some (BvSort w)"
  shows "sort_of (BwApp k [a, b] []) = Some (BvSort w)"
  using assms by (simp add: app_sort_def)

lemma sort_bv_compare [sort_simps]:
  assumes "k \<in> set bv_compare_kinds" "sort_of a = Some (BvSort w)" "sort_of b = Some (BvSort w)"
  shows "sort_of (BwApp k [a, b] []) = Some BoolSort"
  using assms by (auto simp: app_sort_def kind_defs)

lemma sort_equal [sort_simps]:
  assumes "k \<in> {EQUAL, DISTINCT}" "sort_of a = Some s" "sort_of b = Some s"
  shows "sort_of (BwApp k [a, b] []) = Some BoolSort"
  using assms by (auto simp: app_sort_def kind_defs)

lemma sort_not [sort_simps]:
  "sort_of a = Some BoolSort \<Longrightarrow> sort_of (BwApp BOOL_NOT [a] []) = Some BoolSort"
  by (simp add: app_sort_def kind_defs)

lemma sort_ite [sort_simps]:
  assumes "sort_of c = Some BoolSort" "sort_of a = Some s" "sort_of b = Some s"
  shows "sort_of (BwApp ITE [c, a, b] []) = Some s"
  using assms by (simp add: app_sort_def kind_defs)

lemma sort_bv_unary [sort_simps]:
  assumes "k \<in> {BV_NEG, BV_NOT}" "sort_of a = Some (BvSort w)"
  shows "sort_of (BwApp k [a] []) = Some (BvSort w)"
  using assms by (auto simp: app_sort_def kind_defs)

lemma sort_concat [sort_simps]:
  assumes "sort_of a = Some (BvSort m)" "sort_of b = Some (BvSort n)"
  shows "sort_of (BwApp BV_CONCAT [a, b] []) = Some (BvSort (m + n))"
  using assms by (simp add: app_sort_def kind_defs)

lemma sort_extract [sort_simps]:
  assumes "sort_of a = Some (BvSort n)" "l \<le> h" "h < n"
  shows "sort_of (BwApp BV_EXTRACT [a] [h, l]) = Some (BvSort (h - l + 1))"
  using assms by (simp add: app_sort_def kind_defs)

lemma sort_extend [sort_simps]:
  assumes "k \<in> {BV_ZERO_EXTEND, BV_SIGN_EXTEND}" "sort_of a = Some (BvSort n)"
  shows "sort_of (BwApp k [a] [e]) = Some (BvSort (n + e))"
  using assms by (auto simp: app_sort_def kind_defs)

declare sort_of.simps(4) [simp del]

lemma mk_term_Inr: "sort_of (BwApp k ts ix) = Some s \<Longrightarrow> mk_term k ts ix = Inr (BwApp k ts ix)"
  by (simp add: mk_term_def)

lemma mk_term_eq_Inr:
  "mk_term k ts ix = Inr t \<longleftrightarrow> t = BwApp k ts ix \<and> sort_of (BwApp k ts ix) \<noteq> None"
  by (auto simp: mk_term_def)

lemma bv_width_eq [simp]: "sort_of t = Some (BvSort w) \<Longrightarrow> bv_width t = w"
  by (simp add: bv_width_def)

text \<open>The value of a term always lies in its sort.\<close>

fun in_sort :: "bw_sort \<Rightarrow> int \<Rightarrow> bool" where
  "in_sort BoolSort v \<longleftrightarrow> v = 0 \<or> v = 1"
| "in_sort (BvSort w) v \<longleftrightarrow> 0 < w \<and> fits w v"

lemma fits_div: "fits w a \<Longrightarrow> fits w b \<Longrightarrow> fits w (a div b)"
  using zdiv_mono2 [of a 1 b] unfolding fits_iff
  by (cases "b = 0") (auto simp: pos_imp_zdiv_nonneg_iff)

lemma fits_mod: "fits w a \<Longrightarrow> fits w b \<Longrightarrow> fits w (a mod b)"
  using zmod_le_nonneg_dividend [of a b] unfolding fits_iff
  by (cases "b = 0") auto

lemma fits_ones: "fits w (2 ^ w - 1)"
  unfolding fits_iff by simp

lemma fits_bitwise:
  assumes "fits w a" "fits w b"
  shows "fits w (a AND b)" "fits w (a OR b)" "fits w (a XOR b)"
  using assms by (simp_all add: take_bit_and take_bit_or take_bit_xor)

lemma fits_drop_bit: "fits w a \<Longrightarrow> fits w (drop_bit n a)"
  by (auto intro!: bit_eqI simp: bit_simps dest: fits_bit_lt)

lemma fits_widen: "fits w a \<Longrightarrow> fits (w + e) a"
  using fits_mono le_add1 by blast

lemmas fits_intros =
  fits_div fits_mod fits_ones fits_bitwise fits_drop_bit fits_widen fits_concat [unfolded take_bit_or]

fun sort_width :: "bw_sort \<Rightarrow> nat" where
  "sort_width BoolSort = 0"
| "sort_width (BvSort w) = w"

lemma bv_width_sort: "sort_of t = Some s \<Longrightarrow> bv_width t = sort_width s"
  by (cases s) (simp_all add: bv_width_def)

lemma in_sort_of_bool [simp]: "in_sort BoolSort (of_bool b)"
  by simp

lemma app_sem_in_sort:
  assumes "app_sort k ss ix = Some s" and "list_all2 in_sort ss vs"
  shows "in_sort s (app_sem k ix (map sort_width ss) vs)"
  using assms
  by (cases k)
    (auto simp: app_sort_def kind_defs app_sem_def Let_def list_all2_Cons1 fits_intros
       split: list.splits bw_sort.splits if_splits)

lemma eval_in_sort: "sort_of t = Some s \<Longrightarrow> in_sort s (eval env t)"
proof (induction t arbitrary: s)
  case (BwApp k ts ix)
  from BwApp.prems obtain ss where ss: "map sort_of ts = map Some ss" "app_sort k ss ix = Some s"
    by (auto simp: sort_of.simps(4) those_eq_Some split: option.splits)
  then have len: "length ss = length ts" by (metis length_map)
  have nth: "sort_of (ts ! i) = Some (ss ! i)" if "i < length ts" for i
    using ss(1) len that by (metis nth_map)
  have "list_all2 in_sort ss (map (eval env) ts)"
    using len nth BwApp.IH by (auto simp: list_all2_conv_all_nth)
  moreover have "map bv_width ts = map sort_width ss"
    using len nth by (auto intro!: nth_equalityI simp: bv_width_sort)
  ultimately show ?case
    using app_sem_in_sort [OF ss(2)] by simp
qed (auto split: if_splits)

lemma eval_fits [simp]: "sort_of t = Some (BvSort w) \<Longrightarrow> fits w (eval env t)"
  using eval_in_sort by fastforce

lemma eval_bool: "sort_of t = Some BoolSort \<Longrightarrow> eval env t = of_bool (eval env t \<noteq> 0)"
  using eval_in_sort by fastforce

lemma sort_width_pos: "sort_of t = Some (BvSort w) \<Longrightarrow> 0 < w"
  using eval_in_sort by fastforce

lemma eval_bounds: "sort_of t = Some (BvSort w) \<Longrightarrow> 0 \<le> eval env t \<and> eval env t < 2 ^ w"
  using eval_fits fits_iff by blast

lemma satisfies_Cons [simp]: "satisfies env (t # ts) \<longleftrightarrow> eval env t \<noteq> 0 \<and> satisfies env ts"
  by (auto simp: satisfies_def)

lemma satisfies_append [simp]: "satisfies env (ts @ us) \<longleftrightarrow> satisfies env ts \<and> satisfies env us"
  by (auto simp: satisfies_def)

lemma satisfies_Nil [simp]: "satisfies env []"
  by (simp add: satisfies_def)

lemma eval_value_term: "in_sort s v \<Longrightarrow> eval env (value_term s v) = v"
  by (cases s) auto

lemma sort_value_term: "in_sort s v \<Longrightarrow> sort_of (value_term s v) = Some s"
  by (cases s) auto

lemma is_value_value_term [simp]: "is_value (value_term s v)"
  by (cases s) auto

text \<open>A value term has the same value under every assignment.\<close>

lemma eval_is_value: "is_value t \<Longrightarrow> eval env t = eval env' t"
  by (cases t) auto

lemma is_value_bv: "is_value x \<Longrightarrow> sort_of x = Some (BvSort w) \<Longrightarrow> x = BwBv w (eval env x)"
  by (cases x) (auto split: if_splits)

section \<open>What a sound solver gives\<close>

lemma sound_simplify:
  assumes "sound_solver S" and "sort_of t = Some s"
  shows "sort_of (slv_simplify S t) = Some s" and "eval env (slv_simplify S t) = eval env t"
  using assms unfolding sound_solver_def by blast+

lemma sound_unsat: "sound_solver S \<Longrightarrow> slv_check_sat S ts = UNSAT \<Longrightarrow> \<not> satisfies env ts"
  unfolding sound_solver_def by blast

lemma sound_sat:
  assumes "sound_solver S" and "slv_check_sat S ts = SAT" and "sort_of t = Some s"
  obtains env where "satisfies env ts" and "slv_get_value S ts t = value_term s (eval env t)"
  using assms unfolding sound_solver_def by blast

section \<open>Terms as machine words\<close>

text \<open>The applications compute what the machine operations on \<open>w word\<close> compute.\<close>

lemma word_of_int_take_bit_length [simp]:
  "(word_of_int (take_bit LENGTH('a) x) :: 'a::len word) = word_of_int x"
  by (rule bit_word_eqI) (simp add: bit_simps)

lemma word_of_int_bitwise:
  "(word_of_int (x AND y) :: 'a::len word) = word_of_int x AND word_of_int y"
  "(word_of_int (x OR y) :: 'a::len word) = word_of_int x OR word_of_int y"
  "(word_of_int (x XOR y) :: 'a::len word) = word_of_int x XOR word_of_int y"
  by (auto intro!: bit_word_eqI simp: bit_simps)

lemma word_of_int_fits:
  fixes x :: int
  assumes "fits LENGTH('a) x"
  shows "uint (word_of_int x :: 'a::len word) = x"
    and "unat (word_of_int x :: 'a word) = nat x"
    and "sint (word_of_int x :: 'a word) = to_signed LENGTH('a) x"
    and "(word_of_int x :: 'a word) = 0 \<longleftrightarrow> x = 0"
proof -
  show 1: "uint (word_of_int x :: 'a word) = x" using assms by (simp add: uint_word_of_int_eq)
  then show "unat (word_of_int x :: 'a word) = nat x" by (simp only: unat_eq_nat_uint)
  show "sint (word_of_int x :: 'a word) = to_signed LENGTH('a) x"
    by (simp add: to_signed_def sint_sbintrunc')
  show "(word_of_int x :: 'a word) = 0 \<longleftrightarrow> x = 0"
    using 1 by (metis uint_0_iff)
qed

lemma to_signed_eq_0: "fits LENGTH('a::len) x \<Longrightarrow> to_signed LENGTH('a) x = 0 \<longleftrightarrow> x = 0"
  by (metis word_of_int_fits(3,4) signed_eq_0_iff)

lemma app_sem_arith:
  shows "(word_of_int (app_sem BV_ADD [] [LENGTH('a), n] [x, y]) :: 'a::len word) = word_of_int x + word_of_int y"
    and "(word_of_int (app_sem BV_SUB [] [LENGTH('a), n] [x, y]) :: 'a::len word) = word_of_int x - word_of_int y"
    and "(word_of_int (app_sem BV_MUL [] [LENGTH('a), n] [x, y]) :: 'a::len word) = word_of_int x * word_of_int y"
    and "(word_of_int (app_sem BV_AND [] [LENGTH('a), n] [x, y]) :: 'a::len word) = word_of_int x AND word_of_int y"
    and "(word_of_int (app_sem BV_OR [] [LENGTH('a), n] [x, y]) :: 'a::len word) = word_of_int x OR word_of_int y"
    and "(word_of_int (app_sem BV_XOR [] [LENGTH('a), n] [x, y]) :: 'a::len word) = word_of_int x XOR word_of_int y"
  by (simp_all add: app_sem_def word_of_int_bitwise)

lemma app_sem_div:
  fixes x y :: int
  defines "A \<equiv> (word_of_int x :: 'a::len word)" and "B \<equiv> (word_of_int y :: 'a word)"
  assumes "fits LENGTH('a) x" "fits LENGTH('a) y" "B \<noteq> 0"
  shows "word_of_int (app_sem BV_UDIV [] [LENGTH('a), n] [x, y]) = A div B"
   and "word_of_int (app_sem BV_UREM [] [LENGTH('a), n] [x, y]) = A mod B"
   and "word_of_int (app_sem BV_SDIV [] [LENGTH('a), n] [x, y]) = (word_of_int (sint A sdiv sint B) :: 'a word)"
   and "word_of_int (app_sem BV_SREM [] [LENGTH('a), n] [x, y]) = (word_of_int (sint A smod sint B) :: 'a word)"
  using assms(3-) unfolding A_def B_def
  by (simp_all add: app_sem_def Let_def word_of_int_fits to_signed_eq_0 word_div_def word_mod_def 
     smt_sdiv_def smt_srem_def signed_divide_int_def signed_modulo_int_def)

lemma top_index: "\<not> l - k \<le> n \<Longrightarrow> l - Suc 0 \<le> k + n \<Longrightarrow> k + n = l - Suc (0::nat)"
  by arith

lemma app_sem_shift:
  fixes x y :: int
  defines "A \<equiv> (word_of_int x :: 'a::len word)" and "B \<equiv> (word_of_int y :: 'a word)"
  assumes x: "fits LENGTH('a) x" and y: "fits LENGTH('a) y"
  shows "word_of_int (app_sem BV_SHL [] [LENGTH('a), n] [x, y]) = push_bit (unat B) A"
   and "word_of_int (app_sem BV_SHR [] [LENGTH('a), n] [x, y]) = drop_bit (unat B) A"
   and "word_of_int (app_sem BV_ASHR [] [LENGTH('a), n] [x, y]) = signed_drop_bit (unat B) A"
proof -
  have uB: "unat B = nat y" and y0: "0 \<le> y" 
    using y by (simp_all add: B_def word_of_int_fits fits_iff)
  show "word_of_int (app_sem BV_SHL [] [LENGTH('a), n] [x, y]) = push_bit (unat B) A"
    using y0 by (intro bit_word_eqI) (auto simp: app_sem_def Let_def uB A_def bit_simps)
  show "word_of_int (app_sem BV_SHR [] [LENGTH('a), n] [x, y]) = drop_bit (unat B) A"
    using y0 by (intro bit_word_eqI) (auto simp: app_sem_def Let_def uB A_def bit_simps dest: fits_bit_lt [OF x])
  show "word_of_int (app_sem BV_ASHR [] [LENGTH('a), n] [x, y]) = signed_drop_bit (unat B) A"
    using y0 by (intro bit_word_eqI) (auto simp: app_sem_def Let_def uB A_def bit_simps to_signed_def min_def
        dest: top_index)
qed

lemma app_sem_compare:
  fixes x y :: int
  defines "A \<equiv> (word_of_int x :: 'a::len word)" and "B \<equiv> (word_of_int y :: 'a word)"
  assumes x: "fits LENGTH('a) x" and y: "fits LENGTH('a) y"
  shows "app_sem BV_ULT [] [LENGTH('a), n] [x, y] = of_bool (A < B)"
   and "app_sem BV_ULE [] [LENGTH('a), n] [x, y] = of_bool (A \<le> B)"
   and "app_sem BV_UGT [] [LENGTH('a), n] [x, y] = of_bool (B < A)"
   and "app_sem BV_UGE [] [LENGTH('a), n] [x, y] = of_bool (B \<le> A)"
   and "app_sem BV_SLT [] [LENGTH('a), n] [x, y] = of_bool (word_sless A B)"
   and "app_sem BV_SLE [] [LENGTH('a), n] [x, y] = of_bool (word_sle A B)"
   and "app_sem BV_SGT [] [LENGTH('a), n] [x, y] = of_bool (word_sless B A)"
   and "app_sem BV_SGE [] [LENGTH('a), n] [x, y] = of_bool (word_sle B A)"
   and "app_sem EQUAL [] [LENGTH('a), n] [x, y] = of_bool (A = B)"
   and "app_sem DISTINCT [] [LENGTH('a), n] [x, y] = of_bool (A \<noteq> B)"
  using x y
  by (simp_all add: app_sem_def A_def B_def word_less_def word_le_def word_sless_alt word_sle_eq word_of_int_fits)
     (metis word_of_int_fits(1))+

end
