(* ===== verification/Reference_Solver.thy ===== *)
theory Reference_Solver
  imports Bw_Term
begin

text \<open>
  A solver that decides by trying every assignment of the constants. It is exponential, and it is
  here for one reason: it meets \<open>sound_solver\<close>, so the hypothesis that the other theories make
  about Bitwuzla can hold, and on small widths it evaluates.
\<close>

fun assignments :: "nat \<Rightarrow> nat list \<Rightarrow> assignment list" where
  "assignments w [] = [\<lambda>_. 0]"
| "assignments w (u # us) = [env(u := int n). env \<leftarrow> assignments w us, n \<leftarrow> [0..<2 ^ w]]"

definition candidates :: "bw_term list \<Rightarrow> assignment list" where
  "candidates ts =
     (let cs = concat (map consts_of ts)
      in assignments (fold max (map snd cs) 0) (remdups (map fst cs)))"

definition model_of :: "bw_term list \<Rightarrow> assignment option" where
  "model_of ts = find (\<lambda>env. satisfies env ts) (candidates ts)"

definition value_under :: "assignment \<Rightarrow> bw_term \<Rightarrow> bw_term" where
  "value_under env t = (case sort_of t of Some s \<Rightarrow> value_term s (eval env t) | None \<Rightarrow> t)"

definition reference_solver :: solver where
  "reference_solver =
     \<lparr>slv_simplify = (\<lambda>t. if consts_of t = [] then value_under (\<lambda>_. 0) t else t),
      slv_check_sat = (\<lambda>ts. if model_of ts = None then UNSAT else SAT),
      slv_get_value = (\<lambda>ts t. case model_of ts of Some env \<Rightarrow> value_under env t | None \<Rightarrow> t),
      slv_hash = (\<lambda>t. 0)\<rparr>"

lemma eval_cong:
  assumes "\<And>u w. (u, w) \<in> set (consts_of t) \<Longrightarrow> take_bit w (env u) = take_bit w (env' u)"
  shows "eval env t = eval env' t"
  using assms
proof (induction t)
  case (BwApp k ts ix)
  then have "map (eval env) ts = map (eval env') ts" by fastforce
  then show ?case by (simp only: eval.simps)
qed auto

lemma assignments_exhaustive:
  "\<exists>env' \<in> set (assignments w us). \<forall>u \<in> set us. env' u = take_bit w (env u)"
proof (induction us)
  case Nil
  then show ?case by simp
next
  case (Cons u us)
  then obtain env' where env': "env' \<in> set (assignments w us)"
    "\<forall>u \<in> set us. env' u = take_bit w (env u)" by blast
  have "take_bit w (env u) = int (nat (take_bit w (env u)))"
    and "nat (take_bit w (env u)) \<in> set [0..<2 ^ w]"
    by (simp_all add: nat_less_iff)
  then have "\<exists>n \<in> set [0..<2 ^ w]. env'(u := take_bit w (env u)) = env'(u := int n)"
    by metis
  with env'(1) have "env'(u := take_bit w (env u)) \<in> set (assignments w (u # us))"
    by auto
  moreover have "\<forall>v \<in> set (u # us). (env'(u := take_bit w (env u))) v = take_bit w (env v)"
    using env'(2) by simp
  ultimately show ?case by blast
qed

lemma fold_max_ge: "x \<in> set xs \<or> x \<le> n \<Longrightarrow> x \<le> fold max xs (n::nat)"
proof (induction xs arbitrary: n)
  case (Cons y xs)
  have "x \<in> set xs \<or> x \<le> max y n" using Cons.prems by auto
  then have "x \<le> fold max xs (max y n)" by (rule Cons.IH)
  then show ?case by (simp only: fold_simps o_apply)
qed simp

lemma candidates_exhaustive:
  assumes "satisfies env ts"
  shows "\<exists>env' \<in> set (candidates ts). satisfies env' ts"
proof -
  define cs where "cs = concat (map consts_of ts)"
  define w where "w = fold max (map snd cs) 0"
  have "candidates ts = assignments w (remdups (map fst cs))"
    by (simp only: candidates_def cs_def w_def Let_def)
  then obtain env' where env': "env' \<in> set (candidates ts)"
    "\<And>u. u \<in> fst ` set cs \<Longrightarrow> env' u = take_bit w (env u)"
    using assignments_exhaustive [of w "remdups (map fst cs)" env]
    unfolding set_remdups set_map by metis
  have "eval env' t = eval env t" if "t \<in> set ts" for t
  proof (rule eval_cong)
    fix u k assume "(u, k) \<in> set (consts_of t)"
    with that have uk: "(u, k) \<in> set cs" by (auto simp: cs_def)
    then have "u \<in> fst ` set cs" and "k \<in> set (map snd cs)" by force+
    then have "k \<le> w" and "env' u = take_bit w (env u)"
      using env'(2) fold_max_ge [of k "map snd cs" 0] unfolding w_def by blast+
    then show "take_bit k (env' u) = take_bit k (env u)" by simp
  qed
  with assms have "satisfies env' ts" by (simp add: satisfies_def)
  with env'(1) show ?thesis by blast
qed

lemma model_of_None: "model_of ts = None \<Longrightarrow> \<not> satisfies env ts"
  using candidates_exhaustive unfolding model_of_def find_None_iff by blast

lemma model_of_Some: "model_of ts = Some env \<Longrightarrow> satisfies env ts"
  unfolding model_of_def by (metis find_Some_iff)

lemma reference_solver_sound: "sound_solver reference_solver"
  unfolding sound_solver_def
proof (intro conjI allI impI)
  fix t s assume s: "sort_of t = Some s"
  show "sort_of (slv_simplify reference_solver t) = Some s"
    using s eval_in_sort [OF s] by (simp add: reference_solver_def value_under_def sort_value_term)
  fix env
  have "eval (\<lambda>_. 0) t = eval env t" if "consts_of t = []"
    using that by (intro eval_cong) simp
  then show "eval env (slv_simplify reference_solver t) = eval env t"
    using s eval_in_sort [OF s] by (simp add: reference_solver_def value_under_def eval_value_term)
next
  fix ts env assume "slv_check_sat reference_solver ts = UNSAT"
  then show "\<not> satisfies env ts"
    by (auto simp: reference_solver_def dest: model_of_None split: if_splits)
next
  fix ts assume "slv_check_sat reference_solver ts = SAT"
  then obtain env where "model_of ts = Some env"
    by (auto simp: reference_solver_def split: if_splits)
  then show "\<exists>env. satisfies env ts \<and>
      (\<forall>t s. sort_of t = Some s \<longrightarrow> slv_get_value reference_solver ts t = value_term s (eval env t))"
    by (auto simp: reference_solver_def value_under_def dest: model_of_Some)
qed

lemma reference_solver_folds: "folds_constants reference_solver"
proof -
  have "is_value (value_term s n)" for s n by (cases s) simp_all
  then show ?thesis
    by (simp add: folds_constants_def reference_solver_def value_under_def)
qed

end
