(* ===== verification/Value.thy ===== *)
theory Value
  imports Reference_Solver
begin

text \<open>
  \<open>vexa::value\<close> and \<open>vexa::pointer\<close> (value.hpp, value.cpp): a term together with a flag that
  says whether it was simplified, and for a pointer the memory page it points into. The objects live
  in an arena and are only ever changed by \<open>simplify\<close>, which replaces the term by an equivalent
  one; here a value is an immutable record and \<open>simplify\<close> returns the new one.
\<close>

section \<open>Values\<close>

datatype vkind = Kind_value | Kind_pointer

text \<open>Pages are shared objects; a pointer holds the identity of its page.\<close>

type_synonym page_id = nat

record vexa_value =
  v_kind :: vkind
  v_term :: bw_term
  v_simplified :: bool
  v_page :: "page_id option"

definition value_new :: "bw_term \<Rightarrow> vexa_value" where
  "value_new e =
     \<lparr>v_kind = Kind_value, v_term = e, v_simplified = is_value e, v_page = None\<rparr>"

definition pointer_new :: "vexa_value \<Rightarrow> page_id \<Rightarrow> vexa_value" where
  "pointer_new v p = v\<lparr>v_kind := Kind_pointer, v_page := Some p\<rparr>"

definition to_ptr :: "vexa_value \<Rightarrow> vexa_value option" where
  "to_ptr v = (if v_kind v = Kind_pointer then Some v else None)"

definition is_symbolic :: "vexa_value \<Rightarrow> bool" where
  "is_symbolic v \<longleftrightarrow> \<not> is_value (v_term v)"

definition is_concrete :: "vexa_value \<Rightarrow> bool" where
  "is_concrete v \<longleftrightarrow> is_value (v_term v)"

text \<open>\<open>bv_size()\<close> of a Boolean term is an exception of the solver library.\<close>

definition term_bv_size :: "bw_term \<Rightarrow> nat res" where
  "term_bv_size t = (case sort_of t of Some (BvSort w) \<Rightarrow> Inr w | _ \<Rightarrow> Inl Bitwuzla_exception)"

definition v_size :: "vexa_value \<Rightarrow> nat res" where
  "v_size v = term_bv_size (v_term v)"

text \<open>The static \<open>as_uint64\<close>: the low 64 bits of a value term.\<close>

definition term_as_uint64 :: "bw_term \<Rightarrow> u64 res" where
  "term_as_uint64 t =
     res_bind (term_bv_size t) (\<lambda>width.
       case t of BwBv w v \<Rightarrow> Inr (if width \<le> 64 then word_of_int v else word_of_int (take_bit 64 v))
       | _ \<Rightarrow> Inl Bitwuzla_exception)"

definition as_uint64 :: "vexa_value \<Rightarrow> u64 res" where
  "as_uint64 v =
     (if \<not> is_concrete v then Inl (Throw ''cannot concretize value'') else term_as_uint64 (v_term v))"

definition as_expr_bool :: "vexa_value \<Rightarrow> bw_term res" where
  "as_expr_bool v =
     (if sort_of (v_term v) = Some BoolSort then Inr (v_term v)
      else res_bind (term_bv_size (v_term v)) (\<lambda>w. mk_term EQUAL [v_term v, BwBv w 1] []))"

section \<open>Simplification and enumeration\<close>

definition v_simplify :: "solver \<Rightarrow> vexa_value \<Rightarrow> vexa_value" where
  "v_simplify S v =
     (if \<not> v_simplified v then v\<lparr>v_term := slv_simplify S (v_term v), v_simplified := True\<rparr> else v)"

definition v_simplify_under :: "solver \<Rightarrow> bw_term list \<Rightarrow> vexa_value \<Rightarrow> vexa_value res" where
  "v_simplify_under S constraints v =
     (let v' = v_simplify S v in
      if is_concrete v' \<or> slv_check_sat S constraints \<noteq> SAT then Inr v'
      else
        (let candidate = slv_get_value S constraints (v_term v') in
         res_bind (mk_term DISTINCT [v_term v', candidate] []) (\<lambda>distinct.
           if slv_check_sat S (constraints @ [distinct]) = UNSAT then Inr (value_new candidate)
           else Inr v')))"

text \<open>The loop of \<open>possible_values\<close> stops at 20 values; \<open>n\<close> is how many more it may find.\<close>

fun possible_values_loop ::
  "solver \<Rightarrow> bw_term \<Rightarrow> nat \<Rightarrow> bw_term list \<Rightarrow> bw_term list \<Rightarrow> (bw_term list \<times> bw_term list) res" where
  "possible_values_loop S t 0 assumptions solved = Inr (assumptions, solved)"
| "possible_values_loop S t (Suc n) assumptions solved =
     (if slv_check_sat S assumptions \<noteq> SAT then Inr (assumptions, solved)
      else
        (let evaluated = slv_get_value S assumptions t in
         res_bind (mk_term DISTINCT [t, evaluated] []) (\<lambda>distinct.
           possible_values_loop S t n (assumptions @ [distinct]) (solved @ [evaluated]))))"

definition possible_values ::
  "solver \<Rightarrow> bw_term list \<Rightarrow> vexa_value \<Rightarrow> (bw_term list \<times> bw_result) res" where
  "possible_values S constraints v =
     res_bind (possible_values_loop S (v_term v) 20 constraints []) (\<lambda>(assumptions, solved).
       Inr (solved, slv_check_sat S assumptions))"

section \<open>Operators\<close>

definition v_unary :: "bw_kind \<Rightarrow> vexa_value \<Rightarrow> vexa_value res" where
  "v_unary k a = res_bind (mk_term k [v_term a] []) (\<lambda>t. Inr (value_new t))"

definition v_binary :: "bw_kind \<Rightarrow> vexa_value \<Rightarrow> vexa_value \<Rightarrow> vexa_value res" where
  "v_binary k a b = res_bind (mk_term k [v_term a, v_term b] []) (\<lambda>t. Inr (value_new t))"

definition v_add :: "vexa_value \<Rightarrow> vexa_value \<Rightarrow> vexa_value res" where
  "v_add = v_binary BV_ADD"

definition v_sub :: "vexa_value \<Rightarrow> vexa_value \<Rightarrow> vexa_value res" where
  "v_sub = v_binary BV_SUB"

definition v_mul :: "vexa_value \<Rightarrow> vexa_value \<Rightarrow> vexa_value res" where
  "v_mul = v_binary BV_MUL"

definition v_sdiv :: "vexa_value \<Rightarrow> vexa_value \<Rightarrow> vexa_value res" where
  "v_sdiv = v_binary BV_SDIV"

definition v_srem :: "vexa_value \<Rightarrow> vexa_value \<Rightarrow> vexa_value res" where
  "v_srem = v_binary BV_SREM"

definition v_lnot :: "vexa_value \<Rightarrow> vexa_value res" where
  "v_lnot a =
     res_bind (as_expr_bool a) (\<lambda>e. res_bind (mk_term BOOL_NOT [e] []) (\<lambda>t. Inr (value_new t)))"

definition v_and :: "vexa_value \<Rightarrow> vexa_value \<Rightarrow> vexa_value res" where
  "v_and = v_binary BV_AND"

definition v_or :: "vexa_value \<Rightarrow> vexa_value \<Rightarrow> vexa_value res" where
  "v_or = v_binary BV_OR"

definition v_xor :: "vexa_value \<Rightarrow> vexa_value \<Rightarrow> vexa_value res" where
  "v_xor = v_binary BV_XOR"

definition v_shl :: "vexa_value \<Rightarrow> vexa_value \<Rightarrow> vexa_value res" where
  "v_shl = v_binary BV_SHL"

definition v_ashr :: "vexa_value \<Rightarrow> vexa_value \<Rightarrow> vexa_value res" where
  "v_ashr = v_binary BV_ASHR"

definition v_neg :: "vexa_value \<Rightarrow> vexa_value res" where
  "v_neg = v_unary BV_NEG"

definition v_not :: "vexa_value \<Rightarrow> vexa_value res" where
  "v_not = v_unary BV_NOT"

definition v_eq :: "vexa_value \<Rightarrow> vexa_value \<Rightarrow> vexa_value res" where
  "v_eq = v_binary EQUAL"

definition v_ne :: "vexa_value \<Rightarrow> vexa_value \<Rightarrow> vexa_value res" where
  "v_ne = v_binary DISTINCT"

definition v_slt :: "vexa_value \<Rightarrow> vexa_value \<Rightarrow> vexa_value res" where
  "v_slt = v_binary BV_SLT"

definition v_sle :: "vexa_value \<Rightarrow> vexa_value \<Rightarrow> vexa_value res" where
  "v_sle = v_binary BV_SLE"

definition v_sgt :: "vexa_value \<Rightarrow> vexa_value \<Rightarrow> vexa_value res" where
  "v_sgt = v_binary BV_SGT"

definition v_sge :: "vexa_value \<Rightarrow> vexa_value \<Rightarrow> vexa_value res" where
  "v_sge = v_binary BV_SGE"

definition v_udiv :: "vexa_value \<Rightarrow> vexa_value \<Rightarrow> vexa_value res" where
  "v_udiv = v_binary BV_UDIV"

definition v_urem :: "vexa_value \<Rightarrow> vexa_value \<Rightarrow> vexa_value res" where
  "v_urem = v_binary BV_UREM"

definition v_lshr :: "vexa_value \<Rightarrow> vexa_value \<Rightarrow> vexa_value res" where
  "v_lshr = v_binary BV_SHR"

definition v_ult :: "vexa_value \<Rightarrow> vexa_value \<Rightarrow> vexa_value res" where
  "v_ult = v_binary BV_ULT"

definition v_ule :: "vexa_value \<Rightarrow> vexa_value \<Rightarrow> vexa_value res" where
  "v_ule = v_binary BV_ULE"

definition v_ugt :: "vexa_value \<Rightarrow> vexa_value \<Rightarrow> vexa_value res" where
  "v_ugt = v_binary BV_UGT"

definition v_uge :: "vexa_value \<Rightarrow> vexa_value \<Rightarrow> vexa_value res" where
  "v_uge = v_binary BV_UGE"

definition v_concat :: "vexa_value \<Rightarrow> vexa_value \<Rightarrow> vexa_value res" where
  "v_concat = v_binary BV_CONCAT"

definition v_extract :: "nat \<Rightarrow> nat \<Rightarrow> vexa_value \<Rightarrow> vexa_value res" where
  "v_extract high low a =
     res_bind (mk_term BV_EXTRACT [v_term a] [high, low]) (\<lambda>t. Inr (value_new t))"

definition v_zext :: "nat \<Rightarrow> vexa_value \<Rightarrow> vexa_value res" where
  "v_zext amount a = res_bind (mk_term BV_ZERO_EXTEND [v_term a] [amount]) (\<lambda>t. Inr (value_new t))"

definition v_sext :: "nat \<Rightarrow> vexa_value \<Rightarrow> vexa_value res" where
  "v_sext amount a = res_bind (mk_term BV_SIGN_EXTEND [v_term a] [amount]) (\<lambda>t. Inr (value_new t))"

definition v_ite :: "vexa_value \<Rightarrow> vexa_value \<Rightarrow> vexa_value \<Rightarrow> vexa_value res" where
  "v_ite c then_value else_value =
     res_bind (as_expr_bool c) (\<lambda>e.
       res_bind (mk_term ITE [e, v_term then_value, v_term else_value] []) (\<lambda>t. Inr (value_new t)))"

section \<open>Widths and values\<close>

text \<open>A value of \<open>w\<close> bits, and the number it denotes under an assignment.\<close>

definition bv_val :: "nat \<Rightarrow> vexa_value \<Rightarrow> bool" where
  "bv_val w v \<longleftrightarrow> sort_of (v_term v) = Some (BvSort w)"

definition bool_val :: "vexa_value \<Rightarrow> bool" where
  "bool_val v \<longleftrightarrow> sort_of (v_term v) = Some BoolSort"

definition den :: "assignment \<Rightarrow> vexa_value \<Rightarrow> int" where
  "den env v = eval env (v_term v)"

lemma v_term_value_new [simp]: "v_term (value_new t) = t"
  by (simp add: value_new_def)

lemma v_term_pointer_new [simp]: "v_term (pointer_new v p) = v_term v"
  by (simp add: pointer_new_def)

lemma v_page_pointer_new [simp]: "v_page (pointer_new v p) = Some p"
  by (simp add: pointer_new_def)

lemma v_kind_pointer_new [simp]: "v_kind (pointer_new v p) = Kind_pointer"
  by (simp add: pointer_new_def)

lemma bv_val_new [simp]: "bv_val w (value_new t) \<longleftrightarrow> sort_of t = Some (BvSort w)"
  by (simp add: bv_val_def)

lemma bv_val_pointer_new [simp]: "bv_val w (pointer_new v p) = bv_val w v"
  by (simp add: bv_val_def)

lemma bool_val_new [simp]: "bool_val (value_new t) \<longleftrightarrow> sort_of t = Some BoolSort"
  by (simp add: bool_val_def)

lemma den_new [simp]: "den env (value_new t) = eval env t"
  by (simp add: den_def)

lemma den_pointer_new [simp]: "den env (pointer_new v p) = den env v"
  by (simp add: den_def)

lemma den_fits [simp]: "bv_val w v \<Longrightarrow> fits w (den env v)"
  by (simp add: bv_val_def den_def)

lemma den_bounds: "bv_val w v \<Longrightarrow> 0 \<le> den env v \<and> den env v < 2 ^ w"
  by (simp add: bv_val_def den_def eval_bounds)

lemma bv_val_pos: "bv_val w v \<Longrightarrow> 0 < w"
  by (auto simp: bv_val_def dest: sort_width_pos)

lemma bv_val_unique: "bv_val w v \<Longrightarrow> bv_val w' v \<Longrightarrow> w = w'"
  by (simp add: bv_val_def)

lemma v_size_bv [simp]: "bv_val w v \<Longrightarrow> v_size v = Inr w"
  by (simp add: bv_val_def v_size_def term_bv_size_def)

lemma concrete_den:
  assumes "is_concrete v" and "bv_val w v"
  shows "v_term v = BwBv w (den env v)"
  using assms by (cases "v_term v") (auto simp: is_concrete_def bv_val_def den_def split: if_splits)

lemma word_of_int_low64: "(word_of_int (take_bit 64 x) :: u64) = word_of_int x"
  by (rule bit_word_eqI) (simp add: bit_simps)

lemma term_as_uint64_bv:
  assumes "sort_of (BwBv w x) = Some (BvSort w)"
  shows "term_as_uint64 (BwBv w x) = Inr (word_of_int x)"
  using assms by (simp only: term_as_uint64_def term_bv_size_def option.case bw_sort.case
      res_bind_Inr bw_term.case word_of_int_low64 if_cancel)

lemma as_uint64_concrete:
  assumes "is_concrete v" and "bv_val w v"
  shows "as_uint64 v = Inr (word_of_int (den env v))"
proof -
  have t: "v_term v = BwBv w (den env v)" using assms by (rule concrete_den)
  with assms(2) have "sort_of (BwBv w (den env v)) = Some (BvSort w)"
    by (metis bv_val_def)
  with t assms(1) show ?thesis
    by (simp only: as_uint64_def term_as_uint64_bv not_True_eq_False if_False simp_thms)
qed

text \<open>Rules for the operators: what they return and what the result denotes.\<close>

lemma v_binary_bv:
  assumes "k \<in> set bv_binary_kinds" and "bv_val w a" and "bv_val w b"
  shows "\<exists>r. v_binary k a b = Inr r \<and> bv_val w r \<and>
    (\<forall>env. den env r = app_sem k [] [w, w] [den env a, den env b])"
  using assms sort_bv_binary [of k "v_term a" w "v_term b"]
  by (simp add: v_binary_def mk_term_Inr bv_val_def den_def)

lemma v_binary_compare:
  assumes "k \<in> set bv_compare_kinds" and "bv_val w a" and "bv_val w b"
  shows "\<exists>r. v_binary k a b = Inr r \<and> bool_val r \<and>
    (\<forall>env. den env r = app_sem k [] [w, w] [den env a, den env b])"
  using assms sort_bv_compare [of k "v_term a" w "v_term b"]
  by (simp add: v_binary_def mk_term_Inr bv_val_def den_def)

lemma v_unary_ok:
  assumes "k \<in> {BV_NEG, BV_NOT}" and "bv_val w a"
  shows "\<exists>r. v_unary k a = Inr r \<and> bv_val w r \<and> (\<forall>env. den env r = app_sem k [] [w] [den env a])"
  using assms sort_bv_unary [of k "v_term a" w] by (simp add: v_unary_def mk_term_Inr bv_val_def den_def)

lemma v_concat_ok:
  assumes "bv_val m a" and "bv_val n b"
  shows "\<exists>r. v_concat a b = Inr r \<and> bv_val (m + n) r \<and>
    (\<forall>env. den env r = push_bit n (den env a) OR den env b)"
  using assms sort_concat [of "v_term a" m "v_term b" n]
  by (simp add: v_concat_def v_binary_def mk_term_Inr bv_val_def den_def app_sem_def)

lemma v_extract_ok:
  assumes "bv_val n a" and "l \<le> h" and "h < n"
  shows "\<exists>r. v_extract h l a = Inr r \<and> bv_val (h - l + 1) r \<and>
    (\<forall>env. den env r = take_bit (h - l + 1) (drop_bit l (den env a)))"
  using assms sort_extract [of "v_term a" n l h]
  by (simp add: v_extract_def mk_term_Inr bv_val_def den_def app_sem_def)

lemma v_zext_ok:
  assumes "bv_val n a"
  shows "\<exists>r. v_zext e a = Inr r \<and> bv_val (n + e) r \<and> (\<forall>env. den env r = den env a)"
  using assms sort_extend [of BV_ZERO_EXTEND "v_term a" n e]
  by (simp add: v_zext_def mk_term_Inr bv_val_def den_def app_sem_def)

lemma v_sext_ok:
  assumes "bv_val n a"
  shows "\<exists>r. v_sext e a = Inr r \<and> bv_val (n + e) r \<and>
    (\<forall>env. den env r = take_bit (n + e) (to_signed n (den env a)))"
  using assms sort_extend [of BV_SIGN_EXTEND "v_term a" n e]
  by (simp add: v_sext_def mk_term_Inr bv_val_def den_def app_sem_def)

text \<open>A condition is a Boolean, or a bit vector that is compared with one.\<close>

lemma as_expr_bool_bool: "bool_val c \<Longrightarrow> as_expr_bool c = Inr (v_term c)"
  by (simp add: as_expr_bool_def bool_val_def)

lemma as_expr_bool_bv:
  assumes "bv_val w c"
  shows "\<exists>e. as_expr_bool c = Inr e \<and> sort_of e = Some BoolSort \<and>
    (\<forall>env. eval env e = of_bool (den env c = 1))"
proof -
  have w: "0 < w" using assms by (auto simp: bv_val_def dest: sort_width_pos)
  then have "sort_of (BwBv w 1) = Some (BvSort w)" by (cases w) simp_all
  then show ?thesis
    using assms sort_equal [of EQUAL "v_term c" "BvSort w" "BwBv w 1"]
    by (simp add: as_expr_bool_def bv_val_def term_bv_size_def mk_term_Inr den_def app_sem_def)
qed

lemma v_ite_ok:
  assumes "bool_val c" and "bv_val w a" and "bv_val w b"
  shows "\<exists>r. v_ite c a b = Inr r \<and> bv_val w r \<and>
    (\<forall>env. den env r = (if den env c \<noteq> 0 then den env a else den env b))"
  using assms sort_ite [of "v_term c" "v_term a" "BvSort w" "v_term b"]
  by (simp add: v_ite_def as_expr_bool_bool mk_term_Inr bv_val_def bool_val_def den_def app_sem_def)

lemma v_ite_bv_ok:
  assumes "bv_val n c" and "bv_val w a" and "bv_val w b"
  shows "\<exists>r. v_ite c a b = Inr r \<and> bv_val w r \<and>
    (\<forall>env. den env r = (if den env c = 1 then den env a else den env b))"
proof -
  obtain e where e: "as_expr_bool c = Inr e" "sort_of e = Some BoolSort"
      "\<And>env. eval env e = of_bool (den env c = 1)"
    using as_expr_bool_bv [OF assms(1)] by blast
  then show ?thesis
    using assms(2,3) sort_ite [of e "v_term a" "BvSort w" "v_term b"]
    by (simp add: v_ite_def mk_term_Inr bv_val_def den_def app_sem_def)
qed

lemma v_lnot_ok:
  assumes "bool_val c"
  shows "\<exists>r. v_lnot c = Inr r \<and> bool_val r \<and> (\<forall>env. den env r = of_bool (den env c = 0))"
  using assms sort_not [of "v_term c"]
  by (simp add: v_lnot_def as_expr_bool_bool mk_term_Inr bool_val_def den_def app_sem_def)

section \<open>The operators as machine operations\<close>

definition as_word :: "assignment \<Rightarrow> vexa_value \<Rightarrow> 'a::len word" where
  "as_word env v = word_of_int (den env v)"

lemma v_binary_word:
  fixes a b :: vexa_value
  assumes "k \<in> set bv_binary_kinds" and "bv_val LENGTH('a::len) a" and "bv_val LENGTH('a) b"
    and "\<And>env. P env \<Longrightarrow>
      word_of_int (app_sem k [] [LENGTH('a), LENGTH('a)] [den env a, den env b])
        = g (word_of_int (den env a)) (word_of_int (den env b) :: 'a word)"
  shows "\<exists>r. v_binary k a b = Inr r \<and> bv_val LENGTH('a) r \<and>
    (\<forall>env. P env \<longrightarrow> as_word env r = g (as_word env a) (as_word env b :: 'a word))"
  using v_binary_bv [OF assms(1-3)] assms(4) by (force simp: as_word_def)

lemmas operator_defs =
  v_add_def v_sub_def v_mul_def v_sdiv_def v_srem_def v_and_def v_or_def v_xor_def v_shl_def
  v_ashr_def v_eq_def v_ne_def v_slt_def v_sle_def v_sgt_def v_sge_def v_udiv_def v_urem_def
  v_lshr_def v_ult_def v_ule_def v_ugt_def v_uge_def v_concat_def

definition plain_operators ::
  "((vexa_value \<Rightarrow> vexa_value \<Rightarrow> vexa_value res) \<times> ('a::len word \<Rightarrow> 'a word \<Rightarrow> 'a word)) list" where
  "plain_operators =
     [(v_add, (+)), (v_sub, (-)), (v_mul, (*)), (v_and, (AND)), (v_or, (OR)), (v_xor, (XOR)),
      (v_shl, \<lambda>x y. push_bit (unat y) x), (v_lshr, \<lambda>x y. drop_bit (unat y) x),
      (v_ashr, \<lambda>x y. signed_drop_bit (unat y) x)]"

definition division_operators ::
  "((vexa_value \<Rightarrow> vexa_value \<Rightarrow> vexa_value res) \<times> ('a::len word \<Rightarrow> 'a word \<Rightarrow> 'a word)) list" where
  "division_operators =
     [(v_udiv, (div)), (v_urem, (mod)), (v_sdiv, \<lambda>x y. word_of_int (sint x sdiv sint y)),
      (v_srem, \<lambda>x y. word_of_int (sint x smod sint y))]"

definition compare_operators ::
  "((vexa_value \<Rightarrow> vexa_value \<Rightarrow> vexa_value res) \<times> ('a::len word \<Rightarrow> 'a word \<Rightarrow> bool)) list" where
  "compare_operators =
     [(v_eq, (=)), (v_ne, (\<noteq>)), (v_ult, (<)), (v_ule, (\<le>)), (v_ugt, \<lambda>x y. y < x),
      (v_uge, \<lambda>x y. y \<le> x), (v_slt, word_sless), (v_sle, word_sle),
      (v_sgt, \<lambda>x y. word_sless y x), (v_sge, \<lambda>x y. word_sle y x)]"

text \<open>C36: on operands of equal width every arithmetic, bitwise and shift operator of a value succeeds
  and denotes the corresponding machine operation on words of that width (\<open>>>\<close> is the arithmetic
  shift, \<open>lshr\<close> the logical one); so do the four divisions where the divisor is not zero, with
  \<open>/\<close> and \<open>%\<close> the signed ones that truncate.\<close>

theorem operators_are_machine_operations:
  fixes a b :: vexa_value and g :: "'a::len word \<Rightarrow> 'a word \<Rightarrow> 'a word"
  assumes "bv_val LENGTH('a) a" and "bv_val LENGTH('a) b"
    and "(f, g) \<in> set plain_operators \<or>
         (f, g) \<in> set division_operators \<and> (\<forall>env. (as_word env b :: 'a word) \<noteq> 0)"
  shows "\<exists>r. f a b = Inr r \<and> bv_val LENGTH('a) r \<and>
           (\<forall>env. as_word env r = g (as_word env a) (as_word env b))"
proof -
  obtain k where k: "f = v_binary k" "k \<in> set bv_binary_kinds" and
    "word_of_int (app_sem k [] [LENGTH('a), LENGTH('a)] [den env a, den env b])
       = g (word_of_int (den env a)) (word_of_int (den env b))" for env
    using assms den_fits [OF assms(1)] den_fits [OF assms(2)]
    unfolding plain_operators_def division_operators_def operator_defs as_word_def kind_defs
    by (auto simp: app_sem_arith app_sem_shift app_sem_div)
  then show ?thesis
    using v_binary_word [OF k(2) assms(1,2), of "\<lambda>_. True" g] by (simp add: k(1))
qed

lemma v_binary_bool:
  assumes "k \<in> insert EQUAL (insert DISTINCT (set bv_compare_kinds))" and "bv_val w a" and "bv_val w b"
  shows "\<exists>r. v_binary k a b = Inr r \<and> bool_val r \<and>
    (\<forall>env. den env r = app_sem k [] [w, w] [den env a, den env b])"
proof -
  have "sort_of (BwApp k [v_term a, v_term b] []) = Some BoolSort"
    using assms sort_bv_compare [of k "v_term a" w "v_term b"]
      sort_equal [of k "v_term a" "BvSort w" "v_term b"] by (auto simp: bv_val_def)
  then show ?thesis
    using assms(2,3) by (simp add: v_binary_def mk_term_Inr bv_val_def den_def)
qed

lemma compare_operators_ok:
  fixes a b :: vexa_value and g :: "'a::len word \<Rightarrow> 'a word \<Rightarrow> bool"
  assumes "bv_val LENGTH('a) a" and "bv_val LENGTH('a) b" and "(f, g) \<in> set compare_operators"
  shows "\<exists>r. f a b = Inr r \<and> bool_val r \<and>
           (\<forall>env. den env r = of_bool (g (as_word env a) (as_word env b)))"
proof -
  obtain k where k: "f = v_binary k" "k \<in> insert EQUAL (insert DISTINCT (set bv_compare_kinds))" and
    "app_sem k [] [LENGTH('a), LENGTH('a)] [den env a, den env b]
       = of_bool (g (word_of_int (den env a)) (word_of_int (den env b)))" for env
    using assms(3) den_fits [OF assms(1)] den_fits [OF assms(2)]
    unfolding compare_operators_def operator_defs kind_defs
    by (auto simp: app_sem_compare)
  then show ?thesis
    using v_binary_bool [OF k(2) assms(1,2)] by (auto simp: k(1) as_word_def)
qed

text \<open>the comparison operators of a value succeed on operands of equal width and give a Boolean
  term that is true exactly where the machine comparison is, \<open><\<close> and its kin being the signed ones.\<close>

theorem comparisons_are_machine_comparisons:
  fixes a b :: vexa_value and g :: "'a::len word \<Rightarrow> 'a word \<Rightarrow> bool"
  assumes "bv_val LENGTH('a) a" and "bv_val LENGTH('a) b" and "(f, g) \<in> set compare_operators"
  shows "\<exists>r. f a b = Inr r \<and> bool_val r \<and>
           (\<forall>env. den env r = of_bool (g (as_word env a) (as_word env b)))"
  using compare_operators_ok [OF assms] .

section \<open>Enumeration\<close>

lemma sound_get_value:
  assumes "sound_solver S" and "slv_check_sat S ts = SAT" and "sort_of t = Some s"
  obtains env where "satisfies env ts" and "slv_get_value S ts t = value_term s (eval env t)"
    and "sort_of (slv_get_value S ts t) = Some s" and "is_value (slv_get_value S ts t)"
    and "\<And>env'. eval env' (slv_get_value S ts t) = eval env t"
proof -
  obtain env where "satisfies env ts" "slv_get_value S ts t = value_term s (eval env t)"
    using assms by (rule sound_sat)
  with eval_in_sort [OF assms(3), of env] that [of env] show ?thesis
    by (simp add: sort_value_term eval_value_term)
qed

lemma eval_distinct [sem_simps]:
  "eval env (BwApp DISTINCT [a, b] []) = of_bool (eval env a \<noteq> eval env b)"
  by (simp add: app_sem_def)

text \<open>What the loop keeps: the solved values are values of the term under the constraints, pairwise
  different, and the assumptions exclude exactly them.\<close>

definition enumerated ::
  "bw_term list \<Rightarrow> bw_term \<Rightarrow> bw_sort \<Rightarrow> bw_term list \<Rightarrow> bw_term list \<Rightarrow> bool" where
  "enumerated cs t s assumptions solved \<longleftrightarrow>
     (\<forall>env. satisfies env assumptions \<longleftrightarrow>
        satisfies env cs \<and> (\<forall>x \<in> set solved. eval env t \<noteq> eval env x)) \<and>
     (\<forall>x \<in> set solved. sort_of x = Some s \<and> is_value x \<and>
        (\<exists>env. satisfies env cs \<and> eval env t = eval env x)) \<and>
     distinct solved"

lemma enumerated_step:
  assumes "sound_solver S" and "sort_of t = Some s" and "enumerated cs t s as xs"
    and "slv_check_sat S as = SAT"
  defines "e \<equiv> slv_get_value S as t"
  shows "mk_term DISTINCT [t, e] [] = Inr (BwApp DISTINCT [t, e] []) \<and>
    enumerated cs t s (as @ [BwApp DISTINCT [t, e] []]) (xs @ [e])"
proof -
  obtain env where env: "satisfies env as" "sort_of e = Some s" "is_value e"
    and ev: "\<And>env'. eval env' e = eval env t"
    using sound_get_value [OF assms(1,4,2)] unfolding e_def by metis
  have "sort_of (BwApp DISTINCT [t, e] []) = Some BoolSort"
    using env(2) assms(2) by (intro sort_equal) auto
  moreover have "eval env t \<noteq> eval env x" if "x \<in> set xs" for x
    using env(1) that assms(3) by (auto simp: enumerated_def)
  then have "e \<notin> set xs" using ev by metis
  ultimately show ?thesis
    using assms(3) env ev unfolding enumerated_def
    by (auto simp: mk_term_Inr eval_distinct simp del: eval.simps(4))
qed

lemma possible_values_loop_ok:
  assumes "sound_solver S" and "sort_of t = Some s" and "enumerated cs t s as xs"
  shows "\<exists>as' xs'. possible_values_loop S t n as xs = Inr (as', xs') \<and>
    enumerated cs t s as' xs' \<and> length xs' \<le> length xs + n"
  using assms(3)
proof (induction n arbitrary: as xs)
  case 0
  then show ?case by simp
next
  case (Suc n)
  show ?case
  proof (cases "slv_check_sat S as = SAT")
    case True
    note step = enumerated_step [OF assms(1,2) Suc.prems True]
    with Suc.IH [OF conjunct2 [OF step]] True show ?thesis
      by (auto simp: Let_def)
  next
    case False
    with Suc.prems show ?thesis by auto
  qed
qed

lemma possible_values_ok:
  assumes "sound_solver S" and "bv_val w v"
  shows "\<exists>xs r. possible_values S cs v = Inr (xs, r) \<and>
    length xs \<le> 20 \<and> distinct xs \<and>
    (\<forall>x \<in> set xs. \<exists>n env. x = BwBv w n \<and> satisfies env cs \<and> den env v = n) \<and>
    (r = UNSAT \<longrightarrow> (\<forall>env. satisfies env cs \<longrightarrow> BwBv w (den env v) \<in> set xs))"
proof -
  have "enumerated cs (v_term v) (BvSort w) cs []"
    by (simp add: enumerated_def)
  from possible_values_loop_ok [OF assms(1) _ this, of 20] assms(2)
  obtain as xs where loop: "possible_values_loop S (v_term v) 20 cs [] = Inr (as, xs)"
    and e: "enumerated cs (v_term v) (BvSort w) as xs" and len: "length xs \<le> 20"
    by (auto simp: bv_val_def)
  have val: "x = BwBv w (eval env x)" if "x \<in> set xs" for x env
    using that e by (intro is_value_bv) (auto simp: enumerated_def)
  have "\<exists>n env. x = BwBv w n \<and> satisfies env cs \<and> den env v = n" if "x \<in> set xs" for x
    using that e val [OF that] unfolding enumerated_def den_def by metis
  moreover have "BwBv w (den env v) \<in> set xs" if "slv_check_sat S as = UNSAT" "satisfies env cs" for env
    using that e sound_unsat [OF assms(1) that(1)] val unfolding enumerated_def den_def by metis
  ultimately show ?thesis
    using e len by (auto simp: possible_values_def loop enumerated_def)
qed

text \<open>C28: \<open>possible_values\<close> never fails on a bit vector, returns at most 20 pairwise different
  value terms, each of them a value the expression takes under the constraints, and when its last query
  answers \<open>UNSAT\<close> it returned every value the expression can take.\<close>

theorem possible_values_sound_and_complete:
  assumes "sound_solver S" and "bv_val w v"
  shows "\<exists>xs r. possible_values S cs v = Inr (xs, r) \<and>
    length xs \<le> 20 \<and> distinct xs \<and>
    (\<forall>x \<in> set xs. \<exists>n env. x = BwBv w n \<and> satisfies env cs \<and> den env v = n) \<and>
    (r = UNSAT \<longrightarrow> (\<forall>env. satisfies env cs \<longrightarrow> BwBv w (den env v) \<in> set xs))"
  using possible_values_ok [OF assms] .

lemma v_simplify_sound:
  assumes "sound_solver S" and "sort_of (v_term v) = Some s"
  shows "sort_of (v_term (v_simplify S v)) = Some s" and "den env (v_simplify S v) = den env v"
  using assms(2) sound_simplify [OF assms] by (auto simp: v_simplify_def den_def)

lemma v_simplify_bv [simp]:
  "sound_solver S \<Longrightarrow> bv_val w v \<Longrightarrow> bv_val w (v_simplify S v)"
  "sound_solver S \<Longrightarrow> bv_val w v \<Longrightarrow> den env (v_simplify S v) = den env v"
  by (simp_all add: bv_val_def v_simplify_sound)

lemma v_page_simplify [simp]: "v_page (v_simplify S v) = v_page v"
  by (simp add: v_simplify_def)

lemma v_kind_simplify [simp]: "v_kind (v_simplify S v) = v_kind v"
  by (simp add: v_simplify_def)

lemma v_simplify_under_ok:
  assumes "sound_solver S" and "bv_val w v"
  shows "\<exists>v'. v_simplify_under S cs v = Inr v' \<and> bv_val w v' \<and>
    (\<forall>env. satisfies env cs \<longrightarrow> den env v' = den env v)"
proof (cases "is_concrete (v_simplify S v) \<or> slv_check_sat S cs \<noteq> SAT")
  case True
  then show ?thesis using assms by (auto simp: v_simplify_under_def Let_def)
next
  case False
  define t where "t = v_term (v_simplify S v)"
  define c where "c = slv_get_value S cs t"
  have t: "sort_of t = Some (BvSort w)" and den: "\<And>env. eval env t = den env v"
    using assms v_simplify_sound [OF assms(1)] by (auto simp: t_def bv_val_def den_def)
  obtain env where c: "sort_of c = Some (BvSort w)"
    using sound_get_value [OF assms(1) _ t, of cs] False unfolding c_def by metis
  have d: "sort_of (BwApp DISTINCT [t, c] []) = Some BoolSort"
    using t c by (intro sort_equal) auto
  have "eval env t = eval env c"
    if "slv_check_sat S (cs @ [BwApp DISTINCT [t, c] []]) = UNSAT" "satisfies env cs" for env
    using sound_unsat [OF assms(1) that(1), of env] that(2)
    by (simp add: eval_distinct del: eval.simps(4))
  then show ?thesis
    using False assms c den mk_term_Inr [OF d]
    by (auto simp: v_simplify_under_def Let_def t_def [symmetric] c_def [symmetric])
qed

text \<open>C35: \<open>simplify(constraints)\<close> never fails on a bit vector and returns a value of the same
  width that agrees with the original under every assignment that satisfies the constraints.\<close>

theorem simplify_under_sound:
  assumes "sound_solver S" and "bv_val w v"
  shows "\<exists>v'. v_simplify_under S cs v = Inr v' \<and> bv_val w v' \<and>
    (\<forall>env. satisfies env cs \<longrightarrow> den env v' = den env v)"
  using v_simplify_under_ok [OF assms] .


theorem operators_are_machine_operations_witness:
  "\<exists>r. v_sdiv (value_new (BwConst 0 ''x'' 64)) (value_new (BwBv 64 7)) = Inr r \<and> bv_val 64 r \<and>
     (\<forall>env. as_word env r =
        (word_of_int (sint (as_word env (value_new (BwConst 0 ''x'' 64)) :: 64 word) sdiv 7) :: 64 word))"
  using operators_are_machine_operations
    [where 'a = 64 and f = v_sdiv and g = "\<lambda>x y. word_of_int (sint x sdiv sint y)"
      and a = "value_new (BwConst 0 ''x'' 64)" and b = "value_new (BwBv 64 7)"]
  by (simp add: division_operators_def as_word_def fits_iff)

theorem comparisons_are_machine_comparisons_witness:
  "\<exists>r. v_slt (value_new (BwBv 8 255)) (value_new (BwBv 8 1)) = Inr r \<and> bool_val r \<and>
     (\<forall>env. den env r = of_bool (word_sless (as_word env (value_new (BwBv 8 255)) :: 8 word) 1))"
  using comparisons_are_machine_comparisons
    [where 'a = 8 and f = v_slt and g = word_sless
      and a = "value_new (BwBv 8 255)" and b = "value_new (BwBv 8 1)"]
  by (simp add: compare_operators_def as_word_def fits_iff)

text \<open>An unconstrained constant of one bit has the two values 0 and 1.\<close>

theorem possible_values_sound_and_complete_witness:
  "\<exists>xs. possible_values reference_solver [] (value_new (BwConst 0 ''x'' 1)) = Inr (xs, UNSAT) \<and>
     length xs \<le> 20 \<and> BwBv 1 0 \<in> set xs \<and> BwBv 1 1 \<in> set xs"
proof -
  let ?v = "value_new (BwConst 0 ''x'' 1)"
  obtain xs r where ok: "possible_values reference_solver [] ?v = Inr (xs, r)" "length xs \<le> 20"
    "r = UNSAT \<longrightarrow> (\<forall>env. satisfies env [] \<longrightarrow> BwBv 1 (den env ?v) \<in> set xs)"
    using possible_values_sound_and_complete [OF reference_solver_sound, of 1 ?v "[]"] by auto
  have "possible_values reference_solver [] ?v = Inr ([BwBv 1 0, BwBv 1 1], UNSAT)"
    by code_simp
  with ok(1) have "r = UNSAT" by simp
  with ok have "BwBv 1 (den (\<lambda>_. 0) ?v) \<in> set xs" "BwBv 1 (den (\<lambda>_. 1) ?v) \<in> set xs"
    by (meson satisfies_Nil)+
  with ok \<open>r = UNSAT\<close> show ?thesis by simp
qed

theorem simplify_under_sound_witness:
  "\<exists>v'. v_simplify_under reference_solver
       [BwApp EQUAL [BwConst 0 ''x'' 2, BwBv 2 2] []] (value_new (BwConst 0 ''x'' 2)) = Inr v' \<and>
     bv_val 2 v' \<and> den (\<lambda>_. 2) v' = 2"
  using simplify_under_sound [OF reference_solver_sound, of 2 "value_new (BwConst 0 ''x'' 2)"
      "[BwApp EQUAL [BwConst 0 ''x'' 2, BwBv 2 2] []]"]
  by (auto simp: app_sem_def)

end
