(* ===== verification/Symex.thy ===== *)
theory Symex
  imports Value
begin

text \<open>
  \<open>vexa::symex\<close> (symex.hpp, symex.cpp): the factory of values and the table that gives every LLVM
  value its symbolic value. The deques that own the values are not modelled, since a value here is a
  record; what is left of them is the number of constants made so far, which tells two constants
  with the same name apart.
\<close>

section \<open>State and operations\<close>

text \<open>LLVM values are objects with an identity; integer constants are determined by their width and
  number, and \<open>symex::get\<close> tells them apart from the others.\<close>

datatype llvm_value = LConstantInt nat int | LValue nat

record symex =
  sx_fresh :: nat
  sx_vars :: "llvm_value \<rightharpoonup> vexa_value"

definition symex_init :: symex where
  "symex_init = \<lparr>sx_fresh = 0, sx_vars = Map.empty\<rparr>"

definition sx_symbolic :: "string \<Rightarrow> nat \<Rightarrow> symex \<Rightarrow> (vexa_value \<times> symex) res" where
  "sx_symbolic name width sx =
     res_bind (mk_const (sx_fresh sx) name width) (\<lambda>t.
       Inr (value_new t, sx\<lparr>sx_fresh := Suc (sx_fresh sx)\<rparr>))"

definition sx_concrete :: "u64 \<Rightarrow> nat \<Rightarrow> vexa_value res" where
  "sx_concrete val width = res_bind (mk_bv_value width (uint val)) (\<lambda>t. Inr (value_new t))"

definition sx_pointer :: "vexa_value option \<Rightarrow> page_id \<Rightarrow> vexa_value res" where
  "sx_pointer value page =
     (case value of None \<Rightarrow> Inl (Assert_failed ''value'') | Some v \<Rightarrow> Inr (pointer_new v page))"

definition sx_pointer_at :: "u64 \<Rightarrow> page_id \<Rightarrow> vexa_value res" where
  "sx_pointer_at value page = res_bind (sx_concrete value 64) (\<lambda>v. sx_pointer (Some v) page)"

definition sx_value :: "bw_term \<Rightarrow> vexa_value" where
  "sx_value e = value_new e"

definition sx_get :: "llvm_value option \<Rightarrow> symex \<Rightarrow> vexa_value res" where
  "sx_get lv sx =
     (case lv of None \<Rightarrow> Inl (Assert_failed ''v'')
      | Some v \<Rightarrow>
          (case sx_vars sx v of Some original \<Rightarrow> Inr original
           | None \<Rightarrow>
               (case v of LConstantInt width n \<Rightarrow> sx_concrete (word_of_int n) width
                | LValue i \<Rightarrow> Inl (Throw ''value not in symex vars''))))"

definition sx_set :: "llvm_value \<Rightarrow> vexa_value \<Rightarrow> symex \<Rightarrow> symex" where
  "sx_set lv e sx = sx\<lparr>sx_vars := (sx_vars sx)(lv \<mapsto> e)\<rparr>"

definition sx_clear :: "symex \<Rightarrow> symex" where
  "sx_clear sx = sx\<lparr>sx_vars := Map.empty\<rparr>"

definition sx_is_sync :: "llvm_value \<Rightarrow> symex \<Rightarrow> bool" where
  "sx_is_sync lv sx \<longleftrightarrow> sx_vars sx lv \<noteq> None"

section \<open>Properties\<close>

lemma sx_concrete_eq: "0 < w \<Longrightarrow> sx_concrete n w = Inr (value_new (BwBv w (take_bit w (uint n))))"
  by (simp add: sx_concrete_def mk_bv_value_def)

lemma sx_concrete_zero [simp]: "sx_concrete n 0 = Inl Bitwuzla_exception"
  by (simp add: sx_concrete_def mk_bv_value_def)

lemma sx_symbolic_eq:
  "0 < w \<Longrightarrow> sx_symbolic name w sx =
     Inr (value_new (BwConst (sx_fresh sx) name w), sx\<lparr>sx_fresh := Suc (sx_fresh sx)\<rparr>)"
  by (simp add: sx_symbolic_def mk_const_def)

text \<open>a concrete value of up to 64 bits reads back, through \<open>as_uint64\<close>, as the number it was
  made from cut to its width; a concrete value is never reported as symbolic.\<close>

theorem concrete_as_uint64:
  assumes "0 < w" and "w \<le> 64"
  shows "\<exists>v. sx_concrete n w = Inr v \<and> is_concrete v \<and> v_size v = Inr w \<and>
    as_uint64 v = Inr (take_bit w n)"
proof -
  let ?v = "value_new (BwBv w (take_bit w (uint n)))"
  have v: "is_concrete ?v" "bv_val w ?v"
    using assms by (simp_all add: is_concrete_def)
  have "(word_of_int (take_bit w (uint n)) :: u64) = take_bit w n"
    using assms by (intro bit_word_eqI) (auto simp: bit_simps)
  with as_uint64_concrete [OF v, of undefined] sx_concrete_eq [OF assms(1)] v show ?thesis
    by simp
qed

theorem concrete_as_uint64_witness:
  "\<exists>v. sx_concrete 258 8 = Inr v \<and> is_concrete v \<and> v_size v = Inr 8 \<and> as_uint64 v = Inr 2"
  using concrete_as_uint64 [of 8 258] by simp

lemma sx_get_set [simp]: "sx_get (Some v) (sx_set v e sx) = Inr e"
  by (simp add: sx_get_def sx_set_def)

lemma sx_get_set_other: "u \<noteq> v \<Longrightarrow> sx_get (Some u) (sx_set v e sx) = sx_get (Some u) sx"
  by (simp add: sx_get_def sx_set_def)

end
