(* ===== verification/Intrinsics.thy ===== *)
theory Intrinsics
  imports Symex
begin

text \<open>
  \<open>emulator::handle_llvm_intrinsics\<close> (emulator.cpp): the LLVM intrinsics that the lifted code
  uses, as terms of the solver, and that they compute what the LLVM language reference says.
\<close>

unbundle bit_operations_syntax

section \<open>The handlers\<close>

text \<open>Widths are kept in 8-bit variables by most handlers.\<close>

abbreviation u8 :: "nat \<Rightarrow> nat" where
  "u8 n \<equiv> n mod 256"

definition zext_bit :: "nat \<Rightarrow> vexa_value \<Rightarrow> nat \<Rightarrow> bw_term res" where
  "zext_bit dst src i =
     res_bind (v_extract i i src) (\<lambda>b. mk_term BV_ZERO_EXTEND [v_term b] [dst - 1])"

definition intrinsic_ctpop :: "nat \<Rightarrow> vexa_value \<Rightarrow> vexa_value res" where
  "intrinsic_ctpop ty src =
     res_bind (v_size src) (\<lambda>sz.
     let src_bit_width = u8 sz; dst_bit_width = u8 ty in
     res_bind (vexa_assert ''dst_bit_width'' (dst_bit_width \<noteq> 0)) (\<lambda>_.
     res_bind (zext_bit dst_bit_width src 0) (\<lambda>first.
     res_bind (res_fold (\<lambda>i total.
         res_bind (zext_bit dst_bit_width src i) (\<lambda>b. mk_term BV_ADD [total, b] []))
         [1..<src_bit_width] first) (\<lambda>total.
     Inr (value_new total)))))"

definition funnel_parts ::
  "nat \<Rightarrow> bw_kind \<Rightarrow> vexa_value \<Rightarrow> vexa_value \<Rightarrow> vexa_value \<Rightarrow> bw_term res" where
  "funnel_parts bit_width k src_x src_y shift =
     res_bind (term_bv_size (v_term shift)) (\<lambda>sw.
     res_bind (mk_bv_value sw (int bit_width)) (\<lambda>width_term.
     res_bind (mk_term BV_UREM [v_term shift, width_term] []) (\<lambda>s_mod.
     res_bind (mk_term BV_ZERO_EXTEND [s_mod] [bit_width]) (\<lambda>s_wide.
     res_bind (mk_term BV_CONCAT [v_term src_x, v_term src_y] []) (\<lambda>wide.
     mk_term k [wide, s_wide] [])))))"

definition intrinsic_fshl ::
  "nat \<Rightarrow> vexa_value \<Rightarrow> vexa_value \<Rightarrow> vexa_value \<Rightarrow> vexa_value res" where
  "intrinsic_fshl ty src_x src_y shift =
     res_bind (v_size src_x) (\<lambda>sz.
     let bit_width = u8 sz in
     res_bind (funnel_parts bit_width BV_SHL src_x src_y shift) (\<lambda>shifted.
     res_bind (mk_term BV_EXTRACT [shifted] [2 * bit_width - 1, bit_width]) (\<lambda>result.
     res_bind (term_bv_size result) (\<lambda>rw.
     res_bind (vexa_assert ''dst_bit_width == result.sort().bv_size()'' (u8 ty = rw)) (\<lambda>_.
     Inr (value_new result))))))"

definition intrinsic_fshr ::
  "nat \<Rightarrow> vexa_value \<Rightarrow> vexa_value \<Rightarrow> vexa_value \<Rightarrow> vexa_value res" where
  "intrinsic_fshr ty src_x src_y shift =
     res_bind (v_size src_x) (\<lambda>sz.
     let bit_width = u8 sz in
     res_bind (funnel_parts bit_width BV_SHR src_x src_y shift) (\<lambda>shifted.
     res_bind (mk_term BV_EXTRACT [shifted] [bit_width - 1, 0]) (\<lambda>result.
     res_bind (term_bv_size result) (\<lambda>rw.
     res_bind (vexa_assert ''dst_bit_width == result.sort().bv_size()'' (u8 ty = rw)) (\<lambda>_.
     Inr (value_new result))))))"

definition intrinsic_bswap :: "nat \<Rightarrow> vexa_value \<Rightarrow> vexa_value res" where
  "intrinsic_bswap ty src =
     res_bind (v_size src) (\<lambda>bit_width.
     res_bind (vexa_assert ''bit_width % 8 == 0'' (bit_width mod 8 = 0)) (\<lambda>_.
     res_bind (v_extract 7 0 src) (\<lambda>first.
     res_bind (res_fold (\<lambda>i result.
         res_bind (v_extract (8 * i + 7) (8 * i) src) (\<lambda>next_byte.
           mk_term BV_CONCAT [result, v_term next_byte] []))
         [1..<bit_width div 8] (v_term first)) (\<lambda>result.
     res_bind (term_bv_size result) (\<lambda>rw.
     res_bind (vexa_assert ''dst_bit_width == result.sort().bv_size()'' (u8 ty = rw)) (\<lambda>_.
     Inr (value_new result)))))))"

text \<open>One round of the loops of \<open>cttz\<close> and \<open>ctlz\<close>: when bit \<open>i\<close> is set the answer is \<open>n\<close>.\<close>

definition select_bit :: "nat \<Rightarrow> vexa_value \<Rightarrow> nat \<Rightarrow> nat \<Rightarrow> bw_term \<Rightarrow> bw_term res" where
  "select_bit dst src i n result =
     res_bind (v_extract i i src) (\<lambda>current_bit.
     res_bind (mk_bv_value dst (int n)) (\<lambda>current_idx.
     res_bind (mk_term EQUAL [v_term current_bit, BwBv 1 1] []) (\<lambda>is_one.
     mk_term ITE [is_one, current_idx, result] [])))"

definition count_zeros ::
  "nat \<Rightarrow> vexa_value \<Rightarrow> (nat \<Rightarrow> nat list) \<Rightarrow> (nat \<Rightarrow> nat \<Rightarrow> nat) \<Rightarrow> vexa_value res" where
  "count_zeros ty src order answer =
     res_bind (v_size src) (\<lambda>bit_width.
     let dst_bit_width = u8 ty in
     res_bind (vexa_assert ''dst_bit_width'' (dst_bit_width \<noteq> 0)) (\<lambda>_.
     res_bind (mk_bv_value dst_bit_width (int bit_width)) (\<lambda>start.
     res_bind (res_fold (\<lambda>i. select_bit dst_bit_width src i (answer bit_width i)) (order bit_width) start)
       (\<lambda>result.
     res_bind (term_bv_size result) (\<lambda>rw.
     res_bind (vexa_assert ''dst_bit_width == result.sort().bv_size()'' (dst_bit_width = rw)) (\<lambda>_.
     Inr (value_new result)))))))"

definition intrinsic_cttz :: "nat \<Rightarrow> vexa_value \<Rightarrow> vexa_value res" where
  "intrinsic_cttz ty src = count_zeros ty src (\<lambda>bit_width. rev [0..<bit_width]) (\<lambda>bit_width i. i)"

definition intrinsic_ctlz :: "nat \<Rightarrow> vexa_value \<Rightarrow> vexa_value res" where
  "intrinsic_ctlz ty src =
     count_zeros ty src (\<lambda>bit_width. [0..<bit_width]) (\<lambda>bit_width i. bit_width - 1 - i)"

definition intrinsic_umax :: "nat \<Rightarrow> vexa_value \<Rightarrow> vexa_value \<Rightarrow> vexa_value res" where
  "intrinsic_umax ty src0 src1 =
     res_bind (v_size src0) (\<lambda>sz0.
     let bit_width = u8 sz0 in
     res_bind (v_size src1) (\<lambda>sz1.
     res_bind (vexa_assert ''src1->size() == bit_width'' (sz1 = bit_width)) (\<lambda>_.
     res_bind (v_uge src0 src1) (\<lambda>ge.
     res_bind (mk_term ITE [v_term ge, v_term src0, v_term src1] []) (\<lambda>result.
     res_bind (vexa_assert ''dst_bit_width == bit_width'' (u8 ty = bit_width)) (\<lambda>_.
     res_bind (term_bv_size result) (\<lambda>rw.
     res_bind (vexa_assert ''dst_bit_width == result.sort().bv_size()'' (u8 ty = rw)) (\<lambda>_.
     Inr (value_new result)))))))))"

definition intrinsic_usub_sat :: "nat \<Rightarrow> vexa_value \<Rightarrow> vexa_value \<Rightarrow> vexa_value res" where
  "intrinsic_usub_sat ty src0 src1 =
     res_bind (v_size src0) (\<lambda>sz0.
     res_bind (vexa_assert ''dst_bit_width == bit_width'' (u8 ty = u8 sz0)) (\<lambda>_.
     res_bind (mk_bv_value (u8 ty) 0) (\<lambda>zero.
     res_bind (v_sub src0 src1) (\<lambda>sub.
     res_bind (v_ult src0 src1) (\<lambda>lt.
     res_bind (mk_term ITE [v_term lt, zero, v_term sub] []) (\<lambda>result.
     res_bind (term_bv_size result) (\<lambda>rw.
     res_bind (vexa_assert ''dst_bit_width == result.sort().bv_size()'' (u8 ty = rw)) (\<lambda>_.
     Inr (value_new result)))))))))"

definition intrinsic_abs :: "nat \<Rightarrow> vexa_value \<Rightarrow> vexa_value res" where
  "intrinsic_abs ty src =
     res_bind (v_size src) (\<lambda>bit_width.
     res_bind (vexa_assert ''bit_width > 0'' (bit_width > 0)) (\<lambda>_.
     res_bind (vexa_assert ''dst_bit_width == bit_width'' (ty = bit_width)) (\<lambda>_.
     res_bind (mk_bv_value bit_width 0) (\<lambda>zero.
     res_bind (mk_term BV_SLT [v_term src, zero] []) (\<lambda>is_negative.
     res_bind (mk_term BV_SUB [zero, v_term src] []) (\<lambda>negated.
     res_bind (mk_term ITE [is_negative, negated, v_term src] []) (\<lambda>result.
     res_bind (term_bv_size result) (\<lambda>rw.
     res_bind (vexa_assert ''dst_bit_width == result.sort().bv_size()'' (ty = rw)) (\<lambda>_.
     Inr (value_new result))))))))))"

text \<open>The dispatcher reads the operands from the table of symbolic values.\<close>

datatype intrinsic_id =
    Ctpop | Fshl | Fshr | Bswap | Cttz | Ctlz | Umax | Usub_sat | Abs
  | Lifetime_start | Lifetime_end | Other_intrinsic string

definition operand :: "symex \<Rightarrow> llvm_value list \<Rightarrow> nat \<Rightarrow> vexa_value res" where
  "operand sx args i = sx_get (if i < length args then Some (args ! i) else None) sx"

definition handle_llvm_intrinsics ::
  "symex \<Rightarrow> intrinsic_id \<Rightarrow> nat \<Rightarrow> llvm_value list \<Rightarrow> vexa_value res" where
  "handle_llvm_intrinsics sx iid ty args =
     (case iid of
        Ctpop \<Rightarrow> res_bind (operand sx args 0) (intrinsic_ctpop ty)
      | Fshl \<Rightarrow>
          res_bind (operand sx args 0) (\<lambda>x. res_bind (operand sx args 1) (\<lambda>y.
          res_bind (operand sx args 2) (intrinsic_fshl ty x y)))
      | Fshr \<Rightarrow>
          res_bind (operand sx args 0) (\<lambda>x. res_bind (operand sx args 1) (\<lambda>y.
          res_bind (operand sx args 2) (intrinsic_fshr ty x y)))
      | Bswap \<Rightarrow> res_bind (operand sx args 0) (intrinsic_bswap ty)
      | Cttz \<Rightarrow> res_bind (operand sx args 0) (intrinsic_cttz ty)
      | Ctlz \<Rightarrow> res_bind (operand sx args 0) (intrinsic_ctlz ty)
      | Umax \<Rightarrow>
          res_bind (operand sx args 0) (\<lambda>x. res_bind (operand sx args 1) (intrinsic_umax ty x))
      | Usub_sat \<Rightarrow>
          res_bind (operand sx args 0) (\<lambda>x. res_bind (operand sx args 1) (intrinsic_usub_sat ty x))
      | Abs \<Rightarrow> res_bind (operand sx args 0) (intrinsic_abs ty)
      | Lifetime_start \<Rightarrow> sx_concrete 0 64
      | Lifetime_end \<Rightarrow> sx_concrete 0 64
      | Other_intrinsic name \<Rightarrow> Inl (Throw (''CallInst: unimplemented llvm intrinsic -> '' @ name)))"

section \<open>Terms that are built\<close>

text \<open>A term of a sort, with its value under every assignment.\<close>

definition term_is :: "bw_term \<Rightarrow> nat \<Rightarrow> (assignment \<Rightarrow> int) \<Rightarrow> bool" where
  "term_is t w f \<longleftrightarrow> sort_of t = Some (BvSort w) \<and> (\<forall>env. eval env t = f env)"

lemma term_is_val: "bv_val w v \<Longrightarrow> term_is (v_term v) w (\<lambda>env. den env v)"
  by (simp add: term_is_def bv_val_def den_def)

lemma term_is_size: "term_is t w f \<Longrightarrow> term_bv_size t = Inr w"
  by (simp add: term_is_def term_bv_size_def)

lemma term_is_fits: "term_is t w f \<Longrightarrow> fits w (f env)"
  by (metis eval_fits term_is_def)

lemma term_is_new: "term_is t w f \<Longrightarrow> bv_val w (value_new t) \<and> (\<forall>env. den env (value_new t) = f env)"
  by (simp add: term_is_def)

lemma mk_bv_value_is:
  "0 < w \<Longrightarrow> fits w n \<Longrightarrow> \<exists>t. mk_bv_value w n = Inr t \<and> term_is t w (\<lambda>env. n)"
  by (simp add: mk_bv_value_def term_is_def)

lemma mk_binary_is:
  assumes "k \<in> set bv_binary_kinds" and "term_is a w f" and "term_is b w g"
  shows "\<exists>t. mk_term k [a, b] [] = Inr t \<and> term_is t w (\<lambda>env. app_sem k [] [w, w] [f env, g env])"
  using assms sort_bv_binary [of k a w b] by (simp add: term_is_def mk_term_Inr)

lemma mk_concat_is:
  assumes "term_is a m f" and "term_is b n g"
  shows "\<exists>t. mk_term BV_CONCAT [a, b] [] = Inr t \<and> term_is t (m + n) (\<lambda>env. push_bit n (f env) OR g env)"
  using assms sort_concat [of a m b n] by (simp add: term_is_def mk_term_Inr app_sem_def)

lemma mk_extract_is:
  assumes "term_is a n f" and "l \<le> h" and "h < n"
  shows "\<exists>t. mk_term BV_EXTRACT [a] [h, l] = Inr t \<and>
    term_is t (h - l + 1) (\<lambda>env. take_bit (h - l + 1) (drop_bit l (f env)))"
  using assms sort_extract [of a n l h] by (simp add: term_is_def mk_term_Inr app_sem_def)

lemma mk_zext_is:
  assumes "term_is a n f"
  shows "\<exists>t. mk_term BV_ZERO_EXTEND [a] [e] = Inr t \<and> term_is t (n + e) f"
  using assms sort_extend [of BV_ZERO_EXTEND a n e] by (simp add: term_is_def mk_term_Inr app_sem_def)

lemma mk_ite_is:
  assumes "sort_of c = Some BoolSort" and "\<And>env. eval env c = of_bool (P env)"
    and "term_is a w f" and "term_is b w g"
  shows "\<exists>t. mk_term ITE [c, a, b] [] = Inr t \<and> term_is t w (\<lambda>env. if P env then f env else g env)"
  using assms sort_ite [of c a "BvSort w" b] by (simp add: term_is_def mk_term_Inr app_sem_def)

lemma v_extract_is:
  assumes "bv_val n v" and "l \<le> h" and "h < n"
  shows "\<exists>r. v_extract h l v = Inr r \<and>
    term_is (v_term r) (h - l + 1) (\<lambda>env. take_bit (h - l + 1) (drop_bit l (den env v)))"
  using v_extract_ok [OF assms] by (auto simp: term_is_def bv_val_def den_def)

lemma res_fold_term_is:
  assumes "\<And>i t f. i \<in> set ks \<Longrightarrow> term_is t w f \<Longrightarrow>
      \<exists>t'. F i t = Inr t' \<and> term_is t' w (\<lambda>env. G i env (f env))"
    and "term_is t w f"
  shows "\<exists>t'. res_fold F ks t = Inr t' \<and> term_is t' w (\<lambda>env. fold (\<lambda>i. G i env) ks (f env))"
  using assms
proof (induction ks arbitrary: t f)
  case (Cons i ks)
  obtain t1 where t1: "F i t = Inr t1" "term_is t1 w (\<lambda>env. G i env (f env))"
    using Cons.prems(1) [of i, OF _ Cons.prems(2)] by auto
  have "\<exists>t'. res_fold F ks t1 = Inr t' \<and>
      term_is t' w (\<lambda>env. fold (\<lambda>i. G i env) ks (G i env (f env)))"
    using Cons.prems(1) by (intro Cons.IH [OF _ t1(2)]) simp
  then show ?case using t1(1) by simp
qed auto

section \<open>Counting bits\<close>

definition popcount :: "nat \<Rightarrow> int \<Rightarrow> nat" where
  "popcount w x = length (filter (bit x) [0..<w])"

definition trailing_zeros :: "nat \<Rightarrow> int \<Rightarrow> nat" where
  "trailing_zeros w x = length (takeWhile (\<lambda>i. \<not> bit x i) [0..<w])"

definition leading_zeros :: "nat \<Rightarrow> int \<Rightarrow> nat" where
  "leading_zeros w x = length (takeWhile (\<lambda>i. \<not> bit x i) (rev [0..<w]))"

lemma one_bit: "drop_bit i x mod 2 = (of_bool (bit x i) :: int)"
  by (simp add: bit_iff_odd_drop_bit mod_2_eq_odd)

lemma fits_int: "n < 2 ^ w \<Longrightarrow> fits w (int n)"
  unfolding fits_iff by simp

lemma zext_bit_is:
  assumes "bv_val w src" and "i < w" and "0 < dst"
  shows "\<exists>t. zext_bit dst src i = Inr t \<and> term_is t dst (\<lambda>env. of_bool (bit (den env src) i))"
proof -
  obtain b where b: "v_extract i i src = Inr b"
      "term_is (v_term b) 1 (\<lambda>env. of_bool (bit (den env src) i))"
    using v_extract_is [OF assms(1) order_refl assms(2)] by (auto simp: one_bit)
  then show ?thesis
    using mk_zext_is [OF b(2), of "dst - 1"] assms(3) by (simp add: zext_bit_def)
qed

lemma select_bit_is:
  assumes "bv_val w src" and "i < w" and "0 < dst" and "fits dst (int n)" and "term_is t dst f"
  shows "\<exists>t'. select_bit dst src i n t = Inr t' \<and>
    term_is t' dst (\<lambda>env. if bit (den env src) i then int n else f env)"
proof -
  obtain b where b: "v_extract i i src = Inr b"
      "term_is (v_term b) 1 (\<lambda>env. of_bool (bit (den env src) i))"
    using v_extract_is [OF assms(1) order_refl assms(2)] by (auto simp: one_bit)
  obtain c where c: "mk_bv_value dst (int n) = Inr c" "term_is c dst (\<lambda>env. int n)"
    using mk_bv_value_is [OF assms(3,4)] by blast
  have "sort_of (BwApp EQUAL [v_term b, BwBv 1 1] []) = Some BoolSort"
    using b(2) by (intro sort_equal [of _ _ "BvSort 1"]) (simp_all add: term_is_def)
  moreover have "eval env (BwApp EQUAL [v_term b, BwBv 1 1] []) = of_bool (bit (den env src) i)" for env
    using b(2) by (simp add: term_is_def app_sem_def)
  ultimately show ?thesis
    using mk_ite_is [of "BwApp EQUAL [v_term b, BwBv 1 1] []", OF _ _ c(2) assms(5)] b(1) c(1)
    by (simp add: select_bit_def mk_term_Inr)
qed

lemma fold_add_bits:
  "k + n < 2 ^ w \<Longrightarrow>
   fold (\<lambda>i x. take_bit w (x + of_bool (P i))) [j..<j + n] (int k) = int (k + length (filter P [j..<j + n]))"
proof (induction n arbitrary: j k)
  case (Suc n)
  have "take_bit w (int k + of_bool (P j)) = int (k + of_bool (P j))"
    using fits_int [of "k + of_bool (P j)" w] Suc.prems by (cases "P j") (simp_all add: algebra_simps)
  moreover have "[j..<j + Suc n] = j # [Suc j..<Suc j + n]" by (simp add: upt_conv_Cons)
  moreover have "(k + of_bool (P j)) + n < 2 ^ w" using Suc.prems by (cases "P j") simp_all
  ultimately show ?case
    using Suc.IH [of "k + of_bool (P j)" "Suc j"] by simp
qed simp

lemma fold_trailing:
  "j \<le> w \<Longrightarrow> fold (\<lambda>i r. if bit x i then int i else r) (rev [j..<w]) (int w)
     = int (j + length (takeWhile (\<lambda>i. \<not> bit x i) [j..<w]))"
proof (induction "w - j" arbitrary: j)
  case (Suc d)
  then have "[j..<w] = j # [Suc j..<w]" by (simp add: upt_conv_Cons)
  then show ?case using Suc.hyps(1) [of "Suc j"] Suc.hyps(2) by simp
qed simp

lemma fold_leading:
  "n \<le> w \<Longrightarrow> fold (\<lambda>i r. if bit x i then int (w - 1 - i) else r) [0..<n] (int w)
     = int (w - n + length (takeWhile (\<lambda>i. \<not> bit x i) (rev [0..<n])))"
  by (induction n) auto

lemma ctpop_ok:
  assumes src: "bv_val w src" and w: "w < 256"
  shows "\<exists>r. intrinsic_ctpop w src = Inr r \<and> bv_val w r \<and>
    (\<forall>env. den env r = int (popcount w (den env src)))"
proof -
  let ?F = "\<lambda>i total. res_bind (zext_bit w src i) (\<lambda>b. mk_term BV_ADD [total, b] [])"
  have pos: "0 < w" using bv_val_pos [OF src] .
  obtain t0 where t0: "zext_bit w src 0 = Inr t0" "term_is t0 w (\<lambda>env. of_bool (bit (den env src) 0))"
    using zext_bit_is [OF src pos pos] by blast
  have step: "\<exists>t'. ?F i t = Inr t' \<and>
      term_is t' w (\<lambda>env. take_bit w (f env + of_bool (bit (den env src) i)))"
    if i: "i \<in> set [1..<w]" and t: "term_is t w f" for i t f
  proof -
    obtain b where "zext_bit w src i = Inr b" "term_is b w (\<lambda>env. of_bool (bit (den env src) i))"
      using zext_bit_is [OF src _ pos, of i] i by auto
    then show ?thesis using mk_binary_is [OF _ t, of BV_ADD b] by (simp add: kind_defs app_sem_def)
  qed
  obtain t where t: "res_fold ?F [1..<w] t0 = Inr t" "term_is t w (\<lambda>env.
      fold (\<lambda>i x. take_bit w (x + of_bool (bit (den env src) i))) [1..<w] (of_bool (bit (den env src) 0)))"
    using res_fold_term_is [where F = ?F and w = w and ks = "[1..<w]" and t = t0 and
        G = "\<lambda>i env x. take_bit w (x + of_bool (bit (den env src) i))", OF step t0(2)] by blast
  have "fold (\<lambda>i x. take_bit w (x + of_bool (bit (den env src) i))) [1..<w] (of_bool (bit (den env src) 0))
      = int (popcount w (den env src))" for env
  proof -
    have "of_bool (bit (den env src) 0) + (w - 1) < 2 ^ w"
      using pos le_less_trans [OF _ less_exp [of w]] by (cases "bit (den env src) 0") auto
    from fold_add_bits [OF this, of "bit (den env src)" 1] pos show ?thesis
      by (simp add: popcount_def upt_conv_Cons [OF pos])
  qed
  then have "term_is t w (\<lambda>env. int (popcount w (den env src)))" using t(2) by simp
  then show ?thesis
    using t0(1) t(1) src w pos by (simp add: intrinsic_ctpop_def term_is_def)
qed

lemma count_zeros_ok:
  assumes src: "bv_val w src" and w: "w < 256"
    and ord: "\<forall>i \<in> set (order w). i < w" and ans: "\<forall>i \<in> set (order w). answer w i < w"
  shows "\<exists>r. count_zeros w src order answer = Inr r \<and> bv_val w r \<and>
    (\<forall>env. den env r = fold (\<lambda>i r. if bit (den env src) i then int (answer w i) else r) (order w) (int w))"
proof -
  have pos: "0 < w" using bv_val_pos [OF src] .
  obtain t0 where t0: "mk_bv_value w (int w) = Inr t0" "term_is t0 w (\<lambda>env. int w)"
    using mk_bv_value_is [OF pos fits_int [OF less_exp]] by blast
  have step: "\<exists>t'. select_bit w src i (answer w i) t = Inr t' \<and>
      term_is t' w (\<lambda>env. if bit (den env src) i then int (answer w i) else f env)"
    if "i \<in> set (order w)" and "term_is t w f" for i t f
    using that ord ans less_trans [OF _ less_exp [of w]]
    by (intro select_bit_is [OF src _ pos fits_int]) auto
  obtain t where
    t: "res_fold (\<lambda>i. select_bit w src i (answer w i)) (order w) t0 = Inr t"
      "term_is t w (\<lambda>env. fold (\<lambda>i r. if bit (den env src) i then int (answer w i) else r) (order w) (int w))"
    using res_fold_term_is [where F = "\<lambda>i. select_bit w src i (answer w i)" and w = w and t = t0 and
        ks = "order w" and G = "\<lambda>i env x. if bit (den env src) i then int (answer w i) else x",
        OF step t0(2)] by blast
  then show ?thesis
    using t0 src w pos term_is_size [OF t(2)] by (simp add: count_zeros_def term_is_def)
qed

lemma cttz_ok:
  assumes src: "bv_val w src" and w: "w < 256"
  shows "\<exists>r. intrinsic_cttz w src = Inr r \<and> bv_val w r \<and>
    (\<forall>env. den env r = int (trailing_zeros w (den env src)))"
  using count_zeros_ok [OF assms, of "\<lambda>b. rev [0..<b]" "\<lambda>b i. i"]
  by (simp add: intrinsic_cttz_def trailing_zeros_def fold_trailing [of 0, simplified])

lemma ctlz_ok:
  assumes src: "bv_val w src" and w: "w < 256"
  shows "\<exists>r. intrinsic_ctlz w src = Inr r \<and> bv_val w r \<and>
    (\<forall>env. den env r = int (leading_zeros w (den env src)))"
  using count_zeros_ok [OF assms, of "\<lambda>b. [0..<b]" "\<lambda>b i. b - 1 - i"] bv_val_pos [OF src]
  by (simp add: intrinsic_ctlz_def leading_zeros_def fold_leading [of w w, simplified])

text \<open>\<open>ctpop\<close>, \<open>cttz\<close> and \<open>ctlz\<close> of a value of fewer than 256 bits never fail and count the
  bits that are set, the zeros below the lowest set bit and the zeros above the highest one; the
  last two answer the width for zero.\<close>

theorem bit_counting_intrinsics:
  assumes src: "bv_val w src" and w: "w < 256"
  shows "(\<exists>r. intrinsic_ctpop w src = Inr r \<and> bv_val w r \<and> (\<forall>env. den env r = int (popcount w (den env src)))) \<and>
    (\<exists>r. intrinsic_cttz w src = Inr r \<and> bv_val w r \<and> (\<forall>env. den env r = int (trailing_zeros w (den env src)))) \<and>
    (\<exists>r. intrinsic_ctlz w src = Inr r \<and> bv_val w r \<and> (\<forall>env. den env r = int (leading_zeros w (den env src))))"
  using ctpop_ok [OF assms] cttz_ok [OF assms] ctlz_ok [OF assms] by blast

theorem bit_counting_intrinsics_witness:
  "\<exists>r. intrinsic_cttz 8 (value_new (BwBv 8 40)) = Inr r \<and> (\<forall>env. den env r = 3)"
  using bit_counting_intrinsics [of 8 "value_new (BwBv 8 40)"]
  by (auto simp: trailing_zeros_def upt_rec bit_iff_odd_drop_bit)

section \<open>Funnel shifts and byte swaps\<close>

text \<open>The language reference: the two operands are put side by side, the first one on top, shifted
  by the third one modulo the width, and the upper or lower half is the result.\<close>

definition funnel_left :: "nat \<Rightarrow> int \<Rightarrow> int \<Rightarrow> nat \<Rightarrow> int" where
  "funnel_left w x y k = take_bit w (push_bit k x) OR drop_bit (w - k) y"

definition funnel_right :: "nat \<Rightarrow> int \<Rightarrow> int \<Rightarrow> nat \<Rightarrow> int" where
  "funnel_right w x y k = take_bit w (push_bit (w - k) x) OR drop_bit k y"

lemma funnel_left_wide:
  assumes "fits w y" and "k < w"
  shows "take_bit w (drop_bit w (take_bit (2 * w) (push_bit k (push_bit w x OR y)))) = funnel_left w x y k"
proof (rule bit_eqI)
  fix n
  have "bit y i \<Longrightarrow> i < w" for i using fits_bit_lt [OF assms(1)] .
  with assms(2) show "bit (take_bit w (drop_bit w (take_bit (2 * w) (push_bit k (push_bit w x OR y))))) n =
      bit (funnel_left w x y k) n"
    by (auto simp: funnel_left_def bit_simps algebra_simps) (fastforce)+
qed

lemma funnel_right_wide:
  assumes "fits w y" and "k < w"
  shows "take_bit w (drop_bit k (push_bit w x OR y)) = funnel_right w x y k"
proof (rule bit_eqI)
  fix n
  have "bit y i \<Longrightarrow> i < w" for i using fits_bit_lt [OF assms(1)] .
  with assms(2) show "bit (take_bit w (drop_bit k (push_bit w x OR y))) n = bit (funnel_right w x y k) n"
    by (auto simp: funnel_right_def bit_simps algebra_simps) (fastforce)+
qed

lemma funnel_parts_is:
  assumes x: "bv_val w x" and y: "bv_val w y" and s: "bv_val w s" and k: "k \<in> {BV_SHL, BV_SHR}"
  shows "\<exists>t. funnel_parts w k x y s = Inr t \<and> term_is t (2 * w) (\<lambda>env.
    app_sem k [] [2 * w, 2 * w] [push_bit w (den env x) OR den env y, den env s mod int w])"
proof -
  have pos: "0 < w" using bv_val_pos [OF x] .
  obtain wt where wt: "mk_bv_value w (int w) = Inr wt" "term_is wt w (\<lambda>env. int w)"
    using mk_bv_value_is [OF pos fits_int [OF less_exp]] by blast
  obtain sm where sm: "mk_term BV_UREM [v_term s, wt] [] = Inr sm" "term_is sm w (\<lambda>env. den env s mod int w)"
    using mk_binary_is [OF _ term_is_val [OF s] wt(2), of BV_UREM] pos by (auto simp: kind_defs app_sem_def)
  obtain sw where sw: "mk_term BV_ZERO_EXTEND [sm] [w] = Inr sw" "term_is sw (2 * w) (\<lambda>env. den env s mod int w)"
    using mk_zext_is [OF sm(2), of w] by (auto simp: mult_2)
  obtain wd where wd: "mk_term BV_CONCAT [v_term x, v_term y] [] = Inr wd"
      "term_is wd (2 * w) (\<lambda>env. push_bit w (den env x) OR den env y)"
    using mk_concat_is [OF term_is_val [OF x] term_is_val [OF y]] by (auto simp: mult_2)
  have "k \<in> set bv_binary_kinds" using k by (auto simp: kind_defs)
  from mk_binary_is [OF this wd(2) sw(2)] show ?thesis
    using wt(1) sm(1) sw(1) wd(1) s
    by (simp add: funnel_parts_def bv_val_def term_bv_size_def)
qed

lemma mod_width:
  assumes "0 < w"
  shows "nat (den env s mod int w) < w"
  using assms by (simp add: nat_less_iff)

lemma app_sem_shl:
  "app_sem BV_SHL [] [w, w'] [a, b] = (if int w \<le> b then 0 else take_bit w (push_bit (nat b) a))"
  "app_sem BV_SHR [] [w, w'] [a, b] = (if int w \<le> b then 0 else drop_bit (nat b) a)"
  by (simp_all add: app_sem_def)

lemma mod_width_small:
  assumes "0 < w"
  shows "(int (2 * w) \<le> x mod int w) = False"
proof -
  have "x mod int w < int w" using assms by simp
  then show ?thesis by simp
qed

lemma fshl_ok:
  assumes x: "bv_val w x" and y: "bv_val w y" and s: "bv_val w s" and w: "w < 256"
  shows "\<exists>r. intrinsic_fshl w x y s = Inr r \<and> bv_val w r \<and>
    (\<forall>env. den env r = funnel_left w (den env x) (den env y) (nat (den env s mod int w)))"
proof -
  have pos: "0 < w" using bv_val_pos [OF x] .
  obtain t where t: "funnel_parts w BV_SHL x y s = Inr t" "term_is t (2 * w) (\<lambda>env.
      app_sem BV_SHL [] [2 * w, 2 * w] [push_bit w (den env x) OR den env y, den env s mod int w])"
    using funnel_parts_is [OF x y s, of BV_SHL] by auto
  have width: "2 * w - 1 - w + 1 = w" and bounds: "w \<le> 2 * w - 1" "2 * w - 1 < 2 * w" using pos by simp_all
  obtain r where r: "mk_term BV_EXTRACT [t] [2 * w - 1, w] = Inr r" "term_is r w (\<lambda>env. take_bit w (drop_bit w
      (app_sem BV_SHL [] [2 * w, 2 * w] [push_bit w (den env x) OR den env y, den env s mod int w])))"
    using mk_extract_is [OF t(2) bounds] unfolding width by auto
  have "take_bit w (drop_bit w (app_sem BV_SHL [] [2 * w, 2 * w]
        [push_bit w (den env x) OR den env y, den env s mod int w])) =
      funnel_left w (den env x) (den env y) (nat (den env s mod int w))" for env
    by (simp only: app_sem_shl mod_width_small [OF pos] if_False
        funnel_left_wide [OF den_fits [OF y] mod_width [OF pos]])
  with r(2) have "term_is r w (\<lambda>env. funnel_left w (den env x) (den env y) (nat (den env s mod int w)))"
    by simp
  then show ?thesis
    using t(1) r(1) x w term_is_size [OF r(2)] by (simp add: intrinsic_fshl_def term_is_def)
qed

lemma fshr_ok:
  assumes x: "bv_val w x" and y: "bv_val w y" and s: "bv_val w s" and w: "w < 256"
  shows "\<exists>r. intrinsic_fshr w x y s = Inr r \<and> bv_val w r \<and>
    (\<forall>env. den env r = funnel_right w (den env x) (den env y) (nat (den env s mod int w)))"
proof -
  have pos: "0 < w" using bv_val_pos [OF x] .
  obtain t where t: "funnel_parts w BV_SHR x y s = Inr t" "term_is t (2 * w) (\<lambda>env.
      app_sem BV_SHR [] [2 * w, 2 * w] [push_bit w (den env x) OR den env y, den env s mod int w])"
    using funnel_parts_is [OF x y s, of BV_SHR] by auto
  have width: "w - 1 - 0 + 1 = w" and bounds: "0 \<le> w - 1" "w - 1 < 2 * w" using pos by simp_all
  obtain r where r: "mk_term BV_EXTRACT [t] [w - 1, 0] = Inr r" "term_is r w (\<lambda>env. take_bit w (drop_bit 0
      (app_sem BV_SHR [] [2 * w, 2 * w] [push_bit w (den env x) OR den env y, den env s mod int w])))"
    using mk_extract_is [OF t(2) bounds] unfolding width by auto
  have "take_bit w (drop_bit 0 (app_sem BV_SHR [] [2 * w, 2 * w]
        [push_bit w (den env x) OR den env y, den env s mod int w])) =
      funnel_right w (den env x) (den env y) (nat (den env s mod int w))" for env
    by (simp only: app_sem_shl mod_width_small [OF pos] if_False drop_bit_0 id_apply
        funnel_right_wide [OF den_fits [OF y] mod_width [OF pos]])
  with r(2) have "term_is r w (\<lambda>env. funnel_right w (den env x) (den env y) (nat (den env s mod int w)))"
    by simp
  then show ?thesis
    using t(1) r(1) x w term_is_size [OF r(2)] by (simp add: intrinsic_fshr_def term_is_def)
qed

text \<open>\<open>fshl\<close> and \<open>fshr\<close> of values of fewer than 256 bits never fail and are the funnel shifts
  of the language reference, with the amount taken modulo the width.\<close>

theorem funnel_shift_intrinsics:
  assumes "bv_val w x" and "bv_val w y" and "bv_val w s" and "w < 256"
  shows "(\<exists>r. intrinsic_fshl w x y s = Inr r \<and> bv_val w r \<and>
      (\<forall>env. den env r = funnel_left w (den env x) (den env y) (nat (den env s mod int w)))) \<and>
    (\<exists>r. intrinsic_fshr w x y s = Inr r \<and> bv_val w r \<and>
      (\<forall>env. den env r = funnel_right w (den env x) (den env y) (nat (den env s mod int w))))"
  using fshl_ok [OF assms] fshr_ok [OF assms] by blast

theorem funnel_shift_intrinsics_witness:
  "\<exists>r. intrinsic_fshl 8 (value_new (BwBv 8 129)) (value_new (BwBv 8 129)) (value_new (BwBv 8 9)) = Inr r \<and>
     (\<forall>env. den env r = 3)"
  using funnel_shift_intrinsics [of 8 "value_new (BwBv 8 129)" "value_new (BwBv 8 129)" "value_new (BwBv 8 9)"]
  by (auto simp: funnel_left_def push_bit_eq_mult drop_bit_eq_div take_bit_eq_mod)

lemma bswap_loop:
  assumes src: "bv_val (8 * n) src" and k: "0 < k" "k + m \<le> n" and t: "term_is t (8 * k) f"
  shows "\<exists>t'. res_fold (\<lambda>i result. res_bind (v_extract (8 * i + 7) (8 * i) src) (\<lambda>next_byte.
        mk_term BV_CONCAT [result, v_term next_byte] [])) [k..<k + m] t = Inr t' \<and>
    term_is t' (8 * (k + m)) (\<lambda>env. fold (\<lambda>i r. push_bit 8 r OR uint (le_bytes n (den env src) ! i))
      [k..<k + m] (f env))"
  using k t
proof (induction m arbitrary: k t f)
  case (Suc m)
  have w8: "8 * k + 7 - 8 * k + 1 = (8 :: nat)" by simp
  have "8 * k \<le> 8 * k + 7" "8 * k + 7 < 8 * n" using Suc.prems by simp_all
  from v_extract_is [OF src this] obtain b where b: "v_extract (8 * k + 7) (8 * k) src = Inr b"
      "term_is (v_term b) 8 (\<lambda>env. take_bit 8 (drop_bit (8 * k) (den env src)))"
    unfolding w8 by blast
  have "k < n" using Suc.prems by simp
  then have byte: "take_bit 8 (drop_bit (8 * k) (den env src)) = uint (le_bytes n (den env src) ! k)" for env
    by (simp add: nth_le_bytes)
  obtain t1 where t1: "mk_term BV_CONCAT [t, v_term b] [] = Inr t1"
      "term_is t1 (8 * Suc k) (\<lambda>env. push_bit 8 (f env) OR uint (le_bytes n (den env src) ! k))"
    using mk_concat_is [OF Suc.prems(3) b(2)] by (auto simp: byte add.commute)
  have "[k..<k + Suc m] = k # [Suc k..<Suc k + m]" by (simp add: upt_conv_Cons)
  then show ?case
    using Suc.IH [OF _ _ t1(2)] Suc.prems b(1) t1(1) by simp
qed simp

lemma fold_push_bytes:
  "fold (\<lambda>b r. push_bit 8 r OR uint b) bs (le_val cs) = le_val (rev bs @ cs)"
proof (induction bs arbitrary: cs)
  case (Cons b bs)
  have "fold (\<lambda>b r. push_bit 8 r OR uint b) (b # bs) (le_val cs)
      = fold (\<lambda>b r. push_bit 8 r OR uint b) bs (le_val (b # cs))" by simp
  then show ?case unfolding Cons.IH by simp
qed simp

text \<open>\<open>bswap\<close> of a value of up to 31 bytes never fails and reverses the bytes.\<close>

theorem bswap_intrinsic:
  assumes src: "bv_val (8 * n) src" and n: "n < 32"
  shows "\<exists>r. intrinsic_bswap (8 * n) src = Inr r \<and> bv_val (8 * n) r \<and>
    (\<forall>env. le_bytes n (den env r) = rev (le_bytes n (den env src)))"
proof -
  have pos: "0 < n" using bv_val_pos [OF src] by simp
  obtain b where b: "v_extract 7 0 src = Inr b" "term_is (v_term b) 8 (\<lambda>env. take_bit 8 (den env src))"
    using v_extract_is [OF src, of 0 7] pos by auto
  let ?F = "\<lambda>env i r. push_bit 8 r OR uint (le_bytes n (den env src) ! i)"
  have n1: "1 + (n - 1) = n" using pos by simp
  obtain t where t: "res_fold (\<lambda>i result. res_bind (v_extract (8 * i + 7) (8 * i) src) (\<lambda>next_byte.
        mk_term BV_CONCAT [result, v_term next_byte] [])) [1..<n] (v_term b) = Inr t"
      "term_is t (8 * n) (\<lambda>env. fold (?F env) [1..<n] (take_bit 8 (den env src)))"
    using bswap_loop [OF src, of 1 "n - 1" "v_term b"] b(2) n1 by auto
  have val: "fold (?F env) [1..<n] (take_bit 8 (den env src)) = le_val (rev (le_bytes n (den env src)))" for env
  proof -
    let ?bs = "le_bytes n (den env src)"
    obtain k where k: "n = Suc k" using pos by (cases n) auto
    have tl: "map ((!) ?bs) [1..<n] = tl ?bs"
      by (intro nth_equalityI) (simp_all add: nth_tl del: le_bytes.simps upt_Suc)
    have "fold (?F env) [1..<n] x = fold (\<lambda>b r. push_bit 8 r OR uint b) (tl ?bs) x" for x
      unfolding tl [symmetric] fold_map by (simp add: comp_def)
    moreover have "take_bit 8 (den env src) = le_val [hd ?bs]" by (simp add: k)
    ultimately show ?thesis using fold_push_bytes [of "tl ?bs" "[hd ?bs]"] by (simp add: k)
  qed
  have "term_is t (8 * n) (\<lambda>env. le_val (rev (le_bytes n (den env src))))" using t(2) unfolding val .
  moreover have "[Suc 0..<8 * n div 8] = [1..<n]" "u8 (8 * n) = 8 * n" using n by simp_all
  ultimately show ?thesis
    using b(1) t(1) src term_is_size [OF t(2)]
    by (simp add: intrinsic_bswap_def term_is_def le_bytes_le_val)
qed

theorem bswap_intrinsic_witness:
  "\<exists>r. intrinsic_bswap (8 * 2) (value_new (BwConst 0 ''x'' 16)) = Inr r \<and>
     (\<forall>env. le_bytes 2 (den env r) = rev (le_bytes 2 (take_bit 16 (env 0))))"
  using bswap_intrinsic [of 2 "value_new (BwConst 0 ''x'' 16)"] by auto

section \<open>Maximum, saturating subtraction and absolute value\<close>

lemma compare_is:
  assumes "k \<in> set bv_compare_kinds" and "term_is a w f" and "term_is b w g"
  shows "\<exists>t. mk_term k [a, b] [] = Inr t \<and> sort_of t = Some BoolSort \<and>
    (\<forall>env. eval env t = app_sem k [] [w, w] [f env, g env])"
  using assms sort_bv_compare [of k a w b] by (simp add: term_is_def mk_term_Inr)

lemma umax_ok:
  assumes x: "bv_val w x" and y: "bv_val w y" and w: "w < 256"
  shows "\<exists>r. intrinsic_umax w x y = Inr r \<and> bv_val w r \<and> (\<forall>env. den env r = max (den env x) (den env y))"
proof -
  obtain c where c: "v_uge x y = Inr (value_new c)" "sort_of c = Some BoolSort"
      "\<And>env. eval env c = of_bool (den env y \<le> den env x)"
    using compare_is [of BV_UGE, OF _ term_is_val [OF x] term_is_val [OF y]]
    by (auto simp: v_uge_def v_binary_def kind_defs app_sem_def)
  obtain t where t: "mk_term ITE [c, v_term x, v_term y] [] = Inr t"
      "term_is t w (\<lambda>env. if den env y \<le> den env x then den env x else den env y)"
    using mk_ite_is [OF c(2,3) term_is_val [OF x] term_is_val [OF y]] by blast
  show ?thesis
    using x y w c(1) t term_is_size [OF t(2)]
    by (auto simp: intrinsic_umax_def term_is_def max_def)
qed

lemma usub_sat_ok:
  assumes x: "bv_val w x" and y: "bv_val w y" and w: "w < 256"
  shows "\<exists>r. intrinsic_usub_sat w x y = Inr r \<and> bv_val w r \<and>
    (\<forall>env. den env r = max 0 (den env x - den env y))"
proof -
  have pos: "0 < w" using bv_val_pos [OF x] .
  obtain z where z: "mk_bv_value w 0 = Inr z" "term_is z w (\<lambda>env. 0)"
    using mk_bv_value_is [OF pos, of 0] by auto
  obtain d where d: "v_sub x y = Inr (value_new d)" "term_is d w (\<lambda>env. take_bit w (den env x - den env y))"
    using mk_binary_is [of BV_SUB, OF _ term_is_val [OF x] term_is_val [OF y]]
    by (auto simp: v_sub_def v_binary_def kind_defs app_sem_def)
  obtain c where c: "v_ult x y = Inr (value_new c)" "sort_of c = Some BoolSort"
      "\<And>env. eval env c = of_bool (den env x < den env y)"
    using compare_is [of BV_ULT, OF _ term_is_val [OF x] term_is_val [OF y]]
    by (auto simp: v_ult_def v_binary_def kind_defs app_sem_def)
  obtain t where t: "mk_term ITE [c, z, d] [] = Inr t"
      "term_is t w (\<lambda>env. if den env x < den env y then 0 else take_bit w (den env x - den env y))"
    using mk_ite_is [OF c(2,3) z(2) d(2)] by blast
  have "(if den env x < den env y then 0 else take_bit w (den env x - den env y)) = max 0 (den env x - den env y)"
    for env
  proof -
    have "fits w (den env x - den env y)" if "\<not> den env x < den env y"
      using den_bounds [OF x, of env] den_bounds [OF y, of env] that unfolding fits_iff by linarith
    then show ?thesis by (simp add: max_def)
  qed
  with t(2) have "term_is t w (\<lambda>env. max 0 (den env x - den env y))" by simp
  then show ?thesis
    using x y w z(1) d(1) c(1) t(1) term_is_size [OF t(2)] by (simp add: intrinsic_usub_sat_def term_is_def)
qed

lemma abs_ok:
  assumes x: "bv_val w x"
  shows "\<exists>r. intrinsic_abs w x = Inr r \<and> bv_val w r \<and>
    (\<forall>env. den env r = take_bit w \<bar>to_signed w (den env x)\<bar>)"
proof -
  have pos: "0 < w" using bv_val_pos [OF x] .
  obtain z where z: "mk_bv_value w 0 = Inr z" "term_is z w (\<lambda>env. 0)"
    using mk_bv_value_is [OF pos, of 0] by auto
  obtain c where c: "mk_term BV_SLT [v_term x, z] [] = Inr c" "sort_of c = Some BoolSort"
      "\<And>env. eval env c = of_bool (to_signed w (den env x) < 0)"
    using compare_is [of BV_SLT, OF _ term_is_val [OF x] z(2)]
    by (auto simp: kind_defs app_sem_def to_signed_def)
  obtain d where d: "mk_term BV_SUB [z, v_term x] [] = Inr d" "term_is d w (\<lambda>env. take_bit w (0 - den env x))"
    using mk_binary_is [of BV_SUB, OF _ z(2) term_is_val [OF x]] by (auto simp: kind_defs app_sem_def)
  obtain t where t: "mk_term ITE [c, d, v_term x] [] = Inr t"
      "term_is t w (\<lambda>env. if to_signed w (den env x) < 0 then take_bit w (0 - den env x) else den env x)"
    using mk_ite_is [OF c(2,3) d(2) term_is_val [OF x]] by blast
  have signed: "take_bit w (to_signed w v) = take_bit w v" for v
    using pos by (simp add: to_signed_def take_bit_signed_take_bit)
  have "(if to_signed w (den env x) < 0 then take_bit w (0 - den env x) else den env x)
      = take_bit w \<bar>to_signed w (den env x)\<bar>" for env
    using signed [of "den env x"] take_bit_minus [of w "to_signed w (den env x)"]
      take_bit_minus [of w "den env x"] x by (auto simp: abs_if)
  with t(2) have "term_is t w (\<lambda>env. take_bit w \<bar>to_signed w (den env x)\<bar>)" by simp
  then show ?thesis
    using x z(1) d(1) c(1) t(1) pos term_is_size [OF t(2)] by (simp add: intrinsic_abs_def term_is_def)
qed

text \<open>\<open>umax\<close> is the unsigned maximum, \<open>usub_sat\<close> stops at zero, and \<open>abs\<close> is the absolute value
  of the signed reading, which wraps for the smallest number; none of them fails.\<close>

theorem minmax_intrinsics:
  assumes "bv_val w x" and "bv_val w y" and "w < 256"
  shows "(\<exists>r. intrinsic_umax w x y = Inr r \<and> bv_val w r \<and> (\<forall>env. den env r = max (den env x) (den env y))) \<and>
    (\<exists>r. intrinsic_usub_sat w x y = Inr r \<and> bv_val w r \<and> (\<forall>env. den env r = max 0 (den env x - den env y))) \<and>
    (\<exists>r. intrinsic_abs w x = Inr r \<and> bv_val w r \<and>
      (\<forall>env. den env r = take_bit w \<bar>to_signed w (den env x)\<bar>))"
  using umax_ok [OF assms] usub_sat_ok [OF assms] abs_ok [OF assms(1)] by blast

theorem minmax_intrinsics_witness:
  "\<exists>r. intrinsic_usub_sat 8 (value_new (BwBv 8 5)) (value_new (BwBv 8 9)) = Inr r \<and> (\<forall>env. den env r = 0)"
  using minmax_intrinsics [of 8 "value_new (BwBv 8 5)" "value_new (BwBv 8 9)"] by auto

end
