(* ===== verification/Context.thy ===== *)
theory Context
  imports Vexa_Prelude
begin

text \<open>
  The options of \<open>vexa::context\<close> (context.hpp, context.cpp) with their defaults, and the kinds of
  events that callbacks are registered for.
\<close>

datatype option_kind =
    CONCRETIZE_RDTSC | FORK_AT_CMOVS | OPAQUE_SOLVING | MODE | CFG_JOIN_POLICY | STATE_CLEANUP
  | CONSTANT_PROPAGATION | LOOP_REROLL | OPTION_COUNT

datatype event_kind =
    CONDITIONAL_TAKEN | CONDITIONAL_FALLTHROUGH | PATH_FORKING | DIRECT_JUMP | INDIRECT_JUMP
  | INSTRUCTION_LIFT

text \<open>The enumerators of \<open>mode_t\<close> and \<open>cfg_join_policy_t\<close> are integers.\<close>

definition SYMBOLIC_EXPLORATION :: int where "SYMBOLIC_EXPLORATION = 0"
definition CFG_RECOVERY :: int where "CFG_RECOVERY = 1"
definition VCFG_RECOVERY :: int where "VCFG_RECOVERY = 2"
definition MERGE_BY_PC :: int where "MERGE_BY_PC = 0"
definition SPECIALIZE_BY_PATH :: int where "SPECIALIZE_BY_PATH = 1"

lemmas mode_defs = SYMBOLIC_EXPLORATION_def CFG_RECOVERY_def VCFG_RECOVERY_def MERGE_BY_PC_def
  SPECIALIZE_BY_PATH_def

type_synonym options = "option_kind \<rightharpoonup> int"

definition default_options :: options where
  "default_options =
     [CONCRETIZE_RDTSC \<mapsto> 1, FORK_AT_CMOVS \<mapsto> 1, OPAQUE_SOLVING \<mapsto> 1, CFG_JOIN_POLICY \<mapsto> 0,
      MODE \<mapsto> 0, STATE_CLEANUP \<mapsto> 1, CONSTANT_PROPAGATION \<mapsto> 1, LOOP_REROLL \<mapsto> 0]"

text \<open>The order of the enumerators, which \<open>opt < option::COUNT\<close> compares.\<close>

fun option_index :: "option_kind \<Rightarrow> nat" where
  "option_index CONCRETIZE_RDTSC = 0"
| "option_index FORK_AT_CMOVS = 1"
| "option_index OPAQUE_SOLVING = 2"
| "option_index MODE = 3"
| "option_index CFG_JOIN_POLICY = 4"
| "option_index STATE_CLEANUP = 5"
| "option_index CONSTANT_PROPAGATION = 6"
| "option_index LOOP_REROLL = 7"
| "option_index OPTION_COUNT = 8"

definition set_option :: "option_kind \<Rightarrow> int \<Rightarrow> options \<Rightarrow> options res" where
  "set_option opt v os =
     res_bind (vexa_assert ''opt < option::COUNT'' (option_index opt < option_index OPTION_COUNT))
       (\<lambda>_. Inr (os(opt \<mapsto> v)))"

definition get_option :: "option_kind \<Rightarrow> options \<Rightarrow> int res" where
  "get_option opt os =
     res_bind (vexa_assert ''opt < option::COUNT'' (option_index opt < option_index OPTION_COUNT))
       (\<lambda>_. case os opt of None \<Rightarrow> Inl Out_of_range | Some v \<Rightarrow> Inr v)"

text \<open>Every option that is not the sentinel can be read, whatever was set before.\<close>

definition options_ok :: "options \<Rightarrow> bool" where
  "options_ok os \<longleftrightarrow> (\<forall>opt. opt \<noteq> OPTION_COUNT \<longrightarrow> os opt \<noteq> None)"

lemma option_index_lt [simp]: "option_index opt < 8 \<longleftrightarrow> opt \<noteq> OPTION_COUNT"
  by (cases opt) simp_all

lemma default_options_ok: "options_ok default_options"
proof -
  have "default_options opt \<noteq> None" if "opt \<noteq> OPTION_COUNT" for opt
    using that by (cases opt) (simp_all add: default_options_def)
  then show ?thesis by (simp add: options_ok_def)
qed

lemma set_option_ok: "options_ok os \<Longrightarrow> set_option opt v os = Inr os' \<Longrightarrow> options_ok os'"
  by (auto simp: set_option_def options_ok_def res_bind_eq_Inr)

lemma get_option_ok: "options_ok os \<Longrightarrow> opt \<noteq> OPTION_COUNT \<Longrightarrow> \<exists>v. get_option opt os = Inr v"
  by (auto simp: get_option_def options_ok_def)

text \<open>after setting an option it reads as the value that was set and the others read as before;
  all options can be read from the start, and only the sentinel \<open>COUNT\<close> is refused.\<close>

theorem options_roundtrip:
  assumes "options_ok os" and "opt \<noteq> OPTION_COUNT"
  shows "\<exists>os'. set_option opt v os = Inr os' \<and> options_ok os' \<and> get_option opt os' = Inr v \<and>
    (\<forall>o'. o' \<noteq> opt \<longrightarrow> get_option o' os' = get_option o' os)"
  using assms by (auto simp: set_option_def get_option_def options_ok_def)

theorem options_roundtrip_witness:
  "\<exists>os'. set_option MODE 2 default_options = Inr os' \<and> get_option MODE os' = Inr 2 \<and>
     get_option LOOP_REROLL os' = Inr 0"
  using options_roundtrip [OF default_options_ok, of MODE 2]
  by (auto simp: get_option_def default_options_def)

end
