(* ===== verification/Amd64.thy ===== *)
theory Amd64
  imports Vexa_Prelude
begin

text \<open>
  The register numbers of amd64.hpp and the table from names to numbers of \<open>Amd64Cpu\<close> (amd64.cpp).
\<close>

type_synonym reg = nat

definition reg_constants :: "(string \<times> reg) list" where
  "reg_constants =
     [(''RAX'', 0), (''RBX'', 1), (''RCX'', 2), (''RDX'', 3), (''RSI'', 4), (''RDI'', 5),
      (''RSP'', 6), (''RBP'', 7), (''RIP'', 8), (''R8'', 9), (''R9'', 10), (''R10'', 11),
      (''R11'', 12), (''R12'', 13), (''R13'', 14), (''R14'', 15), (''R15'', 16), (''R8D'', 17),
      (''R9D'', 18), (''R10D'', 19), (''R11D'', 20), (''R12D'', 21), (''R13D'', 22),
      (''R14D'', 23), (''R15D'', 24), (''R8W'', 25), (''R9W'', 26), (''R10W'', 27),
      (''R11W'', 28), (''R12W'', 29), (''R13W'', 30), (''R14W'', 31), (''R15W'', 32),
      (''EAX'', 33), (''EBX'', 34), (''ECX'', 35), (''EDX'', 36), (''ESI'', 37), (''EDI'', 38),
      (''ESP'', 39), (''EBP'', 40), (''EIP'', 41), (''AX'', 42), (''BX'', 43), (''CX'', 44),
      (''DX'', 45), (''SI'', 46), (''DI'', 47), (''SP'', 48), (''BP'', 49), (''IP'', 50),
      (''AH'', 51), (''BH'', 52), (''CH'', 53), (''DH'', 54), (''AL'', 55), (''BL'', 56),
      (''CL'', 57), (''DL'', 58), (''SIL'', 59), (''DIL'', 60), (''SPL'', 61), (''BPL'', 62),
      (''R8B'', 63), (''R9B'', 64), (''R10B'', 65), (''R11B'', 66), (''R12B'', 67),
      (''R13B'', 68), (''R14B'', 69), (''R15B'', 70), (''PC'', 71), (''SS'', 72), (''ES'', 73),
      (''GS'', 74), (''FS'', 75), (''DS'', 76), (''CS'', 77), (''GSBASE'', 78), (''FSBASE'', 79),
      (''XMM0'', 80), (''XMM1'', 81), (''XMM2'', 82), (''XMM3'', 83), (''XMM4'', 84),
      (''XMM5'', 85), (''XMM6'', 86), (''XMM7'', 87), (''XMM8'', 88), (''XMM9'', 89),
      (''XMM10'', 90), (''XMM11'', 91), (''XMM12'', 92), (''XMM13'', 93), (''XMM14'', 94),
      (''XMM15'', 95), (''ST0'', 96), (''ST1'', 97), (''ST2'', 98), (''ST3'', 99),
      (''ST4'', 100), (''ST5'', 101), (''ST6'', 102), (''ST7'', 103), (''MM0'', 104),
      (''MM1'', 105), (''MM2'', 106), (''MM3'', 107), (''MM4'', 108), (''MM5'', 109),
      (''MM6'', 110), (''MM7'', 111), (''AF'', 112), (''CF'', 113), (''DF'', 114), (''OF'', 115),
      (''PF'', 116), (''SF'', 117), (''ZF'', 118)]"

definition TOTAL_COUNT :: nat where
  "TOTAL_COUNT = 119"

text \<open>The number of a constant of the header.\<close>

definition reg_of :: "string \<Rightarrow> reg" where
  "reg_of name = (case map_of reg_constants name of Some r \<Rightarrow> r | None \<Rightarrow> TOTAL_COUNT)"

text \<open>The keys of the table in the order of its initializer; every key is mapped to the constant of
  the same name.\<close>

definition reg_keys :: "string list" where
  "reg_keys =
     [''RAX'', ''RBX'', ''RCX'', ''RDX'', ''RSI'', ''RDI'', ''RSP'', ''RBP'', ''RIP'', ''R8'',
      ''R9'', ''R10'', ''R11'', ''R12'', ''R13'', ''R14'', ''R15'', ''R8D'', ''R9D'', ''R10D'',
      ''R11D'', ''R12D'', ''R13D'', ''R14D'', ''R15D'', ''R8W'', ''R9W'', ''R10W'', ''R11W'',
      ''R12W'', ''R13W'', ''R14W'', ''R15W'', ''EAX'', ''EBX'', ''ECX'', ''EDX'', ''ESI'',
      ''EDI'', ''ESP'', ''EBP'', ''EIP'', ''AX'', ''BX'', ''CX'', ''DX'', ''SI'', ''DI'', ''SP'',
      ''BP'', ''IP'', ''AH'', ''BH'', ''CH'', ''DH'', ''AL'', ''BL'', ''CL'', ''DL'', ''SIL'',
      ''DIL'', ''SPL'', ''BPL'', ''R8B'', ''R9B'', ''R10B'', ''R11B'', ''R12B'', ''R13B'',
      ''R14B'', ''R15B'', ''PC'', ''SS'', ''ES'', ''GS'', ''FS'', ''DS'', ''CS'', ''GSBASE'',
      ''FSBASE'', ''XMM0'', ''XMM1'', ''XMM2'', ''XMM3'', ''XMM4'', ''XMM5'', ''XMM6'', ''XMM7'',
      ''XMM8'', ''XMM9'', ''XMM10'', ''XMM11'', ''XMM12'', ''XMM13'', ''XMM14'', ''XMM15'',
      ''ST0'', ''ST1'', ''ST2'', ''ST3'', ''ST4'', ''ST5'', ''ST6'', ''ST7'', ''MM0'', ''MM1'',
      ''MM2'', ''MM3'', ''MM4'', ''MM5'', ''MM6'', ''MM7'', ''AF'', ''CF'', ''DF'', ''OF'',
      ''PF'', ''SF'', ''ZF'']"

definition str_to_reg :: "string \<rightharpoonup> reg" where
  "str_to_reg = map_of (map (\<lambda>n. (n, reg_of n)) reg_keys)"

definition str2reg :: "string \<Rightarrow> reg res" where
  "str2reg r =
     (case str_to_reg r of None \<Rightarrow> Inl (Assert_failed ''str_to_reg.count(r)'') | Some n \<Rightarrow> Inr n)"

lemma reg_numbers: "map snd reg_constants = [0..<119]"
  by code_simp

lemma reg_names_distinct: "distinct (map fst reg_constants)"
  by code_simp

lemma reg_keys_set: "set reg_keys = set (map fst reg_constants)"
  by code_simp

lemma str_to_reg_eq: "str_to_reg n = map_of reg_constants n"
proof (cases "n \<in> set reg_keys")
  case True
  then have "map_of reg_constants n \<noteq> None" by (simp add: reg_keys_set map_of_eq_None_iff)
  then show ?thesis
    using True by (auto simp: str_to_reg_def map_of_map_restrict reg_of_def)
next
  case False
  then have "map_of reg_constants n = None" by (simp add: reg_keys_set map_of_eq_None_iff)
  then show ?thesis using False by (simp add: str_to_reg_def map_of_map_restrict)
qed

text \<open>the table of names gives every name of the header its own number, every number below
  \<open>TOTAL_COUNT\<close> has exactly one name, and a name that is not in the header is refused.\<close>

theorem str2reg_bijective:
  "(\<forall>n r. str2reg n = Inr r \<longleftrightarrow> (n, r) \<in> set reg_constants) \<and>
   (\<forall>r < TOTAL_COUNT. \<exists>!n. str2reg n = Inr r)"
proof -
  have dist: "distinct (map snd reg_constants)" by (simp add: reg_numbers)
  have iff: "str2reg n = Inr r \<longleftrightarrow> (n, r) \<in> set reg_constants" for n r
    unfolding str2reg_def str_to_reg_eq map_of_eq_Some_iff [OF reg_names_distinct, symmetric]
    by (simp split: option.split)
  moreover have "\<exists>!n. (n, r) \<in> set reg_constants" if "r < TOTAL_COUNT" for r
  proof -
    have "r \<in> set (map snd reg_constants)" using that by (simp add: reg_numbers TOTAL_COUNT_def)
    then obtain n where n: "(n, r) \<in> set reg_constants" by auto
    have "n' = n" if "(n', r) \<in> set reg_constants" for n'
      using dist that n by (metis distinct_map inj_onD prod.inject snd_conv)
    with n show ?thesis by blast
  qed
  ultimately show ?thesis by simp
qed

theorem str2reg_bijective_witness:
  "str2reg ''RDX'' = Inr 3 \<and> (\<exists>!n. str2reg n = Inr 7)"
  using str2reg_bijective by (auto simp: reg_constants_def TOTAL_COUNT_def)

end
