(* ===== verification/Memory.thy ===== *)
theory Memory
  imports Symex
begin

text \<open>
  \<open>vexa::memory\<close> (memory.hpp, memory.cpp): byte-addressed pages whose cells refer to one byte of
  the value that was written. A page keeps its cells in a storage behind a \<open>std::shared_ptr\<close>;
  snapshots share the storages and the first write to a shared storage copies it. The model keeps
  the pointers: pages and storages are objects named by their position in a list, and every storage
  has the use count that \<open>unique()\<close> reads.
\<close>

section \<open>State\<close>

record mem_cell =
  original_val :: vexa_value
  total_size :: nat
  which_byte :: nat
  extracted_cache :: "vexa_value option"

type_synonym storage = "u64 \<rightharpoonup> mem_cell"
type_synonym storage_id = nat

record mem_page =
  initial_memory :: storage
  page_memory :: storage_id
  page_sealed :: bool

text \<open>\<open>pages\<close> is the vector of the class; \<open>page_objs\<close> are all pages made so far, which pointers
  keep alive.\<close>

record memory =
  storages :: "storage list"
  use_counts :: "nat list"
  page_objs :: "mem_page list"
  pages :: "page_id list"

type_synonym mem_state = "(page_id \<times> storage_id) list"

definition memory_init :: memory where
  "memory_init = \<lparr>storages = [], use_counts = [], page_objs = [], pages = []\<rparr>"

section \<open>Pages\<close>

definition page_storage :: "memory \<Rightarrow> page_id \<Rightarrow> storage" where
  "page_storage m p = storages m ! page_memory (page_objs m ! p)"

definition page_find :: "memory \<Rightarrow> page_id \<Rightarrow> u64 \<Rightarrow> mem_cell option" where
  "page_find m p a =
     (case page_storage m p a of Some c \<Rightarrow> Some c
      | None \<Rightarrow> initial_memory (page_objs m ! p) a)"

definition byte_cell :: "vexa_value \<Rightarrow> mem_cell" where
  "byte_cell v =
     \<lparr>original_val = v, total_size = 1, which_byte = 0, extracted_cache = None\<rparr>"

text \<open>\<open>mem_page::write\<close>: when the storage is shared, the page moves to a copy of its own first.\<close>

definition page_write :: "page_id \<Rightarrow> u64 \<Rightarrow> mem_cell \<Rightarrow> memory \<Rightarrow> memory" where
  "page_write p a c m =
     (let pg = page_objs m ! p; sid = page_memory pg in
      if use_counts m ! sid \<noteq> 1 then
        m\<lparr>storages := storages m @ [(storages m ! sid)(a \<mapsto> c)],
          use_counts := (use_counts m)[sid := use_counts m ! sid - 1] @ [1],
          page_objs := (page_objs m)[p := pg\<lparr>page_memory := length (storages m)\<rparr>]\<rparr>
      else m\<lparr>storages := (storages m)[sid := (storages m ! sid)(a \<mapsto> c)]\<rparr>)"

definition page_initialize :: "page_id \<Rightarrow> u64 \<Rightarrow> vexa_value \<Rightarrow> memory \<Rightarrow> memory" where
  "page_initialize p a v m =
     (if page_sealed (page_objs m ! p) then page_write p a (byte_cell v) m
      else m\<lparr>page_objs := (page_objs m)
               [p := (page_objs m ! p)
                  \<lparr>initial_memory := (initial_memory (page_objs m ! p))(a \<mapsto> byte_cell v)\<rparr>]\<rparr>)"

definition page_seal :: "page_id \<Rightarrow> memory \<Rightarrow> memory" where
  "page_seal p m =
     m\<lparr>page_objs := (page_objs m)[p := (page_objs m ! p)\<lparr>page_sealed := True\<rparr>]\<rparr>"

section \<open>Memory\<close>

definition mem_allocate :: "memory \<Rightarrow> page_id \<times> memory" where
  "mem_allocate m =
     (let p = length (page_objs m) in
      (p, m\<lparr>storages := storages m @ [Map.empty],
            use_counts := use_counts m @ [1],
            page_objs := page_objs m @
              [\<lparr>initial_memory = Map.empty, page_memory = length (storages m), page_sealed = False\<rparr>],
            pages := pages m @ [p]\<rparr>))"

definition take_snapshot :: "memory \<Rightarrow> mem_state \<times> memory" where
  "take_snapshot m =
     (let ss = map (\<lambda>p. (p, page_memory (page_objs m ! p))) (pages m) in
      (ss, m\<lparr>use_counts := fold (\<lambda>(p, sid) cs. cs[sid := cs ! sid + 1]) ss (use_counts m)\<rparr>))"

text \<open>One round of the loop of \<open>restore_snapshot\<close>: the page's pointer to its storage is assigned.\<close>

definition restore_page :: "page_id \<times> storage_id \<Rightarrow> memory \<Rightarrow> memory" where
  "restore_page e m =
     (case e of (p, sid) \<Rightarrow>
        let old = page_memory (page_objs m ! p);
            cs = (use_counts m)[sid := use_counts m ! sid + 1]
        in m\<lparr>use_counts := cs[old := cs ! old - 1],
             page_objs := (page_objs m)[p := (page_objs m ! p)\<lparr>page_memory := sid\<rparr>]\<rparr>)"

definition restore_snapshot :: "mem_state \<Rightarrow> memory \<Rightarrow> memory" where
  "restore_snapshot ss m = fold restore_page ss (m\<lparr>pages := map fst ss\<rparr>)"

text \<open>The destructor of a snapshot: its pointers to the storages go away.\<close>

definition drop_snapshot :: "mem_state \<Rightarrow> memory \<Rightarrow> memory" where
  "drop_snapshot ss m =
     m\<lparr>use_counts := fold (\<lambda>(p, sid) cs. cs[sid := cs ! sid - 1]) ss (use_counts m)\<rparr>"

section \<open>Reading and writing values\<close>

text \<open>The part of the context that \<open>memory::read\<close> and \<open>memory::write\<close> touch.\<close>

record machine =
  mc_symex :: symex
  mc_memory :: memory

text \<open>The page of a pointer. Pages are kept alive by the pointers to them, so that a page number
  always names a page; one that does not is treated like the null pointer.\<close>

definition page_of :: "vexa_value \<Rightarrow> machine \<Rightarrow> page_id res" where
  "page_of addr s =
     (case v_page addr of None \<Rightarrow> Inl Null_dereference
      | Some p \<Rightarrow> if p < length (page_objs (mc_memory s)) then Inr p else Inl Null_dereference)"

fun write_bytes :: "page_id \<Rightarrow> u64 \<Rightarrow> vexa_value \<Rightarrow> nat \<Rightarrow> nat list \<Rightarrow> memory \<Rightarrow> memory" where
  "write_bytes p base v byte_size [] m = m"
| "write_bytes p base v byte_size (i # is) m =
     write_bytes p base v byte_size is
       (page_write p (base + of_nat i)
          \<lparr>original_val = v, total_size = byte_size, which_byte = i, extracted_cache = None\<rparr> m)"

text \<open>A write through a pointer that is not concrete changes nothing. The byte count is an
  8-bit number.\<close>

definition mem_write :: "solver \<Rightarrow> vexa_value \<Rightarrow> vexa_value \<Rightarrow> machine \<Rightarrow> machine res" where
  "mem_write S addr val s =
     (let addr' = v_simplify S addr in
      if is_concrete addr' then
        res_bind (as_uint64 addr') (\<lambda>base.
        res_bind (v_size val) (\<lambda>bits.
          let byte_size = (bits div 8) mod 256 in
          if byte_size = 0 then Inr s
          else
            res_bind (page_of addr' s) (\<lambda>p.
              Inr (s\<lparr>mc_memory :=
                write_bytes p base (v_simplify S val) byte_size [0..<byte_size] (mc_memory s)\<rparr>))))
      else Inr s)"

definition uninit_name :: "page_id \<Rightarrow> u64 \<Rightarrow> string" where
  "uninit_name p a = ''uninit_'' @ show_nat p @ ''_'' @ show_nat (unat a)"

definition read_byte :: "page_id \<Rightarrow> u64 \<Rightarrow> machine \<Rightarrow> (mem_cell \<times> machine) res" where
  "read_byte p a s =
     (case page_find (mc_memory s) p a of Some c \<Rightarrow> Inr (c, s)
      | None \<Rightarrow>
          res_bind (sx_symbolic (uninit_name p a) 8 (mc_symex s)) (\<lambda>(v, sx).
            Inr (byte_cell v,
                 s\<lparr>mc_symex := sx, mc_memory := page_write p a (byte_cell v) (mc_memory s)\<rparr>)))"

fun read_cells :: "page_id \<Rightarrow> u64 list \<Rightarrow> machine \<Rightarrow> (mem_cell list \<times> machine) res" where
  "read_cells p [] s = Inr ([], s)"
| "read_cells p (a # as) s =
     res_bind (read_byte p a s) (\<lambda>(c, s').
     res_bind (read_cells p as s') (\<lambda>(cs, s''). Inr (c # cs, s'')))"

definition extract_byte :: "mem_cell \<Rightarrow> vexa_value res" where
  "extract_byte c = v_extract (which_byte c * 8 + 7) (which_byte c * 8) (original_val c)"

fun concat_bytes :: "vexa_value \<Rightarrow> mem_cell list \<Rightarrow> vexa_value res" where
  "concat_bytes v [] = Inr v"
| "concat_bytes v (c # cs) =
     res_bind (case extracted_cache c of None \<Rightarrow> extract_byte c | Some x \<Rightarrow> Inr x) (\<lambda>b.
     res_bind (v_concat v b) (\<lambda>v'. concat_bytes v' cs))"

text \<open>How the bytes are put together: \<open>cells\<close> are the cells read, the last byte first.\<close>

definition bytes_can_be_merged :: "mem_cell list \<Rightarrow> mem_cell \<Rightarrow> bool" where
  "bytes_can_be_merged cells lst \<longleftrightarrow>
     (\<forall>c \<in> set cells. v_term (original_val c) = v_term (original_val lst) \<and>
        total_size c = total_size lst)"

definition bytes_aligned :: "mem_cell list \<Rightarrow> mem_cell \<Rightarrow> bool" where
  "bytes_aligned cells lst \<longleftrightarrow>
     list_all2 (\<lambda>c i. int (which_byte c) = int (which_byte lst) - int i) cells [0..<length cells]"

definition join_cells :: "nat \<Rightarrow> nat \<Rightarrow> mem_cell list \<Rightarrow> vexa_value res" where
  "join_cells bits byte_size cells =
     (let last_byte = hd cells;
          seen = take byte_size cells;
          whole = bytes_can_be_merged seen last_byte \<and> bytes_aligned seen last_byte
      in
      if whole \<and> byte_size = total_size last_byte then Inr (original_val last_byte)
      else if whole then
        (let low_bit = which_byte (last cells) * 8;
             high_bit = (low_bit + bits + (2 ^ 32 - 1)) mod 2 ^ 32
         in v_extract high_bit low_bit (original_val last_byte))
      else
        res_bind (extract_byte last_byte) (\<lambda>v. concat_bytes v (tl cells)))"

definition mem_read ::
  "solver \<Rightarrow> vexa_value \<Rightarrow> nat \<Rightarrow> machine \<Rightarrow> (vexa_value \<times> machine) res" where
  "mem_read S addr bits s =
     (let addr' = v_simplify S addr in
      if is_concrete addr' then
        res_bind (as_uint64 addr') (\<lambda>base.
        res_bind (page_of addr' s) (\<lambda>p.
          let byte_size = bits div 8 in
          res_bind (read_cells p
              ((base + of_nat byte_size - 1) #
               map (\<lambda>j. base + of_nat j) (rev [0..<byte_size - 1])) s) (\<lambda>(cells, s').
          res_bind (join_cells bits byte_size cells) (\<lambda>v. Inr (v, s')))))
      else
        res_bind (sx_symbolic (''read_'' @ show_nat (slv_hash S (v_term addr'))) bits (mc_symex s))
          (\<lambda>(v, sx). Inr (v, s\<lparr>mc_symex := sx\<rparr>)))"

end
