(* ===== verification/Memory_Snapshots.thy ===== *)
theory Memory_Snapshots
  imports Memory
begin

text \<open>
  The snapshots of \<open>vexa::memory\<close>: the reference counts of the storages are exact, a write is
  copy-on-write, and restoring a snapshot shows the memory as it was when the snapshot was taken.
  The contract is the locale \<open>snapshot_store\<close>, which the exploration of paths relies on, and the
  memory of the program is its interpretation \<open>cow\<close>.
\<close>

section \<open>The invariant\<close>

text \<open>The live snapshots and all pages share the storages: a storage is used by every page that points
  to it and by every snapshot that saved it.\<close>

definition holders :: "memory \<Rightarrow> mem_state list \<Rightarrow> storage_id \<Rightarrow> nat" where
  "holders m live sid = count_list (map page_memory (page_objs m)) sid + count_list (map snd (concat live)) sid"

definition mem_ok :: "memory \<Rightarrow> mem_state list \<Rightarrow> bool" where
  "mem_ok m live \<longleftrightarrow>
     length (use_counts m) = length (storages m) \<and>
     (\<forall>sid < length (storages m). use_counts m ! sid = holders m live sid) \<and>
     (\<forall>pg \<in> set (page_objs m). page_memory pg < length (storages m)) \<and>
     (\<forall>p \<in> set (pages m). p < length (page_objs m)) \<and> distinct (pages m) \<and>
     (\<forall>ss \<in> set live. distinct (map fst ss) \<and>
        (\<forall>(p, sid) \<in> set ss. p < length (page_objs m) \<and> sid < length (storages m)))"

lemma count_list_update:
  "i < length xs \<Longrightarrow> count_list (xs[i := y]) z + of_bool (xs ! i = z) = count_list xs z + of_bool (y = z)"
proof (induction xs arbitrary: i)
  case (Cons x xs)
  show ?case
  proof (cases i)
    case (Suc j)
    then show ?thesis using Cons.IH [of j] Cons.prems by simp
  qed simp
qed simp

lemma count_list_pos: "x \<in> set xs \<Longrightarrow> 0 < count_list xs x"
  by (metis count_list_0_iff gr0I)

lemma count_list_one:
  assumes "count_list xs z \<le> 1" and "i < length xs" "j < length xs" "xs ! i = z" "xs ! j = z"
  shows "i = j"
  using assms
proof (induction xs arbitrary: i j)
  case (Cons x xs)
  have no: "count_list xs z = 0 \<Longrightarrow> k < length xs \<Longrightarrow> xs ! k \<noteq> z" for k
    by (metis count_list_0_iff nth_mem)
  from Cons show ?case
    by (cases i; cases j) (auto simp: no split: if_splits)
qed simp

lemma unique_holder:
  assumes ok: "mem_ok m live" and p: "p < length (page_objs m)"
    and one: "use_counts m ! page_memory (page_objs m ! p) = 1"
  shows "q < length (page_objs m) \<Longrightarrow> q \<noteq> p \<Longrightarrow>
           page_memory (page_objs m ! q) \<noteq> page_memory (page_objs m ! p)"
    and "ss \<in> set live \<Longrightarrow> (r, sid) \<in> set ss \<Longrightarrow> sid \<noteq> page_memory (page_objs m ! p)"
proof -
  let ?sid = "page_memory (page_objs m ! p)" and ?xs = "map page_memory (page_objs m)"
  have "?sid < length (storages m)" using ok p by (auto simp: mem_ok_def)
  then have h: "count_list ?xs ?sid + count_list (map snd (concat live)) ?sid = 1"
    using ok one by (simp add: mem_ok_def holders_def)
  have "0 < count_list ?xs ?sid" using p by (intro count_list_pos) auto
  with h have xs: "count_list ?xs ?sid \<le> 1" and live: "count_list (map snd (concat live)) ?sid = 0"
    by auto
  show "page_memory (page_objs m ! q) \<noteq> ?sid" if "q < length (page_objs m)" "q \<noteq> p"
    using count_list_one [OF xs, of q p] that p by auto
  show "sid \<noteq> ?sid" if "ss \<in> set live" "(r, sid) \<in> set ss"
    using live that by (force simp: count_list_0_iff)
qed

text \<open>How the objects look after a write, in the two cases of the use count.\<close>

lemma page_write_unique:
  assumes "use_counts m ! page_memory (page_objs m ! p) = 1"
  shows "page_write p a c m = m\<lparr>storages := (storages m)
    [page_memory (page_objs m ! p) := (storages m ! page_memory (page_objs m ! p))(a \<mapsto> c)]\<rparr>"
  using assms by (simp add: page_write_def Let_def)

lemma page_write_find:
  assumes ok: "mem_ok m live" and p: "p < length (page_objs m)" and q: "q < length (page_objs m)"
  shows "page_find (page_write p a c m) q b = (if q = p \<and> b = a then Some c else page_find m q b)"
proof (cases "use_counts m ! page_memory (page_objs m ! p) = 1")
  case True
  have sid: "page_memory (page_objs m ! p) < length (storages m)" using ok p by (auto simp: mem_ok_def)
  show ?thesis
  proof (cases "q = p")
    case True': True
    then show ?thesis using sid
      by (simp add: page_write_unique [OF True] page_find_def page_storage_def split: option.split)
  next
    case False
    with unique_holder(1) [OF ok p True q] show ?thesis
      by (simp add: page_write_unique [OF True] page_find_def page_storage_def nth_list_update_neq split: option.split)
  qed
next
  case False
  have "page_memory (page_objs m ! q) < length (storages m)" using ok q by (auto simp: mem_ok_def)
  with False p show ?thesis
    by (cases "q = p") (simp_all add: page_find_def page_storage_def page_write_def Let_def nth_append split: option.split)
qed

lemma page_write_snapshots:
  assumes ok: "mem_ok m live" and p: "p < length (page_objs m)" and ss: "ss \<in> set live"
    and sid: "(r, sid) \<in> set ss"
  shows "storages (page_write p a c m) ! sid = storages m ! sid"
proof (cases "use_counts m ! page_memory (page_objs m ! p) = 1")
  case True
  from unique_holder(2) [OF ok p True ss sid] show ?thesis
    by (simp add: page_write_unique [OF True] nth_list_update_neq)
next
  case False
  have "sid < length (storages m)" using ok ss sid by (auto simp: mem_ok_def)
  with False show ?thesis by (simp add: page_write_def Let_def nth_append)
qed

lemma page_write_ok:
  assumes ok: "mem_ok m live" and p: "p < length (page_objs m)"
  shows "mem_ok (page_write p a c m) live"
proof (cases "use_counts m ! page_memory (page_objs m ! p) = 1")
  case True
  then show ?thesis using ok by (simp add: page_write_unique [OF True] mem_ok_def holders_def)
next
  case False
  let ?sid = "page_memory (page_objs m ! p)" and ?n = "length (storages m)"
  let ?objs = "(page_objs m)[p := (page_objs m ! p)\<lparr>page_memory := ?n\<rparr>]"
  have sid: "?sid < ?n" using ok p by (auto simp: mem_ok_def)
  have upd: "map page_memory ?objs = (map page_memory (page_objs m))[p := ?n]"
    by (simp add: map_update)
  have new: "count_list (map page_memory (page_objs m)) ?n = 0"
     "count_list (map snd (concat live)) ?n = 0"
    using ok by (force simp: count_list_0_iff mem_ok_def)+
  have cnt: "count_list ((map page_memory (page_objs m))[p := ?n]) z + of_bool (?sid = z)
     = count_list (map page_memory (page_objs m)) z + of_bool (?n = z)" for z
    using count_list_update [of p "map page_memory (page_objs m)" ?n z] p by simp
  have old: "use_counts m ! z = count_list (map page_memory (page_objs m)) z + count_list (map snd (concat live)) z"
    if "z < ?n" for z using ok that by (simp add: mem_ok_def holders_def)
  have len: "length (use_counts m) = ?n" using ok by (simp add: mem_ok_def)
  have counts: "((use_counts m)[?sid := use_counts m ! ?sid - 1] @ [1]) ! z =
      count_list (map page_memory ?objs) z + count_list (map snd (concat live)) z"
    if "z < Suc ?n" for z
  proof (cases "z = ?n")
    case True
    then show ?thesis using cnt [of z] new sid len by (simp add: upd nth_append)
  next
    case False
    then have z: "z < ?n" using that by simp
    show ?thesis
      using cnt [of z] z sid old [OF z] False len by (cases "z = ?sid") (simp_all add: upd nth_append)
  qed
  have objs: "\<forall>pg \<in> set ?objs. page_memory pg < Suc ?n"
  proof
    fix pg assume "pg \<in> set ?objs"
    then have "pg = (page_objs m ! p)\<lparr>page_memory := ?n\<rparr> \<or> pg \<in> set (page_objs m)"
      using set_update_subset_insert by fastforce
    then show "page_memory pg < Suc ?n" using ok by (auto simp: mem_ok_def less_Suc_eq)
  qed
  have live: "\<forall>ss \<in> set live. distinct (map fst ss) \<and>
        (\<forall>(p, sid) \<in> set ss. p < length (page_objs m) \<and> sid < Suc ?n)"
    using ok by (fastforce simp: mem_ok_def)
  show ?thesis
    unfolding mem_ok_def
    using False ok objs live counts len by (simp add: page_write_def Let_def holders_def mem_ok_def)
qed


lemma fold_count_up:
  assumes "\<forall>(p, sid) \<in> set ss. sid < length cs"
  shows "length (fold (\<lambda>(p, sid) cs. cs[sid := cs ! sid + 1]) ss cs) = length cs"
    and "z < length cs \<Longrightarrow>
      fold (\<lambda>(p, sid) cs. cs[sid := cs ! sid + 1]) ss cs ! z = cs ! z + count_list (map snd ss) z"
  using assms by (induction ss arbitrary: cs) (auto simp: nth_list_update)

lemma fold_count_down:
  assumes "\<forall>(p, sid) \<in> set ss. sid < length cs"
  shows "length (fold (\<lambda>(p, sid) cs. cs[sid := cs ! sid - 1]) ss cs) = length cs"
    and "z < length cs \<Longrightarrow>
      fold (\<lambda>(p, sid) cs. cs[sid := cs ! sid - 1]) ss cs ! z = cs ! z - count_list (map snd ss) z"
  using assms by (induction ss arbitrary: cs) (auto simp: nth_list_update)

lemma take_snapshot_ok:
  assumes ok: "mem_ok m live" and t: "take_snapshot m = (ss, m')"
  shows "mem_ok m' (ss # live)"
proof -
  have ss: "ss = map (\<lambda>p. (p, page_memory (page_objs m ! p))) (pages m)"
    and m': "m' = m\<lparr>use_counts := fold (\<lambda>(p, sid) cs. cs[sid := cs ! sid + 1]) ss (use_counts m)\<rparr>"
    using t by (auto simp: take_snapshot_def Let_def)
  have len: "length (use_counts m) = length (storages m)" using ok by (simp add: mem_ok_def)
  have rng: "\<forall>(p, sid) \<in> set ss. p < length (page_objs m) \<and> sid < length (storages m)"
    using ok by (auto simp: ss mem_ok_def)
  have up: "\<forall>(p, sid) \<in> set ss. sid < length (use_counts m)" using rng len by auto
  have fst: "map fst ss = pages m" by (simp add: ss comp_def)
  show ?thesis
    using ok rng fold_count_up [OF up] len fst by (simp add: mem_ok_def m' holders_def)
qed

lemma drop_snapshot_ok:
  assumes ok: "mem_ok m (l1 @ ss # l2)"
  shows "mem_ok (drop_snapshot ss m) (l1 @ l2)"
proof -
  have len: "length (use_counts m) = length (storages m)" using ok by (simp add: mem_ok_def)
  have dn: "\<forall>(p, sid) \<in> set ss. sid < length (use_counts m)" using ok len by (auto simp: mem_ok_def)
  show ?thesis
    using ok fold_count_down [OF dn] len by (simp add: mem_ok_def drop_snapshot_def holders_def)
qed

lemma restore_page_ok:
  assumes ok: "mem_ok m live" and p: "p < length (page_objs m)" and sid: "sid < length (storages m)"
  shows "mem_ok (restore_page (p, sid) m) live"
proof -
  let ?xs = "map page_memory (page_objs m)" and ?old = "page_memory (page_objs m ! p)"
  let ?cs = "(use_counts m)[sid := use_counts m ! sid + 1]"
  let ?objs = "(page_objs m)[p := (page_objs m ! p)\<lparr>page_memory := sid\<rparr>]"
  have old: "?old < length (storages m)" using ok p by (auto simp: mem_ok_def)
  have len: "length (use_counts m) = length (storages m)" using ok by (simp add: mem_ok_def)
  have upd: "map page_memory ?objs = ?xs[p := sid]"
    by (simp add: map_update)
  have cnt: "count_list (?xs[p := sid]) z + of_bool (?old = z) = count_list ?xs z + of_bool (sid = z)" for z
    using count_list_update [of p ?xs sid z] p by simp
  have pos: "0 < count_list ?xs ?old" using p by (intro count_list_pos) auto
  have counts: "?cs[?old := ?cs ! ?old - 1] ! z = count_list (map page_memory ?objs) z + count_list (map snd (concat live)) z"
    if z: "z < length (storages m)" for z
  proof -
    have u: "use_counts m ! z = count_list ?xs z + count_list (map snd (concat live)) z"
      using ok z by (simp add: mem_ok_def holders_def)
    show ?thesis
      using cnt [of z] u z sid old pos len
      by (cases "z = ?old"; cases "z = sid") (simp_all add: upd)
  qed
  have objs: "\<forall>pg \<in> set ?objs. page_memory pg < length (storages m)"
  proof
    fix pg assume "pg \<in> set ?objs"
    then have "pg = (page_objs m ! p)\<lparr>page_memory := sid\<rparr> \<or> pg \<in> set (page_objs m)"
      using set_update_subset_insert by fastforce
    then show "page_memory pg < length (storages m)" using ok sid by (auto simp: mem_ok_def)
  qed
  show ?thesis
    unfolding mem_ok_def using ok objs counts len
    by (simp add: restore_page_def Let_def holders_def mem_ok_def)
qed

lemma restore_page_simps [simp]:
  "storages (restore_page e m) = storages m" "pages (restore_page e m) = pages m"
  "length (page_objs (restore_page e m)) = length (page_objs m)"
  by (simp_all add: restore_page_def Let_def split: prod.split)

lemma fold_restore_page_simps [simp]:
  "storages (fold restore_page ss m) = storages m" "pages (fold restore_page ss m) = pages m"
  "length (page_objs (fold restore_page ss m)) = length (page_objs m)"
  by (induction ss arbitrary: m) simp_all

lemma fold_restore_page_ok:
  assumes "mem_ok m live"
    and "\<forall>(p, sid) \<in> set ss. p < length (page_objs m) \<and> sid < length (storages m)"
  shows "mem_ok (fold restore_page ss m) live"
  using assms
proof (induction ss arbitrary: m)
  case (Cons e ss)
  obtain p sid where e: "e = (p, sid)" by (cases e)
  have "mem_ok (restore_page e m) live"
    using Cons.prems by (auto simp: e intro!: restore_page_ok)
  then show ?case using Cons.prems by (auto intro!: Cons.IH)
qed simp

lemma restore_snapshot_ok:
  assumes ok: "mem_ok m live" and ss: "ss \<in> set live"
  shows "mem_ok (restore_snapshot ss m) live"
proof -
  have "mem_ok (m\<lparr>pages := map fst ss\<rparr>) live"
    using ok ss by (fastforce simp: mem_ok_def holders_def)
  moreover have "\<forall>(p, sid) \<in> set ss. p < length (page_objs m) \<and> sid < length (storages m)"
    using ok ss by (auto simp: mem_ok_def)
  ultimately show ?thesis
    unfolding restore_snapshot_def by (intro fold_restore_page_ok) auto
qed

lemma fold_restore_page_objs:
  assumes "distinct (map fst ss)" and "\<forall>(p, sid) \<in> set ss. p < length (page_objs m)"
    and "q < length (page_objs m)"
  shows "page_objs (fold restore_page ss m) ! q =
    (case map_of ss q of None \<Rightarrow> page_objs m ! q | Some sid \<Rightarrow> (page_objs m ! q)\<lparr>page_memory := sid\<rparr>)"
  using assms
proof (induction ss arbitrary: m)
  case (Cons e ss)
  obtain p sid where e: "e = (p, sid)" by (cases e)
  have IH: "page_objs (fold restore_page ss (restore_page e m)) ! q =
    (case map_of ss q of None \<Rightarrow> page_objs (restore_page e m) ! q
     | Some sid \<Rightarrow> (page_objs (restore_page e m) ! q)\<lparr>page_memory := sid\<rparr>)"
    using Cons.prems by (intro Cons.IH) auto
  have q: "page_objs (restore_page e m) ! q =
      (if q = p then (page_objs m ! q)\<lparr>page_memory := sid\<rparr> else page_objs m ! q)"
    using Cons.prems(3) by (simp add: e restore_page_def Let_def)
  have "map_of ss p = None" using Cons.prems(1) by (simp add: e map_of_eq_None_iff)
  then show ?case unfolding fold_simps IH q by (simp add: e split: option.split)
qed simp

lemma mem_allocate_ok:
  assumes ok: "mem_ok m live" and a: "mem_allocate m = (p, m')"
  shows "mem_ok m' live"
proof -
  have new: "count_list (map page_memory (page_objs m)) (length (storages m)) = 0"
     "count_list (map snd (concat live)) (length (storages m)) = 0"
    using ok by (force simp: count_list_0_iff mem_ok_def)+
  have m': "m' = snd (mem_allocate m)" using a by simp
  have counts: "(use_counts m @ [1]) ! z = count_list (map page_memory (page_objs m) @ [length (storages m)]) z
      + count_list (map snd (concat live)) z" if "z < Suc (length (storages m))" for z
    using that ok new by (cases "z = length (storages m)") (auto simp: mem_ok_def holders_def nth_append)
  show ?thesis
    unfolding mem_ok_def using ok counts
    by (fastforce simp: m' mem_allocate_def Let_def mem_ok_def holders_def less_Suc_eq)
qed

lemma update_page_ok:
  assumes ok: "mem_ok m live" and p: "p < length (page_objs m)"
    and pg: "page_memory pg = page_memory (page_objs m ! p)"
  shows "mem_ok (m\<lparr>page_objs := (page_objs m)[p := pg]\<rparr>) live"
proof -
  have upd: "map page_memory ((page_objs m)[p := pg]) = map page_memory (page_objs m)"
    by (simp add: map_update pg) (metis list_update_id nth_map p)
  have "\<forall>x \<in> set ((page_objs m)[p := pg]). page_memory x \<in> set (map page_memory (page_objs m))"
    unfolding upd [symmetric] by simp
  then have "\<forall>x \<in> set ((page_objs m)[p := pg]). page_memory x < length (storages m)"
    using ok by (fastforce simp: mem_ok_def)
  then show ?thesis using ok upd by (simp add: mem_ok_def holders_def)
qed

lemma page_seal_ok: "mem_ok m live \<Longrightarrow> p < length (page_objs m) \<Longrightarrow> mem_ok (page_seal p m) live"
  by (simp add: page_seal_def update_page_ok)

lemma page_initialize_ok:
  "mem_ok m live \<Longrightarrow> p < length (page_objs m) \<Longrightarrow> mem_ok (page_initialize p a v m) live"
  by (simp add: page_initialize_def update_page_ok page_write_ok)

section \<open>Runs of the memory\<close>

text \<open>The operations that the rest of the program applies to the memory, beside the snapshots that
  are alive: a snapshot is taken, restored and dropped; pages are made, filled, sealed and written.
  A page that a live snapshot holds is only filled before it is taken, or sealed.\<close>

inductive mem_step :: "memory \<times> mem_state list \<Rightarrow> memory \<times> mem_state list \<Rightarrow> bool" where
  step_write: "p < length (page_objs m) \<Longrightarrow> mem_step (m, live) (page_write p a c m, live)"
| step_initialize: "p < length (page_objs m) \<Longrightarrow>
    page_sealed (page_objs m ! p) \<or> (\<forall>ss \<in> set live. p \<notin> fst ` set ss) \<Longrightarrow>
    mem_step (m, live) (page_initialize p a v m, live)"
| step_seal: "p < length (page_objs m) \<Longrightarrow> mem_step (m, live) (page_seal p m, live)"
| step_allocate: "mem_allocate m = (p, m') \<Longrightarrow> mem_step (m, live) (m', live)"
| step_take: "take_snapshot m = (ss, m') \<Longrightarrow> mem_step (m, live) (m', ss # live)"
| step_restore: "ss \<in> set live \<Longrightarrow> mem_step (m, live) (restore_snapshot ss m, live)"
| step_drop: "mem_step (m, l1 @ ss # l2) (drop_snapshot ss m, l1 @ l2)"

inductive_cases mem_stepE: "mem_step s s'"

definition mem_view :: "memory \<Rightarrow> page_id list \<times> (page_id \<Rightarrow> storage)" where
  "mem_view m = (pages m, \<lambda>p. if p \<in> set (pages m) then page_find m p else Map.empty)"

definition saved_view :: "memory \<Rightarrow> mem_state \<Rightarrow> page_id list \<times> (page_id \<Rightarrow> storage)" where
  "saved_view m ss =
     (map fst ss, \<lambda>p. case map_of ss p of None \<Rightarrow> Map.empty
        | Some sid \<Rightarrow> initial_memory (page_objs m ! p) ++ (storages m ! sid))"

lemma page_find_add: "page_find m p = initial_memory (page_objs m ! p) ++ page_storage m p"
  by (rule ext) (simp add: page_find_def map_add_def)

lemma saved_view_cong:
  assumes "\<And>p sid. (p, sid) \<in> set ss \<Longrightarrow> storages m' ! sid = storages m ! sid \<and>
    initial_memory (page_objs m' ! p) = initial_memory (page_objs m ! p)"
  shows "saved_view m' ss = saved_view m ss"
proof -
  have "(case map_of ss p of None \<Rightarrow> Map.empty | Some sid \<Rightarrow> initial_memory (page_objs m' ! p) ++ (storages m' ! sid))
      = (case map_of ss p of None \<Rightarrow> Map.empty | Some sid \<Rightarrow> initial_memory (page_objs m ! p) ++ (storages m ! sid))"
    for p
    using assms map_of_SomeD [of ss p] by (cases "map_of ss p") auto
  then show ?thesis by (simp add: saved_view_def)
qed

lemma page_write_initial:
  "p < length (page_objs m) \<Longrightarrow> q < length (page_objs m) \<Longrightarrow>
     initial_memory (page_objs (page_write p a c m) ! q) = initial_memory (page_objs m ! q)"
  by (simp add: page_write_def Let_def nth_list_update)

lemma page_write_saved:
  assumes ok: "mem_ok m live" and p: "p < length (page_objs m)" and ss: "ss \<in> set live"
  shows "saved_view (page_write p a c m) ss = saved_view m ss"
proof (rule saved_view_cong)
  fix q sid assume q: "(q, sid) \<in> set ss"
  then have "q < length (page_objs m)" using ok ss by (auto simp: mem_ok_def)
  moreover have "storages (page_write p a c m) ! sid = storages m ! sid"
    by (rule page_write_snapshots [OF ok p ss q])
  ultimately show "storages (page_write p a c m) ! sid = storages m ! sid \<and>
    initial_memory (page_objs (page_write p a c m) ! q) = initial_memory (page_objs m ! q)"
    using p by (simp add: page_write_initial)
qed

lemma restore_snapshot_initial:
  assumes ok: "mem_ok m live" and ss: "ss \<in> set live" and q: "q < length (page_objs m)"
  shows "page_objs (restore_snapshot ss m) ! q =
    (case map_of ss q of None \<Rightarrow> page_objs m ! q | Some sid \<Rightarrow> (page_objs m ! q)\<lparr>page_memory := sid\<rparr>)"
  using ok ss q unfolding restore_snapshot_def
  by (subst fold_restore_page_objs) (auto simp: mem_ok_def split: option.split)

lemma restore_snapshot_simps [simp]:
  "storages (restore_snapshot ss m) = storages m" "pages (restore_snapshot ss m) = map fst ss"
  "length (page_objs (restore_snapshot ss m)) = length (page_objs m)"
  by (simp_all add: restore_snapshot_def)

lemma mem_step_ok: "mem_step (m, live) (m', live') \<Longrightarrow> mem_ok m live \<Longrightarrow> mem_ok m' live'"
  by (erule mem_stepE)
     (auto simp: page_write_ok page_initialize_ok page_seal_ok mem_allocate_ok take_snapshot_ok
        restore_snapshot_ok drop_snapshot_ok)

lemma mem_step_saved:
  assumes "mem_step (m, live) (m', live')" and ok: "mem_ok m live" and ss: "ss \<in> set live"
  shows "saved_view m' ss = saved_view m ss"
  using assms(1)
proof cases
  case (step_write p a c)
  then show ?thesis using page_write_saved [OF ok _ ss] by simp
next
  case (step_initialize p a v)
  show ?thesis
  proof (cases "page_sealed (page_objs m ! p)")
    case True
    then show ?thesis using step_initialize page_write_saved [OF ok _ ss] by (simp add: page_initialize_def)
  next
    case False
    then have "q \<noteq> p" if "(q, sid) \<in> set ss" for q sid using step_initialize ss that by force
    then show ?thesis using step_initialize False
      by (intro saved_view_cong) (force simp: page_initialize_def nth_list_update)
  qed
next
  case (step_seal p)
  then show ?thesis by (intro saved_view_cong) (auto simp: page_seal_def nth_list_update)
next
  case (step_allocate p)
  have "q < length (page_objs m) \<and> sid < length (storages m)" if "(q, sid) \<in> set ss" for q sid
    using ok ss that by (auto simp: mem_ok_def)
  then show ?thesis using step_allocate
    by (intro saved_view_cong) (auto simp: mem_allocate_def Let_def nth_append)
next
  case (step_take ss')
  then show ?thesis by (intro saved_view_cong) (auto simp: take_snapshot_def Let_def)
next
  case (step_restore ss')
  have "q < length (page_objs m)" if "(q, sid) \<in> set ss" for q sid
    using ok ss that by (auto simp: mem_ok_def)
  then show ?thesis using step_restore
    by (intro saved_view_cong) (auto simp: restore_snapshot_initial [OF ok] split: option.split)
next
  case (step_drop l1 ss' l2)
  then show ?thesis by (intro saved_view_cong) (auto simp: drop_snapshot_def)
qed

lemma take_snapshot_saved:
  assumes t: "take_snapshot m = (ss, m')"
  shows "saved_view m' ss = mem_view m" and "mem_view m' = mem_view m"
proof -
  have ss: "ss = map (\<lambda>p. (p, page_memory (page_objs m ! p))) (pages m)"
    and m': "storages m' = storages m" "pages m' = pages m" "page_objs m' = page_objs m"
    using t by (auto simp: take_snapshot_def Let_def)
  have "map_of ss p = (if p \<in> set (pages m) then Some (page_memory (page_objs m ! p)) else None)" for p
    by (auto simp: ss map_of_map_restrict restrict_map_def)
  then show "saved_view m' ss = mem_view m"
    by (auto simp: saved_view_def mem_view_def m' page_find_add page_storage_def fun_eq_iff ss comp_def)
  show "mem_view m' = mem_view m"
    by (simp add: mem_view_def m' page_find_add page_storage_def cong: if_cong)
qed

lemma restore_snapshot_view:
  assumes ok: "mem_ok m live" and ss: "ss \<in> set live"
  shows "mem_view (restore_snapshot ss m) = saved_view m ss"
proof -
  have "page_find (restore_snapshot ss m) p = initial_memory (page_objs m ! p) ++ (storages m ! sid)"
    if "map_of ss p = Some sid" for p sid
  proof -
    have "p < length (page_objs m)" using ok ss map_of_SomeD [OF that] by (auto simp: mem_ok_def)
    then show ?thesis using that
      by (simp add: page_find_add page_storage_def restore_snapshot_initial [OF ok ss])
  qed
  moreover have "p \<in> fst ` set ss \<longleftrightarrow> map_of ss p \<noteq> None" for p
    by (simp add: map_of_eq_None_iff)
  ultimately show ?thesis
    by (auto simp: mem_view_def saved_view_def fun_eq_iff split: option.split)
qed

section \<open>The contract of a store with snapshots\<close>

text \<open>What the exploration of paths relies on: taking a snapshot saves what is visible, no operation
  changes what a live snapshot saves, and restoring makes it visible again.\<close>

locale snapshot_store =
  fixes inv :: "'s \<Rightarrow> bool"
    and view :: "'s \<Rightarrow> 'v"
    and saved :: "'s \<Rightarrow> 'k \<Rightarrow> 'v"
    and holds :: "'s \<Rightarrow> 'k \<Rightarrow> bool"
    and step :: "'s \<Rightarrow> 's \<Rightarrow> bool"
    and take :: "'s \<Rightarrow> 'k \<times> 's"
    and restore :: "'k \<Rightarrow> 's \<Rightarrow> 's"
  assumes step_inv: "inv s \<Longrightarrow> step s s' \<Longrightarrow> inv s'"
    and step_saved: "inv s \<Longrightarrow> step s s' \<Longrightarrow> holds s k \<Longrightarrow> saved s' k = saved s k"
    and take_inv: "inv s \<Longrightarrow> take s = (k, s') \<Longrightarrow> inv s' \<and> holds s' k"
    and take_saved: "inv s \<Longrightarrow> take s = (k, s') \<Longrightarrow> saved s' k = view s \<and> view s' = view s"
    and restore_step: "holds s k \<Longrightarrow> step s (restore k s)"
    and restore_holds: "holds s k \<Longrightarrow> holds (restore k s) k"
    and restore_view: "inv s \<Longrightarrow> holds s k \<Longrightarrow> view (restore k s) = saved s k"
begin

text \<open>Runs during which a snapshot stays alive.\<close>

definition run_with :: "'k \<Rightarrow> 's \<Rightarrow> 's \<Rightarrow> bool" where
  "run_with k = (\<lambda>s s'. step s s' \<and> holds s' k)\<^sup>*\<^sup>*"

lemma run_with_saved:
  assumes "run_with k s s'" and "inv s" and "holds s k"
  shows "inv s' \<and> holds s' k \<and> saved s' k = saved s k"
  using assms unfolding run_with_def
  by (induction rule: rtranclp_induct) (auto simp: step_inv step_saved)

theorem explore_and_return:
  assumes "inv s" and "take s = (k, s1)" and "run_with k s1 s2"
  shows "view (restore k s2) = view s \<and> inv (restore k s2) \<and> holds (restore k s2) k"
  using run_with_saved [OF assms(3)] take_inv [OF assms(1,2)] take_saved [OF assms(1,2)]
    step_inv [OF _ restore_step] by (simp add: restore_view restore_holds)

text \<open>Every branch of a fork starts from what was visible at the fork, however many branches were
  explored before.\<close>

inductive branches :: "'k \<Rightarrow> 's \<Rightarrow> 's list \<Rightarrow> bool" for k where
  branches_Nil: "branches k s []"
| branches_Cons: "run_with k s s' \<Longrightarrow> branches k s' ss \<Longrightarrow> branches k s (restore k s' # ss)"

theorem branches_start_alike:
  assumes "inv s" and "take s = (k, s1)" and "branches k s1 ss"
  shows "\<forall>s' \<in> set ss. view s' = view s"
proof -
  have "branches k t ss \<Longrightarrow> inv t \<Longrightarrow> holds t k \<Longrightarrow> saved t k = view s \<Longrightarrow>
      \<forall>s' \<in> set ss. view s' = view s" for t
    by (induction rule: branches.induct) (auto dest!: run_with_saved simp: restore_view)
  then show ?thesis using assms take_inv [OF assms(1,2)] take_saved [OF assms(1,2)] by blast
qed

end

text \<open>The memory of the program, with the snapshots that are alive, is such a store.\<close>

definition store_take :: "memory \<times> mem_state list \<Rightarrow> mem_state \<times> (memory \<times> mem_state list)" where
  "store_take s = (case take_snapshot (fst s) of (ss, m') \<Rightarrow> (ss, (m', ss # snd s)))"

definition store_restore :: "mem_state \<Rightarrow> memory \<times> mem_state list \<Rightarrow> memory \<times> mem_state list" where
  "store_restore ss s = (restore_snapshot ss (fst s), snd s)"

interpretation cow: snapshot_store "\<lambda>s. mem_ok (fst s) (snd s)" "\<lambda>s. mem_view (fst s)"
  "\<lambda>s. saved_view (fst s)" "\<lambda>s ss. ss \<in> set (snd s)" mem_step store_take store_restore
proof unfold_locales
  show "mem_ok (fst s) (snd s) \<Longrightarrow> mem_step s s' \<Longrightarrow> mem_ok (fst s') (snd s')" for s s'
    using mem_step_ok [of "fst s" "snd s" "fst s'" "snd s'"] by simp
  show "mem_ok (fst s) (snd s) \<Longrightarrow> mem_step s s' \<Longrightarrow> k \<in> set (snd s) \<Longrightarrow>
      saved_view (fst s') k = saved_view (fst s) k" for s s' k
    using mem_step_saved [of "fst s" "snd s" "fst s'" "snd s'"] by simp
qed (auto simp: store_take_def store_restore_def take_snapshot_ok take_snapshot_saved
       restore_snapshot_view split: prod.splits intro: step_restore)

section \<open>A small run\<close>

text \<open>A page with one byte written, a snapshot of it, and a second write to the shared storage.\<close>

definition demo_cell :: "int \<Rightarrow> mem_cell" where
  "demo_cell n = byte_cell (value_new (BwBv 8 n))"

definition demo_mem :: memory where
  "demo_mem = page_write 0 5 (demo_cell 1) (snd (mem_allocate memory_init))"

definition demo_shared :: memory where
  "demo_shared = snd (take_snapshot demo_mem)"

lemma demo_simps:
  "length (page_objs demo_mem) = 1" "length (page_objs demo_shared) = 1"
  "take_snapshot demo_mem = ([(0, 0)], demo_shared)"
  by (simp_all add: demo_mem_def demo_shared_def page_write_def mem_allocate_def memory_init_def
      take_snapshot_def Let_def)

lemma demo_run: "mem_step\<^sup>*\<^sup>* (memory_init, []) (demo_mem, [])"
proof -
  have "mem_step (memory_init, []) (snd (mem_allocate memory_init), [])"
    by (rule step_allocate [of _ "fst (mem_allocate memory_init)"]) simp
  moreover have "mem_step (snd (mem_allocate memory_init), []) (demo_mem, [])"
    unfolding demo_mem_def by (rule step_write) (simp add: mem_allocate_def Let_def)
  ultimately show ?thesis by (meson converse_rtranclp_into_rtranclp rtranclp.rtrancl_refl)
qed

lemma demo_write:
  "mem_step (demo_shared, [[(0, 0)]]) (page_write 0 5 (demo_cell 2) demo_shared, [[(0, 0)]])"
  by (rule step_write) (simp add: demo_simps)

lemma demo_ok: "mem_ok demo_mem []" and demo_shared_ok: "mem_ok demo_shared [[(0, 0)]]"
proof -
  show "mem_ok demo_mem []"
    by (simp add: mem_ok_def demo_mem_def holders_def page_write_def mem_allocate_def memory_init_def Let_def)
  then show "mem_ok demo_shared [[(0, 0)]]" using take_snapshot_ok demo_simps(3) by blast
qed

section \<open>Properties\<close>



text \<open>\<open>mem_page::write\<close> changes what one page shows at one address and nothing else: every
  other byte of the page, all other pages and the content of all live snapshots stay, whether the
  storage was written in place or copied first.\<close>

theorem page_write_copy_on_write:
  assumes "mem_ok m live" and "p < length (page_objs m)"
  shows "(\<forall>q < length (page_objs m). \<forall>b. page_find (page_write p a c m) q b =
      (if q = p \<and> b = a then Some c else page_find m q b)) \<and>
    (\<forall>ss \<in> set live. saved_view (page_write p a c m) ss = saved_view m ss) \<and>
    mem_ok (page_write p a c m) live"
  using assms page_write_find [OF assms] page_write_saved [OF assms] page_write_ok [OF assms] by blast

theorem page_write_copy_on_write_witness:
  "page_find (page_write 0 5 (demo_cell 2) demo_shared) 0 5 = Some (demo_cell 2) \<and>
   page_find (page_write 0 5 (demo_cell 2) demo_shared) 0 6 = page_find demo_shared 0 6 \<and>
   saved_view (page_write 0 5 (demo_cell 2) demo_shared) [(0, 0)] = saved_view demo_shared [(0, 0)]"
  using page_write_copy_on_write [OF demo_shared_ok, of 0 5 "demo_cell 2"] by (simp add: demo_simps)

text \<open>C4: taking a snapshot, running any operations on the memory that keep the snapshot alive, and
  restoring it shows the same pages with the same content as when it was taken.\<close>

theorem snapshot_restore_roundtrip:
  assumes "mem_ok m live" and "take_snapshot m = (ss, m1)"
    and "(\<lambda>s s'. mem_step s s' \<and> ss \<in> set (snd s'))\<^sup>*\<^sup>* (m1, ss # live) (m2, live2)"
  shows "mem_view (restore_snapshot ss m2) = mem_view m \<and> mem_ok (restore_snapshot ss m2) live2"
  using cow.explore_and_return [of "(m, live)" ss "(m1, ss # live)" "(m2, live2)"] assms
  by (simp add: store_take_def store_restore_def cow.run_with_def)

theorem snapshot_restore_roundtrip_witness:
  "mem_view (restore_snapshot [(0, 0)] (page_write 0 5 (demo_cell 2) demo_shared)) = mem_view demo_mem"
  using snapshot_restore_roundtrip [OF demo_ok demo_simps(3),
      of "page_write 0 5 (demo_cell 2) demo_shared" "[[(0, 0)]]"] demo_write
  by (simp add: r_into_rtranclp)

end
