(* ===== verification/Memory_Bytes.thy ===== *)
theory Memory_Bytes
  imports Memory_Snapshots
begin

text \<open>
  What \<open>memory::write\<close> and \<open>memory::read\<close> mean byte by byte: a written value is laid out in
  little-endian order, a read puts the bytes it finds together whichever of the three ways of
  joining them it takes, and a byte that was never written becomes a fresh symbol that later reads
  see again.
\<close>

section \<open>Cells and bytes\<close>

text \<open>A cell is one byte of a value of \<open>total_size\<close> bytes.\<close>

definition cell_ok :: "mem_cell \<Rightarrow> bool" where
  "cell_ok c \<longleftrightarrow> which_byte c < total_size c \<and> total_size c < 256 \<and>
     bv_val (8 * total_size c) (original_val c) \<and> extracted_cache c = None"

definition cell_byte :: "assignment \<Rightarrow> mem_cell \<Rightarrow> byte" where
  "cell_byte env c = word_of_int (drop_bit (8 * which_byte c) (den env (original_val c)))"

definition mem_byte :: "assignment \<Rightarrow> memory \<Rightarrow> page_id \<Rightarrow> u64 \<Rightarrow> byte" where
  "mem_byte env m p a = (case page_find m p a of None \<Rightarrow> 0 | Some c \<Rightarrow> cell_byte env c)"

text \<open>All cells that a page or a snapshot can show are well formed.\<close>

definition cells_ok :: "memory \<Rightarrow> bool" where
  "cells_ok m \<longleftrightarrow> (\<forall>st \<in> set (storages m). \<forall>a c. st a = Some c \<longrightarrow> cell_ok c) \<and>
     (\<forall>pg \<in> set (page_objs m). \<forall>a c. initial_memory pg a = Some c \<longrightarrow> cell_ok c)"

lemma byte_cell_ok: "bv_val 8 v \<Longrightarrow> cell_ok (byte_cell v)"
  by (simp add: cell_ok_def byte_cell_def)

lemma cells_ok_find:
  assumes "cells_ok m" and "mem_ok m live" and "p < length (page_objs m)" and "page_find m p a = Some c"
  shows "cell_ok c"
proof -
  have "page_memory (page_objs m ! p) < length (storages m)" using assms(2,3) by (auto simp: mem_ok_def)
  then have "page_storage m p \<in> set (storages m)" "page_objs m ! p \<in> set (page_objs m)"
    using assms(3) by (auto simp: page_storage_def)
  with assms(1,4) show ?thesis by (auto simp: cells_ok_def page_find_def split: option.splits)
qed

lemma length_page_write [simp]: "length (page_objs (page_write p a c m)) = length (page_objs m)"
  by (simp add: page_write_def Let_def)

lemma pages_page_write [simp]: "pages (page_write p a c m) = pages m"
  by (simp add: page_write_def Let_def)

lemma cells_ok_write:
  assumes ok: "cells_ok m" and m: "mem_ok m live" and p: "p < length (page_objs m)" and c: "cell_ok c"
  shows "cells_ok (page_write p a c m)"
proof -
  let ?sid = "page_memory (page_objs m ! p)"
  let ?st = "(storages m ! ?sid)(a \<mapsto> c)"
  have "?sid < length (storages m)" using m p by (auto simp: mem_ok_def)
  then have "storages m ! ?sid \<in> set (storages m)" by simp
  then have st: "\<forall>b d. ?st b = Some d \<longrightarrow> cell_ok d" using ok c by (auto simp: cells_ok_def)
  have sts: "set (storages (page_write p a c m)) \<subseteq> insert ?st (set (storages m))"
    using set_update_subset_insert [of "storages m" ?sid ?st] by (simp add: page_write_def Let_def)
  have "\<forall>pg \<in> set (page_objs (page_write p a c m)). initial_memory pg \<in> initial_memory ` set (page_objs m)"
    using page_write_initial [OF p, of _ a c] by (auto simp: in_set_conv_nth) (metis imageI nth_mem)
  then have ini: "\<exists>pg' \<in> set (page_objs m). initial_memory pg = initial_memory pg'"
    if "pg \<in> set (page_objs (page_write p a c m))" for pg using that by blast
  show ?thesis
    unfolding cells_ok_def using st sts ok ini by (fastforce simp: cells_ok_def)
qed

section \<open>Writing\<close>

definition value_cell :: "vexa_value \<Rightarrow> nat \<Rightarrow> nat \<Rightarrow> mem_cell" where
  "value_cell v n i = \<lparr>original_val = v, total_size = n, which_byte = i, extracted_cache = None\<rparr>"

lemma value_cell_ok: "bv_val (8 * n) v \<Longrightarrow> i < n \<Longrightarrow> n < 256 \<Longrightarrow> cell_ok (value_cell v n i)"
  by (simp add: cell_ok_def value_cell_def)

lemma write_bytes_ok:
  assumes "mem_ok m live" and "cells_ok m" and "p < length (page_objs m)"
    and "bv_val (8 * n) v" and "n < 256" and "\<forall>i \<in> set is. i < n"
  shows "mem_ok (write_bytes p base v n is m) live \<and> cells_ok (write_bytes p base v n is m) \<and>
    length (page_objs (write_bytes p base v n is m)) = length (page_objs m) \<and>
    pages (write_bytes p base v n is m) = pages m"
  using assms
proof (induction "is" arbitrary: m)
  case (Cons i "is")
  let ?m = "page_write p (base + of_nat i) (value_cell v n i) m"
  have "mem_ok ?m live" using Cons.prems by (intro page_write_ok)
  moreover have "cells_ok ?m"
    using Cons.prems by (intro cells_ok_write [of m live] value_cell_ok) auto
  ultimately show ?case
    using Cons.IH [of ?m] Cons.prems by (simp add: value_cell_def)
qed simp

lemma write_bytes_saved:
  assumes "mem_ok m live" and "p < length (page_objs m)" and "ss \<in> set live"
  shows "saved_view (write_bytes p base v n is m) ss = saved_view m ss"
  using assms
proof (induction "is" arbitrary: m)
  case (Cons i "is")
  let ?m = "page_write p (base + of_nat i) (value_cell v n i) m"
  have "mem_ok ?m live" using Cons.prems by (intro page_write_ok)
  then show ?case
    using Cons.IH [of ?m] Cons.prems page_write_saved [of m live p ss] by (simp add: value_cell_def)
qed simp

lemma of_nat_u64_inj: "i < 2 ^ 64 \<Longrightarrow> j < 2 ^ 64 \<Longrightarrow> (of_nat i :: u64) = of_nat j \<longleftrightarrow> i = j"
  by (simp add: word_of_nat_eq_iff take_bit_nat_eq_self)

lemma write_bytes_find:
  assumes "mem_ok m live" and "p < length (page_objs m)" and "q < length (page_objs m)"
    and "distinct is" and "\<forall>i \<in> set is. i < 2 ^ 64"
  shows "page_find (write_bytes p base v n is m) q b =
    (if q = p \<and> unat (b - base) \<in> set is then Some (value_cell v n (unat (b - base)))
     else page_find m q b)"
  using assms
proof (induction "is" arbitrary: m)
  case (Cons i "is")
  let ?m = "page_write p (base + of_nat i) (value_cell v n i) m"
  have ok: "mem_ok ?m live" using Cons.prems by (intro page_write_ok)
  have IH: "page_find (write_bytes p base v n is ?m) q b =
    (if q = p \<and> unat (b - base) \<in> set is then Some (value_cell v n (unat (b - base)))
     else page_find ?m q b)"
    using Cons.prems by (intro Cons.IH [OF ok]) auto
  have "i < 2 ^ 64" using Cons.prems(5) by simp
  then have i: "b = base + of_nat i \<longleftrightarrow> unat (b - base) = i"
    by (auto simp: unat_of_nat take_bit_nat_eq_self)
  show ?case
    using IH page_write_find [OF Cons.prems(1-3), of "base + of_nat i" "value_cell v n i" b] i
    by (auto simp: value_cell_def)
qed simp

text \<open>A write through a concrete pointer: what the memory shows afterwards.\<close>

lemma as_uint64_is_concrete: "as_uint64 v = Inr base \<Longrightarrow> is_concrete v"
  by (simp add: as_uint64_def split: if_splits)

definition written ::
  "memory \<Rightarrow> page_id \<Rightarrow> u64 \<Rightarrow> vexa_value \<Rightarrow> nat \<Rightarrow> memory \<Rightarrow> bool" where
  "written m p base v n m' \<longleftrightarrow> (\<forall>q < length (page_objs m). \<forall>b. page_find m' q b =
     (if q = p \<and> unat (b - base) < n then Some (value_cell v n (unat (b - base)))
      else page_find m q b))"

lemma mem_write_ok:
  assumes S: "sound_solver S" and ok: "mem_ok (mc_memory s) live" and cells: "cells_ok (mc_memory s)"
    and addr: "as_uint64 (v_simplify S addr) = Inr base" "v_page addr = Some p"
    and p: "p < length (page_objs (mc_memory s))"
    and v: "bv_val (8 * n) v" "n < 256"
  obtains m' where "mem_write S addr v s = Inr (s\<lparr>mc_memory := m'\<rparr>)"
    and "mem_ok m' live" and "cells_ok m'"
    and "length (page_objs m') = length (page_objs (mc_memory s))" and "pages m' = pages (mc_memory s)"
    and "\<And>ss. ss \<in> set live \<Longrightarrow> saved_view m' ss = saved_view (mc_memory s) ss"
    and "written (mc_memory s) p base (v_simplify S v) n m'"
proof -
  let ?m = "write_bytes p base (v_simplify S v) n [0..<n] (mc_memory s)"
  have n: "0 < n" using bv_val_pos [OF v(1)] by simp
  have v': "bv_val (8 * n) (v_simplify S v)" using S v(1) by simp
  have w: "mem_write S addr v s = Inr (s\<lparr>mc_memory := ?m\<rparr>)"
    using addr as_uint64_is_concrete [OF addr(1)] v n p by (simp add: mem_write_def page_of_def)
  have "written (mc_memory s) p base (v_simplify S v) n ?m"
    using write_bytes_find [OF ok p, of _ "[0..<n]"] v(2) by (simp add: written_def)
  then show ?thesis
    using that [OF w] write_bytes_ok [OF ok cells p v' v(2), of "[0..<n]"] write_bytes_saved [OF ok p]
    by simp
qed

section \<open>Reading the cells\<close>

text \<open>Reading a byte keeps everything that was there and may add one fresh byte.\<close>

definition extends :: "machine \<Rightarrow> page_id \<Rightarrow> u64 set \<Rightarrow> machine \<Rightarrow> bool" where
  "extends s p A s' \<longleftrightarrow>
     length (page_objs (mc_memory s')) = length (page_objs (mc_memory s)) \<and>
     pages (mc_memory s') = pages (mc_memory s) \<and>
     sx_vars (mc_symex s') = sx_vars (mc_symex s) \<and>
     (\<forall>q < length (page_objs (mc_memory s)). \<forall>a.
        page_find (mc_memory s') q a = page_find (mc_memory s) q a \<or>
        q = p \<and> a \<in> A \<and> page_find (mc_memory s) q a = None)"

lemma extends_refl: "extends s p A s"
  by (simp add: extends_def)

lemma extends_trans:
  "extends s p A s' \<Longrightarrow> extends s' p B s'' \<Longrightarrow> extends s p (A \<union> B) s''"
  unfolding extends_def by (metis UnI1 UnI2)

lemma extends_find:
  "extends s p A s' \<Longrightarrow> q < length (page_objs (mc_memory s)) \<Longrightarrow> page_find (mc_memory s) q a = Some c \<Longrightarrow>
     page_find (mc_memory s') q a = Some c"
  unfolding extends_def by (metis option.distinct(1))

lemma read_byte_ok:
  assumes ok: "mem_ok (mc_memory s) live" and cells: "cells_ok (mc_memory s)"
    and p: "p < length (page_objs (mc_memory s))"
  obtains c s' where "read_byte p a s = Inr (c, s')"
    and "mem_ok (mc_memory s') live" and "cells_ok (mc_memory s')"
    and "extends s p {a} s'" and "page_find (mc_memory s') p a = Some c"
    and "\<And>ss. ss \<in> set live \<Longrightarrow> saved_view (mc_memory s') ss = saved_view (mc_memory s) ss"
proof (cases "page_find (mc_memory s) p a")
  case (Some c)
  then show ?thesis using ok cells extends_refl by (intro that [of c s]) (simp_all add: read_byte_def)
next
  case None
  let ?c = "byte_cell (value_new (BwConst (sx_fresh (mc_symex s)) (uninit_name p a) 8))"
  let ?s = "s\<lparr>mc_symex := (mc_symex s)\<lparr>sx_fresh := Suc (sx_fresh (mc_symex s))\<rparr>,
    mc_memory := page_write p a ?c (mc_memory s)\<rparr>"
  have c: "cell_ok ?c" by (simp add: byte_cell_ok)
  have "read_byte p a s = Inr (?c, ?s)"
    using None by (simp add: read_byte_def sx_symbolic_eq)
  moreover have "extends s p {a} ?s"
    using page_write_find [OF ok p] None by (simp add: extends_def)
  moreover have "page_find (mc_memory ?s) p a = Some ?c"
    using page_write_find [OF ok p p] by simp
  ultimately show ?thesis
    using page_write_ok [OF ok p] cells_ok_write [OF cells ok p c] page_write_saved [OF ok p]
    by (intro that [of ?c ?s]) simp_all
qed

lemma read_cells_ok:
  assumes "mem_ok (mc_memory s) live" and "cells_ok (mc_memory s)" and "p < length (page_objs (mc_memory s))"
  shows "\<exists>cs s'. read_cells p as s = Inr (cs, s') \<and>
    mem_ok (mc_memory s') live \<and> cells_ok (mc_memory s') \<and> extends s p (set as) s' \<and>
    (\<forall>ss \<in> set live. saved_view (mc_memory s') ss = saved_view (mc_memory s) ss) \<and>
    map Some cs = map (page_find (mc_memory s') p) as"
  using assms
proof (induction as arbitrary: s)
  case Nil
  then show ?case by (simp add: extends_refl)
next
  case (Cons a as)
  obtain c s1 where c: "read_byte p a s = Inr (c, s1)" "mem_ok (mc_memory s1) live"
      "cells_ok (mc_memory s1)" "extends s p {a} s1" "page_find (mc_memory s1) p a = Some c"
      "\<And>ss. ss \<in> set live \<Longrightarrow> saved_view (mc_memory s1) ss = saved_view (mc_memory s) ss"
    using read_byte_ok [OF Cons.prems] by blast
  have p1: "p < length (page_objs (mc_memory s1))" using c(4) Cons.prems(3) by (simp add: extends_def)
  obtain cs s2 where cs: "read_cells p as s1 = Inr (cs, s2)" "mem_ok (mc_memory s2) live"
      "cells_ok (mc_memory s2)" "extends s1 p (set as) s2"
      "\<forall>ss \<in> set live. saved_view (mc_memory s2) ss = saved_view (mc_memory s1) ss"
      "map Some cs = map (page_find (mc_memory s2) p) as"
    using Cons.IH [OF c(2,3) p1] by blast
  have "page_find (mc_memory s2) p a = Some c" using extends_find [OF cs(4) p1 c(5)] .
  moreover have "extends s p (set (a # as)) s2" using extends_trans [OF c(4) cs(4)] by simp
  ultimately show ?case using c cs by simp
qed

section \<open>Joining the bytes\<close>

lemma uint_cell_byte: "uint (cell_byte env c) = take_bit 8 (drop_bit (8 * which_byte c) (den env (original_val c)))"
  by (simp add: cell_byte_def)

lemma extract_byte_ok:
  assumes "cell_ok c"
  obtains b where "extract_byte c = Inr b" and "bv_val 8 b" and "\<And>env. den env b = uint (cell_byte env c)"
proof -
  have "8 * which_byte c + 7 < 8 * total_size c" using assms by (simp add: cell_ok_def)
  moreover have "8 * which_byte c + 7 - 8 * which_byte c + 1 = (8 :: nat)" by simp
  ultimately show ?thesis
    using v_extract_ok [of "8 * total_size c" "original_val c" "8 * which_byte c" "8 * which_byte c + 7"]
      assms that unfolding cell_ok_def extract_byte_def uint_cell_byte by (metis le_add1 mult.commute)
qed

lemma concat_bytes_ok:
  assumes "bv_val (8 * length bs) v" and "\<forall>c \<in> set cs. cell_ok c"
    and "\<And>env. den env v = le_val (map (cell_byte env) bs)"
  shows "\<exists>r. concat_bytes v cs = Inr r \<and> bv_val (8 * (length bs + length cs)) r \<and>
    (\<forall>env. den env r = le_val (map (cell_byte env) (rev cs @ bs)))"
  using assms
proof (induction cs arbitrary: v bs)
  case (Cons c cs)
  obtain b where b: "extract_byte c = Inr b" "bv_val 8 b" "\<And>env. den env b = uint (cell_byte env c)"
    using extract_byte_ok [of c] Cons.prems(2) by auto
  obtain v' where v': "v_concat v b = Inr v'" "bv_val (8 * length bs + 8) v'"
      "\<And>env. den env v' = push_bit 8 (den env v) OR den env b"
    using v_concat_ok [OF Cons.prems(1) b(2)] by blast
  have "extracted_cache c = None" using Cons.prems(2) by (simp add: cell_ok_def)
  then have step: "concat_bytes v (c # cs) = concat_bytes v' cs" using b v' by simp
  have "bv_val (8 * length (c # bs)) v'" using v'(2) by (simp add: algebra_simps)
  moreover have "den env v' = le_val (map (cell_byte env) (c # bs))" for env
    using v'(3) b(3) Cons.prems(3) by simp
  ultimately show ?case using Cons.IH [of "c # bs" v'] Cons.prems(2) step by simp
qed simp

text \<open>When the cells are consecutive bytes of one value, the bytes are those of a part of it.\<close>

lemma whole_cells_bytes:
  assumes merged: "bytes_can_be_merged cells lst" and aligned: "bytes_aligned cells lst"
    and lst: "lst = hd cells" "cells \<noteq> []"
  shows "which_byte (last cells) + length cells = Suc (which_byte lst)"
    and "map (cell_byte env) (rev cells) =
      le_bytes (length cells) (drop_bit (8 * which_byte (last cells)) (den env (original_val lst)))"
proof -
  let ?n = "length cells"
  have which: "int (which_byte (cells ! i)) = int (which_byte lst) - int i" if "i < ?n" for i
    using aligned that by (simp add: bytes_aligned_def list_all2_conv_all_nth)
  have "last cells = cells ! (?n - 1)" using lst by (simp add: last_conv_nth)
  then have low: "int (which_byte (last cells)) = int (which_byte lst) - int (?n - 1)"
    using which [of "?n - 1"] lst by (cases cells) simp_all
  then show "which_byte (last cells) + ?n = Suc (which_byte lst)" using lst by (cases cells) auto
  show "map (cell_byte env) (rev cells) =
      le_bytes ?n (drop_bit (8 * which_byte (last cells)) (den env (original_val lst)))"
  proof (rule nth_equalityI)
    fix i assume "i < length (map (cell_byte env) (rev cells))"
    then have i: "i < ?n" by simp
    let ?c = "cells ! (?n - Suc i)"
    have "?n - Suc i < ?n" using i by simp
    from which [OF this] have "which_byte ?c = which_byte (last cells) + i"
      using low i by (simp add: of_nat_diff)
    moreover have "v_term (original_val ?c) = v_term (original_val lst)"
      using merged i by (simp add: bytes_can_be_merged_def)
    ultimately show "map (cell_byte env) (rev cells) ! i =
        le_bytes ?n (drop_bit (8 * which_byte (last cells)) (den env (original_val lst))) ! i"
      using i by (simp add: rev_nth cell_byte_def nth_le_bytes den_def drop_bit_drop_bit algebra_simps)
  qed simp
qed

lemma join_cells_ok:
  assumes len: "length cells = n" and n: "0 < n" and ok: "\<forall>c \<in> set cells. cell_ok c"
  shows "\<exists>v. join_cells (8 * n) n cells = Inr v \<and> bv_val (8 * n) v \<and>
    (\<forall>env. den env v = le_val (map (cell_byte env) (rev cells)))"
proof -
  let ?l = "hd cells" and ?low = "which_byte (last cells)"
  have ne: "cells \<noteq> []" using len n by auto
  then have l: "cell_ok ?l" using ok by simp
  show ?thesis
  proof (cases "bytes_can_be_merged cells ?l \<and> bytes_aligned cells ?l")
    case whole: True
    have low: "?low + n = Suc (which_byte ?l)"
      using whole_cells_bytes(1) [of cells ?l] whole ne len by simp
    have val: "le_val (map (cell_byte env) (rev cells)) =
        take_bit (8 * n) (drop_bit (8 * ?low) (den env (original_val ?l)))" for env
      using whole_cells_bytes(2) [of cells ?l env] whole ne len by (simp add: le_val_le_bytes)
    have in_val: "?low + n \<le> total_size ?l" using low l by (simp add: cell_ok_def)
    show ?thesis
    proof (cases "n = total_size ?l")
      case True
      then have "?low = 0" using in_val by simp
      then have "den env (original_val ?l) = le_val (map (cell_byte env) (rev cells))" for env
        using val [of env] l True by (simp add: cell_ok_def)
      then show ?thesis using whole True len l by (simp add: join_cells_def Let_def cell_ok_def)
    next
      case False
      have hi: "8 * ?low + 8 * n - 1 < 8 * total_size ?l" using in_val n by simp
      then have "8 * ?low + 8 * n - 1 < 2 ^ 32" using l by (simp add: cell_ok_def)
      then have high: "(?low * 8 + 8 * n + (2 ^ 32 - 1)) mod 2 ^ 32 = 8 * ?low + 8 * n - 1"
        using n by (simp add: mod_if algebra_simps)
      have "join_cells (8 * n) n cells = v_extract (8 * ?low + 8 * n - 1) (8 * ?low) (original_val ?l)"
        using whole False len high by (simp add: join_cells_def Let_def mult.commute)
      then show ?thesis
        using v_extract_ok [of "8 * total_size ?l" "original_val ?l" "8 * ?low" "8 * ?low + 8 * n - 1"]
          l hi n by (auto simp: cell_ok_def val)
    qed
  next
    case False
    obtain b where b: "extract_byte ?l = Inr b" "bv_val 8 b" "\<And>env. den env b = uint (cell_byte env ?l)"
      using extract_byte_ok [OF l] by blast
    have "rev (tl cells) @ [?l] = rev cells" using ne by (cases cells) simp_all
    moreover have "length [?l] + length (tl cells) = n" using len n by simp
    moreover have "\<exists>r. concat_bytes b (tl cells) = Inr r \<and> bv_val (8 * (length [?l] + length (tl cells))) r \<and>
      (\<forall>env. den env r = le_val (map (cell_byte env) (rev (tl cells) @ [?l])))"
      using b ok ne by (intro concat_bytes_ok) (auto dest: list.set_sel(2))
    ultimately have "\<exists>r. concat_bytes b (tl cells) = Inr r \<and> bv_val (8 * n) r \<and>
      (\<forall>env. den env r = le_val (map (cell_byte env) (rev cells)))" by metis
    moreover have "join_cells (8 * n) n cells = concat_bytes b (tl cells)"
      using False len b by (auto simp: join_cells_def Let_def)
    ultimately show ?thesis by simp
  qed
qed

text \<open>A read through a concrete pointer.\<close>

definition byte_addrs :: "u64 \<Rightarrow> nat \<Rightarrow> u64 list" where
  "byte_addrs base n = map (\<lambda>i. base + of_nat i) [0..<n]"

lemma read_order:
  assumes "0 < n"
  shows "(base + of_nat n - 1) # map (\<lambda>j. base + of_nat j) (rev [0..<n - 1]) = rev (byte_addrs base n)"
proof -
  obtain k where "n = Suc k" using assms by (cases n) auto
  then show ?thesis by (simp add: byte_addrs_def rev_map)
qed

lemma mem_read_ok:
  assumes ok: "mem_ok (mc_memory s) live" and cells: "cells_ok (mc_memory s)"
    and addr: "as_uint64 (v_simplify S addr) = Inr base" "v_page addr = Some p"
    and p: "p < length (page_objs (mc_memory s))" and n: "0 < n"
  obtains v s' where "mem_read S addr (8 * n) s = Inr (v, s')" and "bv_val (8 * n) v"
    and "mem_ok (mc_memory s') live" and "cells_ok (mc_memory s')"
    and "extends s p (set (byte_addrs base n)) s'"
    and "\<And>ss. ss \<in> set live \<Longrightarrow> saved_view (mc_memory s') ss = saved_view (mc_memory s) ss"
    and "\<And>env. den env v = le_val (map (mem_byte env (mc_memory s') p) (byte_addrs base n))"
    and "\<And>a. a \<in> set (byte_addrs base n) \<Longrightarrow> page_find (mc_memory s') p a \<noteq> None"
proof -
  let ?as = "rev (byte_addrs base n)"
  obtain cs s' where cs: "read_cells p ?as s = Inr (cs, s')" "mem_ok (mc_memory s') live"
      "cells_ok (mc_memory s')" "extends s p (set ?as) s'"
      "\<forall>ss \<in> set live. saved_view (mc_memory s') ss = saved_view (mc_memory s) ss"
      "map Some cs = map (page_find (mc_memory s') p) ?as"
    using read_cells_ok [OF ok cells p, of ?as] by blast
  have len: "length cs = n" using map_eq_imp_length_eq [OF cs(6)] by (simp add: byte_addrs_def)
  have p': "p < length (page_objs (mc_memory s'))" using cs(4) p by (simp add: extends_def)
  have find: "page_find (mc_memory s') p (?as ! i) = Some (cs ! i)" if "i < n" for i
    using arg_cong [OF cs(6), of "\<lambda>xs. xs ! i"] that len by (simp add: byte_addrs_def)
  then have "\<forall>c \<in> set cs. cell_ok c"
    using cells_ok_find [OF cs(3,2) p'] len by (metis in_set_conv_nth)
  then obtain v where v: "join_cells (8 * n) n cs = Inr v" "bv_val (8 * n) v"
      "\<And>env. den env v = le_val (map (cell_byte env) (rev cs))"
    using join_cells_ok [OF len n] by blast
  have "map (cell_byte env) cs = map (mem_byte env (mc_memory s') p) ?as" for env
    using find len by (intro nth_equalityI) (simp_all add: mem_byte_def byte_addrs_def)
  then have "map (cell_byte env) (rev cs) = map (mem_byte env (mc_memory s') p) (byte_addrs base n)" for env
    by (simp flip: rev_map)
  moreover have "mem_read S addr (8 * n) s = Inr (v, s')"
    using addr as_uint64_is_concrete [OF addr(1)] cs(1) v(1) n p
    by (simp add: mem_read_def page_of_def read_order [simplified] del: read_cells.simps)
  moreover have "page_find (mc_memory s') p a \<noteq> None" if "a \<in> set (byte_addrs base n)" for a
    using arg_cong [OF cs(6), of set] that by auto
  ultimately show ?thesis using cs v by (intro that [of v s']) simp_all
qed

section \<open>A small machine\<close>

definition demo_machine :: machine where
  "demo_machine = \<lparr>mc_symex = symex_init, mc_memory = demo_shared\<rparr>"

definition demo_ptr :: vexa_value where
  "demo_ptr = pointer_new (value_new (BwBv 64 5)) 0"

definition demo_word :: vexa_value where
  "demo_word = value_new (BwConst 9 ''x'' 16)"

lemma demo_machine_ok:
  "mem_ok (mc_memory demo_machine) [[(0, 0)]]" "cells_ok (mc_memory demo_machine)"
  "0 < length (page_objs (mc_memory demo_machine))"
proof -
  show "mem_ok (mc_memory demo_machine) [[(0, 0)]]" by (simp add: demo_machine_def demo_shared_ok)
  have "storages demo_shared = [[5 \<mapsto> demo_cell 1]]"
    "map initial_memory (page_objs demo_shared) = [Map.empty]"
    by (simp_all add: demo_shared_def demo_mem_def page_write_def mem_allocate_def memory_init_def
        take_snapshot_def Let_def)
  then show "cells_ok (mc_memory demo_machine)"
    by (auto simp: demo_machine_def cells_ok_def demo_cell_def byte_cell_ok map_eq_Cons_conv split: if_splits)
  show "0 < length (page_objs (mc_memory demo_machine))"
    by (simp add: demo_machine_def demo_simps)
qed

lemma demo_ptr_ok: "as_uint64 (v_simplify S demo_ptr) = Inr 5" "v_page demo_ptr = Some 0"
  by (simp_all add: demo_ptr_def pointer_new_def value_new_def v_simplify_def as_uint64_def
      is_concrete_def term_as_uint64_def term_bv_size_def)

lemma demo_word_ok: "bv_val (8 * 2) demo_word" "den env demo_word = take_bit 16 (env 9)"
  by (simp_all add: demo_word_def)

section \<open>Properties\<close>

lemma simplified_cell_byte:
  assumes "sound_solver S" and "bv_val (8 * n) v" and "i < n"
  shows "cell_byte env (value_cell (v_simplify S v) n i) = le_bytes n (den env v) ! i"
  using assms by (simp add: cell_byte_def value_cell_def nth_le_bytes)

lemma written_byte:
  assumes "sound_solver S" and "bv_val (8 * n) v" and "written m p base (v_simplify S v) n m'"
    and "q < length (page_objs m)"
  shows "mem_byte env m' q b = (if q = p \<and> unat (b - base) < n then le_bytes n (den env v) ! unat (b - base)
    else mem_byte env m q b)"
  using assms by (simp add: written_def mem_byte_def simplified_cell_byte)

text \<open>a write of up to 255 bytes through a concrete pointer stores the bytes of the value in
  little-endian order from the address upwards, wrapping at the end of the address space, changes no
  other byte of any page and no live snapshot, and never fails.\<close>

theorem memory_write_stores_bytes:
  assumes "sound_solver S" and "mem_ok (mc_memory s) live" and "cells_ok (mc_memory s)"
    and "as_uint64 (v_simplify S addr) = Inr base" and "v_page addr = Some p"
    and "p < length (page_objs (mc_memory s))" and "bv_val (8 * n) v" and "n < 256"
  shows "\<exists>m'. mem_write S addr v s = Inr (s\<lparr>mc_memory := m'\<rparr>) \<and> mem_ok m' live \<and> cells_ok m' \<and>
    (\<forall>ss \<in> set live. saved_view m' ss = saved_view (mc_memory s) ss) \<and>
    (\<forall>env. \<forall>q < length (page_objs (mc_memory s)). \<forall>b. mem_byte env m' q b =
       (if q = p \<and> unat (b - base) < n then le_bytes n (den env v) ! unat (b - base)
        else mem_byte env (mc_memory s) q b))"
proof -
  obtain m' where m': "mem_write S addr v s = Inr (s\<lparr>mc_memory := m'\<rparr>)" "mem_ok m' live" "cells_ok m'"
      "\<And>ss. ss \<in> set live \<Longrightarrow> saved_view m' ss = saved_view (mc_memory s) ss"
      "written (mc_memory s) p base (v_simplify S v) n m'"
    using mem_write_ok [OF assms] by metis
  then show ?thesis using written_byte [OF assms(1,7) m'(5)] by (intro exI [of _ m']) simp
qed

theorem memory_write_stores_bytes_witness:
  "\<exists>m'. mem_write reference_solver demo_ptr demo_word demo_machine = Inr (demo_machine\<lparr>mc_memory := m'\<rparr>) \<and>
     (\<forall>env. mem_byte env m' 0 6 = le_bytes 2 (den env demo_word) ! 1) \<and>
     saved_view m' [(0, 0)] = saved_view demo_shared [(0, 0)]"
  using memory_write_stores_bytes [OF reference_solver_sound demo_machine_ok(1,2) demo_ptr_ok
      demo_machine_ok(3) demo_word_ok(1)]
  by (auto simp: demo_machine_def demo_simps)

text \<open>C34: a read of \<open>n\<close> bytes through a concrete pointer never fails and returns a value of \<open>8 n\<close>
  bits that is, under every assignment, the little-endian number of the bytes at these addresses;
  the only change is that bytes nobody wrote are now fresh symbols.\<close>

theorem memory_read_joins_bytes:
  assumes "mem_ok (mc_memory s) live" and "cells_ok (mc_memory s)"
    and "as_uint64 (v_simplify S addr) = Inr base" and "v_page addr = Some p"
    and "p < length (page_objs (mc_memory s))" and "0 < n"
  shows "\<exists>v s'. mem_read S addr (8 * n) s = Inr (v, s') \<and> bv_val (8 * n) v \<and>
    (\<forall>env. den env v = le_val (map (mem_byte env (mc_memory s') p) (byte_addrs base n))) \<and>
    mem_ok (mc_memory s') live \<and> cells_ok (mc_memory s') \<and>
    (\<forall>ss \<in> set live. saved_view (mc_memory s') ss = saved_view (mc_memory s) ss) \<and>
    extends s p (set (byte_addrs base n)) s'"
proof -
  obtain v s' where "mem_read S addr (8 * n) s = Inr (v, s')" "bv_val (8 * n) v"
    "mem_ok (mc_memory s') live" "cells_ok (mc_memory s')" "extends s p (set (byte_addrs base n)) s'"
    "\<And>ss. ss \<in> set live \<Longrightarrow> saved_view (mc_memory s') ss = saved_view (mc_memory s) ss"
    "\<And>env. den env v = le_val (map (mem_byte env (mc_memory s') p) (byte_addrs base n))"
    using mem_read_ok [OF assms] by metis
  then show ?thesis by blast
qed

theorem memory_read_joins_bytes_witness:
  "\<exists>v s'. mem_read reference_solver demo_ptr 16 demo_machine = Inr (v, s') \<and> bv_val 16 v \<and>
    (\<forall>env. den env v = le_val [mem_byte env (mc_memory s') 0 5, mem_byte env (mc_memory s') 0 6])"
  using memory_read_joins_bytes [OF demo_machine_ok(1,2) demo_ptr_ok(1) [of reference_solver] demo_ptr_ok(2) demo_machine_ok(3), of 2]
  by (auto simp: byte_addrs_def upt_rec)

lemma written_bytes_joined:
  assumes "sound_solver S" and "bv_val (8 * n) v" and "n < 256"
    and w: "written m p base (v_simplify S v) n m'" and p: "p < length (page_objs m)"
  shows "map (mem_byte env m' p) (byte_addrs base n) = le_bytes n (den env v)"
proof (rule nth_equalityI)
  fix i assume "i < length (map (mem_byte env m' p) (byte_addrs base n))"
  then have "i < n" by (simp add: byte_addrs_def)
  then show "map (mem_byte env m' p) (byte_addrs base n) ! i = le_bytes n (den env v) ! i"
    using written_byte [OF assms(1,2) w p] assms(3)
    by (simp add: byte_addrs_def unat_of_nat take_bit_nat_eq_self)
qed (simp add: byte_addrs_def)

lemma written_extends:
  assumes w: "written m p base v n (mc_memory s)" and e: "extends s p A s'" and n: "n < 256"
    and p: "p < length (page_objs m)" and len: "length (page_objs (mc_memory s)) = length (page_objs m)"
  shows "map (mem_byte env (mc_memory s') p) (byte_addrs base n)
    = map (mem_byte env (mc_memory s) p) (byte_addrs base n)"
proof -
  have "page_find (mc_memory s') p (base + of_nat i) = page_find (mc_memory s) p (base + of_nat i)" if "i < n" for i
    using extends_find [OF e, of p "base + of_nat i"] w that p n len
    by (simp add: written_def unat_of_nat take_bit_nat_eq_self)
  then show ?thesis by (simp add: byte_addrs_def mem_byte_def)
qed



text \<open>a write through a pointer that does not simplify to a number, and a write of a value of
  fewer than eight bits, leave the whole machine as it is and report success.\<close>

theorem memory_write_dropped:
  assumes "\<not> is_concrete (v_simplify S addr) \<or>
    as_uint64 (v_simplify S addr) = Inr base \<and> bv_val w v \<and> w < 8"
  shows "mem_write S addr v s = Inr s"
  using assms as_uint64_is_concrete by (auto simp: mem_write_def)

theorem memory_write_dropped_witness:
  "mem_write reference_solver demo_ptr (value_new (BwBv 1 1)) demo_machine = Inr demo_machine"
  using memory_write_dropped [of reference_solver demo_ptr 5 1 "value_new (BwBv 1 1)" demo_machine]
    demo_ptr_ok(1) by simp

end
