(* ===== verification/Ir.thy ===== *)
theory Ir
  imports Memory_Bytes Intrinsics
begin

text \<open>
  The LLVM function that is being lifted, and \<open>ir::builder\<close> (builder.hpp, builder.cpp), which adds
  instructions to it and keeps their symbolic values up to date. Only what VEXA reads back is kept of
  the LLVM data structures: the instructions of every block in order with their operands, the size of
  the type of every value, the insert point and the names of the symbol table. The constant folder of
  \<open>IRBuilder\<close> is left out: an instruction is made for constant operands too.
\<close>

section \<open>Instructions\<close>

datatype bin_op =
    Add | Sub | Mul | UDiv | URem | SDiv | SRem | And | Or | Xor | Shl | LShr | AShr | Other_op string

datatype icmp_pred =
    ICMP_EQ | ICMP_NE | ICMP_UGT | ICMP_UGE | ICMP_ULT | ICMP_ULE
  | ICMP_SGT | ICMP_SGE | ICMP_SLT | ICMP_SLE | Other_pred string

type_synonym block_id = nat

text \<open>The callees that the emulator tells apart; the number of a memory intrinsic is its width.\<close>

datatype callee =
    Llvm_intrinsic intrinsic_id
  | Write_memory nat
  | Read_memory nat
  | Sync_hyper_call
  | Ordering_intrinsic
  | Unknown_callee string

datatype ir_inst =
    IBinary bin_op llvm_value llvm_value
  | IICmp icmp_pred llvm_value llvm_value
  | IZExt nat nat llvm_value
  | ISExt nat nat llvm_value
  | ITrunc nat nat llvm_value
  | ISelect llvm_value llvm_value llvm_value
  | IFreeze llvm_value
  | IExtractElement nat nat llvm_value llvm_value
  | IAlloca nat
  | IGep llvm_value "u64 option"
  | IGepValue llvm_value llvm_value
  | IIntToPtr llvm_value
  | IStore llvm_value llvm_value
  | ILoad nat llvm_value
  | ICall callee "llvm_value list"
  | IBr block_id
  | ICondBr llvm_value block_id block_id
  | IRet llvm_value
  | IPhi nat "(llvm_value \<times> block_id) list"
  | IUnreachable
  | IOther string

fun is_terminator :: "ir_inst \<Rightarrow> bool" where
  "is_terminator (IBr b) = True"
| "is_terminator (ICondBr c a b) = True"
| "is_terminator (IRet v) = True"
| "is_terminator IUnreachable = True"
| "is_terminator _ = False"

text \<open>An instruction is the object of its number; its result is the LLVM value of that number.\<close>

type_synonym ir_node = "nat \<times> ir_inst"

text \<open>An insert point: before an instruction of a block, or at the end of it.\<close>

type_synonym insert_point = "block_id \<times> nat option"

record ir_builder =
  ir_next :: nat
  ir_sizes :: "nat \<Rightarrow> nat"
  ir_names :: "string \<rightharpoonup> llvm_value"
  ir_blocks :: "ir_node list list"
  ir_ip :: insert_point
  insert_points :: "insert_point list"
  to_delete :: "nat list"

definition primitive_size :: "ir_builder \<Rightarrow> llvm_value \<Rightarrow> nat" where
  "primitive_size b v = (case v of LConstantInt w n \<Rightarrow> w | LValue i \<Rightarrow> ir_sizes b i)"

section \<open>Building\<close>

fun insert_before :: "nat option \<Rightarrow> ir_node \<Rightarrow> ir_node list \<Rightarrow> ir_node list" where
  "insert_before pos node [] = [node]"
| "insert_before pos node (x # xs) =
     (if pos = Some (fst x) then node # x # xs else x # insert_before pos node xs)"

text \<open>\<open>IRBuilder::Insert\<close> of an instruction whose type has \<open>bits\<close> bits.\<close>

definition ir_insert :: "ir_inst \<Rightarrow> nat \<Rightarrow> ir_builder \<Rightarrow> llvm_value \<times> ir_builder" where
  "ir_insert inst bits b =
     (let i = ir_next b; bb = fst (ir_ip b) in
      (LValue i,
       b\<lparr>ir_next := Suc i, ir_sizes := (ir_sizes b)(i := bits),
         ir_blocks := (ir_blocks b)[bb := insert_before (snd (ir_ip b)) (i, inst) (ir_blocks b ! bb)]\<rparr>))"

definition set_insert_point :: "insert_point \<Rightarrow> ir_builder \<Rightarrow> ir_builder" where
  "set_insert_point ip b = b\<lparr>ir_ip := ip\<rparr>"

definition basic_block :: "ir_builder \<Rightarrow> block_id \<times> ir_builder" where
  "basic_block b = (length (ir_blocks b), b\<lparr>ir_blocks := ir_blocks b @ [[]]\<rparr>)"

definition push_ip :: "ir_builder \<Rightarrow> ir_builder" where
  "push_ip b = b\<lparr>insert_points := ir_ip b # insert_points b\<rparr>"

definition pop_ip :: "ir_builder \<Rightarrow> ir_builder res" where
  "pop_ip b =
     (case insert_points b of [] \<Rightarrow> Inl (Assert_failed ''!insert_points.empty()'')
      | ip # ips \<Rightarrow> Inr (b\<lparr>ir_ip := ip, insert_points := ips\<rparr>))"

definition deleteLater :: "nat \<Rightarrow> ir_builder \<Rightarrow> ir_builder" where
  "deleteLater i b = b\<lparr>to_delete := to_delete b @ [i]\<rparr>"

definition eraseDeletedInstructions :: "ir_builder \<Rightarrow> ir_builder" where
  "eraseDeletedInstructions b =
     b\<lparr>ir_blocks := map (filter (\<lambda>node. fst node \<notin> set (to_delete b))) (ir_blocks b), to_delete := []\<rparr>"

definition instr_count :: "ir_builder \<Rightarrow> nat" where
  "instr_count b = sum_list (map length (ir_blocks b))"

text \<open>The instruction after a given one, as an insert point (\<open>getNextNode\<close>).\<close>

fun next_in :: "nat \<Rightarrow> ir_node list \<Rightarrow> nat option option" where
  "next_in i [] = None"
| "next_in i (x # xs) =
     (if fst x = i then Some (case xs of [] \<Rightarrow> None | y # ys \<Rightarrow> Some (fst y)) else next_in i xs)"

fun next_node_from :: "nat \<Rightarrow> block_id \<Rightarrow> ir_node list list \<Rightarrow> insert_point option" where
  "next_node_from i bb [] = None"
| "next_node_from i bb (xs # xss) =
     (case next_in i xs of Some pos \<Rightarrow> Some (bb, pos) | None \<Rightarrow> next_node_from i (Suc bb) xss)"

definition next_node :: "ir_builder \<Rightarrow> nat \<Rightarrow> insert_point option" where
  "next_node b i = next_node_from i 0 (ir_blocks b)"

text \<open>\<open>replaceAllUsesWith\<close>.\<close>

definition subst_value :: "llvm_value \<Rightarrow> llvm_value \<Rightarrow> llvm_value \<Rightarrow> llvm_value" where
  "subst_value old new v = (if v = old then new else v)"

fun map_operands :: "(llvm_value \<Rightarrow> llvm_value) \<Rightarrow> ir_inst \<Rightarrow> ir_inst" where
  "map_operands f (IBinary op a b) = IBinary op (f a) (f b)"
| "map_operands f (IICmp p a b) = IICmp p (f a) (f b)"
| "map_operands f (IZExt s d a) = IZExt s d (f a)"
| "map_operands f (ISExt s d a) = ISExt s d (f a)"
| "map_operands f (ITrunc s d a) = ITrunc s d (f a)"
| "map_operands f (ISelect c a b) = ISelect (f c) (f a) (f b)"
| "map_operands f (IFreeze a) = IFreeze (f a)"
| "map_operands f (IExtractElement n w a i) = IExtractElement n w (f a) (f i)"
| "map_operands f (IAlloca n) = IAlloca n"
| "map_operands f (IGep p off) = IGep (f p) off"
| "map_operands f (IGepValue p off) = IGepValue (f p) (f off)"
| "map_operands f (IIntToPtr a) = IIntToPtr (f a)"
| "map_operands f (IStore a p) = IStore (f a) (f p)"
| "map_operands f (ILoad n p) = ILoad n (f p)"
| "map_operands f (ICall c args) = ICall c (map f args)"
| "map_operands f (IBr bb) = IBr bb"
| "map_operands f (ICondBr c x y) = ICondBr (f c) x y"
| "map_operands f (IRet a) = IRet (f a)"
| "map_operands f (IPhi w incoming) = IPhi w (map (\<lambda>e. (f (fst e), snd e)) incoming)"
| "map_operands f IUnreachable = IUnreachable"
| "map_operands f (IOther s) = IOther s"

definition replaceAllUsesWith :: "llvm_value \<Rightarrow> llvm_value \<Rightarrow> ir_builder \<Rightarrow> ir_builder" where
  "replaceAllUsesWith old new b =
     b\<lparr>ir_blocks := map (map (\<lambda>(i, inst). (i, map_operands (subst_value old new) inst))) (ir_blocks b)\<rparr>"

end
