(* ===== verification/Emulator.thy ===== *)
theory Emulator
  imports Ir Context Amd64
begin

text \<open>
  The state of \<open>vexa::cpu\<close> (arch.hpp) and \<open>cpu::emulator\<close> (emulator.cpp), which runs the lifted
  LLVM instructions on symbolic values: the value of every instruction goes to the table of
  \<open>symex\<close>, loads and stores go to the memory, and accesses through addresses that the solver can
  enumerate become chains of selections.
\<close>

section \<open>The state of the cpu\<close>

text \<open>A register of remill: where it lies in the state, its size in bytes, and whether it is a part of
  another register.\<close>

record register =
  reg_name :: string
  reg_offset :: u64
  reg_size :: nat
  reg_has_parent :: bool

text \<open>\<open>dual_value\<close> and \<open>dual_pointer\<close>: an LLVM value with its symbolic value.\<close>

record dual_value =
  d_l :: llvm_value
  d_v :: vexa_value

record cpu_snapshot =
  ss_mem :: mem_state
  ss_pc :: u64
  ss_vpc :: u64
  ss_bb :: block_id
  ss_vjmp :: bool
  ss_path :: "u64 \<rightharpoonup> block_id"
  ss_path_constraints :: "bw_term list"

record cpu =
  cp_machine :: machine
  cp_ir :: ir_builder
  cp_options :: options
  cp_registers :: "(reg \<times> register) list"
  path_constraints :: "bw_term list"
  unexplored_paths :: "cpu_snapshot list"
  cp_PC :: u64
  cp_VPC :: u64
  cp_VJMP :: bool
  cp_PATH :: "u64 \<rightharpoonup> block_id"
  cp_CFG :: "u64 \<rightharpoonup> block_id"
  cp_VCFG :: "u64 \<rightharpoonup> block_id"
  lifted_count :: nat
  cp_block :: block_id
  cp_mode :: int
  stack_ptr :: dual_value
  mem_ptr :: dual_value
  state_ptr :: dual_value
  next_pc :: llvm_value
  branch_taken :: llvm_value
  global_memory :: page_id
  forked_block :: "block_id option"

abbreviation cp_symex :: "cpu \<Rightarrow> symex" where
  "cp_symex c \<equiv> mc_symex (cp_machine c)"

abbreviation cp_memory :: "cpu \<Rightarrow> memory" where
  "cp_memory c \<equiv> mc_memory (cp_machine c)"

definition cp_set :: "llvm_value \<Rightarrow> vexa_value \<Rightarrow> cpu \<Rightarrow> cpu" where
  "cp_set l v c = c\<lparr>cp_machine := (cp_machine c)\<lparr>mc_symex := sx_set l v (cp_symex c)\<rparr>\<rparr>"

definition cp_get :: "llvm_value \<Rightarrow> cpu \<Rightarrow> vexa_value res" where
  "cp_get l c = sx_get (Some l) (cp_symex c)"

definition cp_read :: "solver \<Rightarrow> vexa_value \<Rightarrow> nat \<Rightarrow> cpu \<Rightarrow> (vexa_value \<times> cpu) res" where
  "cp_read S ptr bits c =
     res_bind (mem_read S ptr bits (cp_machine c)) (\<lambda>(v, s). Inr (v, c\<lparr>cp_machine := s\<rparr>))"

definition cp_write :: "solver \<Rightarrow> vexa_value \<Rightarrow> vexa_value \<Rightarrow> cpu \<Rightarrow> cpu res" where
  "cp_write S ptr v c = res_bind (mem_write S ptr v (cp_machine c)) (\<lambda>s. Inr (c\<lparr>cp_machine := s\<rparr>))"

definition cp_emit :: "ir_inst \<Rightarrow> nat \<Rightarrow> cpu \<Rightarrow> llvm_value \<times> cpu" where
  "cp_emit inst bits c = (case ir_insert inst bits (cp_ir c) of (l, b) \<Rightarrow> (l, c\<lparr>cp_ir := b\<rparr>))"

section \<open>Pages and pointers\<close>

definition stack_size :: int where
  "stack_size = 32768"

text \<open>\<open>cpu::get_page\<close>: small addresses, read as signed numbers, are on the stack.\<close>

definition get_page :: "vexa_value \<Rightarrow> cpu \<Rightarrow> dual_value res" where
  "get_page v c =
     res_bind (as_uint64 v) (\<lambda>a.
       let addr = sint a in
       if (- stack_size) div 2 \<le> addr \<and> addr < stack_size div 2 then Inr (stack_ptr c)
       else Inr (mem_ptr c))"

definition pointer_into :: "vexa_value \<Rightarrow> vexa_value \<Rightarrow> vexa_value res" where
  "pointer_into page off =
     res_bind (v_add page off) (\<lambda>new_v.
       case v_page page of None \<Rightarrow> Inl Null_dereference | Some p \<Rightarrow> sx_pointer (Some new_v) p)"

definition calculate_pointer :: "vexa_value \<Rightarrow> cpu \<Rightarrow> vexa_value res" where
  "calculate_pointer addr c = res_bind (get_page addr c) (\<lambda>page. pointer_into (d_v page) addr)"

text \<open>\<open>builder::inbounds_gep\<close> and \<open>builder::inttoptr\<close>.\<close>

definition inbounds_gep :: "llvm_value \<Rightarrow> llvm_value \<Rightarrow> cpu \<Rightarrow> (dual_value \<times> cpu) res" where
  "inbounds_gep base offset c =
     (case cp_emit (IGepValue base offset) 0 c of (gep, c1) \<Rightarrow>
      res_bind (cp_get base c1) (\<lambda>b.
      case to_ptr b of None \<Rightarrow> Inl Null_dereference
      | Some pb \<Rightarrow>
          res_bind (cp_get offset c1) (\<lambda>off.
          res_bind (pointer_into pb off) (\<lambda>new_p.
          Inr (\<lparr>d_l = gep, d_v = new_p\<rparr>, cp_set gep new_p c1)))))"

definition inttoptr :: "llvm_value \<Rightarrow> page_id \<Rightarrow> cpu \<Rightarrow> (dual_value \<times> cpu) res" where
  "inttoptr v page c =
     (case cp_emit (IIntToPtr v) 0 c of (l, c1) \<Rightarrow>
      res_bind (cp_get v c1) (\<lambda>x.
      res_bind (sx_pointer (Some x) page) (\<lambda>p.
      Inr (\<lparr>d_l = l, d_v = p\<rparr>, cp_set l p c1))))"

definition gep_const :: "nat \<Rightarrow> dual_value \<Rightarrow> u64 \<Rightarrow> cpu \<Rightarrow> (dual_value \<times> cpu) res" where
  "gep_const width page a c = inbounds_gep (d_l page) (LConstantInt width (take_bit width (uint a))) c"

text \<open>\<open>cpu::value_to_pointer\<close>. The address that is turned into a constant in the second case is
  the one that could not be made concrete.\<close>

definition value_to_pointer :: "solver \<Rightarrow> llvm_value \<Rightarrow> cpu \<Rightarrow> (dual_value \<times> cpu) res" where
  "value_to_pointer S addr c0 =
     (let c = c0\<lparr>cp_ir := push_ip (cp_ir c0)\<rparr>; width = primitive_size (cp_ir c0) addr in
      res_bind (cp_get addr c) (\<lambda>v0.
      res_bind (if is_symbolic v0 then v_simplify_under S (path_constraints c) v0 else Inr v0) (\<lambda>v.
      res_bind
        (if is_concrete v then
           res_bind (get_page v c) (\<lambda>page.
           res_bind (as_uint64 v) (\<lambda>a. gep_const width page a c))
         else
           res_bind (possible_values S (path_constraints c) v) (\<lambda>(values, result).
           if values \<noteq> [] then
             res_bind (get_page (sx_value (last values)) c) (\<lambda>page.
             res_bind (as_uint64 v) (\<lambda>a. gep_const width page a c))
           else inttoptr addr (global_memory c) c)) (\<lambda>(ptr, c1).
      res_bind (pop_ip (cp_ir c1)) (\<lambda>b. Inr (ptr, c1\<lparr>cp_ir := b\<rparr>))))))"

section \<open>Registers\<close>

definition find_register :: "reg \<Rightarrow> cpu \<Rightarrow> register res" where
  "find_register r c = (case map_of (cp_registers c) r of None \<Rightarrow> Inl Null_dereference | Some x \<Rightarrow> Inr x)"

definition register_ptr :: "register \<Rightarrow> cpu \<Rightarrow> vexa_value res" where
  "register_ptr x c =
     res_bind (sx_concrete (reg_offset x) 64) (\<lambda>off.
       case v_page (d_v (state_ptr c)) of None \<Rightarrow> Inl Null_dereference
       | Some p \<Rightarrow> sx_pointer (Some off) p)"

definition read_register :: "solver \<Rightarrow> reg \<Rightarrow> cpu \<Rightarrow> (vexa_value \<times> cpu) res" where
  "read_register S r c =
     res_bind (find_register r c) (\<lambda>x.
     res_bind (register_ptr x c) (\<lambda>ptr. cp_read S ptr (reg_size x * 8) c))"

definition write_register :: "solver \<Rightarrow> reg \<Rightarrow> vexa_value \<Rightarrow> cpu \<Rightarrow> cpu res" where
  "write_register S r v c =
     res_bind (find_register r c) (\<lambda>x. res_bind (register_ptr x c) (\<lambda>ptr. cp_write S ptr v c))"

section \<open>Memory accesses through symbolic addresses\<close>

text \<open>One round of the loop of \<open>emulator::write_memory\<close>.\<close>

definition write_candidate ::
  "solver \<Rightarrow> vexa_value \<Rightarrow> vexa_value \<Rightarrow> nat \<Rightarrow> bw_term \<Rightarrow> cpu \<Rightarrow> cpu res" where
  "write_candidate S addr val bits a c =
     (let curr_addr = sx_value a in
      res_bind (calculate_pointer curr_addr c) (\<lambda>curr_ptr.
      res_bind (cp_read S curr_ptr bits c) (\<lambda>(old_val, c1).
      res_bind (v_eq addr curr_addr) (\<lambda>cond.
      res_bind (v_ite cond val old_val) (\<lambda>updated_val.
      cp_write S curr_ptr updated_val c1)))))"

definition emu_write_memory :: "solver \<Rightarrow> vexa_value \<Rightarrow> vexa_value \<Rightarrow> cpu \<Rightarrow> cpu res" where
  "emu_write_memory S addr0 val c =
     (let addr = v_simplify S addr0 in
      if is_symbolic addr then
        res_bind (possible_values S (path_constraints c) addr) (\<lambda>(addresses, result).
          if length addresses = 1 then
            res_bind (calculate_pointer (sx_value (hd addresses)) c) (\<lambda>ptr. cp_write S ptr val c)
          else if 1 < length addresses \<and> result = UNSAT then
            res_bind (v_size val) (\<lambda>bits. res_fold (write_candidate S addr val bits) addresses c)
          else cp_write S addr val c)
      else cp_write S addr val c)"

text \<open>The loop of \<open>emulator::read_memory\<close> after the first address.\<close>

definition read_candidate ::
  "solver \<Rightarrow> vexa_value \<Rightarrow> nat \<Rightarrow> bw_term \<Rightarrow> vexa_value \<times> cpu \<Rightarrow> (vexa_value \<times> cpu) res" where
  "read_candidate S addr bits a st =
     (case st of (final_sym, c) \<Rightarrow>
        let curr_addr = sx_value a in
        res_bind (calculate_pointer curr_addr c) (\<lambda>curr_ptr.
        res_bind (cp_read S curr_ptr bits c) (\<lambda>(curr_sym, c1).
        res_bind (v_eq addr curr_addr) (\<lambda>cond.
        res_bind (v_ite cond curr_sym final_sym) (\<lambda>final'. Inr (final', c1))))))"

definition read_candidates ::
  "solver \<Rightarrow> vexa_value \<Rightarrow> nat \<Rightarrow> bw_term list \<Rightarrow> cpu \<Rightarrow> (vexa_value \<times> cpu) res" where
  "read_candidates S addr bits addresses c =
     res_bind (calculate_pointer (sx_value (hd addresses)) c) (\<lambda>first_ptr.
     res_bind (cp_read S first_ptr bits c) (\<lambda>(first, c1).
     res_fold (read_candidate S addr bits) (tl addresses) (first, c1)))"

definition emu_read_memory :: "solver \<Rightarrow> vexa_value \<Rightarrow> nat \<Rightarrow> cpu \<Rightarrow> (vexa_value \<times> cpu) res" where
  "emu_read_memory S addr0 bits c =
     (let addr = v_simplify S addr0 in
      if is_symbolic addr then
        res_bind (possible_values S (path_constraints c) addr) (\<lambda>(addresses, result).
          if length addresses = 1 then
            res_bind (calculate_pointer (sx_value (hd addresses)) c) (\<lambda>ptr. cp_read S ptr bits c)
          else if 1 < length addresses \<and> result = UNSAT then read_candidates S addr bits addresses c
          else cp_read S addr bits c)
      else cp_read S addr bits c)"

section \<open>Instructions\<close>

definition visitBinaryOperator :: "bin_op \<Rightarrow> llvm_value \<Rightarrow> llvm_value \<Rightarrow> cpu \<Rightarrow> vexa_value res" where
  "visitBinaryOperator op a b c =
     res_bind (cp_get a c) (\<lambda>lhs. res_bind (cp_get b c) (\<lambda>rhs.
       case op of
         Add \<Rightarrow> v_add lhs rhs
       | Sub \<Rightarrow> v_sub lhs rhs
       | Mul \<Rightarrow> v_mul lhs rhs
       | UDiv \<Rightarrow> v_udiv lhs rhs
       | URem \<Rightarrow> v_urem lhs rhs
       | SDiv \<Rightarrow> v_sdiv lhs rhs
       | SRem \<Rightarrow> v_srem lhs rhs
       | And \<Rightarrow> v_and lhs rhs
       | Or \<Rightarrow> v_or lhs rhs
       | Xor \<Rightarrow> v_xor lhs rhs
       | Shl \<Rightarrow> v_shl lhs rhs
       | LShr \<Rightarrow> v_lshr lhs rhs
       | AShr \<Rightarrow> v_ashr lhs rhs
       | Other_op name \<Rightarrow> Inl (Throw (''unsupported binary operator -> '' @ name))))"

definition visitICmpInst :: "icmp_pred \<Rightarrow> llvm_value \<Rightarrow> llvm_value \<Rightarrow> cpu \<Rightarrow> vexa_value res" where
  "visitICmpInst pred a b c =
     res_bind (cp_get a c) (\<lambda>lhs. res_bind (cp_get b c) (\<lambda>rhs.
     res_bind
       (case pred of
          ICMP_EQ \<Rightarrow> v_eq lhs rhs
        | ICMP_NE \<Rightarrow> v_ne lhs rhs
        | ICMP_UGT \<Rightarrow> v_ugt lhs rhs
        | ICMP_UGE \<Rightarrow> v_uge lhs rhs
        | ICMP_ULT \<Rightarrow> v_ult lhs rhs
        | ICMP_ULE \<Rightarrow> v_ule lhs rhs
        | ICMP_SGT \<Rightarrow> v_sgt lhs rhs
        | ICMP_SGE \<Rightarrow> v_sge lhs rhs
        | ICMP_SLT \<Rightarrow> v_slt lhs rhs
        | ICMP_SLE \<Rightarrow> v_sle lhs rhs
        | Other_pred name \<Rightarrow> Inl (Throw (''Unsupported icmp predicate -> '' @ name))) (\<lambda>expr.
     res_bind (mk_term ITE [v_term expr, BwBv 1 1, BwBv 1 0] []) (\<lambda>t. Inr (sx_value t)))))"

text \<open>The extensions and the truncation check the size of the symbolic value against the LLVM type;
  sizes are unsigned, so a destination that is too narrow wraps around.\<close>

definition u64_minus :: "nat \<Rightarrow> nat \<Rightarrow> nat" where
  "u64_minus a b = unat (of_nat a - of_nat b :: u64)"

definition src_of_size :: "nat \<Rightarrow> llvm_value \<Rightarrow> cpu \<Rightarrow> (vexa_value \<times> nat) res" where
  "src_of_size src_bits a c =
     res_bind (cp_get a c) (\<lambda>src. res_bind (v_size src) (\<lambda>sz.
     res_bind (vexa_assert ''src->size() == I.getSrcTy()->getPrimitiveSizeInBits()'' (sz = src_bits))
       (\<lambda>_. Inr (src, sz))))"

definition visitZExtInst :: "nat \<Rightarrow> nat \<Rightarrow> llvm_value \<Rightarrow> cpu \<Rightarrow> vexa_value res" where
  "visitZExtInst src_bits dst_bits a c =
     res_bind (src_of_size src_bits a c) (\<lambda>(src, sz). v_zext (u64_minus dst_bits sz) src)"

definition visitSExtInst :: "nat \<Rightarrow> nat \<Rightarrow> llvm_value \<Rightarrow> cpu \<Rightarrow> vexa_value res" where
  "visitSExtInst src_bits dst_bits a c =
     res_bind (src_of_size src_bits a c) (\<lambda>(src, sz). v_sext (u64_minus dst_bits sz) src)"

definition visitTruncInst :: "nat \<Rightarrow> nat \<Rightarrow> llvm_value \<Rightarrow> cpu \<Rightarrow> vexa_value res" where
  "visitTruncInst src_bits dst_bits a c =
     res_bind (src_of_size src_bits a c) (\<lambda>(src, sz). v_extract (u64_minus dst_bits 1) 0 src)"

definition visitSelectInst :: "llvm_value \<Rightarrow> llvm_value \<Rightarrow> llvm_value \<Rightarrow> cpu \<Rightarrow> vexa_value res" where
  "visitSelectInst cnd a b c =
     res_bind (cp_get cnd c) (\<lambda>cond. res_bind (cp_get a c) (\<lambda>lhs. res_bind (cp_get b c) (\<lambda>rhs.
       v_ite cond lhs rhs)))"

text \<open>\<open>visitExtractElementInst\<close> of a vector of \<open>count\<close> elements of \<open>width\<close> bits: a concrete index
  must be in range; for a symbolic one the elements that the index can name are tried in turn, and the
  result is a fresh constant when none matches. \<open>extract_elements\<close> is the loop.\<close>

fun extract_elements ::
  "vexa_value \<Rightarrow> vexa_value \<Rightarrow> nat \<Rightarrow> nat \<Rightarrow> nat list \<Rightarrow> bw_term \<Rightarrow> bw_term res" where
  "extract_elements vec index isize width [] result = Inr result"
| "extract_elements vec index isize width (e # es) result =
     res_bind (v_extract (e * width + width - 1) (e * width) vec) (\<lambda>element.
     res_bind (sx_concrete (of_nat e) isize) (\<lambda>expected_index.
     res_bind (v_eq index expected_index) (\<lambda>eq.
     res_bind (mk_term ITE [v_term eq, v_term element, result] []) (\<lambda>result'.
     extract_elements vec index isize width es result'))))"

definition visitExtractElementInst ::
  "nat \<Rightarrow> nat \<Rightarrow> llvm_value \<Rightarrow> llvm_value \<Rightarrow> nat \<Rightarrow> cpu \<Rightarrow> (vexa_value \<times> cpu) res" where
  "visitExtractElementInst count width a i self c =
     res_bind (cp_get a c) (\<lambda>vec. res_bind (cp_get i c) (\<lambda>index.
     res_bind (vexa_assert ''element_bit_width'' (width \<noteq> 0)) (\<lambda>_.
     res_bind (v_size vec) (\<lambda>vsize.
     res_bind (vexa_assert ''vector->size() == element_bit_width * element_count'' (vsize = width * count)) (\<lambda>_.
     if is_concrete index then
       res_bind (as_uint64 index) (\<lambda>e.
       res_bind (vexa_assert ''element_index < element_count'' (unat e < count)) (\<lambda>_.
       let low_bit = unat e * width in
       res_bind (v_extract (low_bit + width - 1) low_bit vec) (\<lambda>v. Inr (v, c))))
     else
       res_bind (mk_const (sx_fresh (cp_symex c)) (''extractelement_poison_'' @ show_nat self) width) (\<lambda>poison.
       res_bind (v_size index) (\<lambda>isize.
       let representable_elements = (if isize < 64 then 2 ^ isize else count);
           c1 = c\<lparr>cp_machine := (cp_machine c)
                  \<lparr>mc_symex := (cp_symex c)\<lparr>sx_fresh := Suc (sx_fresh (cp_symex c))\<rparr>\<rparr>\<rparr>
       in
       res_bind (extract_elements vec index isize width [0..<min count representable_elements] poison) (\<lambda>t.
       Inr (sx_value t, c1)))))))))"

definition visitAllocaInst :: "cpu \<Rightarrow> (vexa_value \<times> cpu) res" where
  "visitAllocaInst c =
     res_bind (sx_concrete 0 64) (\<lambda>z.
     case mem_allocate (cp_memory c) of (p, m) \<Rightarrow>
       res_bind (sx_pointer (Some z) p) (\<lambda>ptr.
       Inr (ptr, c\<lparr>cp_machine := (cp_machine c)\<lparr>mc_memory := m\<rparr>\<rparr>)))"

definition visitGetElementPtrInst :: "llvm_value \<Rightarrow> u64 option \<Rightarrow> cpu \<Rightarrow> vexa_value res" where
  "visitGetElementPtrInst p offset c =
     (case offset of
        None \<Rightarrow> Inl (Throw (''getelementptr, this shouldn'' @ [char_of (39 :: nat)] @ ''t happen...''))
      | Some off \<Rightarrow>
          res_bind (sx_concrete off 64) (\<lambda>off_v.
          res_bind (cp_get p c) (\<lambda>b.
          case to_ptr b of None \<Rightarrow> Inl Null_dereference | Some ptr \<Rightarrow> pointer_into ptr off_v)))"

definition visitStoreInst :: "solver \<Rightarrow> llvm_value \<Rightarrow> llvm_value \<Rightarrow> cpu \<Rightarrow> (vexa_value \<times> cpu) res" where
  "visitStoreInst S a p c =
     res_bind (cp_get p c) (\<lambda>pv. res_bind (cp_get a c) (\<lambda>val.
     case to_ptr pv of None \<Rightarrow> Inl Null_dereference
     | Some ptr \<Rightarrow>
         res_bind (emu_write_memory S ptr val c) (\<lambda>c1. res_bind (sx_concrete 0 64) (\<lambda>z. Inr (z, c1)))))"

definition visitLoadInst :: "solver \<Rightarrow> nat \<Rightarrow> llvm_value \<Rightarrow> cpu \<Rightarrow> (vexa_value \<times> cpu) res" where
  "visitLoadInst S bits p c =
     res_bind (cp_get p c) (\<lambda>pv.
     case to_ptr (v_simplify S pv) of
       None \<Rightarrow> Inl (Throw ''LoadInst: pointer operand is not a vexa::pointer'')
     | Some ptr \<Rightarrow> emu_read_memory S ptr (((bits + 7) div 8) * 8) c)"

text \<open>The instructions that are not calls. A constant index makes a constant offset.\<close>

definition gep_offset :: "llvm_value \<Rightarrow> u64 option" where
  "gep_offset off = (case off of LConstantInt w n \<Rightarrow> Some (word_of_int (to_signed w n)) | LValue i \<Rightarrow> None)"

definition visit_plain :: "solver \<Rightarrow> nat \<Rightarrow> ir_inst \<Rightarrow> cpu \<Rightarrow> (vexa_value \<times> cpu) res" where
  "visit_plain S self inst c =
     (let pure = (\<lambda>r. res_bind r (\<lambda>v. Inr (v, c))) in
      case inst of
        IBinary op a b \<Rightarrow> pure (visitBinaryOperator op a b c)
      | IICmp p a b \<Rightarrow> pure (visitICmpInst p a b c)
      | IZExt s d a \<Rightarrow> pure (visitZExtInst s d a c)
      | ISExt s d a \<Rightarrow> pure (visitSExtInst s d a c)
      | ITrunc s d a \<Rightarrow> pure (visitTruncInst s d a c)
      | ISelect cnd a b \<Rightarrow> pure (visitSelectInst cnd a b c)
      | IFreeze a \<Rightarrow> pure (cp_get a c)
      | IExtractElement n w a i \<Rightarrow> visitExtractElementInst n w a i self c
      | IAlloca n \<Rightarrow> visitAllocaInst c
      | IGep p off \<Rightarrow> pure (visitGetElementPtrInst p off c)
      | IGepValue p off \<Rightarrow> pure (visitGetElementPtrInst p (gep_offset off) c)
      | IStore a p \<Rightarrow> visitStoreInst S a p c
      | ILoad bits p \<Rightarrow> visitLoadInst S bits p c
      | IOther name \<Rightarrow> Inl (Throw (''unsupported instruction -> '' @ name))
      | _ \<Rightarrow> Inl (Throw ''unsupported instruction''))"

text \<open>\<open>emulator::run\<close> of an instruction that was just inserted.\<close>

definition run_emitted :: "solver \<Rightarrow> ir_inst \<Rightarrow> nat \<Rightarrow> cpu \<Rightarrow> (dual_value \<times> cpu) res" where
  "run_emitted S inst bits c =
     (let self = ir_next (cp_ir c) in
      case cp_emit inst bits c of (l, c1) \<Rightarrow>
        res_bind (visit_plain S self inst c1) (\<lambda>(v, c2). Inr (\<lparr>d_l = l, d_v = v\<rparr>, cp_set l v c2)))"

section \<open>The memory intrinsics of remill\<close>

text \<open>\<open>builder->SetInsertPoint(call.getNextNode())\<close>.\<close>

definition insert_after :: "nat \<Rightarrow> cpu \<Rightarrow> cpu res" where
  "insert_after call c =
     (case next_node (cp_ir c) call of
        Some (bb, Some i) \<Rightarrow> Inr (c\<lparr>cp_ir := set_insert_point (bb, Some i) (cp_ir c)\<rparr>)
      | _ \<Rightarrow> Inl Null_dereference)"

definition replace_call :: "nat \<Rightarrow> llvm_value \<Rightarrow> cpu \<Rightarrow> cpu" where
  "replace_call call new c = c\<lparr>cp_ir := replaceAllUsesWith (LValue call) new (cp_ir c)\<rparr>"

definition checked_operand :: "llvm_value \<Rightarrow> cpu \<Rightarrow> vexa_value res" where
  "checked_operand val c =
     res_bind (cp_get val c) (\<lambda>v. res_bind (v_size v) (\<lambda>sz.
     res_bind (vexa_assert ''val_sym.v->size() == val->getType()->getPrimitiveSizeInBits()''
       (sz = primitive_size (cp_ir c) val)) (\<lambda>_. Inr v)))"

text \<open>The pointer to one candidate address, and the comparison of the address with it, in the IR.\<close>

definition candidate_gep :: "nat \<Rightarrow> bw_term \<Rightarrow> cpu \<Rightarrow> (llvm_value \<times> llvm_value \<times> cpu) res" where
  "candidate_gep width a c =
     res_bind (get_page (sx_value a) c) (\<lambda>page.
     res_bind (term_as_uint64 a) (\<lambda>n.
     res_bind (gep_const width page n c) (\<lambda>(gep, c1).
     Inr (d_l gep, LConstantInt width (take_bit width (uint n)), c1))))"

definition write_intrinsic_candidate ::
  "solver \<Rightarrow> llvm_value \<Rightarrow> vexa_value \<Rightarrow> llvm_value \<Rightarrow> vexa_value \<Rightarrow> nat \<Rightarrow> bw_term \<Rightarrow> cpu \<Rightarrow> cpu res" where
  "write_intrinsic_candidate S address addr_sym val val_sym bits a c =
     (let curr_addr = sx_value a in
      res_bind (calculate_pointer curr_addr c) (\<lambda>curr_ptr.
      res_bind (candidate_gep (primitive_size (cp_ir c) address) a c) (\<lambda>(gep, const, c1).
      case cp_emit (IICmp ICMP_EQ address const) 1 c1 of (cond_l, c2) \<Rightarrow>
      case cp_emit (ILoad bits gep) bits c2 of (old_l, c3) \<Rightarrow>
      case cp_emit (ISelect cond_l val old_l) bits c3 of (new_l, c4) \<Rightarrow>
      case cp_emit (IStore new_l gep) 0 c4 of (_, c5) \<Rightarrow>
      res_bind (cp_read S curr_ptr bits c5) (\<lambda>(old_sym, c6).
      res_bind (v_eq addr_sym curr_addr) (\<lambda>cond.
      res_bind (v_ite cond val_sym old_sym) (\<lambda>new_sym.
      cp_write S curr_ptr (v_simplify S new_sym) c6)))))) "

definition resolve_address ::
  "solver \<Rightarrow> vexa_value \<Rightarrow> cpu \<Rightarrow> (bw_term list \<times> bw_result) res" where
  "resolve_address S addr c =
     (if is_symbolic addr then possible_values S (path_constraints c) addr else Inr ([], UNKNOWN))"

definition write_memory_intrinsic :: "solver \<Rightarrow> nat \<Rightarrow> llvm_value list \<Rightarrow> nat \<Rightarrow> cpu \<Rightarrow> cpu res" where
  "write_memory_intrinsic S call args bits c =
     (let address = args ! 1; val = args ! 2 in
      res_bind (cp_get address c) (\<lambda>a0.
      res_bind (v_simplify_under S (path_constraints c) a0) (\<lambda>addr_sym.
      res_bind (resolve_address S addr_sym c) (\<lambda>(values, result).
      if 1 < length values \<and> result = UNSAT then
        res_bind (insert_after call c) (\<lambda>c1.
        res_bind (vexa_assert ''address_type'' (primitive_size (cp_ir c1) address \<noteq> 0)) (\<lambda>_.
        res_bind (checked_operand val c1) (\<lambda>val_sym.
        res_bind (res_fold (write_intrinsic_candidate S address addr_sym val val_sym bits) values c1) (\<lambda>c2.
        Inr (replace_call call (args ! 0) c2)))))
      else
        (let c0 = (if length values = 1 then cp_set address (sx_value (hd values)) c else c) in
         res_bind (insert_after call c0) (\<lambda>c1.
         res_bind (value_to_pointer S address c1) (\<lambda>(ptr, c2).
         res_bind (vexa_assert ''ptr_sym'' (to_ptr (d_v ptr) \<noteq> None)) (\<lambda>_.
         res_bind (checked_operand val c2) (\<lambda>_.
         res_bind (run_emitted S (IStore val (d_l ptr)) 0 c2) (\<lambda>(_, c3).
         Inr (replace_call call (args ! 0) c3)))))))))))"

text \<open>The state of the loop of \<open>read_memory_intrinsic\<close>: the selected load, its symbolic value and
  the cpu.\<close>

definition read_intrinsic_load ::
  "solver \<Rightarrow> llvm_value \<Rightarrow> nat \<Rightarrow> bw_term \<Rightarrow> cpu \<Rightarrow> (llvm_value \<times> llvm_value \<times> vexa_value \<times> cpu) res" where
  "read_intrinsic_load S addr bits a c =
     res_bind (calculate_pointer (sx_value a) c) (\<lambda>ptr.
     res_bind (candidate_gep (primitive_size (cp_ir c) addr) a c) (\<lambda>(gep, const, c1).
     case cp_emit (ILoad bits gep) bits c1 of (load, c2) \<Rightarrow>
     res_bind (cp_read S ptr bits c2) (\<lambda>(sym, c3). Inr (load, const, sym, cp_set load sym c3))))"

definition read_intrinsic_candidate ::
  "solver \<Rightarrow> llvm_value \<Rightarrow> vexa_value \<Rightarrow> nat \<Rightarrow> bw_term \<Rightarrow> llvm_value \<times> vexa_value \<times> cpu \<Rightarrow>
     (llvm_value \<times> vexa_value \<times> cpu) res" where
  "read_intrinsic_candidate S addr addr_sym bits a st =
     (case st of (final_load, final_sym, c) \<Rightarrow>
        res_bind (read_intrinsic_load S addr bits a c) (\<lambda>(load, const, sym, c1).
        case cp_emit (IICmp ICMP_EQ addr const) 1 c1 of (cond_l, c2) \<Rightarrow>
        case cp_emit (ISelect cond_l load final_load) bits c2 of (final_load', c3) \<Rightarrow>
        res_bind (v_eq addr_sym (sx_value a)) (\<lambda>cond.
        res_bind (v_ite cond sym final_sym) (\<lambda>final_sym'. Inr (final_load', final_sym', c3)))))"

definition read_memory_intrinsic :: "solver \<Rightarrow> nat \<Rightarrow> llvm_value list \<Rightarrow> nat \<Rightarrow> cpu \<Rightarrow> cpu res" where
  "read_memory_intrinsic S call args bits c =
     (let addr = args ! 1 in
      res_bind (cp_get addr c) (\<lambda>a0.
      let addr_sym = v_simplify S a0 in
      res_bind (resolve_address S addr_sym c) (\<lambda>(values, result).
      if 1 < length values \<and> result = UNSAT then
        res_bind (insert_after call c) (\<lambda>c1.
        res_bind (vexa_assert ''address_type'' (primitive_size (cp_ir c1) addr \<noteq> 0)) (\<lambda>_.
        res_bind (read_intrinsic_load S addr bits (hd values) c1) (\<lambda>(first_load, _, first_sym, c2).
        res_bind (res_fold (read_intrinsic_candidate S addr addr_sym bits) (tl values)
            (first_load, first_sym, c2)) (\<lambda>(final_load, final_sym, c3).
        Inr (replace_call call final_load (cp_set final_load (v_simplify S final_sym) c3))))))
      else
        (let c0 = (if length values = 1 then cp_set addr (sx_value (hd values)) c else c) in
         res_bind (insert_after call c0) (\<lambda>c1.
         res_bind (value_to_pointer S addr c1) (\<lambda>(ptr, c2).
         res_bind (vexa_assert ''ptr_sym'' (to_ptr (d_v ptr) \<noteq> None)) (\<lambda>_.
         res_bind (run_emitted S (ILoad bits (d_l ptr)) bits c2) (\<lambda>(load, c3).
         Inr (replace_call call (d_l load) c3)))))))))"

section \<open>Calls and blocks\<close>

text \<open>The numbers of remill's hyper calls are those of its headers; \<open>hyper\<close> reads them.\<close>

datatype hyper_call = X86CPUID | X86ReadTSC | Other_hyper_call

definition hyper_cpuid :: "solver \<Rightarrow> cpu \<Rightarrow> cpu res" where
  "hyper_cpuid S c =
     res_fold (\<lambda>(r, n) c. res_bind (sx_concrete n 64) (\<lambda>v. write_register S (reg_of r) v c))
       [(''RAX'', 0x00A50F00), (''RBX'', 0x000C0800), (''RCX'', 0x7EF8320B), (''RDX'', 0x178BFBFF)] c"

definition tsc_half :: "vexa_value \<Rightarrow> nat \<Rightarrow> nat \<Rightarrow> vexa_value res" where
  "tsc_half tsc high low =
     res_bind (v_extract high low tsc) (\<lambda>lo.
     res_bind (sx_concrete 0 32) (\<lambda>hi. v_concat hi lo))"

definition hyper_rdtsc :: "solver \<Rightarrow> cpu \<Rightarrow> cpu res" where
  "hyper_rdtsc S c =
     res_bind (get_option CONCRETIZE_RDTSC (cp_options c)) (\<lambda>opt.
     res_bind
       (if opt \<noteq> 0 then res_bind (sx_concrete 0 64) (\<lambda>v. Inr (v, c))
        else res_bind (sx_symbolic ''tsc'' 64 (cp_symex c)) (\<lambda>(v, sx).
          Inr (v, c\<lparr>cp_machine := (cp_machine c)\<lparr>mc_symex := sx\<rparr>\<rparr>))) (\<lambda>(tsc, c1).
     res_bind (tsc_half tsc 31 0) (\<lambda>rax.
     res_bind (write_register S (reg_of ''RAX'') rax c1) (\<lambda>c2.
     res_bind (tsc_half tsc 63 32) (\<lambda>rdx.
     write_register S (reg_of ''RDX'') rdx c2)))))"

definition delete_users :: "nat \<Rightarrow> ir_builder \<Rightarrow> ir_builder" where
  "delete_users call b =
     fold (\<lambda>(i, inst) b.
         if map_operands (subst_value (LValue call) (LConstantInt 0 0)) inst \<noteq> inst then deleteLater i b else b)
       (concat (ir_blocks b)) b"

definition sync_hyper_call ::
  "solver \<Rightarrow> (int \<Rightarrow> hyper_call) \<Rightarrow> nat \<Rightarrow> llvm_value list \<Rightarrow> cpu \<Rightarrow> cpu res" where
  "sync_hyper_call S hyper call args c =
     (case args ! 2 of
        LConstantInt w n \<Rightarrow>
          res_bind
            (case hyper n of
               X86CPUID \<Rightarrow> hyper_cpuid S c
             | X86ReadTSC \<Rightarrow> hyper_rdtsc S c
             | Other_hyper_call \<Rightarrow> Inl (Throw (''unimplemented SyncHyperCall id -> '' @ show_nat (nat n)))) (\<lambda>c1.
          Inr (c1\<lparr>cp_ir := delete_users call (cp_ir c1)\<rparr>))
      | LValue i \<Rightarrow> Inl (Throw ''SyncHyperCall ID is not a constant''))"

definition memory_widths :: "nat list" where
  "memory_widths = [8, 16, 32, 64]"

definition remill_intrinsic ::
  "solver \<Rightarrow> (int \<Rightarrow> hyper_call) \<Rightarrow> nat \<Rightarrow> callee \<Rightarrow> llvm_value list \<Rightarrow> cpu \<Rightarrow> cpu res" where
  "remill_intrinsic S hyper call f args c =
     (case f of
        Write_memory bits \<Rightarrow>
          (if bits \<in> set memory_widths then write_memory_intrinsic S call args bits c
           else Inl (Throw ''CallInst: unknown remill intrinsic''))
      | Read_memory bits \<Rightarrow>
          (if bits \<in> set memory_widths then read_memory_intrinsic S call args bits c
           else Inl (Throw ''CallInst: unknown remill intrinsic''))
      | Sync_hyper_call \<Rightarrow> sync_hyper_call S hyper call args c
      | Ordering_intrinsic \<Rightarrow> Inr (replace_call call (args ! 0) c)
      | Unknown_callee name \<Rightarrow> Inl (Throw (''CallInst: unknown remill intrinsic -> '' @ name))
      | Llvm_intrinsic iid \<Rightarrow> Inl (Throw ''CallInst: unknown remill intrinsic''))"

definition visitCallInst ::
  "solver \<Rightarrow> (int \<Rightarrow> hyper_call) \<Rightarrow> nat \<Rightarrow> callee \<Rightarrow> llvm_value list \<Rightarrow> cpu \<Rightarrow> (vexa_value \<times> cpu) res" where
  "visitCallInst S hyper call f args c =
     (case f of
        Llvm_intrinsic iid \<Rightarrow>
          res_bind (handle_llvm_intrinsics (cp_symex c) iid (ir_sizes (cp_ir c) call) args) (\<lambda>v. Inr (v, c))
      | _ \<Rightarrow>
          res_bind (remill_intrinsic S hyper call f args (c\<lparr>cp_ir := push_ip (cp_ir c)\<rparr>)) (\<lambda>c1.
          res_bind (pop_ip (deleteLater call (cp_ir c1))) (\<lambda>b.
          res_bind (sx_concrete 0 64) (\<lambda>z. Inr (z, c1\<lparr>cp_ir := b\<rparr>)))))"

definition emu_run ::
  "solver \<Rightarrow> (int \<Rightarrow> hyper_call) \<Rightarrow> ir_node \<Rightarrow> cpu \<Rightarrow> (dual_value \<times> cpu) res" where
  "emu_run S hyper node c =
     (case node of (i, inst) \<Rightarrow>
        res_bind
          (case inst of ICall f args \<Rightarrow> visitCallInst S hyper i f args c | _ \<Rightarrow> visit_plain S i inst c) (\<lambda>(v, c1).
        Inr (\<lparr>d_l = LValue i, d_v = v\<rparr>, cp_set (LValue i) v c1)))"

text \<open>\<open>run_block\<close> walks over the instructions that are in the block when it starts; what the
  handlers insert behind the current one is skipped, and their replacements of operands are seen.\<close>

definition current_inst :: "nat \<Rightarrow> cpu \<Rightarrow> ir_inst option" where
  "current_inst i c = map_of (concat (ir_blocks (cp_ir c))) i"

fun run_nodes ::
  "solver \<Rightarrow> (int \<Rightarrow> hyper_call) \<Rightarrow> block_id \<Rightarrow> nat list \<Rightarrow> cpu \<Rightarrow> cpu res" where
  "run_nodes S hyper bb [] c = Inr c"
| "run_nodes S hyper bb (i # is) c =
     (case current_inst i c of None \<Rightarrow> Inl Null_dereference
      | Some inst \<Rightarrow>
          if is_terminator inst then run_nodes S hyper bb is c
          else
            res_bind (emu_run S hyper (i, inst) c) (\<lambda>(_, c1).
            if forked_block c1 = Some bb then Inr (c1\<lparr>forked_block := None\<rparr>)
            else run_nodes S hyper bb is c1))"

definition run_block :: "solver \<Rightarrow> (int \<Rightarrow> hyper_call) \<Rightarrow> block_id \<Rightarrow> cpu \<Rightarrow> cpu res" where
  "run_block S hyper bb c = run_nodes S hyper bb (map fst (ir_blocks (cp_ir c) ! bb)) c"

end
