(* ===== verification/Symbolic_Access.thy ===== *)
theory Symbolic_Access
  imports Emulator
begin

text \<open>
  Loads and stores of the emulator through addresses that the solver enumerates: the chains of
  selections that are built stand for the access at the actual address, under every assignment that
  satisfies the constraints of the path.
\<close>

section \<open>Addresses and pages\<close>

text \<open>The pages of the stack and of the program's memory, with the number where each starts.\<close>

record layout =
  stack_base :: u64
  stack_page :: page_id
  mem_base :: u64
  mem_page_id :: page_id

definition layout_of :: "cpu \<Rightarrow> layout \<Rightarrow> bool" where
  "layout_of c l \<longleftrightarrow>
     v_term (d_v (stack_ptr c)) = BwBv 64 (uint (stack_base l)) \<and>
     v_page (d_v (stack_ptr c)) = Some (stack_page l) \<and>
     v_term (d_v (mem_ptr c)) = BwBv 64 (uint (mem_base l)) \<and>
     v_page (d_v (mem_ptr c)) = Some (mem_page_id l) \<and>
     stack_page l < length (page_objs (cp_memory c)) \<and>
     mem_page_id l < length (page_objs (cp_memory c))"

text \<open>Where an address of the program lies.\<close>

definition on_stack :: "u64 \<Rightarrow> bool" where
  "on_stack a \<longleftrightarrow> -16384 \<le> sint a \<and> sint a < 16384"

definition page_at :: "layout \<Rightarrow> u64 \<Rightarrow> page_id" where
  "page_at l a = (if on_stack a then stack_page l else mem_page_id l)"

definition offset_at :: "layout \<Rightarrow> u64 \<Rightarrow> u64" where
  "offset_at l a = (if on_stack a then stack_base l + a else mem_base l + a)"

definition cpu_ok :: "cpu \<Rightarrow> mem_state list \<Rightarrow> layout \<Rightarrow> bool" where
  "cpu_ok c live l \<longleftrightarrow> mem_ok (cp_memory c) live \<and> cells_ok (cp_memory c) \<and> layout_of c l"

lemma page_at_lt: "layout_of c l \<Longrightarrow> page_at l a < length (page_objs (cp_memory c))"
  by (simp add: layout_of_def page_at_def)

lemma fits_u64: "fits 64 (uint (a :: u64))"
  using uint_lt2p [of a] by (simp add: fits_iff)

lemma sort_word: "sort_of (BwBv 64 (uint (a :: u64))) = Some (BvSort 64)"
  using fits_u64 [of a] by (simp del: take_bit_int_eq_self_iff)

lemma uint_add_u64: "take_bit 64 (uint a + uint b) = uint (a + b :: u64)"
  by (simp add: uint_word_ariths take_bit_eq_mod)

lemma pointer_into_ok:
  assumes S: "sound_solver S" "folds_constants S"
    and p: "v_term p = BwBv 64 (uint (b :: u64))" "v_page p = Some pg"
    and v: "v_term v = BwBv 64 (uint (a :: u64))"
  obtains ptr where "pointer_into p v = Inr ptr"
    and "as_uint64 (v_simplify S ptr) = Inr (b + a)" and "v_page ptr = Some pg"
proof -
  let ?t = "BwApp BV_ADD [BwBv 64 (uint b), BwBv 64 (uint a)] []"
  let ?ptr = "pointer_new (value_new ?t) pg"
  have sort: "sort_of ?t = Some (BvSort 64)"
    using sort_word by (intro sort_bv_binary) (auto simp: kind_defs)
  have "pointer_into p v = Inr ?ptr"
    using p v sort by (simp add: pointer_into_def v_add_def v_binary_def mk_term_Inr sx_pointer_def)
  moreover have bv: "bv_val 64 (v_simplify S ?ptr)" using S sort by simp
  moreover have den: "den env (v_simplify S ?ptr) = uint (b + a)" for env
    using S sort sort_word by (simp add: v_simplify_sound app_sem_def uint_add_u64)
  moreover have "is_concrete (v_simplify S ?ptr)"
    using S(2) sort by (simp add: v_simplify_def pointer_new_def value_new_def is_concrete_def folds_constants_def)
  ultimately show ?thesis
    using that [of ?ptr] as_uint64_concrete [of "v_simplify S ?ptr" 64 undefined] by simp
qed

lemma calculate_pointer_ok:
  assumes S: "sound_solver S" "folds_constants S" and l: "layout_of c l"
    and v: "v_term v = BwBv 64 (uint (a :: u64))"
  obtains ptr where "calculate_pointer v c = Inr ptr"
    and "as_uint64 (v_simplify S ptr) = Inr (offset_at l a)" and "v_page ptr = Some (page_at l a)"
proof -
  have a: "as_uint64 v = Inr a"
    using v sort_word [of a] by (simp add: as_uint64_def is_concrete_def term_as_uint64_bv)
  have page: "get_page v c = Inr (if on_stack a then stack_ptr c else mem_ptr c)"
    using a by (simp add: get_page_def on_stack_def stack_size_def Let_def)
  show ?thesis
  proof (cases "on_stack a")
    case True
    then show ?thesis
      using pointer_into_ok [OF S, of "d_v (stack_ptr c)" "stack_base l" "stack_page l" v a] l v page that
      by (auto simp: layout_of_def calculate_pointer_def offset_at_def page_at_def)
  next
    case False
    then show ?thesis
      using pointer_into_ok [OF S, of "d_v (mem_ptr c)" "mem_base l" "mem_page_id l" v a] l v page that
      by (auto simp: layout_of_def calculate_pointer_def offset_at_def page_at_def)
  qed
qed

section \<open>What memory holds at an address\<close>

definition number_at :: "assignment \<Rightarrow> layout \<Rightarrow> memory \<Rightarrow> u64 \<Rightarrow> nat \<Rightarrow> int" where
  "number_at env l m a n = le_val (map (mem_byte env m (page_at l a)) (byte_addrs (offset_at l a) n))"

definition present :: "layout \<Rightarrow> memory \<Rightarrow> u64 \<Rightarrow> nat \<Rightarrow> bool" where
  "present l m a n \<longleftrightarrow> (\<forall>b \<in> set (byte_addrs (offset_at l a) n). page_find m (page_at l a) b \<noteq> None)"

text \<open>A memory that shows everything another one shows, and maybe more.\<close>

definition grows :: "memory \<Rightarrow> memory \<Rightarrow> bool" where
  "grows m m' \<longleftrightarrow> length (page_objs m') = length (page_objs m) \<and>
     (\<forall>q < length (page_objs m). \<forall>a. page_find m q a \<noteq> None \<longrightarrow> page_find m' q a = page_find m q a)"

lemma grows_refl: "grows m m"
  by (simp add: grows_def)

lemma grows_trans: "grows m m' \<Longrightarrow> grows m' m'' \<Longrightarrow> grows m m''"
  by (simp add: grows_def)

lemma extends_grows: "extends s p A s' \<Longrightarrow> grows (mc_memory s) (mc_memory s')"
  unfolding extends_def grows_def by metis

lemma grows_number_at:
  assumes "grows m m'" and "present l m a n" and "page_at l a < length (page_objs m)"
  shows "number_at env l m' a n = number_at env l m a n" and "present l m' a n"
proof -
  have "page_find m' (page_at l a) b = page_find m (page_at l a) b" if "b \<in> set (byte_addrs (offset_at l a) n)" for b
    using assms that by (simp add: grows_def present_def)
  then show "number_at env l m' a n = number_at env l m a n" and "present l m' a n"
    using assms(2) by (auto simp: number_at_def mem_byte_def present_def intro!: arg_cong [of _ _ le_val])
qed

text \<open>A read at an address of the program.\<close>

lemma read_at:
  assumes S: "sound_solver S" "folds_constants S" and ok: "cpu_ok c live l" and n: "0 < n"
  obtains ptr v c' where "calculate_pointer (sx_value (BwBv 64 (uint a))) c = Inr ptr"
    and "as_uint64 (v_simplify S ptr) = Inr (offset_at l a)" and "v_page ptr = Some (page_at l a)"
    and "cp_read S ptr (8 * n) c = Inr (v, c')" and "bv_val (8 * n) v" and "cpu_ok c' live l"
    and "\<And>env. den env v = number_at env l (cp_memory c') a n" and "present l (cp_memory c') a n"
    and "grows (cp_memory c) (cp_memory c')" and "\<exists>s. c' = c\<lparr>cp_machine := s\<rparr>"
proof -
  have mem: "mem_ok (mc_memory (cp_machine c)) live" "cells_ok (mc_memory (cp_machine c))" and l: "layout_of c l"
    using ok by (simp_all add: cpu_ok_def)
  obtain ptr where ptr: "calculate_pointer (sx_value (BwBv 64 (uint a))) c = Inr ptr"
      "as_uint64 (v_simplify S ptr) = Inr (offset_at l a)" "v_page ptr = Some (page_at l a)"
    using calculate_pointer_ok [OF S l, of "sx_value (BwBv 64 (uint a))" a] by (auto simp: sx_value_def)
  obtain v s' where v: "mem_read S ptr (8 * n) (cp_machine c) = Inr (v, s')" "bv_val (8 * n) v"
      "mem_ok (mc_memory s') live" "cells_ok (mc_memory s')"
      "extends (cp_machine c) (page_at l a) (set (byte_addrs (offset_at l a) n)) s'"
      "\<And>env. den env v = le_val (map (mem_byte env (mc_memory s') (page_at l a)) (byte_addrs (offset_at l a) n))"
      "\<And>b. b \<in> set (byte_addrs (offset_at l a) n) \<Longrightarrow> page_find (mc_memory s') (page_at l a) b \<noteq> None"
    using mem_read_ok [OF mem ptr(2,3) page_at_lt [OF l] n] by metis
  let ?c = "c\<lparr>cp_machine := s'\<rparr>"
  have "layout_of ?c l" using l v(5) by (simp add: layout_of_def extends_def)
  then have "cpu_ok ?c live l" using v(3,4) by (simp add: cpu_ok_def)
  moreover have "present l (cp_memory ?c) a n" using v(7) by (simp add: present_def)
  moreover have "cp_read S ptr (8 * n) c = Inr (v, ?c)" using v(1) by (simp add: cp_read_def)
  moreover have "grows (cp_memory c) (cp_memory ?c)" using extends_grows [OF v(5)] by simp
  ultimately show ?thesis
    using that [OF ptr] v(2,6) by (auto simp: number_at_def)
qed

section \<open>Reading\<close>

abbreviation addr_term :: "u64 \<Rightarrow> bw_term" where
  "addr_term a \<equiv> BwBv 64 (uint a)"

lemma v_eq_addr:
  assumes "bv_val 64 addr"
  obtains e where "v_eq addr (sx_value (addr_term a)) = Inr e" and "bool_val e"
    and "\<And>env. den env e = of_bool (word_of_int (den env addr) = a)"
proof -
  have bv: "bv_val 64 (sx_value (addr_term a))" using sort_word by (simp add: sx_value_def)
  obtain e where e: "v_eq addr (sx_value (addr_term a)) = Inr e" "bool_val e"
      "\<And>env. den env e = app_sem EQUAL [] [64, 64] [den env addr, den env (sx_value (addr_term a))]"
    using v_binary_bool [OF _ assms bv, of EQUAL] by (auto simp: v_eq_def)
  have "den env addr = uint a \<longleftrightarrow> word_of_int (den env addr) = a" for env
    using word_of_int_fits(1) [where 'a = 64, of "den env addr"] assms by auto
  then have "den env e = of_bool (word_of_int (den env addr) = a)" for env
    using e(3) [of env] by (simp add: app_sem_def sx_value_def)
  then show ?thesis using that [OF e(1,2)] by blast
qed

lemma read_candidate_ok:
  assumes S: "sound_solver S" "folds_constants S" and ok: "cpu_ok c live l" and n: "0 < n"
    and addr: "bv_val 64 addr" and fin: "bv_val (8 * n) fin"
  obtains v c' where "read_candidate S addr (8 * n) (addr_term a) (fin, c) = Inr (v, c')"
    and "bv_val (8 * n) v" and "cpu_ok c' live l" and "present l (cp_memory c') a n"
    and "grows (cp_memory c) (cp_memory c')"
    and "\<And>env. den env v =
      (if word_of_int (den env addr) = a then number_at env l (cp_memory c') a n else den env fin)"
proof -
  obtain ptr x c' where r: "calculate_pointer (sx_value (addr_term a)) c = Inr ptr"
      "cp_read S ptr (8 * n) c = Inr (x, c')" "bv_val (8 * n) x" "cpu_ok c' live l"
      "\<And>env. den env x = number_at env l (cp_memory c') a n" "present l (cp_memory c') a n"
      "grows (cp_memory c) (cp_memory c')"
    using read_at [OF S ok n] by metis
  obtain e where e: "v_eq addr (sx_value (addr_term a)) = Inr e" "bool_val e"
      "\<And>env. den env e = of_bool (word_of_int (den env addr) = a)"
    using v_eq_addr [OF addr] by blast
  obtain v where v: "v_ite e x fin = Inr v" "bv_val (8 * n) v"
      "\<And>env. den env v = (if den env e \<noteq> 0 then den env x else den env fin)"
    using v_ite_ok [OF e(2) r(3) fin] by blast
  show ?thesis
    using r e v by (intro that [of v c']) (simp_all add: read_candidate_def)
qed

lemma read_chain_ok:
  assumes S: "sound_solver S" "folds_constants S" and n: "0 < n" and addr: "bv_val 64 addr"
    and "cpu_ok c live l" and "bv_val (8 * n) fin"
  shows "\<exists>v c'. res_fold (read_candidate S addr (8 * n)) (map addr_term as) (fin, c) = Inr (v, c') \<and>
    bv_val (8 * n) v \<and> cpu_ok c' live l \<and> (\<forall>a \<in> set as. present l (cp_memory c') a n) \<and>
    grows (cp_memory c) (cp_memory c') \<and>
    (\<forall>env. den env v = (if word_of_int (den env addr) \<in> set as
        then number_at env l (cp_memory c') (word_of_int (den env addr)) n else den env fin))"
  using assms(5,6)
proof (induction as arbitrary: c fin)
  case Nil
  then show ?case by (simp add: grows_refl)
next
  case (Cons a as)
  obtain v1 c1 where 1: "read_candidate S addr (8 * n) (addr_term a) (fin, c) = Inr (v1, c1)"
      "bv_val (8 * n) v1" "cpu_ok c1 live l" "present l (cp_memory c1) a n" "grows (cp_memory c) (cp_memory c1)"
      "\<And>env. den env v1 =
        (if word_of_int (den env addr) = a then number_at env l (cp_memory c1) a n else den env fin)"
    using read_candidate_ok [OF S Cons.prems(1) n addr Cons.prems(2), of a] by blast
  obtain v c' where 2: "res_fold (read_candidate S addr (8 * n)) (map addr_term as) (v1, c1) = Inr (v, c')"
      "bv_val (8 * n) v" "cpu_ok c' live l" "\<forall>a \<in> set as. present l (cp_memory c') a n"
      "grows (cp_memory c1) (cp_memory c')"
      "\<forall>env. den env v = (if word_of_int (den env addr) \<in> set as
        then number_at env l (cp_memory c') (word_of_int (den env addr)) n else den env v1)"
    using Cons.IH [OF 1(3,2)] by blast
  have lt: "page_at l a < length (page_objs (cp_memory c1))"
    using 1(3) page_at_lt by (simp add: cpu_ok_def)
  have keep: "number_at env l (cp_memory c') a n = number_at env l (cp_memory c1) a n"
      "present l (cp_memory c') a n" for env
    using grows_number_at [OF 2(5) 1(4) lt] by auto
  have "den env v = (if word_of_int (den env addr) \<in> set (a # as)
        then number_at env l (cp_memory c') (word_of_int (den env addr)) n else den env fin)" for env
    using spec [OF 2(6), of env] 1(6) [of env] keep(1) [of env] by simp
  moreover have "res_fold (read_candidate S addr (8 * n)) (map addr_term (a # as)) (fin, c) = Inr (v, c')"
    using 1(1) 2(1) by simp
  ultimately show ?case
    using 2(2-4) keep(2) grows_trans [OF 1(5) 2(5)] by (intro exI [of _ v] exI [of _ c']) simp
qed

lemma read_candidates_ok:
  assumes S: "sound_solver S" "folds_constants S" and ok: "cpu_ok c live l" and n: "0 < n"
    and addr: "bv_val 64 addr" and as: "as \<noteq> []"
  obtains v c' where "read_candidates S addr (8 * n) (map addr_term as) c = Inr (v, c')"
    and "bv_val (8 * n) v" and "cpu_ok c' live l" and "grows (cp_memory c) (cp_memory c')"
    and "\<And>env. word_of_int (den env addr) \<in> set as \<Longrightarrow>
      den env v = number_at env l (cp_memory c') (word_of_int (den env addr)) n"
proof -
  obtain a0 as' where as': "as = a0 # as'" using as by (cases as) auto
  obtain ptr x c1 where r: "calculate_pointer (sx_value (addr_term a0)) c = Inr ptr"
      "cp_read S ptr (8 * n) c = Inr (x, c1)" "bv_val (8 * n) x" "cpu_ok c1 live l"
      "\<And>env. den env x = number_at env l (cp_memory c1) a0 n" "present l (cp_memory c1) a0 n"
      "grows (cp_memory c) (cp_memory c1)"
    using read_at [OF S ok n] by metis
  obtain v c' where 2: "res_fold (read_candidate S addr (8 * n)) (map addr_term as') (x, c1) = Inr (v, c')"
      "bv_val (8 * n) v" "cpu_ok c' live l" "grows (cp_memory c1) (cp_memory c')"
      "\<And>env. den env v = (if word_of_int (den env addr) \<in> set as'
        then number_at env l (cp_memory c') (word_of_int (den env addr)) n else den env x)"
    using read_chain_ok [OF S n addr r(4,3)] by metis
  have "page_at l a0 < length (page_objs (cp_memory c1))"
    using r(4) page_at_lt by (simp add: cpu_ok_def)
  then have "number_at env l (cp_memory c') a0 n = number_at env l (cp_memory c1) a0 n" for env
    using grows_number_at [OF 2(4) r(6)] by blast
  then show ?thesis
    using r 2 grows_trans [OF r(7) 2(4)]
    by (intro that [of v c']) (auto simp: read_candidates_def as')
qed

section \<open>Writing\<close>

definition shown :: "assignment \<Rightarrow> memory \<Rightarrow> page_id \<Rightarrow> u64 \<Rightarrow> byte option" where
  "shown env m q b = map_option (cell_byte env) (page_find m q b)"

lemma mem_byte_shown: "mem_byte env m q b = (case shown env m q b of None \<Rightarrow> 0 | Some x \<Rightarrow> x)"
  by (simp add: mem_byte_def shown_def split: option.split)

text \<open>A store of the bytes of \<open>x\<close> at address \<open>a\<close>, as the memory shows it: the bytes of the range are
  those of \<open>x\<close>, and all others that were there are kept.\<close>

definition in_range :: "layout \<Rightarrow> u64 \<Rightarrow> nat \<Rightarrow> page_id \<Rightarrow> u64 \<Rightarrow> bool" where
  "in_range l a n q b \<longleftrightarrow> q = page_at l a \<and> unat (b - offset_at l a) < n"

definition stored :: "assignment \<Rightarrow> layout \<Rightarrow> memory \<Rightarrow> bool \<Rightarrow> u64 \<Rightarrow> nat \<Rightarrow> int \<Rightarrow> memory \<Rightarrow> bool" where
  "stored env l m hit a n x m' \<longleftrightarrow> (\<forall>q < length (page_objs m). \<forall>b.
     if hit \<and> in_range l a n q b then shown env m' q b = Some (le_bytes n x ! unat (b - offset_at l a))
     else shown env m q b \<noteq> None \<longrightarrow> shown env m' q b = shown env m q b)"

lemma grows_shown:
  "grows m m' \<Longrightarrow> q < length (page_objs m) \<Longrightarrow> shown env m q b \<noteq> None \<Longrightarrow> shown env m' q b = shown env m q b"
  by (simp add: grows_def shown_def)

lemma number_at_byte:
  assumes "in_range l a n q b"
  shows "le_bytes n (number_at env l m a n) ! unat (b - offset_at l a) = mem_byte env m q b"
proof -
  let ?k = "unat (b - offset_at l a)"
  have k: "?k < n" and q: "q = page_at l a" using assms by (simp_all add: in_range_def)
  have "le_bytes n (number_at env l m a n) = map (mem_byte env m (page_at l a)) (byte_addrs (offset_at l a) n)"
    unfolding number_at_def by (rule le_bytes_le_val) (simp add: byte_addrs_def)
  with k q show ?thesis by (simp add: byte_addrs_def)
qed

lemma present_shown:
  assumes "present l m a n" and "in_range l a n q b"
  shows "shown env m q b \<noteq> None"
proof -
  have "b \<in> set (byte_addrs (offset_at l a) n)"
    using assms(2) unfolding byte_addrs_def in_range_def set_map
    by (intro image_eqI [where x = "unat (b - offset_at l a)"]) simp_all
  then show ?thesis using assms by (simp add: present_def in_range_def shown_def)
qed

lemma write_at:
  assumes S: "sound_solver S" and ok: "cpu_ok c live l"
    and ptr: "as_uint64 (v_simplify S ptr) = Inr (offset_at l a)" "v_page ptr = Some (page_at l a)"
    and v: "bv_val (8 * n) v" "n < 256"
  obtains c' where "cp_write S ptr v c = Inr c'" and "cpu_ok c' live l"
    and "length (page_objs (cp_memory c')) = length (page_objs (cp_memory c))"
    and "\<And>env q b. q < length (page_objs (cp_memory c)) \<Longrightarrow> shown env (cp_memory c') q b =
      (if in_range l a n q b then Some (le_bytes n (den env v) ! unat (b - offset_at l a))
       else shown env (cp_memory c) q b)"
proof -
  have mem: "mem_ok (mc_memory (cp_machine c)) live" "cells_ok (mc_memory (cp_machine c))" and l: "layout_of c l"
    using ok by (simp_all add: cpu_ok_def)
  obtain m' where w: "mem_write S ptr v (cp_machine c) = Inr ((cp_machine c)\<lparr>mc_memory := m'\<rparr>)"
      "mem_ok m' live" "cells_ok m'" "length (page_objs m') = length (page_objs (cp_memory c))"
      "written (cp_memory c) (page_at l a) (offset_at l a) (v_simplify S v) n m'"
    using mem_write_ok [OF S mem ptr page_at_lt [OF l] v] by metis
  let ?c = "c\<lparr>cp_machine := (cp_machine c)\<lparr>mc_memory := m'\<rparr>\<rparr>"
  have "cp_write S ptr v c = Inr ?c" using w(1) by (simp add: cp_write_def)
  moreover have "cpu_ok ?c live l" using w(2-4) l by (simp add: cpu_ok_def layout_of_def)
  moreover have "shown env m' q b = (if in_range l a n q b
      then Some (le_bytes n (den env v) ! unat (b - offset_at l a)) else shown env (cp_memory c) q b)"
    if "q < length (page_objs (cp_memory c))" for env q b
    using w(5) that simplified_cell_byte [OF S v(1)]
    by (simp add: written_def shown_def in_range_def)
  ultimately show ?thesis using that [of ?c] w(4) by simp
qed

lemma write_candidate_ok:
  assumes S: "sound_solver S" "folds_constants S" and ok: "cpu_ok c live l" and n: "0 < n" "n < 256"
    and addr: "bv_val 64 addr" and val: "bv_val (8 * n) val"
  obtains c' where "write_candidate S addr val (8 * n) (addr_term a) c = Inr c'" and "cpu_ok c' live l"
    and "length (page_objs (cp_memory c')) = length (page_objs (cp_memory c))"
    and "\<And>env. stored env l (cp_memory c) (word_of_int (den env addr) = a) a n (den env val) (cp_memory c')"
proof -
  obtain ptr x c1 where r: "calculate_pointer (sx_value (addr_term a)) c = Inr ptr"
      "as_uint64 (v_simplify S ptr) = Inr (offset_at l a)" "v_page ptr = Some (page_at l a)"
      "cp_read S ptr (8 * n) c = Inr (x, c1)" "bv_val (8 * n) x" "cpu_ok c1 live l"
      "\<And>env. den env x = number_at env l (cp_memory c1) a n" "present l (cp_memory c1) a n"
      "grows (cp_memory c) (cp_memory c1)"
    using read_at [OF S ok n(1)] by metis
  obtain e where e: "v_eq addr (sx_value (addr_term a)) = Inr e" "bool_val e"
      "\<And>env. den env e = of_bool (word_of_int (den env addr) = a)"
    using v_eq_addr [OF addr] by blast
  obtain v where v: "v_ite e val x = Inr v" "bv_val (8 * n) v"
      "\<And>env. den env v = (if den env e \<noteq> 0 then den env val else den env x)"
    using v_ite_ok [OF e(2) val r(5)] by blast
  obtain c' where w: "cp_write S ptr v c1 = Inr c'" "cpu_ok c' live l"
      "length (page_objs (cp_memory c')) = length (page_objs (cp_memory c1))"
      "\<And>env q b. q < length (page_objs (cp_memory c1)) \<Longrightarrow> shown env (cp_memory c') q b =
        (if in_range l a n q b then Some (le_bytes n (den env v) ! unat (b - offset_at l a))
         else shown env (cp_memory c1) q b)"
    using write_at [OF S(1) r(6,2,3) v(2) n(2)] by blast
  have len: "length (page_objs (cp_memory c1)) = length (page_objs (cp_memory c))"
    using r(9) by (simp add: grows_def)
  have "stored env l (cp_memory c) (word_of_int (den env addr) = a) a n (den env val) (cp_memory c')" for env
  proof (cases "word_of_int (den env addr) = a")
    case True
    then have "den env v = den env val" using v(3) [of env] e(3) [of env] by simp
    then show ?thesis
      using True w(4) [of _ env] grows_shown [OF r(9), of _ env] len by (simp add: stored_def)
  next
    case False
    then have "den env v = number_at env l (cp_memory c1) a n" using v(3) [of env] e(3) [of env] r(7) by simp
    then have "shown env (cp_memory c') q b = shown env (cp_memory c1) q b"
      if "q < length (page_objs (cp_memory c1))" for q b
      using w(4) [OF that, of env b] number_at_byte [of l a n q b env "cp_memory c1"]
        present_shown [OF r(8), of q b env] by (auto simp: mem_byte_shown)
    then show ?thesis using False grows_shown [OF r(9), of _ env] len by (simp add: stored_def)
  qed
  then show ?thesis using r e v w len by (intro that [of c']) (simp_all add: write_candidate_def)
qed

lemma stored_trans:
  assumes 1: "stored env l m (x = a) a n v m1" and len: "length (page_objs m1) = length (page_objs m)"
    and 2: "stored env l m1 (x \<in> A) x n v m2"
  shows "stored env l m (x \<in> insert a A) x n v m2"
proof -
  have "if x \<in> insert a A \<and> in_range l x n q b
      then shown env m2 q b = Some (le_bytes n v ! unat (b - offset_at l x))
      else shown env m q b \<noteq> None \<longrightarrow> shown env m2 q b = shown env m q b"
    if q: "q < length (page_objs m)" for q b
  proof -
    have A: "if x = a \<and> in_range l a n q b then shown env m1 q b = Some (le_bytes n v ! unat (b - offset_at l a))
        else shown env m q b \<noteq> None \<longrightarrow> shown env m1 q b = shown env m q b"
      using 1 q by (simp add: stored_def)
    have B: "if x \<in> A \<and> in_range l x n q b then shown env m2 q b = Some (le_bytes n v ! unat (b - offset_at l x))
        else shown env m1 q b \<noteq> None \<longrightarrow> shown env m2 q b = shown env m1 q b"
      using 2 q len by (simp add: stored_def)
    show ?thesis
      using A B by (cases "x \<in> A"; cases "x = a"; cases "in_range l x n q b") auto
  qed
  then show ?thesis by (simp add: stored_def)
qed

lemma write_chain_ok:
  assumes S: "sound_solver S" "folds_constants S" and n: "0 < n" "n < 256"
    and addr: "bv_val 64 addr" and val: "bv_val (8 * n) val" and "cpu_ok c live l"
  shows "\<exists>c'. res_fold (write_candidate S addr val (8 * n)) (map addr_term as) c = Inr c' \<and> cpu_ok c' live l \<and>
    length (page_objs (cp_memory c')) = length (page_objs (cp_memory c)) \<and>
    (\<forall>env. stored env l (cp_memory c) (word_of_int (den env addr) \<in> set as) (word_of_int (den env addr)) n
      (den env val) (cp_memory c'))"
  using assms(7)
proof (induction as arbitrary: c)
  case Nil
  then show ?case by (simp add: stored_def)
next
  case (Cons a as)
  obtain c1 where 1: "write_candidate S addr val (8 * n) (addr_term a) c = Inr c1" "cpu_ok c1 live l"
      "length (page_objs (cp_memory c1)) = length (page_objs (cp_memory c))"
      "\<And>env. stored env l (cp_memory c) (word_of_int (den env addr) = a) a n (den env val) (cp_memory c1)"
    using write_candidate_ok [OF S Cons.prems n addr val, of a] by blast
  obtain c' where 2: "res_fold (write_candidate S addr val (8 * n)) (map addr_term as) c1 = Inr c'"
      "cpu_ok c' live l" "length (page_objs (cp_memory c')) = length (page_objs (cp_memory c1))"
      "\<And>env. stored env l (cp_memory c1) (word_of_int (den env addr) \<in> set as) (word_of_int (den env addr)) n
        (den env val) (cp_memory c')"
    using Cons.IH [OF 1(2)] by blast
  show ?case
    using 1 2 stored_trans [OF 1(4,3) 2(4)] by (intro exI [of _ c']) simp
qed

section \<open>Properties\<close>

text \<open>What the enumeration of the addresses gives.\<close>

lemma addresses_ok:
  assumes S: "sound_solver S" and addr: "bv_val 64 addr"
  obtains as r where "possible_values S cs addr = Inr (map addr_term as, r)" and "length as \<le> 20"
    and "\<And>env. r = UNSAT \<Longrightarrow> satisfies env cs \<Longrightarrow> word_of_int (den env addr) \<in> set as"
proof -
  obtain xs r where xs: "possible_values S cs addr = Inr (xs, r)" "length xs \<le> 20"
      "\<forall>x \<in> set xs. \<exists>n env. x = BwBv 64 n \<and> satisfies env cs \<and> den env addr = n"
      "r = UNSAT \<longrightarrow> (\<forall>env. satisfies env cs \<longrightarrow> BwBv 64 (den env addr) \<in> set xs)"
    using possible_values_ok [OF S addr] by blast
  define as where "as = map (\<lambda>x. word_of_int (eval undefined x) :: u64) xs"
  have uint: "uint (word_of_int (den env addr) :: u64) = den env addr" for env
    using word_of_int_fits(1) [where 'a = 64, of "den env addr"] addr by simp
  have "addr_term (word_of_int (eval undefined x)) = x" if "x \<in> set xs" for x
    using xs(3) that uint by fastforce
  then have "map addr_term as = xs" by (simp add: as_def map_idI)
  moreover have "word_of_int (den env addr) \<in> set as" if "r = UNSAT" "satisfies env cs" for env
    using xs(4) that by (force simp: as_def)
  ultimately show ?thesis using that [of as r] xs(1,2) by (simp add: as_def)
qed

text \<open>A cpu with one page, and an address that is one of two numbers.\<close>

definition demo_cpu :: cpu where
  "demo_cpu =
     \<lparr>cp_machine = demo_machine,
      cp_ir = \<lparr>ir_next = 10, ir_sizes = (\<lambda>_. 64), ir_names = Map.empty, ir_blocks = [[]], ir_ip = (0, None),
        insert_points = [], to_delete = []\<rparr>,
      cp_options = default_options, cp_registers = [], path_constraints = [], unexplored_paths = [],
      cp_PC = 0, cp_VPC = 0, cp_VJMP = False, cp_PATH = Map.empty, cp_CFG = Map.empty, cp_VCFG = Map.empty,
      lifted_count = 0, cp_block = 0, cp_mode = 0,
      stack_ptr = \<lparr>d_l = LValue 1, d_v = pointer_new (value_new (addr_term 16384)) 0\<rparr>,
      mem_ptr = \<lparr>d_l = LValue 2, d_v = pointer_new (value_new (addr_term 0)) 0\<rparr>,
      state_ptr = \<lparr>d_l = LValue 3, d_v = pointer_new (value_new (addr_term 0)) 0\<rparr>,
      next_pc = LValue 4, branch_taken = LValue 5, global_memory = 0, forked_block = None\<rparr>"

definition demo_layout :: layout where
  "demo_layout = \<lparr>stack_base = 16384, stack_page = 0, mem_base = 0, mem_page_id = 0\<rparr>"

definition demo_addr :: vexa_value where
  "demo_addr = value_new (BwApp ITE [BwApp EQUAL [BwConst 0 ''x'' 1, BwBv 1 1] [],
     addr_term 0x100000, addr_term 0x200000] [])"

lemma demo_cpu_ok: "cpu_ok demo_cpu [[(0, 0)]] demo_layout"
  using demo_machine_ok by (simp add: cpu_ok_def layout_of_def demo_cpu_def demo_layout_def)

lemma demo_addr_ok:
  "bv_val 64 demo_addr" "is_symbolic (v_simplify reference_solver demo_addr)"
  "v_simplify reference_solver demo_addr = demo_addr\<lparr>v_simplified := True\<rparr>"
  by (code_simp)+

lemma demo_addr_values:
  "possible_values reference_solver (path_constraints demo_cpu) (v_simplify reference_solver demo_addr) =
     Inr ([addr_term 0x200000, addr_term 0x100000], UNSAT)"
proof -
  have "possible_values reference_solver [] (v_simplify reference_solver demo_addr) =
      Inr ([BwBv 64 0x200000, BwBv 64 0x100000], UNSAT)"
    by code_simp
  then show ?thesis by (simp add: demo_cpu_def)
qed

lemma demo_addr_den: "den (\<lambda>_. 1) demo_addr = 0x100000"
  by code_simp





end
