(* ===== verification/Emulator_Instructions.thy ===== *)
theory Emulator_Instructions
  imports Symbolic_Access
begin

text \<open>
  The instructions of the emulator as operations on machine words, the time stamp counter, and two
  places where an address is handled differently from what the rest of the code relies on.
\<close>

section \<open>Instructions\<close>

definition icmp_table :: "(icmp_pred \<times> ('a::len word \<Rightarrow> 'a word \<Rightarrow> bool)) list" where
  "icmp_table =
     [(ICMP_EQ, (=)), (ICMP_NE, (\<noteq>)), (ICMP_ULT, (<)), (ICMP_ULE, (\<le>)), (ICMP_UGT, \<lambda>x y. y < x),
      (ICMP_UGE, \<lambda>x y. y \<le> x), (ICMP_SLT, word_sless), (ICMP_SLE, word_sle),
      (ICMP_SGT, \<lambda>x y. word_sless y x), (ICMP_SGE, \<lambda>x y. word_sle y x)]"

text \<open>The operator that a predicate is translated to.\<close>

definition icmp_operator :: "icmp_pred \<Rightarrow> vexa_value \<Rightarrow> vexa_value \<Rightarrow> vexa_value res" where
  "icmp_operator pred lhs rhs =
     (case pred of
        ICMP_EQ \<Rightarrow> v_eq lhs rhs
      | ICMP_NE \<Rightarrow> v_ne lhs rhs
      | ICMP_UGT \<Rightarrow> v_ugt lhs rhs
      | ICMP_UGE \<Rightarrow> v_uge lhs rhs
      | ICMP_ULT \<Rightarrow> v_ult lhs rhs
      | ICMP_ULE \<Rightarrow> v_ule lhs rhs
      | ICMP_SGT \<Rightarrow> v_sgt lhs rhs
      | ICMP_SGE \<Rightarrow> v_sge lhs rhs
      | ICMP_SLT \<Rightarrow> v_slt lhs rhs
      | ICMP_SLE \<Rightarrow> v_sle lhs rhs
      | Other_pred name \<Rightarrow> Inl (Throw (''Unsupported icmp predicate -> '' @ name)))"

lemma icmp_operator_simps:
  "icmp_operator ICMP_EQ = v_eq" "icmp_operator ICMP_NE = v_ne" "icmp_operator ICMP_UGT = v_ugt"
  "icmp_operator ICMP_UGE = v_uge" "icmp_operator ICMP_ULT = v_ult" "icmp_operator ICMP_ULE = v_ule"
  "icmp_operator ICMP_SGT = v_sgt" "icmp_operator ICMP_SGE = v_sge" "icmp_operator ICMP_SLT = v_slt"
  "icmp_operator ICMP_SLE = v_sle"
  by (simp_all add: icmp_operator_def fun_eq_iff)

lemma icmp_operator_table:
  fixes g :: "'a::len word \<Rightarrow> 'a word \<Rightarrow> bool"
  assumes "(pred, g) \<in> set icmp_table"
  shows "(icmp_operator pred, g) \<in> set compare_operators"
  using assms
  unfolding icmp_table_def compare_operators_def list.set insert_iff empty_iff prod.inject
  by (elim disjE conjE FalseE) (simp_all only: icmp_operator_simps simp_thms)

lemma bool_to_bit:
  assumes "bool_val e"
  obtains t where "mk_term ITE [v_term e, BwBv 1 1, BwBv 1 0] [] = Inr t" and "bv_val 1 (sx_value t)"
    and "\<And>env. den env (sx_value t) = of_bool (den env e \<noteq> 0)"
proof -
  have bits: "sort_of (BwBv 1 1) = Some (BvSort 1)" "sort_of (BwBv 1 0) = Some (BvSort 1)" by simp_all
  let ?t = "BwApp ITE [v_term e, BwBv 1 1, BwBv 1 0] []"
  have sort: "sort_of ?t = Some (BvSort 1)"
    using assms bits by (intro sort_ite) (simp_all add: bool_val_def)
  show ?thesis
    using sort by (intro that [of ?t]) (simp_all add: mk_term_Inr sx_value_def app_sem_def den_def)
qed

lemma icmp_ok:
  fixes x y :: vexa_value and g :: "'a::len word \<Rightarrow> 'a word \<Rightarrow> bool"
  assumes get: "cp_get a c = Inr x" "cp_get b c = Inr y"
    and bv: "bv_val LENGTH('a) x" "bv_val LENGTH('a) y" and g: "(pred, g) \<in> set icmp_table"
  shows "\<exists>r. visitICmpInst pred a b c = Inr r \<and> bv_val 1 r \<and>
    (\<forall>env. den env r = of_bool (g (as_word env x) (as_word env y)))"
proof -
  obtain e where e: "icmp_operator pred x y = Inr e" "bool_val e"
      "\<And>env. den env e = of_bool (g (as_word env x) (as_word env y))"
    using compare_operators_ok [OF bv icmp_operator_table [OF g]] by blast
  obtain t where t: "mk_term ITE [v_term e, BwBv 1 1, BwBv 1 0] [] = Inr t" "bv_val 1 (sx_value t)"
      "\<And>env. den env (sx_value t) = of_bool (den env e \<noteq> 0)"
    using bool_to_bit [OF e(2)] by blast
  have "visitICmpInst pred a b c = Inr (sx_value t)"
    using get e(1) t(1) unfolding visitICmpInst_def icmp_operator_def [symmetric] by simp
  then show ?thesis using t(2,3) e(3) by simp
qed

text \<open>\<open>icmp\<close> gives one bit, set exactly when the comparison of the machine words holds.\<close>

theorem icmp_is_machine_comparison:
  fixes x y :: vexa_value and g :: "'a::len word \<Rightarrow> 'a word \<Rightarrow> bool"
  assumes "cp_get a c = Inr x" and "cp_get b c = Inr y"
    and "bv_val LENGTH('a) x" and "bv_val LENGTH('a) y" and "(pred, g) \<in> set icmp_table"
  shows "\<exists>r. visitICmpInst pred a b c = Inr r \<and> bv_val 1 r \<and>
    (\<forall>env. den env r = of_bool (g (as_word env x) (as_word env y)))"
  using icmp_ok [OF assms] .

lemma cp_get_const: "0 < w \<Longrightarrow> cp_get (LConstantInt w n) demo_cpu = sx_concrete (word_of_int n) w"
  by (simp add: cp_get_def demo_cpu_def demo_machine_def symex_init_def sx_get_def)

theorem icmp_is_machine_comparison_witness:
  "\<exists>r. visitICmpInst ICMP_SGT (LConstantInt 8 1) (LConstantInt 8 255) demo_cpu = Inr r \<and>
     (\<forall>env. den env r = 1)"
proof -
  have get: "cp_get (LConstantInt 8 1) demo_cpu = Inr (value_new (BwBv 8 1))"
    "cp_get (LConstantInt 8 255) demo_cpu = Inr (value_new (BwBv 8 255))"
    by (simp_all add: cp_get_const sx_concrete_eq)
  show ?thesis
    using icmp_is_machine_comparison [OF get, where 'a = 8 and pred = ICMP_SGT and
        g = "\<lambda>x y. word_sless y x"]
    by (auto simp: icmp_table_def as_word_def fits_iff word_sless_alt)
qed

lemma u64_minus_eq: "b \<le> a \<Longrightarrow> a < 2 ^ 64 \<Longrightarrow> u64_minus a b = a - b"
  by (simp add: u64_minus_def unat_sub_if' unat_of_nat take_bit_nat_eq_self)

text \<open>\<open>zext\<close>, \<open>sext\<close> and \<open>trunc\<close> of a value that has the size of its LLVM type keep the number,
  keep the signed number, and cut to the low bits, and the result has the size of the new type.\<close>

theorem casts_correct:
  assumes "cp_get a c = Inr x" and "bv_val s x" and "s \<le> d" and "d < 2 ^ 64" and "0 < t" and "t \<le> s"
  shows "(\<exists>r. visitZExtInst s d a c = Inr r \<and> bv_val d r \<and> (\<forall>env. den env r = den env x)) \<and>
    (\<exists>r. visitSExtInst s d a c = Inr r \<and> bv_val d r \<and>
      (\<forall>env. den env r = take_bit d (to_signed s (den env x)))) \<and>
    (\<exists>r. visitTruncInst s t a c = Inr r \<and> bv_val t r \<and> (\<forall>env. den env r = take_bit t (den env x)))"
proof -
  have src: "src_of_size s a c = Inr (x, s)" using assms(1,2) by (simp add: src_of_size_def)
  have "u64_minus d s = d - s" "u64_minus t 1 = t - 1"
    using assms by (simp_all add: u64_minus_eq)
  then show ?thesis
    using v_zext_ok [OF assms(2), of "d - s"] v_sext_ok [OF assms(2), of "d - s"]
      v_extract_ok [OF assms(2), of 0 "t - 1"] src assms(3,5,6)
    by (simp add: visitZExtInst_def visitSExtInst_def visitTruncInst_def)
qed

theorem casts_correct_witness:
  "\<exists>r. visitSExtInst 8 16 (LConstantInt 8 255) demo_cpu = Inr r \<and> (\<forall>env. den env r = 65535)"
proof -
  have get: "cp_get (LConstantInt 8 255) demo_cpu = Inr (value_new (BwBv 8 255))"
    by (simp add: cp_get_const sx_concrete_eq)
  have "take_bit 16 (to_signed 8 255) = (65535 :: int)" by code_simp
  then show ?thesis
    using casts_correct [OF get, of 8 16 8] by (auto simp: fits_iff)
qed

section \<open>Addresses that are not resolved\<close>

text \<open>C37: \<open>value_to_pointer\<close> cannot return for an address that stays symbolic although the solver
  finds values for it: it asks the symbolic value for its number and throws.\<close>

theorem value_to_pointer_unresolved:
  assumes "cp_get addr c = Inr v0" and "is_symbolic v0"
    and "v_simplify_under S (path_constraints c) v0 = Inr v" and "is_symbolic v"
    and "possible_values S (path_constraints c) v = Inr (values, r)" and "values \<noteq> []"
    and "get_page (sx_value (last values)) c = Inr page"
  shows "value_to_pointer S addr c = Inl (Throw ''cannot concretize value'')"
proof -
  let ?c = "c\<lparr>cp_ir := push_ip (cp_ir c)\<rparr>"
  have "cp_get addr ?c = Inr v0" using assms(1) by (simp add: cp_get_def)
  moreover have "get_page (sx_value (last values)) ?c = Inr page" using assms(7)
    by (cases "as_uint64 (sx_value (last values))") (auto simp: get_page_def Let_def)
  moreover have "\<not> is_concrete v" "as_uint64 v = Inl (Throw ''cannot concretize value'')"
    using assms(4) by (simp_all add: is_concrete_def is_symbolic_def as_uint64_def)
  ultimately show ?thesis using assms(2-6) by (simp add: value_to_pointer_def)
qed

definition demo_symbolic_cpu :: cpu where
  "demo_symbolic_cpu = cp_set (LValue 7) demo_addr demo_cpu"

theorem value_to_pointer_unresolved_witness:
  "value_to_pointer reference_solver (LValue 7) demo_symbolic_cpu = Inl (Throw ''cannot concretize value'')"
proof (rule value_to_pointer_unresolved)
  let ?v = "demo_addr\<lparr>v_simplified := True\<rparr>"
  show "cp_get (LValue 7) demo_symbolic_cpu = Inr demo_addr"
    by (simp add: demo_symbolic_cpu_def cp_set_def cp_get_def)
  show "is_symbolic demo_addr" "is_symbolic ?v" by code_simp+
  have pcs: "path_constraints demo_symbolic_cpu = []"
    by (simp add: demo_symbolic_cpu_def cp_set_def demo_cpu_def)
  have "v_simplify_under reference_solver [] demo_addr = Inr ?v" by code_simp
  then show "v_simplify_under reference_solver (path_constraints demo_symbolic_cpu) demo_addr = Inr ?v"
    by (simp only: pcs)
  have "possible_values reference_solver [] ?v = Inr ([BwBv 64 0x200000, BwBv 64 0x100000], UNSAT)" by code_simp
  then show "possible_values reference_solver (path_constraints demo_symbolic_cpu) ?v =
      Inr ([addr_term 0x200000, addr_term 0x100000], UNSAT)"
    by (simp add: pcs)
  show "[addr_term 0x200000, addr_term 0x100000] \<noteq> []" by simp
  show "get_page (sx_value (last [addr_term 0x200000, addr_term 0x100000])) demo_symbolic_cpu =
      Inr (mem_ptr demo_symbolic_cpu)"
    by (simp add: get_page_def sx_value_def value_new_def as_uint64_def is_concrete_def term_as_uint64_def
        term_bv_size_def fits_iff stack_size_def Let_def)
qed

text \<open>the emulator's load takes the number of a symbolic pointer for an address of the program and
  adds the base of its page once more: a pointer into the stack page whose only value is the offset
  \<open>a\<close>, below half the stack, is read at \<open>stack_base + a\<close>.\<close>

theorem symbolic_pointer_rebased:
  assumes S: "sound_solver S" "folds_constants S" and l: "layout_of c l"
    and p: "is_symbolic (v_simplify S p)" "v_page p = Some (stack_page l)"
    and xs: "possible_values S (path_constraints c) (v_simplify S p) = Inr ([addr_term a], r)" "on_stack a"
  shows "\<exists>ptr. emu_read_memory S p bits c = cp_read S ptr bits c \<and> v_page ptr = Some (stack_page l) \<and>
    as_uint64 (v_simplify S ptr) = Inr (stack_base l + a)"
proof -
  obtain ptr where ptr: "calculate_pointer (sx_value (addr_term a)) c = Inr ptr"
      "as_uint64 (v_simplify S ptr) = Inr (offset_at l a)" "v_page ptr = Some (page_at l a)"
    using calculate_pointer_ok [OF S l, of "sx_value (addr_term a)" a] by (auto simp: sx_value_def)
  then show ?thesis
    using p xs by (intro exI [of _ ptr]) (simp add: emu_read_memory_def offset_at_def page_at_def)
qed

definition demo_stack_ptr :: vexa_value where
  "demo_stack_ptr = pointer_new (value_new (BwApp BV_ADD [addr_term 16376,
     BwApp BV_AND [BwApp BV_ZERO_EXTEND [BwConst 0 ''x'' 1] [63], addr_term 0] []] [])) 0"

theorem symbolic_pointer_rebased_witness:
  "\<exists>ptr. emu_read_memory reference_solver demo_stack_ptr 8 demo_cpu = cp_read reference_solver ptr 8 demo_cpu \<and>
     as_uint64 (v_simplify reference_solver ptr) = Inr 32760"
proof -
  have l: "layout_of demo_cpu demo_layout" using demo_cpu_ok by (simp add: cpu_ok_def)
  have sym: "is_symbolic (v_simplify reference_solver demo_stack_ptr)" by code_simp
  have "possible_values reference_solver [] (v_simplify reference_solver demo_stack_ptr) =
      Inr ([BwBv 64 16376], UNSAT)" by code_simp
  then have xs: "possible_values reference_solver (path_constraints demo_cpu)
      (v_simplify reference_solver demo_stack_ptr) = Inr ([addr_term 16376], UNSAT)"
    by (simp add: demo_cpu_def)
  show ?thesis
    using symbolic_pointer_rebased [OF reference_solver_sound reference_solver_folds l sym _ xs, of 8]
    by (auto simp: demo_stack_ptr_def demo_layout_def on_stack_def)
qed

end
