(* ===== verification/Emulator_Types.thy ===== *)
theory Emulator_Types
  imports Emulator_Instructions
begin

text \<open>
  Type safety of the emulator (emulator.cpp) for the instructions that compute: the typing rules that LLVM gives them, what it
  means that the table of symbolic values fits the types, and that a block of well-typed instructions is emulated
  without an exception, each instruction getting a symbolic value of its type. Loads, stores and calls are not covered by
  the rules: what they return depends on the memory.
\<close>

section \<open>Types\<close>

text \<open>The types of the values of a lifted function. A vector is as wide as its elements together.\<close>

datatype llvm_type = TInt nat | TPtr

text \<open>A symbolic value of a type: a bit vector of its width, and for a pointer one with a page.\<close>

fun of_type :: "llvm_type \<Rightarrow> vexa_value \<Rightarrow> bool" where
  "of_type (TInt w) v \<longleftrightarrow> bv_val w v"
| "of_type TPtr v \<longleftrightarrow> bv_val 64 v \<and> v_kind v = Kind_pointer \<and> v_page v \<noteq> None"

type_synonym typing = "nat \<rightharpoonup> llvm_type"

fun operand_type :: "typing \<Rightarrow> llvm_value \<Rightarrow> llvm_type \<Rightarrow> bool" where
  "operand_type \<Gamma> (LConstantInt w n) ty \<longleftrightarrow> 0 < w \<and> ty = TInt w"
| "operand_type \<Gamma> (LValue i) ty \<longleftrightarrow> \<Gamma> i = Some ty"

text \<open>The typing rules. The index into a vector is a constant in its range; the offset of an address is a constant.\<close>

inductive has_type :: "typing \<Rightarrow> ir_inst \<Rightarrow> llvm_type \<Rightarrow> bool" for \<Gamma> where
  t_binary: "operand_type \<Gamma> a (TInt w) \<Longrightarrow> operand_type \<Gamma> b (TInt w) \<Longrightarrow> \<forall>name. op \<noteq> Other_op name \<Longrightarrow>
    has_type \<Gamma> (IBinary op a b) (TInt w)"
| t_icmp: "operand_type \<Gamma> a (TInt w) \<Longrightarrow> operand_type \<Gamma> b (TInt w) \<Longrightarrow> \<forall>name. p \<noteq> Other_pred name \<Longrightarrow>
    has_type \<Gamma> (IICmp p a b) (TInt 1)"
| t_zext: "operand_type \<Gamma> a (TInt s) \<Longrightarrow> s < d \<Longrightarrow> d < 2 ^ 64 \<Longrightarrow> has_type \<Gamma> (IZExt s d a) (TInt d)"
| t_sext: "operand_type \<Gamma> a (TInt s) \<Longrightarrow> s < d \<Longrightarrow> d < 2 ^ 64 \<Longrightarrow> has_type \<Gamma> (ISExt s d a) (TInt d)"
| t_trunc: "operand_type \<Gamma> a (TInt s) \<Longrightarrow> 0 < d \<Longrightarrow> d < s \<Longrightarrow> s < 2 ^ 64 \<Longrightarrow> has_type \<Gamma> (ITrunc s d a) (TInt d)"
| t_select: "operand_type \<Gamma> cnd (TInt 1) \<Longrightarrow> operand_type \<Gamma> a (TInt w) \<Longrightarrow> operand_type \<Gamma> b (TInt w) \<Longrightarrow>
    has_type \<Gamma> (ISelect cnd a b) (TInt w)"
| t_freeze: "operand_type \<Gamma> a ty \<Longrightarrow> has_type \<Gamma> (IFreeze a) ty"
| t_extract: "operand_type \<Gamma> a (TInt (w * count)) \<Longrightarrow> 0 < w \<Longrightarrow> 0 < k \<Longrightarrow> k \<le> 64 \<Longrightarrow>
    unat (take_bit k (word_of_int e :: u64)) < count \<Longrightarrow> has_type \<Gamma> (IExtractElement count w a (LConstantInt k e)) (TInt w)"
| t_alloca: "has_type \<Gamma> (IAlloca n) TPtr"
| t_gep: "operand_type \<Gamma> p TPtr \<Longrightarrow> has_type \<Gamma> (IGep p (Some off)) TPtr"
| t_gep_value: "operand_type \<Gamma> p TPtr \<Longrightarrow> has_type \<Gamma> (IGepValue p (LConstantInt w n)) TPtr"

inductive_cases has_type_elims: "has_type \<Gamma> inst ty"

text \<open>The table of symbolic values fits the types; constants have no entry.\<close>

definition well_typed :: "typing \<Rightarrow> cpu \<Rightarrow> bool" where
  "well_typed \<Gamma> c \<longleftrightarrow> (\<forall>w n. sx_vars (cp_symex c) (LConstantInt w n) = None) \<and>
     (\<forall>i ty. \<Gamma> i = Some ty \<longrightarrow> (\<exists>v. sx_vars (cp_symex c) (LValue i) = Some v \<and> of_type ty v))"

text \<open>The instructions of a block in order, each typed over those before it; a terminator has no value.\<close>

fun block_typed :: "typing \<Rightarrow> ir_node list \<Rightarrow> typing \<Rightarrow> bool" where
  "block_typed \<Gamma> [] \<Gamma>' \<longleftrightarrow> \<Gamma>' = \<Gamma>"
| "block_typed \<Gamma> ((i, inst) # nodes) \<Gamma>' \<longleftrightarrow>
     (if is_terminator inst then block_typed \<Gamma> nodes \<Gamma>'
      else \<exists>ty. has_type \<Gamma> inst ty \<and> block_typed (\<Gamma>(i \<mapsto> ty)) nodes \<Gamma>')"

section \<open>Operands\<close>

lemma operand_value:
  assumes "well_typed \<Gamma> c" and "operand_type \<Gamma> a ty"
  shows "\<exists>v. cp_get a c = Inr v \<and> of_type ty v"
proof (cases a)
  case (LConstantInt w n)
  then have "cp_get a c = Inr (value_new (BwBv w (take_bit w (uint (word_of_int n :: u64)))))"
    using assms by (simp add: cp_get_def sx_get_def well_typed_def sx_concrete_eq)
  then show ?thesis using assms(2) LConstantInt by auto
next
  case (LValue i)
  then have "\<Gamma> i = Some ty" using assms(2) by simp
  then obtain v where "sx_vars (cp_symex c) (LValue i) = Some v" "of_type ty v" using assms(1) unfolding well_typed_def by blast
  then show ?thesis using LValue by (simp add: cp_get_def sx_get_def)
qed

lemma int_operand:
  assumes "well_typed \<Gamma> c" and "operand_type \<Gamma> a (TInt w)"
  obtains v where "cp_get a c = Inr v" and "bv_val w v"
  using operand_value [OF assms] by auto

lemma ptr_operand:
  assumes "well_typed \<Gamma> c" and "operand_type \<Gamma> p TPtr"
  obtains v page where "cp_get p c = Inr v" and "bv_val 64 v" and "v_kind v = Kind_pointer" and "v_page v = Some page"
  using operand_value [OF assms] by auto

section \<open>One instruction\<close>

lemma binary_typed:
  assumes "cp_get a c = Inr x" and "cp_get b c = Inr y" and "bv_val w x" and "bv_val w y" and "\<forall>name. op \<noteq> Other_op name"
  shows "\<exists>r. visitBinaryOperator op a b c = Inr r \<and> bv_val w r"
proof -
  have "\<exists>k \<in> set bv_binary_kinds. visitBinaryOperator op a b c = v_binary k x y"
    using assms(1,2,5) by (cases op) (auto simp: visitBinaryOperator_def operator_defs bv_binary_kinds_def)
  then show ?thesis using v_binary_bv assms(3,4) by metis
qed

lemma icmp_typed:
  assumes "cp_get a c = Inr x" and "cp_get b c = Inr y" and "bv_val w x" and "bv_val w y" and "\<forall>name. p \<noteq> Other_pred name"
  shows "\<exists>r. visitICmpInst p a b c = Inr r \<and> bv_val 1 r"
proof -
  have "\<exists>e. icmp_operator p x y = Inr e \<and> bool_val e"
  proof -
    have "\<exists>k \<in> set bv_compare_kinds \<union> {EQUAL, DISTINCT}. icmp_operator p x y = v_binary k x y"
      using assms(5) by (cases p) (auto simp: icmp_operator_def operator_defs bv_compare_kinds_def)
    then obtain k where k: "k \<in> set bv_compare_kinds \<union> {EQUAL, DISTINCT}" "icmp_operator p x y = v_binary k x y" by blast
    show ?thesis
    proof (cases "k \<in> set bv_compare_kinds")
      case True
      then show ?thesis using v_binary_compare [OF _ assms(3,4)] k by metis
    next
      case False
      then show ?thesis using k assms(3,4) sort_equal [of k "v_term x" "BvSort w" "v_term y"]
        by (auto simp: v_binary_def mk_term_Inr bv_val_def)
    qed
  qed
  then obtain e where e: "icmp_operator p x y = Inr e" "bool_val e" by blast
  obtain t where "mk_term ITE [v_term e, BwBv 1 1, BwBv 1 0] [] = Inr t" "bv_val 1 (sx_value t)" using bool_to_bit [OF e(2)] by blast
  then show ?thesis using assms(1,2) e(1) unfolding visitICmpInst_def icmp_operator_def [symmetric] by simp
qed

lemma pointer_into_typed:
  assumes "bv_val 64 p" and "v_page p = Some page" and "bv_val 64 off"
  shows "\<exists>r. pointer_into p off = Inr r \<and> of_type TPtr r"
proof -
  obtain r where "v_add p off = Inr r" "bv_val 64 r"
    using v_binary_bv [of BV_ADD 64 p off] assms by (auto simp: v_add_def bv_binary_kinds_def)
  then show ?thesis using assms(2) by (simp add: pointer_into_def sx_pointer_def)
qed

lemma gep_typed:
  assumes "well_typed \<Gamma> c" and "operand_type \<Gamma> p TPtr"
  shows "\<exists>r. visitGetElementPtrInst p (Some off) c = Inr r \<and> of_type TPtr r"
proof -
  obtain v page where v: "cp_get p c = Inr v" "bv_val 64 v" "v_kind v = Kind_pointer" "v_page v = Some page"
    using ptr_operand [OF assms] .
  have "bv_val 64 (value_new (BwBv 64 (take_bit 64 (uint off))))" by simp
  from pointer_into_typed [OF v(2,4) this] show ?thesis
    using v by (simp add: visitGetElementPtrInst_def sx_concrete_eq to_ptr_def)
qed

lemma extract_typed:
  assumes "cp_get a c = Inr vec" and "bv_val (w * count) vec" and "cp_get i c = Inr index" and "is_concrete index"
    and "as_uint64 index = Inr e" and "unat e < count" and "0 < w"
  shows "\<exists>r. visitExtractElementInst count w a i self c = Inr (r, c) \<and> bv_val w r"
proof -
  have "Suc (unat e) * w \<le> count * w" using assms(6) by (intro mult_le_mono1) simp
  then have "unat e * w + w - 1 < w * count" using assms(7) by (simp add: mult.commute)
  then obtain r where "v_extract (unat e * w + w - 1) (unat e * w) vec = Inr r" "bv_val w r"
    using v_extract_ok [OF assms(2), of "unat e * w" "unat e * w + w - 1"] assms(7)
    by (metis Nat.add_diff_assoc Suc_eq_plus1 Suc_pred' add_diff_cancel_left' le_add1 One_nat_def Suc_leI)
  then show ?thesis using assms by (simp add: visitExtractElementInst_def Let_def)
qed

lemma select_typed:
  assumes "cp_get cnd c = Inr k" and "cp_get a c = Inr x" and "cp_get b c = Inr y" and "bv_val 1 k" and "bv_val w x" and "bv_val w y"
  shows "\<exists>r. visitSelectInst cnd a b c = Inr r \<and> bv_val w r"
  using v_ite_bv_ok [OF assms(4-6)] assms(1-3) by (auto simp: visitSelectInst_def)

lemma constant_index:
  assumes "well_typed \<Gamma> c" and "0 < k" and "k \<le> 64"
  obtains v where "cp_get (LConstantInt k e) c = Inr v" and "is_concrete v" and "as_uint64 v = Inr (take_bit k (word_of_int e))"
proof -
  obtain v where "sx_concrete (word_of_int e) k = Inr v" "is_concrete v" "as_uint64 v = Inr (take_bit k (word_of_int e))"
    using concrete_as_uint64 [OF assms(2,3)] by blast
  moreover have "cp_get (LConstantInt k e) c = sx_concrete (word_of_int e) k"
    using assms(1) by (simp add: cp_get_def sx_get_def well_typed_def)
  ultimately show ?thesis using that by simp
qed

text \<open>A well-typed instruction is emulated, its value has its type, and the table of values is left as it is.\<close>

lemma visit_typed:
  assumes t: "has_type \<Gamma> inst ty" and c: "well_typed \<Gamma> c"
  shows "\<exists>v c'. visit_plain S self inst c = Inr (v, c') \<and> of_type ty v \<and> sx_vars (cp_symex c') = sx_vars (cp_symex c) \<and>
    cp_ir c' = cp_ir c \<and> forked_block c' = forked_block c"
  using t
proof cases
  case (t_binary a w b op)
  obtain x y where "cp_get a c = Inr x" "bv_val w x" "cp_get b c = Inr y" "bv_val w y"
    using int_operand [OF c t_binary(3)] int_operand [OF c t_binary(4)] by metis
  then obtain r where "visitBinaryOperator op a b c = Inr r" "of_type ty r"
    using binary_typed [OF _ _ _ _ t_binary(5)] t_binary(2) of_type.simps(1) by metis
  then show ?thesis using t_binary(1) by (simp add: visit_plain_def)
next
  case (t_icmp a w b p)
  obtain x y where "cp_get a c = Inr x" "bv_val w x" "cp_get b c = Inr y" "bv_val w y"
    using int_operand [OF c t_icmp(3)] int_operand [OF c t_icmp(4)] by metis
  then obtain r where "visitICmpInst p a b c = Inr r" "of_type ty r"
    using icmp_typed [OF _ _ _ _ t_icmp(5)] t_icmp(2) of_type.simps(1) by metis
  then show ?thesis using t_icmp(1) by (simp add: visit_plain_def)
next
  case (t_zext a s d)
  obtain v where "cp_get a c = Inr v" "bv_val s v" using int_operand [OF c t_zext(3)] .
  then show ?thesis using casts_correct [of a c v s d 1] bv_val_pos t_zext by (fastforce simp: visit_plain_def)
next
  case (t_sext a s d)
  obtain v where "cp_get a c = Inr v" "bv_val s v" using int_operand [OF c t_sext(3)] .
  then show ?thesis using casts_correct [of a c v s d 1] bv_val_pos t_sext by (fastforce simp: visit_plain_def)
next
  case (t_trunc a s d)
  obtain v where "cp_get a c = Inr v" "bv_val s v" using int_operand [OF c t_trunc(3)] .
  then show ?thesis using casts_correct [of a c v s s d] t_trunc by (fastforce simp: visit_plain_def)
next
  case (t_select cnd a w b)
  obtain k x y where "cp_get cnd c = Inr k" "bv_val 1 k" "cp_get a c = Inr x" "bv_val w x" "cp_get b c = Inr y" "bv_val w y"
    using int_operand [OF c t_select(3)] int_operand [OF c t_select(4)] int_operand [OF c t_select(5)] by metis
  then show ?thesis using select_typed t_select by (fastforce simp: visit_plain_def)
next
  case (t_freeze a)
  then show ?thesis using operand_value [OF c t_freeze(2)] by (fastforce simp: visit_plain_def)
next
  case (t_extract a w count k e)
  obtain vec i where "cp_get a c = Inr vec" "bv_val (w * count) vec" "cp_get (LConstantInt k e) c = Inr i" "is_concrete i"
      "as_uint64 i = Inr (take_bit k (word_of_int e))"
    using int_operand [OF c t_extract(3)] constant_index [OF c t_extract(5,6), of e] by metis
  then show ?thesis using extract_typed t_extract by (fastforce simp: visit_plain_def)
next
  case (t_alloca n)
  then show ?thesis by (simp add: visit_plain_def visitAllocaInst_def sx_concrete_eq sx_pointer_def split: prod.split)
next
  case (t_gep p off)
  then show ?thesis using gep_typed [OF c t_gep(3), of off] by (fastforce simp: visit_plain_def)
next
  case (t_gep_value p w n)
  then show ?thesis using gep_typed [OF c t_gep_value(3), of "word_of_int (to_signed w n)"] by (fastforce simp: visit_plain_def gep_offset_def)
qed

section \<open>A block\<close>

lemma run_typed:
  assumes t: "has_type \<Gamma> inst ty" and c: "well_typed \<Gamma> c"
  shows "\<exists>d c'. emu_run S hyper (i, inst) c = Inr (d, c') \<and> well_typed (\<Gamma>(i \<mapsto> ty)) c' \<and> cp_ir c' = cp_ir c \<and>
    forked_block c' = forked_block c"
proof -
  obtain v c1 where v: "visit_plain S i inst c = Inr (v, c1)" "of_type ty v" "sx_vars (cp_symex c1) = sx_vars (cp_symex c)"
      "cp_ir c1 = cp_ir c" "forked_block c1 = forked_block c"
    using visit_typed [OF t c] by metis
  have "emu_run S hyper (i, inst) c = Inr (\<lparr>d_l = LValue i, d_v = v\<rparr>, cp_set (LValue i) v c1)"
    using v(1) t by (auto simp: emu_run_def elim: has_type.cases split: ir_inst.split)
  moreover have "well_typed (\<Gamma>(i \<mapsto> ty)) (cp_set (LValue i) v c1)"
    using c v(2,3) by (simp add: well_typed_def cp_set_def sx_set_def)
  ultimately show ?thesis using v(4,5) by (simp add: cp_set_def)
qed

lemma nodes_typed:
  "well_typed \<Gamma> c \<Longrightarrow> block_typed \<Gamma> nodes \<Gamma>' \<Longrightarrow> \<forall>(i, inst) \<in> set nodes. current_inst i c = Some inst \<Longrightarrow>
     forked_block c \<noteq> Some bb \<Longrightarrow> \<exists>c'. run_nodes S hyper bb (map fst nodes) c = Inr c' \<and> well_typed \<Gamma>' c' \<and> cp_ir c' = cp_ir c"
proof (induction nodes arbitrary: \<Gamma> c)
  case (Cons node nodes)
  obtain i inst where node: "node = (i, inst)" by (cases node)
  have inst: "current_inst i c = Some inst" using Cons.prems(3) node by simp
  show ?case
  proof (cases "is_terminator inst")
    case True
    then show ?thesis using Cons.IH [OF Cons.prems(1)] Cons.prems inst node by simp
  next
    case False
    then obtain ty where ty: "has_type \<Gamma> inst ty" "block_typed (\<Gamma>(i \<mapsto> ty)) nodes \<Gamma>'" using Cons.prems(2) node by auto
    obtain d c1 where c1: "emu_run S hyper (i, inst) c = Inr (d, c1)" "well_typed (\<Gamma>(i \<mapsto> ty)) c1" "cp_ir c1 = cp_ir c"
        "forked_block c1 = forked_block c" using run_typed [OF ty(1) Cons.prems(1)] by metis
    have "\<forall>(i, inst) \<in> set nodes. current_inst i c1 = Some inst" using Cons.prems(3) c1(3) by (simp add: current_inst_def)
    from Cons.IH [OF c1(2) ty(2) this] show ?thesis using False inst node c1 Cons.prems(4) by simp
  qed
qed simp


text \<open>An address that moves with a constant, and a comparison that chooses between a sum and its sign extension.\<close>

definition demo_typed :: cpu where
  "demo_typed = demo_cpu\<lparr>cp_ir := (cp_ir demo_cpu)\<lparr>ir_blocks :=
     [[(20, IAlloca 16), (21, IGep (LValue 20) (Some 8)), (22, IBinary SDiv (LConstantInt 8 1) (LConstantInt 8 255)),
       (23, ISExt 8 32 (LValue 22)), (24, IICmp ICMP_SLT (LValue 22) (LConstantInt 8 0)),
       (25, ISelect (LValue 24) (LValue 23) (LConstantInt 32 7)), (26, IRet (LValue 25))]]\<rparr>\<rparr>"


end
