(* ===== verification/Cpu.thy ===== *)
theory Cpu
  imports Symbolic_Access
begin

text \<open>
  \<open>vexa::cpu\<close> (arch.cpp): the exploration of the paths of a function. An instruction is fetched,
  decoded and lifted by remill into a fresh block, the block is emulated, and the control flow of the
  instruction decides where to go on; a conditional branch that the solver does not decide forks the
  path, with a snapshot of the fallthrough side on a stack. Remill and the callbacks of the user are
  arguments.
\<close>

section \<open>Remill and the callbacks\<close>

record remill_inst =
  ri_function :: string
  ri_is_control_flow :: bool
  ri_is_conditional :: bool
  ri_is_direct :: bool
  ri_branch_taken_pc :: u64
  ri_branch_not_taken_pc :: u64
  ri_next_pc :: u64

text \<open>\<open>DecodeInstruction\<close>, \<open>LiftIntoBlock\<close> with whether it succeeded, the numbers of the hyper calls,
  \<open>Register::AddressOf\<close>, which may add instructions, and what \<open>event_handler\<close> runs for an event: nothing when no callback is registered.\<close>

record host =
  rm_decode :: "u64 \<Rightarrow> byte list \<Rightarrow> remill_inst option"
  rm_lift :: "remill_inst \<Rightarrow> block_id \<Rightarrow> ir_builder \<Rightarrow> bool \<times> ir_builder"
  rm_hyper :: "int \<Rightarrow> hyper_call"
  rm_address_of :: "register \<Rightarrow> llvm_value \<Rightarrow> ir_builder \<Rightarrow> llvm_value \<times> ir_builder"
  event_callbacks :: "event_kind \<Rightarrow> (cpu \<Rightarrow> cpu res) option"

definition event_handler :: "host \<Rightarrow> event_kind \<Rightarrow> cpu \<Rightarrow> cpu res" where
  "event_handler H k c = (case event_callbacks H k of Some f \<Rightarrow> f c | None \<Rightarrow> Inr c)"

section \<open>Snapshots\<close>

definition with_memory :: "memory \<Rightarrow> cpu \<Rightarrow> cpu" where
  "with_memory m c = c\<lparr>cp_machine := (cp_machine c)\<lparr>mc_memory := m\<rparr>\<rparr>"

definition cpu_take_snapshot :: "u64 \<Rightarrow> block_id \<Rightarrow> cpu \<Rightarrow> cpu_snapshot \<times> cpu" where
  "cpu_take_snapshot pc bb c =
     (case take_snapshot (cp_memory c) of (ms, m) \<Rightarrow>
        (\<lparr>ss_mem = ms, ss_pc = pc, ss_vpc = cp_VPC c, ss_bb = bb, ss_vjmp = cp_VJMP c, ss_path = cp_PATH c,
          ss_path_constraints = path_constraints c\<rparr>, with_memory m c))"

definition cpu_restore_snapshot :: "cpu_snapshot \<Rightarrow> cpu \<Rightarrow> cpu" where
  "cpu_restore_snapshot ss c =
     (with_memory (restore_snapshot (ss_mem ss) (cp_memory c)) c)
       \<lparr>cp_ir := set_insert_point (ss_bb ss, None) (cp_ir c), cp_PC := ss_pc ss, cp_VPC := ss_vpc ss,
        cp_VJMP := ss_vjmp ss, cp_PATH := ss_path ss, path_constraints := ss_path_constraints ss\<rparr>"

text \<open>The end of the scope of a snapshot that is not stored.\<close>

definition cpu_drop_snapshot :: "cpu_snapshot \<Rightarrow> cpu \<Rightarrow> cpu" where
  "cpu_drop_snapshot ss c = with_memory (drop_snapshot (ss_mem ss) (cp_memory c)) c"

section \<open>Rebuilding control flow edges\<close>

definition build :: "ir_inst \<Rightarrow> cpu \<Rightarrow> cpu" where
  "build inst c = snd (cp_emit inst 0 c)"

definition cfg_recovery :: "cpu \<Rightarrow> (bool \<times> cpu) res" where
  "cfg_recovery c =
     (if cp_mode c = CFG_RECOVERY then
        res_bind (get_option CFG_JOIN_POLICY (cp_options c)) (\<lambda>policy.
          if policy = SPECIALIZE_BY_PATH then
            (case cp_PATH c (cp_VPC c) of
               Some bb \<Rightarrow> Inr (True, (build (IBr bb) c)\<lparr>cp_VJMP := False\<rparr>)
             | None \<Rightarrow> Inr (False, c))
          else
            (case cp_CFG c (cp_PC c) of Some bb \<Rightarrow> Inr (True, build (IBr bb) c) | None \<Rightarrow> Inr (False, c)))
      else if cp_mode c = VCFG_RECOVERY then
        if \<not> cp_VJMP c then Inr (False, c)
        else
          res_bind (get_option CFG_JOIN_POLICY (cp_options c)) (\<lambda>policy.
            case (if policy = SPECIALIZE_BY_PATH then cp_PATH c (cp_VPC c) else cp_VCFG c (cp_VPC c)) of
              Some bb \<Rightarrow> Inr (True, (build (IBr bb) c)\<lparr>cp_VJMP := False\<rparr>)
            | None \<Rightarrow> Inr (False, c\<lparr>cp_VJMP := False\<rparr>))
      else Inr (False, c))"

text \<open>The lifted block is remembered under the program counter or the virtual one. \<open>try_emplace\<close>
  keeps an entry that is there.\<close>

definition try_emplace :: "u64 \<Rightarrow> block_id \<Rightarrow> (u64 \<rightharpoonup> block_id) \<Rightarrow> (u64 \<rightharpoonup> block_id)" where
  "try_emplace k v m = (case m k of None \<Rightarrow> m(k \<mapsto> v) | Some x \<Rightarrow> m)"

definition save_lifted :: "block_id \<Rightarrow> cpu \<Rightarrow> cpu res" where
  "save_lifted bb c =
     (if cp_mode c = CFG_RECOVERY then
        res_bind (get_option CFG_JOIN_POLICY (cp_options c)) (\<lambda>policy.
          if policy = SPECIALIZE_BY_PATH then Inr (c\<lparr>cp_PATH := (cp_PATH c)(cp_PC c \<mapsto> bb)\<rparr>)
          else Inr (c\<lparr>cp_CFG := (cp_CFG c)(cp_PC c \<mapsto> bb)\<rparr>))
      else if cp_mode c = VCFG_RECOVERY then
        res_bind (get_option CFG_JOIN_POLICY (cp_options c)) (\<lambda>policy.
          if policy = SPECIALIZE_BY_PATH then Inr (c\<lparr>cp_PATH := try_emplace (cp_VPC c) bb (cp_PATH c)\<rparr>)
          else Inr (c\<lparr>cp_VCFG := try_emplace (cp_VPC c) bb (cp_VCFG c)\<rparr>))
      else Inr c)"

section \<open>Fetching\<close>

text \<open>The bytes at the program counter, up to the first one that is not known. A byte whose position in
  its value is eight or more makes the shift of the 64-bit number undefined.\<close>

fun fetch_bytes :: "memory \<Rightarrow> page_id \<Rightarrow> u64 \<Rightarrow> nat \<Rightarrow> byte list res" where
  "fetch_bytes m p pc 0 = Inr []"
| "fetch_bytes m p pc (Suc n) =
     (case page_find m p pc of None \<Rightarrow> Inr []
      | Some cell \<Rightarrow>
          if \<not> is_value (v_term (original_val cell)) then Inr []
          else
            res_bind (as_uint64 (original_val cell)) (\<lambda>full_val.
            if 64 \<le> which_byte cell * 8 then Inl Undefined_behaviour
            else
              res_bind (fetch_bytes m p (pc + 1) n) (\<lambda>bs.
              Inr (ucast (drop_bit (which_byte cell * 8) full_val) # bs))))"

section \<open>Deciding and forking\<close>

text \<open>\<open>opaque_solver\<close>: the condition with its simplified term, and what it is when it is concrete.\<close>

definition opaque_solver :: "solver \<Rightarrow> vexa_value \<Rightarrow> (vexa_value \<times> bool option) res" where
  "opaque_solver S condition =
     (let cond = v_simplify S condition in
      if is_concrete cond then res_bind (as_uint64 cond) (\<lambda>n. Inr (cond, Some (n \<noteq> 0)))
      else Inr (cond, None))"

definition solve_register :: "solver \<Rightarrow> reg \<times> register \<Rightarrow> cpu \<Rightarrow> cpu res" where
  "solve_register S e c =
     (case e of (reg_id, reg) \<Rightarrow>
        if reg_has_parent reg \<or> reg_size reg < 8 then Inr c
        else
          res_bind (read_register S reg_id c) (\<lambda>(v, c1).
          res_bind (v_simplify_under S (path_constraints c1) v) (\<lambda>v1.
          let v2 = v_simplify S v1 in
          if is_concrete v2 then write_register S reg_id v2 c1 else Inr c1)))"

definition solve_cpu_context :: "solver \<Rightarrow> cpu \<Rightarrow> cpu res" where
  "solve_cpu_context S c = res_fold (solve_register S) (cp_registers c) c"

definition push_constraint :: "bw_term \<Rightarrow> cpu \<Rightarrow> cpu" where
  "push_constraint t c = c\<lparr>path_constraints := path_constraints c @ [t]\<rparr>"

definition constrain_taken :: "vexa_value \<Rightarrow> cpu \<Rightarrow> cpu res" where
  "constrain_taken cond c = res_bind (as_expr_bool cond) (\<lambda>t. Inr (push_constraint t c))"

definition constrain_not_taken :: "vexa_value \<Rightarrow> cpu \<Rightarrow> cpu res" where
  "constrain_not_taken cond c = res_bind (v_lnot cond) (\<lambda>v. Inr (push_constraint (v_term v) c))"

definition new_block :: "cpu \<Rightarrow> block_id \<times> cpu" where
  "new_block c = (case basic_block (cp_ir c) of (bb, b) \<Rightarrow> (bb, c\<lparr>cp_ir := b\<rparr>))"

definition at_end_of :: "block_id \<Rightarrow> cpu \<Rightarrow> cpu" where
  "at_end_of bb c = c\<lparr>cp_ir := set_insert_point (bb, None) (cp_ir c)\<rparr>"

definition fork_path :: "solver \<Rightarrow> host \<Rightarrow> llvm_value \<Rightarrow> vexa_value \<Rightarrow> u64 \<Rightarrow> u64 \<Rightarrow> cpu \<Rightarrow> cpu res" where
  "fork_path S H cond_l cond jump_pc fallthrough_pc c =
     (case new_block c of (jump_bb, c1) \<Rightarrow>
      case new_block c1 of (fallthrough_bb, c2) \<Rightarrow>
      case cpu_take_snapshot (cp_PC c2) (cp_block c2) c2 of (base, c3) \<Rightarrow>
      res_bind (constrain_not_taken cond c3) (\<lambda>c4.
      res_bind (solve_cpu_context S c4) (\<lambda>c5.
      case cpu_take_snapshot fallthrough_pc fallthrough_bb c5 of (ss, c6) \<Rightarrow>
      let c7 = cpu_restore_snapshot base (c6\<lparr>unexplored_paths := ss # unexplored_paths c6\<rparr>);
          c8 = at_end_of jump_bb (build (ICondBr cond_l jump_bb fallthrough_bb) c7)
      in
      res_bind (constrain_taken cond c8) (\<lambda>c9.
      res_bind (solve_cpu_context S c9) (\<lambda>c10.
      res_bind (event_handler H PATH_FORKING (c10\<lparr>cp_PC := jump_pc\<rparr>)) (\<lambda>c11.
      Inr (cpu_drop_snapshot base c11)))))))"

definition branching :: "solver \<Rightarrow> host \<Rightarrow> dual_value \<Rightarrow> u64 \<Rightarrow> u64 \<Rightarrow> cpu \<Rightarrow> cpu res" where
  "branching S H condition jump_pc fallthrough_pc c =
     res_bind (get_option OPAQUE_SOLVING (cp_options c)) (\<lambda>opt.
     res_bind (if opt \<noteq> 0 then opaque_solver S (d_v condition) else Inr (d_v condition, None))
       (\<lambda>(cond, taken).
     case taken of
       Some True \<Rightarrow>
         res_bind (constrain_taken cond (c\<lparr>cp_PC := jump_pc\<rparr>)) (event_handler H CONDITIONAL_TAKEN)
     | Some False \<Rightarrow>
         res_bind (constrain_not_taken cond (c\<lparr>cp_PC := fallthrough_pc\<rparr>)) (event_handler H CONDITIONAL_FALLTHROUGH)
     | None \<Rightarrow> fork_path S H (d_l condition) cond jump_pc fallthrough_pc c))"

text \<open>\<open>get_condition\<close> and \<open>get_next_pc\<close>: the value of the last store to a variable of the lifted
  function.\<close>

fun last_store :: "llvm_value \<Rightarrow> ir_node list \<Rightarrow> llvm_value option" where
  "last_store p [] = None"
| "last_store p ((i, inst) # rest) =
     (case inst of IStore v q \<Rightarrow> if q = p then Some v else last_store p rest | _ \<Rightarrow> last_store p rest)"

definition get_condition :: "solver \<Rightarrow> block_id \<Rightarrow> cpu \<Rightarrow> (dual_value \<times> cpu) res" where
  "get_condition S bb c =
     (case last_store (branch_taken c) (rev (ir_blocks (cp_ir c) ! bb)) of
        Some v \<Rightarrow> run_emitted S (ITrunc (primitive_size (cp_ir c) v) 1 v) 1 c
      | None \<Rightarrow> Inl (Throw (''Couldn'' @ [CHR 0x27] @ ''t get condition'')))"

definition get_next_pc :: "block_id \<Rightarrow> cpu \<Rightarrow> dual_value res" where
  "get_next_pc bb c =
     (case last_store (next_pc c) (rev (ir_blocks (cp_ir c) ! bb)) of
        Some v \<Rightarrow> res_bind (cp_get v c) (\<lambda>x. Inr \<lparr>d_l = v, d_v = x\<rparr>)
      | None \<Rightarrow> Inl (Throw (''Couldn'' @ [CHR 0x27] @ ''t get next pc'')))"

section \<open>Conditional moves\<close>

text \<open>The select below the casts and masks of a stored value, with the instructions that wrap it, the
  outermost first. The operands of an instruction come before it, so the number of instructions is
  enough fuel.\<close>

fun peel_select ::
  "nat \<Rightarrow> (nat \<rightharpoonup> ir_inst) \<Rightarrow> llvm_value \<Rightarrow> ir_inst list \<Rightarrow>
     ((llvm_value \<times> llvm_value \<times> llvm_value) \<times> ir_inst list) option" where
  "peel_select 0 insts v wrappers = None"
| "peel_select (Suc fuel) insts v wrappers =
     (case v of LConstantInt w n \<Rightarrow> None
      | LValue i \<Rightarrow>
          (case insts i of
             Some (ISelect cnd a b) \<Rightarrow> Some ((cnd, a, b), wrappers)
           | Some (IZExt s d a) \<Rightarrow> peel_select fuel insts a (wrappers @ [IZExt s d a])
           | Some (ISExt s d a) \<Rightarrow> peel_select fuel insts a (wrappers @ [ISExt s d a])
           | Some (ITrunc s d a) \<Rightarrow> peel_select fuel insts a (wrappers @ [ITrunc s d a])
           | Some (IIntToPtr a) \<Rightarrow> peel_select fuel insts a (wrappers @ [IIntToPtr a])
           | Some (IBinary And a b) \<Rightarrow> peel_select fuel insts a (wrappers @ [IBinary And a b])
           | _ \<Rightarrow> None))"

fun find_cmov ::
  "nat \<Rightarrow> (nat \<rightharpoonup> ir_inst) \<Rightarrow> ir_node list \<Rightarrow>
     (nat \<times> llvm_value \<times> (llvm_value \<times> llvm_value \<times> llvm_value) \<times> ir_inst list) option" where
  "find_cmov fuel insts [] = None"
| "find_cmov fuel insts ((i, inst) # rest) =
     (case inst of
        IStore v p \<Rightarrow>
          (case peel_select fuel insts v [] of
             Some (sel, wrappers) \<Rightarrow> Some (i, p, sel, wrappers)
           | None \<Rightarrow> find_cmov fuel insts rest)
      | _ \<Rightarrow> find_cmov fuel insts rest)"

text \<open>A copy of a wrapper around another value, with the size of its type.\<close>

fun rewrap :: "ir_inst \<Rightarrow> llvm_value \<Rightarrow> ir_inst" where
  "rewrap (IZExt s d a) v = IZExt s d v"
| "rewrap (ISExt s d a) v = ISExt s d v"
| "rewrap (ITrunc s d a) v = ITrunc s d v"
| "rewrap (IIntToPtr a) v = IIntToPtr v"
| "rewrap (IBinary op a b) v = IBinary op v b"
| "rewrap inst v = inst"

fun wrapper_size :: "ir_builder \<Rightarrow> ir_inst \<Rightarrow> nat" where
  "wrapper_size b (IZExt s d a) = d"
| "wrapper_size b (ISExt s d a) = d"
| "wrapper_size b (ITrunc s d a) = d"
| "wrapper_size b (IBinary op x y) = primitive_size b y"
| "wrapper_size b inst = 0"

definition materialize :: "solver \<Rightarrow> ir_inst list \<Rightarrow> llvm_value \<Rightarrow> cpu \<Rightarrow> (llvm_value \<times> cpu) res" where
  "materialize S wrappers v c =
     res_fold (\<lambda>w (v, c).
         res_bind (run_emitted S (rewrap w v) (wrapper_size (cp_ir c) w) c) (\<lambda>(d, c'). Inr (d_l d, c')))
       (rev wrappers) (v, c)"

definition store_to :: "solver \<Rightarrow> llvm_value \<Rightarrow> llvm_value \<Rightarrow> cpu \<Rightarrow> cpu res" where
  "store_to S v p c = res_bind (run_emitted S (IStore v p) 0 c) (\<lambda>(_, c'). Inr c')"

definition delete_later :: "nat \<Rightarrow> cpu \<Rightarrow> cpu" where
  "delete_later i c = c\<lparr>cp_ir := deleteLater i (cp_ir c)\<rparr>"

definition fork_cmov ::
  "solver \<Rightarrow> remill_inst \<Rightarrow> block_id \<Rightarrow> llvm_value \<Rightarrow> llvm_value \<Rightarrow> llvm_value \<Rightarrow> llvm_value \<Rightarrow> nat \<Rightarrow> cpu \<Rightarrow> cpu res" where
  "fork_cmov S inst bb cond_l true_val false_val store_ptr store c =
     (case cpu_take_snapshot (cp_PC c) bb c of (base, c1) \<Rightarrow>
      case new_block c1 of (true_block, c2) \<Rightarrow>
      case new_block c2 of (false_block, c3) \<Rightarrow>
      let c4 = at_end_of false_block (build (ICondBr cond_l true_block false_block) c3) in
      res_bind (store_to S false_val store_ptr c4) (\<lambda>c5.
      case cpu_take_snapshot (ri_next_pc inst) false_block c5 of (ss, c6) \<Rightarrow>
      let c7 = at_end_of true_block
                 (cpu_restore_snapshot base (c6\<lparr>unexplored_paths := ss # unexplored_paths c6\<rparr>))
      in
      res_bind (store_to S true_val store_ptr c7) (\<lambda>c8.
      Inr (cpu_drop_snapshot base (delete_later store c8)))))"

definition handle_conditional_moves :: "solver \<Rightarrow> remill_inst \<Rightarrow> block_id \<Rightarrow> cpu \<Rightarrow> cpu res" where
  "handle_conditional_moves S inst bb c =
     (let nodes = concat (ir_blocks (cp_ir c)) in
      case find_cmov (length nodes) (map_of nodes) (rev (ir_blocks (cp_ir c) ! bb)) of
        None \<Rightarrow> Inl (Throw ''Error during handling CMOVxx'')
      | Some (store, store_ptr, (cond_l, a, b), wrappers) \<Rightarrow>
          res_bind (cp_get cond_l c) (\<lambda>cond_v.
          res_bind (materialize S wrappers a c) (\<lambda>(true_val, c1).
          res_bind (materialize S wrappers b c1) (\<lambda>(false_val, c2).
          res_bind (get_option OPAQUE_SOLVING (cp_options c2)) (\<lambda>opt.
          res_bind
            (if opt \<noteq> 0 \<and> cp_mode c2 \<noteq> VCFG_RECOVERY
             then res_bind (opaque_solver S cond_v) (\<lambda>(_, r). Inr r) else Inr None) (\<lambda>result.
          case result of
            Some taken \<Rightarrow>
              store_to S (if taken then true_val else false_val) store_ptr (delete_later store c2)
          | None \<Rightarrow> fork_cmov S inst bb cond_l true_val false_val store_ptr store c2))))))"

section \<open>Lifting\<close>

datatype lifter_status = Successful | Explore_other_paths | Function_ended | Terminate

text \<open>An indirect jump whose target is not concrete: up to two targets are followed.\<close>

definition solve_indirect :: "solver \<Rightarrow> host \<Rightarrow> llvm_value \<Rightarrow> vexa_value \<Rightarrow> cpu \<Rightarrow> (lifter_status \<times> cpu) res" where
  "solve_indirect S H next_l nxt c =
     res_bind (possible_values S (path_constraints c) nxt) (\<lambda>(possible_addrs, _).
     if length possible_addrs = 1 then
       res_bind (term_as_uint64 (last possible_addrs)) (\<lambda>a. Inr (Successful, c\<lparr>cp_PC := a\<rparr>))
     else if length possible_addrs = 2 then
       res_bind (term_as_uint64 (hd possible_addrs)) (\<lambda>a.
       res_bind (term_as_uint64 (last possible_addrs)) (\<lambda>b.
       res_bind (run_emitted S (IICmp ICMP_EQ next_l (LConstantInt 64 (uint a))) 1 c) (\<lambda>(cond, c1).
       res_bind (branching S H cond a b c1) (\<lambda>c2. Inr (Successful, c2)))))
     else Inr (Explore_other_paths, c))"

definition control_flow ::
  "solver \<Rightarrow> host \<Rightarrow> remill_inst \<Rightarrow> block_id \<Rightarrow> cpu \<Rightarrow> (lifter_status \<times> cpu) res" where
  "control_flow S H inst bb c =
     (if ri_is_control_flow inst then
        if ri_is_conditional inst then
          res_bind (get_condition S bb c) (\<lambda>(cond, c1).
          res_bind (branching S H cond (ri_branch_taken_pc inst) (ri_branch_not_taken_pc inst) c1) (\<lambda>c2.
          Inr (Successful, c2)))
        else if ri_is_direct inst then
          res_bind (event_handler H DIRECT_JUMP (c\<lparr>cp_PC := ri_branch_taken_pc inst\<rparr>)) (\<lambda>c1.
          Inr (Successful, c1))
        else
          res_bind (get_next_pc bb c) (\<lambda>next_dual.
          let nxt = v_simplify S (d_v next_dual) in
          if is_concrete nxt then
            res_bind (as_uint64 nxt) (\<lambda>a.
            res_bind (event_handler H INDIRECT_JUMP (c\<lparr>cp_PC := a\<rparr>)) (\<lambda>c1. Inr (Successful, c1)))
          else solve_indirect S H (d_l next_dual) nxt c)
      else
        res_bind
          (if take 4 (ri_function inst) = ''CMOV'' then
             res_bind (get_option FORK_AT_CMOVS (cp_options c)) (\<lambda>opt.
             if opt \<noteq> 0 then handle_conditional_moves S inst bb c else Inr c)
           else Inr c) (\<lambda>c1.
        Inr (Successful, c1\<lparr>cp_PC := ri_next_pc inst\<rparr>)))"

definition lift_instruction :: "solver \<Rightarrow> host \<Rightarrow> remill_inst \<Rightarrow> cpu \<Rightarrow> (lifter_status \<times> cpu) res" where
  "lift_instruction S H inst c =
     (case new_block c of (bb, c1) \<Rightarrow>
      let c2 = (at_end_of bb (build (IBr bb) c1))\<lparr>cp_block := bb\<rparr> in
      res_bind (event_handler H INSTRUCTION_LIFT c2) (\<lambda>c3.
      res_bind (run_emitted S (IStore (LConstantInt 64 (uint (cp_PC c3))) (next_pc c3)) 0 c3) (\<lambda>(_, c4).
      case rm_lift H inst bb (cp_ir c4) of (lifted, b) \<Rightarrow>
      if \<not> lifted then
        Inr (Explore_other_paths, (build IUnreachable (c4\<lparr>cp_ir := b\<rparr>))\<lparr>cp_PC := -1\<rparr>)
      else
        res_bind (run_block S (rm_hyper H) bb (c4\<lparr>cp_ir := b\<rparr>)) (\<lambda>c5.
        res_bind (save_lifted bb c5) (\<lambda>c6. control_flow S H inst bb c6)))))"

definition process_instruction :: "solver \<Rightarrow> host \<Rightarrow> cpu \<Rightarrow> (lifter_status \<times> cpu) res" where
  "process_instruction S H c =
     (if cp_PC c = 0 then Inr (Function_ended, c)
      else
        res_bind (cfg_recovery c) (\<lambda>(rebuilt, c1).
        if rebuilt then Inr (Explore_other_paths, c1)
        else
          res_bind (fetch_bytes (cp_memory c1) (global_memory c1) (cp_PC c1) 15) (\<lambda>bytes.
          case rm_decode H (cp_PC c1) bytes of
            None \<Rightarrow> Inr (Explore_other_paths, c1)
          | Some inst \<Rightarrow>
              res_bind (lift_instruction S H inst c1) (\<lambda>(status, c2).
              Inr (status, c2\<lparr>lifted_count := Suc (lifted_count c2)\<rparr>)))))"

text \<open>One round of the loop of \<open>cpu::run\<close>, and whether the exploration is over.\<close>

definition explore_next :: "cpu \<Rightarrow> bool \<times> cpu" where
  "explore_next c =
     (case unexplored_paths c of [] \<Rightarrow> (True, c)
      | path # rest \<Rightarrow>
          (False, cpu_drop_snapshot path (cpu_restore_snapshot path (c\<lparr>unexplored_paths := rest\<rparr>))))"

definition run_round :: "solver \<Rightarrow> host \<Rightarrow> cpu \<Rightarrow> (bool \<times> cpu) res" where
  "run_round S H c =
     res_bind (process_instruction S H c) (\<lambda>(status, c1).
       case status of
         Function_ended \<Rightarrow> Inr (explore_next (build (IRet (d_l (state_ptr c1))) c1))
       | Explore_other_paths \<Rightarrow> Inr (explore_next c1)
       | _ \<Rightarrow> Inr (False, c1))"

fun run_loop :: "solver \<Rightarrow> host \<Rightarrow> nat \<Rightarrow> cpu \<Rightarrow> cpu res" where
  "run_loop S H 0 c = Inl Diverges"
| "run_loop S H (Suc fuel) c =
     res_bind (run_round S H c) (\<lambda>(over, c1).
       if over then Inr (c1\<lparr>cp_ir := eraseDeletedInstructions (cp_ir c1)\<rparr>) else run_loop S H fuel c1)"

section \<open>Starting\<close>

definition get_register :: "reg \<Rightarrow> cpu \<Rightarrow> register res" where
  "get_register r c =
     (case map_of (cp_registers c) r of
        None \<Rightarrow> Inl (Assert_failed ''registers.count(r)'') | Some x \<Rightarrow> Inr x)"

definition get_value_by_name :: "string \<Rightarrow> cpu \<Rightarrow> dual_value res" where
  "get_value_by_name name c =
     (case ir_names (cp_ir c) name of None \<Rightarrow> Inl (Assert_failed ''V'')
      | Some l \<Rightarrow> res_bind (cp_get l c) (\<lambda>v. Inr \<lparr>d_l = l, d_v = v\<rparr>))"

definition pointer_of :: "vexa_value \<Rightarrow> vexa_value res" where
  "pointer_of v = (case to_ptr v of None \<Rightarrow> Inl Null_dereference | Some p \<Rightarrow> Inr p)"

text \<open>The stack: a page, its allocation in the entry block, and the pointer to its middle.\<close>

definition init_stack :: "cpu \<Rightarrow> cpu res" where
  "init_stack c =
     (case mem_allocate (cp_memory c) of (page, m) \<Rightarrow>
      case cp_emit (IAlloca (nat stack_size)) 0 (with_memory m c) of (stack, c1) \<Rightarrow>
      res_bind (sx_pointer_at 0 page) (\<lambda>base.
      case cp_emit (IGepValue stack (LConstantInt 64 (stack_size div 2))) 0 (cp_set stack base c1) of (ptr_l, c2) \<Rightarrow>
      res_bind (sx_pointer_at (word_of_int (stack_size div 2)) page) (\<lambda>ptr_v.
      Inr ((cp_set ptr_l ptr_v c2)\<lparr>stack_ptr := \<lparr>d_l = ptr_l, d_v = ptr_v\<rparr>\<rparr>))))"

text \<open>The entry block sets the stack pointer to \<open>-8\<close> and the return address to zero; it is run, and
  the variables of the lifted function are looked up.\<close>

definition init_entry :: "solver \<Rightarrow> host \<Rightarrow> cpu \<Rightarrow> cpu res" where
  "init_entry S H c =
     res_bind (get_register (reg_of ''SP'') c) (\<lambda>sp.
     case rm_address_of H sp (d_l (state_ptr c)) (cp_ir c) of (sp_l, b) \<Rightarrow>
     let c1 = build (IStore (LConstantInt 64 (2 ^ 64 - 8)) sp_l) (c\<lparr>cp_ir := b\<rparr>) in
     case cp_emit (IGepValue (d_l (stack_ptr c1)) (LConstantInt 64 (2 ^ 64 - 8))) 0 c1 of (s, c2) \<Rightarrow>
     res_bind (run_block S (rm_hyper H) 0 (build (IStore (LConstantInt 64 0) s) c2)) (\<lambda>c3.
     res_bind (cp_get (d_l (stack_ptr c3)) c3) (\<lambda>v.
     res_bind (pointer_of (v_simplify S v)) (\<lambda>p.
     res_bind (get_value_by_name ''NEXT_PC'' c3) (\<lambda>np.
     res_bind (get_value_by_name ''BRANCH_TAKEN'' c3) (\<lambda>bt.
     Inr (c3\<lparr>stack_ptr := (stack_ptr c3)\<lparr>d_v := p\<rparr>, next_pc := d_l np, branch_taken := d_l bt\<rparr>)))))))"

definition concrete_gs_base :: u64 where
  "concrete_gs_base = 0x7fffff000000"

definition concrete_peb_addr :: u64 where
  "concrete_peb_addr = 0x7fffff800000"

definition concrete_image_base :: u64 where
  "concrete_image_base = 0x140000000"

definition write_concrete :: "solver \<Rightarrow> vexa_value \<Rightarrow> u64 \<Rightarrow> cpu \<Rightarrow> cpu res" where
  "write_concrete S ptr n c = res_bind (sx_concrete n 64) (\<lambda>v. cp_write S ptr v c)"

definition init_segments :: "solver \<Rightarrow> cpu \<Rightarrow> cpu res" where
  "init_segments S c =
     res_bind (get_value_by_name ''GSBASE'' c) (\<lambda>gs.
     res_bind (pointer_of (d_v gs)) (\<lambda>gs_ptr.
     res_bind (write_concrete S gs_ptr concrete_gs_base c) (\<lambda>c1.
     res_bind (sx_pointer_at (concrete_gs_base + 0x60) (global_memory c1)) (\<lambda>peb_loc.
     res_bind (write_concrete S peb_loc concrete_peb_addr c1) (\<lambda>c2.
     res_bind (sx_pointer_at (concrete_peb_addr + 0x10) (global_memory c2)) (\<lambda>image_base_loc.
     write_concrete S image_base_loc concrete_image_base c2))))))"

definition cpu_start :: "solver \<Rightarrow> host \<Rightarrow> u64 \<Rightarrow> cpu \<Rightarrow> cpu res" where
  "cpu_start S H pc c =
     res_bind (init_stack c) (\<lambda>c1.
     res_bind (init_entry S H c1) (\<lambda>c2.
     res_bind (init_segments S c2) (\<lambda>c3.
     res_bind (get_option MODE (cp_options c3)) (\<lambda>mode. Inr (c3\<lparr>cp_PC := pc, cp_mode := mode\<rparr>)))))"

definition cpu_run :: "solver \<Rightarrow> host \<Rightarrow> nat \<Rightarrow> u64 \<Rightarrow> cpu \<Rightarrow> cpu res" where
  "cpu_run S H fuel pc c = res_bind (cpu_start S H pc c) (run_loop S H fuel)"

end
