(* ===== verification/Cpu_Frame.thy ===== *)
theory Cpu_Frame
  imports Cpu
begin

text \<open>
  What the emulator leaves alone: running instructions changes the symbolic values, the memory and the
  IR, and nothing else of the cpu; and the memory stays consistent with every snapshot that is alive.
\<close>

named_theorems keeps_dest "operations that keep the control state and the snapshots"

section \<open>The memory\<close>

definition mem_keeps :: "memory \<Rightarrow> memory \<Rightarrow> bool" where
  "mem_keeps m m' \<longleftrightarrow> (\<forall>live. mem_ok m live \<longrightarrow>
     mem_ok m' live \<and> (\<forall>ss \<in> set live. saved_view m' ss = saved_view m ss))"

lemma mem_keeps_refl [simp]: "mem_keeps m m"
  by (simp add: mem_keeps_def)

lemma mem_keeps_trans: "mem_keeps m m' \<Longrightarrow> mem_keeps m' m'' \<Longrightarrow> mem_keeps m m''"
  unfolding mem_keeps_def by metis

lemma page_write_keeps: "p < length (page_objs m) \<Longrightarrow> mem_keeps m (page_write p a c m)"
  by (simp add: mem_keeps_def page_write_ok page_write_saved)

lemma write_bytes_keeps:
  "p < length (page_objs m) \<Longrightarrow> mem_keeps m (write_bytes p base v n is m)"
proof (induction "is" arbitrary: m)
  case (Cons i "is")
  let ?m = "page_write p (base + of_nat i) (value_cell v n i) m"
  have "mem_keeps m ?m" using Cons.prems by (rule page_write_keeps)
  moreover have "mem_keeps ?m (write_bytes p base v n is ?m)" using Cons.prems by (intro Cons.IH) simp
  ultimately show ?case using mem_keeps_trans by (simp add: value_cell_def)
qed simp

lemma mem_write_keeps: "mem_write S addr v s = Inr s' \<Longrightarrow> mem_keeps (mc_memory s) (mc_memory s')"
  by (auto simp: mem_write_def page_of_def Let_def res_bind_eq_Inr write_bytes_keeps
      split: if_splits option.splits)

lemma read_byte_keeps:
  assumes "read_byte p a s = Inr (c, s')" and "p < length (page_objs (mc_memory s))"
  shows "mem_keeps (mc_memory s) (mc_memory s') \<and>
    length (page_objs (mc_memory s')) = length (page_objs (mc_memory s))"
  using assms by (auto simp: read_byte_def res_bind_eq_Inr page_write_keeps split: option.splits)

lemma read_cells_keeps:
  assumes "read_cells p as s = Inr (cs, s')" and "p < length (page_objs (mc_memory s))"
  shows "mem_keeps (mc_memory s) (mc_memory s')"
  using assms
proof (induction as arbitrary: s cs)
  case (Cons a as)
  from Cons.prems(1) obtain c s1 cs' where 1: "read_byte p a s = Inr (c, s1)" "read_cells p as s1 = Inr (cs', s')"
    by (auto simp: res_bind_eq_Inr)
  show ?case
    using read_byte_keeps [OF 1(1) Cons.prems(2)] Cons.IH [OF 1(2)] Cons.prems(2) mem_keeps_trans by auto
qed simp

lemma mem_read_keeps: "mem_read S addr bits s = Inr (v, s') \<Longrightarrow> mem_keeps (mc_memory s) (mc_memory s')"
  by (auto simp: mem_read_def page_of_def Let_def res_bind_eq_Inr simp del: read_cells.simps
      dest!: read_cells_keeps split: if_splits option.splits)

lemma mem_allocate_keeps:
  assumes "mem_allocate m = (p, m')"
  shows "mem_keeps m m'"
  using mem_allocate_ok [OF _ assms] mem_step_saved [OF step_allocate [OF assms]]
  by (simp add: mem_keeps_def)

section \<open>The cpu\<close>

definition core :: "cpu \<Rightarrow> cpu" where
  "core c = c\<lparr>cp_machine := undefined, cp_ir := undefined, forked_block := None\<rparr>"

definition keeps :: "cpu \<Rightarrow> cpu \<Rightarrow> bool" where
  "keeps c c' \<longleftrightarrow> core c' = core c \<and> mem_keeps (cp_memory c) (cp_memory c')"

lemma keeps_refl [simp]: "keeps c c"
  by (simp add: keeps_def)

lemma keeps_trans [trans]: "keeps c c' \<Longrightarrow> keeps c' c'' \<Longrightarrow> keeps c c''"
  unfolding keeps_def using mem_keeps_trans by auto

lemma keeps_ir [simp]: "keeps c (c'\<lparr>cp_ir := b\<rparr>) = keeps c c'" "keeps (c\<lparr>cp_ir := b\<rparr>) c' = keeps c c'"
  by (simp_all add: keeps_def core_def)

lemma keeps_forked [simp]: "keeps c (c'\<lparr>forked_block := f\<rparr>) = keeps c c'"
  by (simp add: keeps_def core_def)

lemma keeps_machine: "mem_keeps (mc_memory (cp_machine c)) (mc_memory s) \<Longrightarrow> keeps c (c\<lparr>cp_machine := s\<rparr>)"
  by (simp add: keeps_def core_def)

lemma keeps_cp_set [simp]: "keeps c (cp_set l v c') = keeps c c'" "keeps (cp_set l v c) c' = keeps c c'"
  by (simp_all add: keeps_def core_def cp_set_def)

lemma cp_emit_eq: "cp_emit inst bits c = (l, c') \<Longrightarrow> \<exists>b. c' = c\<lparr>cp_ir := b\<rparr>"
  by (auto simp: cp_emit_def split: prod.splits)

lemma keeps_emit [keeps_dest]: "cp_emit inst bits c = (l, c') \<Longrightarrow> keeps c c'"
  by (auto dest: cp_emit_eq)

lemma keeps_snd_emit [simp]:
  "keeps c (snd (cp_emit inst bits c')) = keeps c c'" "keeps (snd (cp_emit inst bits c)) c' = keeps c c'"
  by (simp_all add: cp_emit_def split: prod.split)

lemma keeps_read [keeps_dest]: "cp_read S ptr bits c = Inr (v, c') \<Longrightarrow> keeps c c'"
  by (auto simp: cp_read_def res_bind_eq_Inr intro!: keeps_machine mem_read_keeps)

lemma keeps_write [keeps_dest]: "cp_write S ptr v c = Inr c' \<Longrightarrow> keeps c c'"
  by (auto simp: cp_write_def res_bind_eq_Inr intro!: keeps_machine mem_write_keeps)

lemma keeps_fold:
  assumes "\<And>x c c'. f x c = Inr c' \<Longrightarrow> keeps c c'"
  shows "res_fold f xs c = Inr c' \<Longrightarrow> keeps c c'"
  by (induction xs arbitrary: c) (auto simp: res_bind_eq_Inr dest: assms keeps_trans)

lemmas unfold_res = res_bind_eq_Inr Let_def

lemma keeps_gep [keeps_dest]: "inbounds_gep base off c = Inr (d, c') \<Longrightarrow> keeps c c'"
  by (auto simp: inbounds_gep_def unfold_res dest!: keeps_emit split: prod.splits option.splits)

lemma keeps_inttoptr [keeps_dest]: "inttoptr v p c = Inr (d, c') \<Longrightarrow> keeps c c'"
  by (auto simp: inttoptr_def unfold_res dest!: keeps_emit split: prod.splits)

lemma keeps_gep_const [keeps_dest]: "gep_const w page a c = Inr (d, c') \<Longrightarrow> keeps c c'"
  by (auto simp: gep_const_def dest: keeps_gep)

lemma keeps_value_to_pointer [keeps_dest]: "value_to_pointer S addr c = Inr (d, c') \<Longrightarrow> keeps c c'"
  by (auto simp: value_to_pointer_def unfold_res dest!: keeps_gep_const keeps_inttoptr split: if_splits prod.splits)

lemma keeps_read_register [keeps_dest]: "read_register S r c = Inr (v, c') \<Longrightarrow> keeps c c'"
  by (auto simp: read_register_def unfold_res dest: keeps_read)

lemma keeps_write_register [keeps_dest]: "write_register S r v c = Inr c' \<Longrightarrow> keeps c c'"
  by (auto simp: write_register_def unfold_res dest: keeps_write)

lemma keeps_write_candidate [keeps_dest]: "write_candidate S addr val bits a c = Inr c' \<Longrightarrow> keeps c c'"
  by (auto simp: write_candidate_def unfold_res dest!: keeps_read keeps_write intro: keeps_trans)

lemma keeps_write_fold:
  "res_fold (write_candidate S addr val bits) as c = Inr c' \<Longrightarrow> keeps c c'"
  using keeps_fold [of "write_candidate S addr val bits"] keeps_write_candidate by blast

lemma keeps_emu_write [keeps_dest]: "emu_write_memory S addr val c = Inr c' \<Longrightarrow> keeps c c'"
  by (auto simp: emu_write_memory_def unfold_res dest!: keeps_write keeps_write_fold
      split: if_splits)

lemma keeps_read_candidate: "read_candidate S addr bits a st = Inr st' \<Longrightarrow> keeps (snd st) (snd st')"
  by (auto simp: read_candidate_def unfold_res dest!: keeps_read split: prod.splits)

lemma keeps_read_fold:
  "res_fold (read_candidate S addr bits) as st = Inr st' \<Longrightarrow> keeps (snd st) (snd st')"
  by (induction as arbitrary: st) (auto simp: res_bind_eq_Inr dest!: keeps_read_candidate intro: keeps_trans)

lemma keeps_emu_read [keeps_dest]: "emu_read_memory S addr bits c = Inr (v, c') \<Longrightarrow> keeps c c'"
  by (auto simp: emu_read_memory_def read_candidates_def unfold_res dest!: keeps_read keeps_read_fold
      intro: keeps_trans split: if_splits)

lemma keeps_alloca [keeps_dest]:
  assumes "visitAllocaInst c = Inr (v, c')"
  shows "keeps c c'"
proof -
  obtain p m where "mem_allocate (cp_memory c) = (p, m)" by (cases "mem_allocate (cp_memory c)")
  then show ?thesis
    using assms mem_allocate_keeps by (auto simp: visitAllocaInst_def unfold_res intro!: keeps_machine)
qed

lemma keeps_extract [keeps_dest]:
  "visitExtractElementInst n w a i self c = Inr (v, c') \<Longrightarrow> keeps c c'"
  by (auto simp: visitExtractElementInst_def unfold_res keeps_machine split: if_splits)

lemma keeps_store [keeps_dest]: "visitStoreInst S a p c = Inr (v, c') \<Longrightarrow> keeps c c'"
  by (auto simp: visitStoreInst_def unfold_res dest!: keeps_emu_write split: option.splits)

lemma keeps_load [keeps_dest]: "visitLoadInst S bits p c = Inr (v, c') \<Longrightarrow> keeps c c'"
  by (auto simp: visitLoadInst_def unfold_res dest!: keeps_emu_read split: option.splits)

lemma keeps_visit_plain [keeps_dest]: "visit_plain S i inst c = Inr (v, c') \<Longrightarrow> keeps c c'"
  by (cases inst)
     (auto simp: visit_plain_def unfold_res dest!: keeps_alloca keeps_extract keeps_store keeps_load)

lemma keeps_run_emitted [keeps_dest]: "run_emitted S inst bits c = Inr (d, c') \<Longrightarrow> keeps c c'"
  by (auto simp: run_emitted_def unfold_res dest!: cp_emit_eq keeps_visit_plain split: prod.splits)

lemma keeps_insert_after [keeps_dest]: "insert_after call c = Inr c' \<Longrightarrow> keeps c c'"
  by (auto simp: insert_after_def split: option.splits)

lemma keeps_candidate_gep [keeps_dest]: "candidate_gep w a c = Inr (g, k, c') \<Longrightarrow> keeps c c'"
  by (auto simp: candidate_gep_def unfold_res dest!: keeps_gep_const)

lemma keeps_replace_call [simp]: "keeps c (replace_call call v c') = keeps c c'"
  by (simp add: replace_call_def)

lemma keeps_write_intrinsic_candidate:
  "write_intrinsic_candidate S address addr_sym val val_sym bits a c = Inr c' \<Longrightarrow> keeps c c'"
  by (auto simp: write_intrinsic_candidate_def unfold_res case_prod_beta
      dest!: keeps_candidate_gep keeps_read keeps_write) (meson keeps_trans)

lemma keeps_write_intrinsic_fold:
  "res_fold (write_intrinsic_candidate S address addr_sym val val_sym bits) as c = Inr c' \<Longrightarrow> keeps c c'"
  using keeps_fold [of "write_intrinsic_candidate S address addr_sym val val_sym bits"]
    keeps_write_intrinsic_candidate by blast

lemma keeps_write_memory_intrinsic [keeps_dest]:
  "write_memory_intrinsic S call args bits c = Inr c' \<Longrightarrow> keeps c c'"
  by (auto simp: write_memory_intrinsic_def unfold_res
      dest!: keeps_insert_after keeps_value_to_pointer keeps_run_emitted keeps_write_intrinsic_fold
      split: if_splits) (meson keeps_trans)+

lemma keeps_read_intrinsic_load:
  "read_intrinsic_load S addr bits a c = Inr (l, k, v, c') \<Longrightarrow> keeps c c'"
  by (auto simp: read_intrinsic_load_def unfold_res case_prod_beta
      dest!: keeps_candidate_gep keeps_read intro: keeps_trans)

lemma keeps_read_intrinsic_candidate:
  "read_intrinsic_candidate S addr addr_sym bits a st = Inr st' \<Longrightarrow> keeps (snd (snd st)) (snd (snd st'))"
  by (cases st) (auto simp: read_intrinsic_candidate_def unfold_res case_prod_beta dest!: keeps_read_intrinsic_load)

lemma keeps_read_intrinsic_fold:
  "res_fold (read_intrinsic_candidate S addr addr_sym bits) as st = Inr st' \<Longrightarrow>
     keeps (snd (snd st)) (snd (snd st'))"
proof (induction as arbitrary: st)
  case (Cons a as)
  then obtain st1 where "read_intrinsic_candidate S addr addr_sym bits a st = Inr st1"
      "res_fold (read_intrinsic_candidate S addr addr_sym bits) as st1 = Inr st'"
    by (auto simp: res_bind_eq_Inr)
  then show ?case using keeps_read_intrinsic_candidate Cons.IH keeps_trans by blast
qed simp

lemma keeps_read_memory_intrinsic [keeps_dest]:
  "read_memory_intrinsic S call args bits c = Inr c' \<Longrightarrow> keeps c c'"
  by (auto simp: read_memory_intrinsic_def unfold_res
      dest!: keeps_insert_after keeps_value_to_pointer keeps_run_emitted keeps_read_intrinsic_load
        keeps_read_intrinsic_fold
      split: if_splits) (meson keeps_trans)+

lemma keeps_cpuid [keeps_dest]: "hyper_cpuid S c = Inr c' \<Longrightarrow> keeps c c'"
  by (auto simp: hyper_cpuid_def unfold_res dest!: keeps_write_register intro: keeps_trans)

lemma keeps_rdtsc [keeps_dest]: "hyper_rdtsc S c = Inr c' \<Longrightarrow> keeps c c'"
  by (auto simp: hyper_rdtsc_def unfold_res keeps_def core_def dest!: keeps_write_register split: if_splits
      intro: mem_keeps_trans)

lemma keeps_remill [keeps_dest]: "remill_intrinsic S hyper call f args c = Inr c' \<Longrightarrow> keeps c c'"
  by (auto simp: remill_intrinsic_def sync_hyper_call_def unfold_res
      dest!: keeps_write_memory_intrinsic keeps_read_memory_intrinsic keeps_cpuid keeps_rdtsc
      split: callee.splits if_splits llvm_value.splits hyper_call.splits)

lemma keeps_visitCall [keeps_dest]: "visitCallInst S hyper call f args c = Inr (v, c') \<Longrightarrow> keeps c c'"
  by (cases f) (auto simp: visitCallInst_def unfold_res dest!: keeps_remill)

lemma keeps_emu_run [keeps_dest]: "emu_run S hyper node c = Inr (d, c') \<Longrightarrow> keeps c c'"
  by (cases node; cases "snd node")
     (auto simp: emu_run_def unfold_res dest!: keeps_visitCall keeps_visit_plain)

lemma keeps_run_nodes: "run_nodes S hyper bb is c = Inr c' \<Longrightarrow> keeps c c'"
proof (induction "is" arbitrary: c)
  case (Cons i "is")
  show ?case
  proof (cases "current_inst i c")
    case None
    then show ?thesis using Cons.prems by simp
  next
    case (Some inst)
    show ?thesis
    proof (cases "is_terminator inst")
      case True
      then show ?thesis using Cons Some by simp
    next
      case False
      then obtain d c1 where 1: "emu_run S hyper (i, inst) c = Inr (d, c1)"
          "c' = c1\<lparr>forked_block := None\<rparr> \<or> run_nodes S hyper bb is c1 = Inr c'"
        using Cons.prems Some by (auto simp: res_bind_eq_Inr split: if_splits)
      then show ?thesis using keeps_emu_run [OF 1(1)] Cons.IH [of c1] keeps_trans by auto
    qed
  qed
qed simp

lemma keeps_run_block [keeps_dest]: "run_block S hyper bb c = Inr c' \<Longrightarrow> keeps c c'"
  by (simp add: run_block_def keeps_run_nodes)

end
