(* ===== verification/Cpu_Paths.thy ===== *)
theory Cpu_Paths
  imports Cpu_Frame
begin

text \<open>
  The exploration of paths as a whole: a path that waits on the stack is not disturbed by the paths
  that are explored before it, and it resumes with the memory, the program counter and the constraints
  it was saved with.
\<close>

section \<open>Rounds and the stack of paths\<close>

text \<open>The callbacks of the user may look at and change the state, but not the stack of paths, and they
  use the memory through its operations.\<close>

definition host_ok :: "host \<Rightarrow> bool" where
  "host_ok H \<longleftrightarrow> (\<forall>k f c c'. event_callbacks H k = Some f \<and> f c = Inr c' \<longrightarrow>
     unexplored_paths c' = unexplored_paths c \<and> mem_keeps (cp_memory c) (cp_memory c'))"

definition pending :: "cpu \<Rightarrow> mem_state list" where
  "pending c = map ss_mem (unexplored_paths c)"

definition pending_ok :: "cpu \<Rightarrow> bool" where
  "pending_ok c \<longleftrightarrow> mem_ok (cp_memory c) (pending c)"

definition stacks :: "cpu \<Rightarrow> cpu \<Rightarrow> bool" where
  "stacks c c' \<longleftrightarrow> (\<exists>new. unexplored_paths c' = new @ unexplored_paths c) \<and>
     (pending_ok c \<longrightarrow> pending_ok c' \<and>
        (\<forall>ss \<in> set (pending c). saved_view (cp_memory c') ss = saved_view (cp_memory c) ss))"

lemma stacks_refl [simp]: "stacks c c"
  by (simp add: stacks_def)

lemma stacks_trans: "stacks c c' \<Longrightarrow> stacks c' c'' \<Longrightarrow> stacks c c''"
  unfolding stacks_def by (auto simp: pending_def)

lemma same_paths_stacks:
  assumes "unexplored_paths c' = unexplored_paths c" and "mem_keeps (cp_memory c) (cp_memory c')"
  shows "stacks c c'"
  using assms by (simp add: stacks_def pending_ok_def pending_def mem_keeps_def)

lemma keeps_fields:
  assumes "keeps c c'"
  shows "unexplored_paths c' = unexplored_paths c"
    and "cp_options c' = cp_options c"
    and "cp_mode c' = cp_mode c"
    and "cp_PC c' = cp_PC c"
    and "cp_CFG c' = cp_CFG c"
    and "cp_VPC c' = cp_VPC c"
    and "cp_PATH c' = cp_PATH c"
    and "path_constraints c' = path_constraints c"
    and "cp_registers c' = cp_registers c"
    and "stack_ptr c' = stack_ptr c"
    and "mem_ptr c' = mem_ptr c"
    and "state_ptr c' = state_ptr c"
    and "global_memory c' = global_memory c"
proof -
  have eq: "core c' = core c" using assms by (simp add: keeps_def)
  show "unexplored_paths c' = unexplored_paths c" using arg_cong [OF eq, of unexplored_paths] by (simp add: core_def)
  show "cp_options c' = cp_options c" using arg_cong [OF eq, of cp_options] by (simp add: core_def)
  show "cp_mode c' = cp_mode c" using arg_cong [OF eq, of cp_mode] by (simp add: core_def)
  show "cp_PC c' = cp_PC c" using arg_cong [OF eq, of cp_PC] by (simp add: core_def)
  show "cp_CFG c' = cp_CFG c" using arg_cong [OF eq, of cp_CFG] by (simp add: core_def)
  show "cp_VPC c' = cp_VPC c" using arg_cong [OF eq, of cp_VPC] by (simp add: core_def)
  show "cp_PATH c' = cp_PATH c" using arg_cong [OF eq, of cp_PATH] by (simp add: core_def)
  show "path_constraints c' = path_constraints c" using arg_cong [OF eq, of path_constraints] by (simp add: core_def)
  show "cp_registers c' = cp_registers c" using arg_cong [OF eq, of cp_registers] by (simp add: core_def)
  show "stack_ptr c' = stack_ptr c" using arg_cong [OF eq, of stack_ptr] by (simp add: core_def)
  show "mem_ptr c' = mem_ptr c" using arg_cong [OF eq, of mem_ptr] by (simp add: core_def)
  show "state_ptr c' = state_ptr c" using arg_cong [OF eq, of state_ptr] by (simp add: core_def)
  show "global_memory c' = global_memory c" using arg_cong [OF eq, of global_memory] by (simp add: core_def)
qed

lemma keeps_stacks: "keeps c c' \<Longrightarrow> stacks c c'"
  by (rule same_paths_stacks) (simp_all add: keeps_fields, simp add: keeps_def)

lemma event_stacks: "host_ok H \<Longrightarrow> event_handler H k c = Inr c' \<Longrightarrow> stacks c c'"
  by (auto simp: event_handler_def host_ok_def intro!: same_paths_stacks split: option.splits)


lemma keeps_build [simp]: "keeps c (build inst c') = keeps c c'"
  by (simp add: build_def)

lemma keeps_at_end_of [simp]: "keeps c (at_end_of bb c') = keeps c c'"
  by (simp add: at_end_of_def)

lemma keeps_new_block: "new_block c = (bb, c') \<Longrightarrow> keeps c c'"
  by (auto simp: new_block_def split: prod.splits)

lemma keeps_solve_register: "solve_register S e c = Inr c' \<Longrightarrow> keeps c c'"
  by (auto simp: solve_register_def unfold_res dest!: keeps_read_register keeps_write_register
      split: prod.splits if_splits intro: keeps_trans)

lemma keeps_solve_context: "solve_cpu_context S c = Inr c' \<Longrightarrow> keeps c c'"
  unfolding solve_cpu_context_def using keeps_fold [of "solve_register S"] keeps_solve_register by blast

lemma keeps_get_condition: "get_condition S bb c = Inr (d, c') \<Longrightarrow> keeps c c'"
  by (auto simp: get_condition_def dest!: keeps_run_emitted split: option.splits)

lemma keeps_store_to: "store_to S v p c = Inr c' \<Longrightarrow> keeps c c'"
  by (auto simp: store_to_def unfold_res dest!: keeps_run_emitted)

lemma keeps_materialize:
  assumes "materialize S ws v c = Inr (v', c')"
  shows "keeps c c'"
proof -
  have "res_fold (\<lambda>w (v, c). res_bind (run_emitted S (rewrap w v) (wrapper_size (cp_ir c) w) c)
      (\<lambda>(d, c'). Inr (d_l d, c'))) xs vc = Inr vc' \<Longrightarrow> keeps (snd vc) (snd vc')" for xs vc vc'
    by (induction xs arbitrary: vc)
       (auto simp: unfold_res dest!: keeps_run_emitted intro: keeps_trans split: prod.splits)
  from this [of "rev ws" "(v, c)" "(v', c')"] show ?thesis using assms by (simp add: materialize_def)
qed

text \<open>The parts of the state that only the control operations write do not matter for the memory.\<close>

lemma stacks_control [simp]:
  "stacks c (c'\<lparr>cp_PC := pc\<rparr>) = stacks c c'" "stacks c (c'\<lparr>cp_VJMP := vj\<rparr>) = stacks c c'"
  "stacks c (c'\<lparr>cp_PATH := pt\<rparr>) = stacks c c'" "stacks c (c'\<lparr>cp_CFG := cf\<rparr>) = stacks c c'"
  "stacks c (c'\<lparr>cp_VCFG := vc\<rparr>) = stacks c c'" "stacks c (c'\<lparr>lifted_count := n\<rparr>) = stacks c c'"
  "stacks c (c'\<lparr>cp_block := bb\<rparr>) = stacks c c'" "stacks c (c'\<lparr>path_constraints := ts\<rparr>) = stacks c c'"
  "stacks c (c'\<lparr>cp_ir := b\<rparr>) = stacks c c'"
  "stacks (c\<lparr>cp_PC := pc\<rparr>) c' = stacks c c'" "stacks (c\<lparr>cp_block := bb\<rparr>) c' = stacks c c'"
  "stacks (c\<lparr>path_constraints := ts\<rparr>) c' = stacks c c'" "stacks (c\<lparr>cp_ir := b\<rparr>) c' = stacks c c'"
  by (simp_all add: stacks_def pending_ok_def pending_def)

lemma stacks_build [simp]:
  "stacks c (build inst c') = stacks c c'" "stacks (build inst c) c' = stacks c c'"
  by (simp_all add: build_def cp_emit_def split: prod.split)

lemma stacks_at_end_of [simp]:
  "stacks c (at_end_of bb c') = stacks c c'" "stacks (at_end_of bb c) c' = stacks c c'"
  by (simp_all add: at_end_of_def)

lemma stacks_new_block: "new_block c = (bb, c') \<Longrightarrow> stacks c c'"
  by (auto simp: new_block_def split: prod.splits)

lemma stacks_constrain:
  "constrain_taken cond c = Inr c' \<Longrightarrow> stacks c c'" "constrain_not_taken cond c = Inr c' \<Longrightarrow> stacks c c'"
  by (auto simp: constrain_taken_def constrain_not_taken_def push_constraint_def unfold_res)

section \<open>Forking\<close>

text \<open>What a fork does to the memory: a base snapshot, the work for the one side, a snapshot of it, back
  to the base, the work for the other side, and the end of the base snapshot.\<close>

lemma fork_memory:
  assumes base: "take_snapshot m = (bm, m1)" and one: "mem_keeps m1 m2"
    and side: "take_snapshot m2 = (sm, m3)" and two: "mem_keeps (restore_snapshot bm m3) m4"
    and ok: "mem_ok m live"
  shows "mem_ok (drop_snapshot bm m4) (sm # live)"
    and "\<And>ss. ss \<in> set live \<Longrightarrow> saved_view (drop_snapshot bm m4) ss = saved_view m ss"
    and "saved_view (drop_snapshot bm m4) sm = mem_view m2"
    and "mem_view (restore_snapshot bm m3) = mem_view m"
proof -
  let ?r = "restore_snapshot bm m3"
  have ok1: "mem_ok m1 (bm # live)" using take_snapshot_ok [OF ok base] .
  have ok2: "mem_ok m2 (bm # live)" using one ok1 by (simp add: mem_keeps_def)
  have ok3: "mem_ok m3 (sm # bm # live)" using take_snapshot_ok [OF ok2 side] .
  have okr: "mem_ok ?r (sm # bm # live)" using restore_snapshot_ok [OF ok3, of bm] by simp
  have ok4: "mem_ok m4 ([sm] @ bm # live)" using two okr by (simp add: mem_keeps_def)
  show "mem_ok (drop_snapshot bm m4) (sm # live)" using drop_snapshot_ok [OF ok4] by simp
  have s1: "saved_view m1 ss = saved_view m ss" if "ss \<in> set live" for ss
    using mem_step_saved [OF step_take [OF base] ok that] .
  have s2: "saved_view m2 ss = saved_view m1 ss" if "ss \<in> set (bm # live)" for ss
    using one ok1 that by (simp add: mem_keeps_def)
  have s3: "saved_view m3 ss = saved_view m2 ss" if "ss \<in> set (bm # live)" for ss
    using mem_step_saved [OF step_take [OF side] ok2 that] .
  have sr: "saved_view ?r ss = saved_view m3 ss" if "ss \<in> set (sm # bm # live)" for ss
    using mem_step_saved [OF step_restore [of bm "sm # bm # live"] ok3 that] by simp
  have s4: "saved_view m4 ss = saved_view ?r ss" if "ss \<in> set (sm # bm # live)" for ss
    using two okr that unfolding mem_keeps_def by blast
  have sd: "saved_view (drop_snapshot bm m4) ss = saved_view m4 ss" if "ss \<in> set (sm # bm # live)" for ss
    using mem_step_saved [OF step_drop ok4, of ss] that by simp
  show "saved_view (drop_snapshot bm m4) ss = saved_view m ss" if "ss \<in> set live" for ss
    using s1 s2 s3 sr s4 sd that by simp
  show "saved_view (drop_snapshot bm m4) sm = mem_view m2"
    using sd s4 sr take_snapshot_saved(1) [OF side] by simp
  show "mem_view ?r = mem_view m"
    using restore_snapshot_view [OF ok3, of bm] s3 s2 take_snapshot_saved(1) [OF base] by simp
qed

lemma with_memory_simps [simp]:
  "cp_memory (with_memory m c) = m" "unexplored_paths (with_memory m c) = unexplored_paths c"
  by (simp_all add: with_memory_def)

lemma snapshot_simps:
  assumes "cpu_take_snapshot pc bb c = (ss, c')"
  shows "take_snapshot (cp_memory c) = (ss_mem ss, cp_memory c')"
    and "unexplored_paths c' = unexplored_paths c" and "path_constraints c' = path_constraints c"
    and "ss_pc ss = pc" and "ss_path_constraints ss = path_constraints c"
  using assms by (auto simp: cpu_take_snapshot_def with_memory_def split: prod.splits)

lemma restore_simps [simp]:
  "cp_memory (cpu_restore_snapshot ss c) = restore_snapshot (ss_mem ss) (cp_memory c)"
  "unexplored_paths (cpu_restore_snapshot ss c) = unexplored_paths c"
  "path_constraints (cpu_restore_snapshot ss c) = ss_path_constraints ss"
  "cp_PC (cpu_restore_snapshot ss c) = ss_pc ss"
  by (simp_all add: cpu_restore_snapshot_def with_memory_def)

lemma drop_simps [simp]:
  "cp_memory (cpu_drop_snapshot ss c) = drop_snapshot (ss_mem ss) (cp_memory c)"
  "unexplored_paths (cpu_drop_snapshot ss c) = unexplored_paths c"
  "path_constraints (cpu_drop_snapshot ss c) = path_constraints c"
  "cp_PC (cpu_drop_snapshot ss c) = cp_PC c"
  by (simp_all add: cpu_drop_snapshot_def with_memory_def)

lemma build_simps [simp]:
  "cp_memory (build i c) = cp_memory c" "unexplored_paths (build i c) = unexplored_paths c"
  "path_constraints (build i c) = path_constraints c" "cp_PC (build i c) = cp_PC c"
  "cp_memory (at_end_of bb c) = cp_memory c" "unexplored_paths (at_end_of bb c) = unexplored_paths c"
  "path_constraints (at_end_of bb c) = path_constraints c" "cp_PC (at_end_of bb c) = cp_PC c"
  by (simp_all add: build_def cp_emit_def at_end_of_def split: prod.splits)

text \<open>The control state after a fork, whichever work is done on the two sides.\<close>

definition forked :: "cpu \<Rightarrow> cpu_snapshot \<Rightarrow> cpu \<Rightarrow> bool" where
  "forked c ss c' \<longleftrightarrow> unexplored_paths c' = ss # unexplored_paths c \<and>
     (pending_ok c \<longrightarrow> pending_ok c' \<and>
        (\<forall>ms \<in> set (pending c). saved_view (cp_memory c') ms = saved_view (cp_memory c) ms))"

lemma forked_stacks: "forked c ss c' \<Longrightarrow> stacks c c'"
  by (auto simp: forked_def stacks_def)

lemma fork_forked:
  assumes base: "take_snapshot (cp_memory c) = (ss_mem b, cp_memory c1)"
    and one: "mem_keeps (cp_memory c1) (cp_memory c2)"
    and side: "take_snapshot (cp_memory c2) = (ss_mem ss, cp_memory c3)"
    and two: "mem_keeps (restore_snapshot (ss_mem b) (cp_memory c3)) (cp_memory c4)"
    and paths: "unexplored_paths c4 = ss # unexplored_paths c"
  shows "forked c ss (cpu_drop_snapshot b c4)"
  using fork_memory(1,2) [OF base one side two, of "pending c"] paths
  by (simp add: forked_def pending_ok_def pending_def)

lemma constrain_simps:
  assumes "constrain_taken cond c = Inr c' \<or> constrain_not_taken cond c = Inr c'"
  shows "cp_memory c' = cp_memory c" and "unexplored_paths c' = unexplored_paths c"
  using assms by (auto simp: constrain_taken_def constrain_not_taken_def push_constraint_def unfold_res)

lemma new_block_simps:
  assumes "new_block c = (bb, c')"
  shows "cp_memory c' = cp_memory c" and "unexplored_paths c' = unexplored_paths c"
    and "path_constraints c' = path_constraints c"
  using assms by (auto simp: new_block_def split: prod.splits)

lemma keeps_memory: "keeps c c' \<Longrightarrow> mem_keeps (cp_memory c) (cp_memory c')"
  by (simp add: keeps_def)

lemma event_simps:
  assumes "host_ok H" and "event_handler H k c = Inr c'"
  shows "unexplored_paths c' = unexplored_paths c" and "mem_keeps (cp_memory c) (cp_memory c')"
  using assms by (auto simp: event_handler_def host_ok_def split: option.splits)

text \<open>The steps of \<open>fork_path\<close>, named.\<close>

lemma fork_path_steps:
  assumes "fork_path S H cond_l cond jump_pc fall_pc c = Inr c'"
  obtains jb c1 fb c2 b c3 c4 c5 ss c6 c9 c10 c11 where "new_block c = (jb, c1)" and "new_block c1 = (fb, c2)"
    and "cpu_take_snapshot (cp_PC c2) (cp_block c2) c2 = (b, c3)" and "constrain_not_taken cond c3 = Inr c4"
    and "solve_cpu_context S c4 = Inr c5" and "cpu_take_snapshot fall_pc fb c5 = (ss, c6)"
    and "constrain_taken cond (at_end_of jb (build (ICondBr cond_l jb fb)
           (cpu_restore_snapshot b (c6\<lparr>unexplored_paths := ss # unexplored_paths c6\<rparr>)))) = Inr c9"
    and "solve_cpu_context S c9 = Inr c10" and "event_handler H PATH_FORKING (c10\<lparr>cp_PC := jump_pc\<rparr>) = Inr c11"
    and "c' = cpu_drop_snapshot b c11"
proof -
  obtain jb c1 where 1: "new_block c = (jb, c1)" by (cases "new_block c")
  obtain fb c2 where 2: "new_block c1 = (fb, c2)" by (cases "new_block c1")
  obtain b c3 where 3: "cpu_take_snapshot (cp_PC c2) (cp_block c2) c2 = (b, c3)"
    by (cases "cpu_take_snapshot (cp_PC c2) (cp_block c2) c2")
  from assms obtain c4 c5 where 4: "constrain_not_taken cond c3 = Inr c4" "solve_cpu_context S c4 = Inr c5"
    by (auto simp: fork_path_def 1 2 3 res_bind_eq_Inr)
  obtain ss c6 where 6: "cpu_take_snapshot fall_pc fb c5 = (ss, c6)" by (cases "cpu_take_snapshot fall_pc fb c5")
  let ?c8 = "at_end_of jb (build (ICondBr cond_l jb fb)
    (cpu_restore_snapshot b (c6\<lparr>unexplored_paths := ss # unexplored_paths c6\<rparr>)))"
  from assms obtain c9 c10 c11 where "constrain_taken cond ?c8 = Inr c9" "solve_cpu_context S c9 = Inr c10"
      "event_handler H PATH_FORKING (c10\<lparr>cp_PC := jump_pc\<rparr>) = Inr c11" "c' = cpu_drop_snapshot b c11"
    by (auto simp: fork_path_def 1 2 3 4 6 unfold_res)
  then show ?thesis by (rule that [OF 1 2 3 4 6])
qed

lemma fork_path_forked:
  assumes H: "host_ok H" and f: "fork_path S H cond_l cond jump_pc fall_pc c = Inr c'"
  shows "\<exists>ss. forked c ss c' \<and> ss_pc ss = fall_pc"
proof -
  obtain jb c1 fb c2 b c3 c4 c5 ss c6 c9 c10 c11 where
    1: "new_block c = (jb, c1)" "new_block c1 = (fb, c2)" and
    3: "cpu_take_snapshot (cp_PC c2) (cp_block c2) c2 = (b, c3)" and
    4: "constrain_not_taken cond c3 = Inr c4" "solve_cpu_context S c4 = Inr c5" and
    6: "cpu_take_snapshot fall_pc fb c5 = (ss, c6)" and
    9: "constrain_taken cond (at_end_of jb (build (ICondBr cond_l jb fb)
           (cpu_restore_snapshot b (c6\<lparr>unexplored_paths := ss # unexplored_paths c6\<rparr>)))) = Inr c9" and
    10: "solve_cpu_context S c9 = Inr c10" and
    11: "event_handler H PATH_FORKING (c10\<lparr>cp_PC := jump_pc\<rparr>) = Inr c11" and
    12: "c' = cpu_drop_snapshot b c11"
    by (rule fork_path_steps [OF f]) blast
  have k5: "keeps c4 c5" and k10: "keeps c9 c10"
    using keeps_solve_context [OF 4(2)] keeps_solve_context [OF 10] by simp_all
  have base: "take_snapshot (cp_memory c) = (ss_mem b, cp_memory c3)"
    using snapshot_simps(1) [OF 3] new_block_simps(1) [OF 1(1)] new_block_simps(1) [OF 1(2)] by simp
  have one: "mem_keeps (cp_memory c3) (cp_memory c5)"
    using keeps_memory [OF k5] constrain_simps(1) [of cond c3 c4] 4(1) by simp
  have two: "mem_keeps (restore_snapshot (ss_mem b) (cp_memory c6)) (cp_memory c11)"
    using mem_keeps_trans [OF keeps_memory [OF k10]] event_simps(2) [OF H 11] constrain_simps(1) [OF disjI1, OF 9]
    by simp
  have paths: "unexplored_paths c11 = ss # unexplored_paths c"
    using event_simps(1) [OF H 11] keeps_fields(1) [OF k10] constrain_simps(2) [OF disjI1, OF 9]
      snapshot_simps(2) [OF 6] keeps_fields(1) [OF k5] constrain_simps(2) [OF disjI2, OF 4(1)]
      snapshot_simps(2) [OF 3] new_block_simps(2) [OF 1(2)] new_block_simps(2) [OF 1(1)] by simp
  show ?thesis
    using fork_forked [OF base one snapshot_simps(1) [OF 6] two paths] snapshot_simps(4) [OF 6] 12 by blast
qed

text \<open>The three ways a conditional branch goes on.\<close>

lemma branching_cases:
  assumes "branching S H cond jump_pc fall_pc c = Inr c'"
  obtains (taken) v c1 where "constrain_taken v (c\<lparr>cp_PC := jump_pc\<rparr>) = Inr c1"
      and "event_handler H CONDITIONAL_TAKEN c1 = Inr c'"
  | (not_taken) v c1 where "constrain_not_taken v (c\<lparr>cp_PC := fall_pc\<rparr>) = Inr c1"
      and "event_handler H CONDITIONAL_FALLTHROUGH c1 = Inr c'"
  | (fork) v where "fork_path S H (d_l cond) v jump_pc fall_pc c = Inr c'"
proof -
  from assms obtain v r where r: "(case r of
       Some True \<Rightarrow> res_bind (constrain_taken v (c\<lparr>cp_PC := jump_pc\<rparr>)) (event_handler H CONDITIONAL_TAKEN)
     | Some False \<Rightarrow> res_bind (constrain_not_taken v (c\<lparr>cp_PC := fall_pc\<rparr>)) (event_handler H CONDITIONAL_FALLTHROUGH)
     | None \<Rightarrow> fork_path S H (d_l cond) v jump_pc fall_pc c) = Inr c'"
    unfolding branching_def by (elim res_bindE) (auto split: prod.splits)
  show ?thesis
  proof (cases r)
    case None
    then show ?thesis using r fork by simp
  next
    case (Some b)
    then show ?thesis using r by (cases b) (auto elim!: res_bindE intro: taken not_taken)
  qed
qed

lemma branching_stacks:
  assumes H: "host_ok H" and b: "branching S H cond jump_pc fall_pc c = Inr c'"
  shows "stacks c c'"
  using b
proof (cases rule: branching_cases)
  case (taken v c1)
  then show ?thesis using stacks_constrain(1) event_stacks [OF H] stacks_trans by fastforce
next
  case (not_taken v c1)
  then show ?thesis using stacks_constrain(2) event_stacks [OF H] stacks_trans by fastforce
next
  case (fork v)
  then show ?thesis using fork_path_forked [OF H] forked_stacks by blast
qed

lemma delete_later_simps [simp]:
  "cp_memory (delete_later i c) = cp_memory c" "unexplored_paths (delete_later i c) = unexplored_paths c"
  "stacks c' (delete_later i c) = stacks c' c" "keeps (delete_later i c) c' = keeps c c'"
  by (simp_all add: delete_later_def)

text \<open>The steps of \<open>fork_cmov\<close>, named.\<close>

lemma fork_cmov_steps:
  assumes "fork_cmov S inst bb cond_l tv fv sp store c = Inr c'"
  obtains b c1 tb c2 fb c3 c5 ss c6 c8 where "cpu_take_snapshot (cp_PC c) bb c = (b, c1)"
    and "new_block c1 = (tb, c2)" and "new_block c2 = (fb, c3)"
    and "store_to S fv sp (at_end_of fb (build (ICondBr cond_l tb fb) c3)) = Inr c5"
    and "cpu_take_snapshot (ri_next_pc inst) fb c5 = (ss, c6)"
    and "store_to S tv sp (at_end_of tb (cpu_restore_snapshot b (c6\<lparr>unexplored_paths := ss # unexplored_paths c6\<rparr>))) = Inr c8"
    and "c' = cpu_drop_snapshot b (delete_later store c8)"
proof -
  obtain b c1 where 1: "cpu_take_snapshot (cp_PC c) bb c = (b, c1)" by (cases "cpu_take_snapshot (cp_PC c) bb c")
  obtain tb c2 where 2: "new_block c1 = (tb, c2)" by (cases "new_block c1")
  obtain fb c3 where 3: "new_block c2 = (fb, c3)" by (cases "new_block c2")
  let ?c4 = "at_end_of fb (build (ICondBr cond_l tb fb) c3)"
  from assms obtain c5 where 5: "store_to S fv sp ?c4 = Inr c5"
    by (auto simp: fork_cmov_def 1 2 3 unfold_res)
  obtain ss c6 where 6: "cpu_take_snapshot (ri_next_pc inst) fb c5 = (ss, c6)"
    by (cases "cpu_take_snapshot (ri_next_pc inst) fb c5")
  let ?c7 = "at_end_of tb (cpu_restore_snapshot b (c6\<lparr>unexplored_paths := ss # unexplored_paths c6\<rparr>))"
  from assms obtain c8 where 8: "store_to S tv sp ?c7 = Inr c8" and c': "c' = cpu_drop_snapshot b (delete_later store c8)"
    by (auto simp: fork_cmov_def 1 2 3 5 6 unfold_res)
  show ?thesis by (rule that [OF 1 2 3 5 6 8 c'])
qed

lemma fork_cmov_forked:
  assumes "fork_cmov S inst bb cond_l tv fv sp store c = Inr c'"
  shows "\<exists>ss. forked c ss c' \<and> ss_pc ss = ri_next_pc inst"
proof -
  obtain b c1 tb c2 fb c3 c5 ss c6 c8 where
    1: "cpu_take_snapshot (cp_PC c) bb c = (b, c1)" and 2: "new_block c1 = (tb, c2)" and 3: "new_block c2 = (fb, c3)" and
    5: "store_to S fv sp (at_end_of fb (build (ICondBr cond_l tb fb) c3)) = Inr c5" and
    6: "cpu_take_snapshot (ri_next_pc inst) fb c5 = (ss, c6)" and
    8: "store_to S tv sp (at_end_of tb (cpu_restore_snapshot b (c6\<lparr>unexplored_paths := ss # unexplored_paths c6\<rparr>))) = Inr c8" and
    c': "c' = cpu_drop_snapshot b (delete_later store c8)"
    by (rule fork_cmov_steps [OF assms]) blast
  note k5 = keeps_store_to [OF 5] and k8 = keeps_store_to [OF 8]
  have one: "mem_keeps (cp_memory c1) (cp_memory c5)"
    using keeps_memory [OF k5] new_block_simps(1) [OF 2] new_block_simps(1) [OF 3] by simp
  have two: "mem_keeps (restore_snapshot (ss_mem b) (cp_memory c6)) (cp_memory (delete_later store c8))"
    using keeps_memory [OF k8] by simp
  have paths: "unexplored_paths (delete_later store c8) = ss # unexplored_paths c"
    using keeps_fields(1) [OF k8] keeps_fields(1) [OF k5] snapshot_simps(2) [OF 6] snapshot_simps(2) [OF 1]
      new_block_simps(2) [OF 2] new_block_simps(2) [OF 3] by simp
  show ?thesis
    using fork_forked [OF snapshot_simps(1) [OF 1] one snapshot_simps(1) [OF 6] two paths] snapshot_simps(4) [OF 6] c' by blast
qed

lemma cmov_stacks:
  assumes "handle_conditional_moves S inst bb c = Inr c'"
  shows "stacks c c'"
proof -
  obtain store sp cond_l a b ws where f: "find_cmov (length (concat (ir_blocks (cp_ir c))))
      (map_of (concat (ir_blocks (cp_ir c)))) (rev (ir_blocks (cp_ir c) ! bb)) = Some (store, sp, (cond_l, a, b), ws)"
    using assms by (auto simp: handle_conditional_moves_def Let_def split: option.splits)
  from assms obtain tv c1 fv c2 result where
    1: "materialize S ws a c = Inr (tv, c1)" "materialize S ws b c1 = Inr (fv, c2)" and
    r: "(case result of Some taken \<Rightarrow> store_to S (if taken then tv else fv) sp (delete_later store c2)
      | None \<Rightarrow> fork_cmov S inst bb cond_l tv fv sp store c2) = Inr c'"
    unfolding handle_conditional_moves_def Let_def f option.case prod.case
    by (elim res_bindE) (auto split: prod.splits elim!: res_bindE)
  have "stacks c c2" using keeps_materialize [OF 1(1)] keeps_materialize [OF 1(2)] keeps_trans keeps_stacks by blast
  moreover have "stacks c2 c'"
  proof (cases result)
    case None
    then have "fork_cmov S inst bb cond_l tv fv sp store c2 = Inr c'" using r by simp
    then show ?thesis using fork_cmov_forked forked_stacks by blast
  next
    case (Some t)
    then have "store_to S (if t then tv else fv) sp (delete_later store c2) = Inr c'" using r by simp
    then have "keeps (delete_later store c2) c'" by (rule keeps_store_to)
    then show ?thesis using keeps_stacks by simp
  qed
  ultimately show ?thesis by (rule stacks_trans)
qed

lemma indirect_stacks:
  assumes H: "host_ok H" and "solve_indirect S H l v c = Inr (st, c')"
  shows "stacks c c'"
  using assms(2)
  by (auto simp: solve_indirect_def unfold_res split: if_splits
      dest!: keeps_run_emitted keeps_stacks branching_stacks [OF H] intro: stacks_trans)

lemma control_flow_stacks:
  assumes H: "host_ok H" and "control_flow S H inst bb c = Inr (st, c')"
  shows "stacks c c'"
proof (cases "ri_is_control_flow inst")
  case True
  then show ?thesis
    using assms(2)
    by (auto simp: control_flow_def unfold_res split: if_splits
        dest!: keeps_get_condition keeps_stacks branching_stacks [OF H] event_stacks [OF H] indirect_stacks [OF H]
        intro: stacks_trans)
next
  case False
  then show ?thesis
    using assms(2) by (auto simp: control_flow_def unfold_res split: if_splits dest!: cmov_stacks)
qed

lemma save_lifted_stacks: "save_lifted bb c = Inr c' \<Longrightarrow> stacks c c'"
  by (auto simp: save_lifted_def unfold_res split: if_splits)

lemma lift_stacks:
  assumes H: "host_ok H" and l: "lift_instruction S H inst c = Inr (st, c')"
  shows "stacks c c'"
proof -
  obtain bb c1 where 1: "new_block c = (bb, c1)" by (cases "new_block c")
  let ?c2 = "(at_end_of bb (build (IBr bb) c1))\<lparr>cp_block := bb\<rparr>"
  from l obtain c3 d c4 where 3: "event_handler H INSTRUCTION_LIFT ?c2 = Inr c3"
      "run_emitted S (IStore (LConstantInt 64 (uint (cp_PC c3))) (next_pc c3)) 0 c3 = Inr (d, c4)"
    by (auto simp: lift_instruction_def 1 unfold_res)
  obtain ok b where b: "rm_lift H inst bb (cp_ir c4) = (ok, b)" by (cases "rm_lift H inst bb (cp_ir c4)")
  have s4: "stacks c c4"
    using stacks_new_block [OF 1] event_stacks [OF H 3(1)] keeps_stacks [OF keeps_run_emitted [OF 3(2)]]
    by (auto intro: stacks_trans)
  show ?thesis
  proof (cases ok)
    case False
    then show ?thesis using l s4 by (auto simp: lift_instruction_def 1 3 b unfold_res)
  next
    case True
    then obtain c5 c6 where 5: "run_block S (rm_hyper H) bb (c4\<lparr>cp_ir := b\<rparr>) = Inr c5" "save_lifted bb c5 = Inr c6"
        "control_flow S H inst bb c6 = Inr (st, c')"
      using l by (auto simp: lift_instruction_def 1 3 b unfold_res)
    have "stacks c4 c5" using keeps_stacks [OF keeps_run_block [OF 5(1)]] by simp
    then show ?thesis
      using s4 save_lifted_stacks [OF 5(2)] control_flow_stacks [OF H 5(3)] by (meson stacks_trans)
  qed
qed

lemma recovery_stacks: "cfg_recovery c = Inr (r, c') \<Longrightarrow> stacks c c'"
  by (auto simp: cfg_recovery_def unfold_res split: if_splits option.splits)

lemma process_stacks:
  assumes H: "host_ok H" and "process_instruction S H c = Inr (st, c')"
  shows "stacks c c'"
  using assms(2)
  by (auto simp: process_instruction_def unfold_res split: if_splits option.splits
      dest!: recovery_stacks lift_stacks [OF H]) (meson stacks_trans)

section \<open>Resuming\<close>

text \<open>What a round can do: push paths, or take the topmost one and go on from there.\<close>

definition resumed :: "cpu \<Rightarrow> cpu_snapshot \<Rightarrow> cpu \<Rightarrow> bool" where
  "resumed c path c' \<longleftrightarrow> unexplored_paths c = path # unexplored_paths c' \<and>
     cp_PC c' = ss_pc path \<and> path_constraints c' = ss_path_constraints path \<and>
     (pending_ok c \<longrightarrow> pending_ok c' \<and> mem_view (cp_memory c') = saved_view (cp_memory c) (ss_mem path) \<and>
        (\<forall>ms \<in> set (pending c'). saved_view (cp_memory c') ms = saved_view (cp_memory c) ms))"

lemma drop_snapshot_view: "mem_view (drop_snapshot ss m) = mem_view m"
  by (simp add: mem_view_def drop_snapshot_def page_find_add page_storage_def cong: if_cong)

lemma explore_next_resumed:
  assumes "explore_next c = (False, c')"
  shows "\<exists>path. resumed c path c'"
proof -
  obtain path rest where p: "unexplored_paths c = path # rest"
      and c': "c' = cpu_drop_snapshot path (cpu_restore_snapshot path (c\<lparr>unexplored_paths := rest\<rparr>))"
    using assms by (auto simp: explore_next_def split: list.splits)
  have "resumed c path c'"
  proof (unfold resumed_def, intro conjI impI)
    show "unexplored_paths c = path # unexplored_paths c'" "cp_PC c' = ss_pc path"
      "path_constraints c' = ss_path_constraints path" using p c' by simp_all
    assume "pending_ok c"
    then have ok: "mem_ok (cp_memory c) (ss_mem path # map ss_mem rest)" by (simp add: pending_ok_def pending_def p)
    let ?r = "restore_snapshot (ss_mem path) (cp_memory c)"
    have okr: "mem_ok ?r ([] @ ss_mem path # map ss_mem rest)" using restore_snapshot_ok [OF ok] by simp
    show "pending_ok c'" using drop_snapshot_ok [OF okr] by (simp add: pending_ok_def pending_def c')
    show "mem_view (cp_memory c') = saved_view (cp_memory c) (ss_mem path)"
      using restore_snapshot_view [OF ok] by (simp add: c' drop_snapshot_view)
    show "\<forall>ms \<in> set (pending c'). saved_view (cp_memory c') ms = saved_view (cp_memory c) ms"
    proof
      fix ms assume "ms \<in> set (pending c')"
      then have ms: "ms \<in> set (ss_mem path # map ss_mem rest)" by (simp add: pending_def c')
      then have "saved_view ?r ms = saved_view (cp_memory c) ms"
        by (intro mem_step_saved [OF step_restore ok]) simp_all
      moreover have "saved_view (drop_snapshot (ss_mem path) ?r) ms = saved_view ?r ms"
        using ms by (intro mem_step_saved [OF step_drop okr]) simp
      ultimately show "saved_view (cp_memory c') ms = saved_view (cp_memory c) ms" by (simp add: c')
    qed
  qed
  then show ?thesis by blast
qed

lemma run_round_cases:
  assumes H: "host_ok H" and r: "run_round S H c = Inr (False, c')"
  obtains (goes_on) "stacks c c'" | (resumes) c1 path where "stacks c c1" and "resumed c1 path c'"
proof -
  from r obtain st c1 where 1: "process_instruction S H c = Inr (st, c1)" and
    st: "(case st of Function_ended \<Rightarrow> Inr (explore_next (build (IRet (d_l (state_ptr c1))) c1))
       | Explore_other_paths \<Rightarrow> Inr (explore_next c1) | _ \<Rightarrow> Inr (False, c1)) = (Inr (False, c') :: _ res)"
    by (auto simp: run_round_def res_bind_eq_Inr)
  have s: "stacks c c1" using process_stacks [OF H 1] .
  show ?thesis
  proof (cases st)
    case Function_ended
    then show ?thesis
      using st s explore_next_resumed [of "build (IRet (d_l (state_ptr c1))) c1" c']
        resumes [of "build (IRet (d_l (state_ptr c1))) c1"] by auto
  next
    case Explore_other_paths
    then show ?thesis using st s explore_next_resumed [of c1 c'] resumes by auto
  qed (use st s goes_on in auto)
qed

text \<open>Rounds during which the paths of \<open>waiting\<close> stay at the bottom of the stack.\<close>

inductive rounds :: "solver \<Rightarrow> host \<Rightarrow> cpu_snapshot list \<Rightarrow> cpu \<Rightarrow> cpu \<Rightarrow> bool" for S H waiting where
  rounds_refl: "rounds S H waiting c c"
| rounds_step: "rounds S H waiting c c1 \<Longrightarrow> run_round S H c1 = Inr (False, c2) \<Longrightarrow>
    unexplored_paths c2 = new @ waiting \<Longrightarrow> rounds S H waiting c c2"

definition saves :: "cpu_snapshot list \<Rightarrow> (mem_state \<Rightarrow> page_id list \<times> (page_id \<Rightarrow> storage)) \<Rightarrow> cpu \<Rightarrow> bool" where
  "saves waiting view c \<longleftrightarrow> pending_ok c \<and> (\<exists>new. unexplored_paths c = new @ waiting) \<and>
     (\<forall>path \<in> set waiting. saved_view (cp_memory c) (ss_mem path) = view (ss_mem path))"

lemma stacks_saves: "saves waiting view c \<Longrightarrow> stacks c c' \<Longrightarrow> saves waiting view c'"
  by (auto simp: saves_def stacks_def pending_def)

lemma resumed_saves:
  assumes "saves waiting view c" and "resumed c path c'" and "unexplored_paths c' = new @ waiting"
  shows "saves waiting view c'"
  using assms by (auto simp: saves_def resumed_def pending_def)

lemma round_saves:
  assumes H: "host_ok H" and s: "saves waiting view c" and r: "run_round S H c = Inr (False, c')"
    and w: "unexplored_paths c' = new @ waiting"
  shows "saves waiting view c'"
  using H r
proof (cases rule: run_round_cases)
  case goes_on
  then show ?thesis using stacks_saves s by blast
next
  case (resumes c1 path)
  then show ?thesis using stacks_saves [OF s] resumed_saves w by blast
qed

lemma rounds_saves:
  assumes "rounds S H waiting c c'" and "host_ok H" and "saves waiting view c"
  shows "saves waiting view c'"
  using assms by (induction rule: rounds.induct) (auto intro: round_saves)


text \<open>A host that decodes nothing, and a cpu at the end of a path with one path left.\<close>

definition demo_host :: host where
  "demo_host = \<lparr>rm_decode = (\<lambda>_ _. None), rm_lift = (\<lambda>_ _ b. (False, b)), rm_hyper = (\<lambda>_. Other_hyper_call),
     rm_address_of = (\<lambda>_ l b. (l, b)), event_callbacks = (\<lambda>_. None)\<rparr>"

definition demo_waiting :: cpu_snapshot where
  "demo_waiting = fst (cpu_take_snapshot 42 0 (with_memory demo_mem demo_cpu))"

definition demo_forked :: cpu where
  "demo_forked = (snd (cpu_take_snapshot 42 0 (with_memory demo_mem demo_cpu)))\<lparr>unexplored_paths := [demo_waiting]\<rparr>"

lemma demo_host_ok: "host_ok demo_host"
  by (simp add: host_ok_def demo_host_def)

lemma demo_forked_ok: "pending_ok demo_forked" "unexplored_paths demo_forked = [demo_waiting]"
proof -
  have t: "cpu_take_snapshot 42 0 (with_memory demo_mem demo_cpu) =
      (demo_waiting, snd (cpu_take_snapshot 42 0 (with_memory demo_mem demo_cpu)))"
    by (simp add: demo_waiting_def)
  have "take_snapshot demo_mem = (ss_mem demo_waiting, cp_memory demo_forked)"
    using snapshot_simps(1) [OF t] by (simp add: demo_forked_def)
  then show "pending_ok demo_forked"
    using take_snapshot_ok [OF demo_ok] by (simp add: pending_ok_def pending_def demo_forked_def)
qed (simp add: demo_forked_def)


end
