(* ===== verification/Fuel_Loop.thy ===== *)
theory Fuel_Loop
  imports Vexa_Prelude
begin

text \<open>
  The loops of the program that end for a reason that is not structural: the rounds of the pass manager,
  the scan for loads, the worklist of the constant propagation, the exploration of a function. Their models
  have fuel, and \<open>Diverges\<close> is the value when the fuel runs out. Of two results of such a loop neither depends on
  the fuel. The second locale is what a loop owes that has to end: one
  round either ends the loop or goes down a well-founded relation. Then some amount of fuel is enough,
  and so is any larger one.
\<close>

locale fuel_rounds =
  fixes body :: "'s \<Rightarrow> (bool \<times> 's) res"
    and final :: "'s \<Rightarrow> 'r"
    and loop :: "nat \<Rightarrow> 's \<Rightarrow> 'r res"
  assumes loop_0: "loop 0 s = Inl Diverges"
    and loop_Suc: "loop (Suc n) s = res_bind (body s) (\<lambda>(over, s'). if over then Inr (final s') else loop n s')"
begin

text \<open>Fuel that is enough gives the same result as any larger fuel.\<close>

lemma fuel_mono: "loop n s = r \<Longrightarrow> r \<noteq> Inl Diverges \<Longrightarrow> n \<le> m \<Longrightarrow> loop m s = r"
proof (induction n arbitrary: s m)
  case 0
  then show ?case by (simp add: loop_0)
next
  case (Suc n)
  then obtain m' where m: "m = Suc m'" "n \<le> m'" by (cases m) auto
  show ?case
  proof (cases "body s")
    case (Inr x)
    then show ?thesis using Suc m by (cases x) (auto simp: loop_Suc split: if_splits)
  qed (use Suc m in \<open>auto simp: loop_Suc\<close>)
qed

text \<open>Two amounts of fuel that are enough give one result.\<close>

lemma fuel_unique: "loop n s = Inr r \<Longrightarrow> loop m s = Inr r' \<Longrightarrow> r = r'"
  using fuel_mono [of n s "Inr r" m] fuel_mono [of m s "Inr r'" n] by (cases "n \<le> m") auto

end

locale fuel_loop = fuel_rounds body final loop
  for body :: "'s \<Rightarrow> (bool \<times> 's) res" and final :: "'s \<Rightarrow> 'r" and loop :: "nat \<Rightarrow> 's \<Rightarrow> 'r res" +
  fixes inv :: "'s \<Rightarrow> bool"
    and rank :: "('s \<times> 's) set"
  assumes rank_wf: "wf rank"
    and body_returns: "inv s \<Longrightarrow> body s \<noteq> Inl Diverges"
    and body_inv: "inv s \<Longrightarrow> body s = Inr (over, s') \<Longrightarrow> inv s'"
    and body_rank: "inv s \<Longrightarrow> body s = Inr (False, s') \<Longrightarrow> (s', s) \<in> rank"
begin

lemma terminates: "inv s \<Longrightarrow> \<exists>n. \<forall>m \<ge> n. loop m s \<noteq> Inl Diverges"
  using rank_wf
proof (induction s rule: wf_induct_rule)
  case (less s)
  note cases = loop_Suc [of _ s]
  show ?case
  proof (cases "body s")
    case (Inl e)
    then have "e \<noteq> Diverges" using body_returns [OF less.prems] by blast
    then have "loop (Suc n) s \<noteq> Inl Diverges" for n using cases [of n] Inl by simp
    then have "\<forall>m \<ge> 1. loop m s \<noteq> Inl Diverges" by (metis One_nat_def Suc_le_D)
    then show ?thesis by blast
  next
    case (Inr r)
    obtain over s' where r: "r = (over, s')" by (cases r)
    show ?thesis
    proof (cases over)
      case True
      have "loop (Suc n) s \<noteq> Inl Diverges" for n using cases [of n] Inr r True by simp
      then have "\<forall>m \<ge> 1. loop m s \<noteq> Inl Diverges" by (metis One_nat_def Suc_le_D)
      then show ?thesis by blast
    next
      case False
      then have b: "body s = Inr (False, s')" using Inr r by simp
      from less.IH [OF body_rank [OF less.prems b] body_inv [OF less.prems b]] obtain n where n: "\<forall>m \<ge> n. loop m s' \<noteq> Inl Diverges" by blast
      have "loop (Suc m) s \<noteq> Inl Diverges" if "n \<le> m" for m using cases [of m] Inr r False n that by simp
      moreover have "\<exists>k \<ge> n. m = Suc k" if "Suc n \<le> m" for m using that by (cases m) auto
      ultimately have "\<forall>m \<ge> Suc n. loop m s \<noteq> Inl Diverges" by blast
      then show ?thesis by blast
    qed
  qed
qed

text \<open>The state before the last round, for the properties of the result.\<close>

lemma last_round:
  "inv s \<Longrightarrow> loop n s = Inr r \<Longrightarrow> \<exists>s1 s2. inv s1 \<and> body s1 = Inr (True, s2) \<and> inv s2 \<and> r = final s2"
proof (induction n arbitrary: s)
  case 0
  then show ?case by (simp add: loop_0)
next
  case (Suc n)
  from Suc.prems(2) obtain over s' where b: "body s = Inr (over, s')"
      and rest: "(if over then Inr (final s') else loop n s') = Inr r"
    unfolding loop_Suc by (auto elim!: res_bindE)
  have "inv s'" using body_inv [OF Suc.prems(1) b] .
  with Suc b rest show ?case by (cases over) auto
qed

end

text \<open>A loop whose rounds count down a number needs no more fuel than that number. It ends with the result of its
  last round, or with the exception of one of its rounds.\<close>

locale bounded_loop = fuel_rounds body final loop
  for body :: "'s \<Rightarrow> (bool \<times> 's) res" and final :: "'s \<Rightarrow> 'r" and loop :: "nat \<Rightarrow> 's \<Rightarrow> 'r res" +
  fixes inv :: "'s \<Rightarrow> bool"
    and bound :: "'s \<Rightarrow> nat"
  assumes round_inv: "inv s \<Longrightarrow> body s = Inr (False, s') \<Longrightarrow> inv s'"
    and round_bound: "inv s \<Longrightarrow> body s = Inr (False, s') \<Longrightarrow> bound s' < bound s"
begin

lemma ends:
  "inv s \<Longrightarrow> bound s < n \<Longrightarrow> \<exists>s1. inv s1 \<and> (\<lambda>s s'. body s = Inr (False, s'))\<^sup>*\<^sup>* s s1 \<and>
     ((\<exists>s2. body s1 = Inr (True, s2) \<and> loop n s = Inr (final s2)) \<or> (\<exists>e. body s1 = Inl e \<and> loop n s = Inl e))"
proof (induction n arbitrary: s)
  case (Suc n)
  show ?case
  proof (cases "body s")
    case (Inl e)
    then show ?thesis using Suc.prems(1) by (intro exI [of _ s]) (simp add: loop_Suc)
  next
    case (Inr r)
    obtain over s' where r: "r = (over, s')" by (cases r)
    show ?thesis
    proof (cases over)
      case True
      then show ?thesis using Suc.prems(1) Inr r by (intro exI [of _ s]) (simp add: loop_Suc)
    next
      case False
      then have b: "body s = Inr (False, s')" using Inr r by simp
      have "bound s' < n" using round_bound [OF Suc.prems(1) b] Suc.prems(2) by simp
      from Suc.IH [OF round_inv [OF Suc.prems(1) b] this] obtain s1 where s1: "inv s1"
          "(\<lambda>s s'. body s = Inr (False, s'))\<^sup>*\<^sup>* s' s1"
          "(\<exists>s2. body s1 = Inr (True, s2) \<and> loop n s' = Inr (final s2)) \<or> (\<exists>e. body s1 = Inl e \<and> loop n s' = Inl e)" by blast
      have "loop (Suc n) s = loop n s'" using b by (simp add: loop_Suc)
      then show ?thesis using s1 converse_rtranclp_into_rtranclp [of "\<lambda>s s'. body s = Inr (False, s')", OF b s1(2)]
        by (intro exI [of _ s1]) simp
    qed
  qed
qed simp

lemma same_result: "inv s \<Longrightarrow> bound s < n \<Longrightarrow> loop n s = loop (Suc (bound s)) s"
proof (induction "bound s" arbitrary: s n rule: less_induct)
  case less
  obtain m where n: "n = Suc m" using less.prems(2) by (cases n) auto
  show ?case
  proof (cases "body s")
    case (Inr r)
    obtain over s' where r: "r = (over, s')" by (cases r)
    show ?thesis
    proof (cases over)
      case False
      then have b: "body s = Inr (False, s')" using Inr r by simp
      note down = round_bound [OF less.prems(1) b] and i = round_inv [OF less.prems(1) b]
      have "bound s' < m" using down less.prems(2) n by simp
      from less.hyps [OF down i this] have "loop m s' = loop (Suc (bound s')) s'" .
      moreover from less.hyps [OF down i down] have "loop (bound s) s' = loop (Suc (bound s')) s'" .
      ultimately have "loop m s' = loop (bound s) s'" by simp
      then show ?thesis unfolding n loop_Suc b by simp
    qed (use Inr r n in \<open>simp add: loop_Suc\<close>)
  qed (use n in \<open>simp add: loop_Suc\<close>)
qed

end

end
