(* ===== verification/Exploration.thy ===== *)
theory Exploration
  imports Cpu_Paths Fuel_Loop
begin

text \<open>
  The exploration of a function ends (arch.cpp, \<open>cpu::run\<close>) when control flow is recovered and paths join by
  the program counter: every instruction that is lifted is a new entry of \<open>CFG\<close>, which has one for each address at most, a lift
  leaves at most one more path on the stack, and every other round takes a path off it. The number of rounds is bounded
  by twice the addresses that are not lifted yet and the paths that wait.
\<close>

section \<open>What the operations keep of the control state\<close>

definition ctrl :: "cpu \<Rightarrow> int \<times> options \<times> (u64 \<rightharpoonup> block_id)" where
  "ctrl c = (cp_mode c, cp_options c, cp_CFG c)"

definition waiting_paths :: "cpu \<Rightarrow> nat" where
  "waiting_paths c = length (unexplored_paths c)"

text \<open>The callbacks leave the mode, the options and the lifted blocks alone, and the one that runs before an instruction
  is lifted leaves the program counter.\<close>

definition host_steady :: "host \<Rightarrow> bool" where
  "host_steady H \<longleftrightarrow> host_ok H \<and> (\<forall>k f c c'. event_callbacks H k = Some f \<and> f c = Inr c' \<longrightarrow>
     ctrl c' = ctrl c \<and> (k = INSTRUCTION_LIFT \<longrightarrow> cp_PC c' = cp_PC c))"

lemma ctrl_update [simp]:
  "ctrl (c\<lparr>cp_PC := pc\<rparr>) = ctrl c" "ctrl (c\<lparr>cp_ir := b\<rparr>) = ctrl c" "ctrl (c\<lparr>cp_block := bb\<rparr>) = ctrl c"
  "ctrl (c\<lparr>unexplored_paths := ps\<rparr>) = ctrl c" "ctrl (c\<lparr>lifted_count := n\<rparr>) = ctrl c" "ctrl (c\<lparr>path_constraints := ts\<rparr>) = ctrl c"
  "ctrl (with_memory m c) = ctrl c" "ctrl (build i c) = ctrl c" "ctrl (at_end_of bb c) = ctrl c" "ctrl (delete_later d c) = ctrl c"
  "ctrl (cpu_restore_snapshot ss c) = ctrl c" "ctrl (cpu_drop_snapshot ss c) = ctrl c"
  by (simp_all add: ctrl_def with_memory_def build_def cp_emit_def at_end_of_def delete_later_def cpu_restore_snapshot_def
      cpu_drop_snapshot_def split: prod.split)

lemma waiting_update [simp]:
  "waiting_paths (c\<lparr>cp_PC := pc\<rparr>) = waiting_paths c" "waiting_paths (c\<lparr>cp_ir := b\<rparr>) = waiting_paths c"
  "waiting_paths (c\<lparr>cp_block := bb\<rparr>) = waiting_paths c" "waiting_paths (c\<lparr>lifted_count := n\<rparr>) = waiting_paths c"
  "waiting_paths (build i c) = waiting_paths c" "waiting_paths (at_end_of bb c) = waiting_paths c"
  "waiting_paths (delete_later d c) = waiting_paths c"
  by (simp_all add: waiting_paths_def)

lemma ctrl_keeps: "keeps c c' \<Longrightarrow> ctrl c' = ctrl c"
  by (simp add: ctrl_def keeps_fields)

lemma ctrl_snapshot: "cpu_take_snapshot pc bb c = (ss, c') \<Longrightarrow> ctrl c' = ctrl c"
  by (auto simp: cpu_take_snapshot_def split: prod.splits)

lemma ctrl_new_block: "new_block c = (bb, c') \<Longrightarrow> ctrl c' = ctrl c"
  by (auto simp: new_block_def split: prod.splits)

lemma ctrl_constrain:
  "constrain_taken cond c = Inr c' \<Longrightarrow> ctrl c' = ctrl c" "constrain_not_taken cond c = Inr c' \<Longrightarrow> ctrl c' = ctrl c"
  by (auto simp: constrain_taken_def constrain_not_taken_def push_constraint_def unfold_res)

lemma ctrl_event: "host_steady H \<Longrightarrow> event_handler H k c = Inr c' \<Longrightarrow> ctrl c' = ctrl c"
  by (auto simp: event_handler_def host_steady_def split: option.splits)

lemma steady_ok: "host_steady H \<Longrightarrow> host_ok H"
  by (simp add: host_steady_def)

text \<open>One step that keeps the control state and adds at most \<open>n\<close> paths.\<close>

definition adds :: "nat \<Rightarrow> cpu \<Rightarrow> cpu \<Rightarrow> bool" where
  "adds n c c' \<longleftrightarrow> ctrl c' = ctrl c \<and> waiting_paths c' \<le> n + waiting_paths c"

lemma adds_refl [simp]: "adds n c c"
  by (simp add: adds_def)

lemma adds_trans: "adds n c c' \<Longrightarrow> adds m c' c'' \<Longrightarrow> adds (n + m) c c''"
  by (simp add: adds_def)

lemma adds_trans0: "adds 0 c c' \<Longrightarrow> adds m c' c'' \<Longrightarrow> adds m c c''"
  using adds_trans [of 0] by simp

lemma adds_update [simp]:
  "adds n c (c'\<lparr>cp_PC := pc\<rparr>) = adds n c c'" "adds n (c\<lparr>cp_PC := pc\<rparr>) c' = adds n c c'"
  "adds n c (delete_later d c') = adds n c c'" "adds n (delete_later d c) c' = adds n c c'"
  by (simp_all add: adds_def)

lemma adds_keeps: "keeps c c' \<Longrightarrow> adds n c c'"
  by (simp add: adds_def ctrl_keeps waiting_paths_def keeps_fields)

lemma adds_forked: "forked c ss c' \<Longrightarrow> ctrl c' = ctrl c \<Longrightarrow> adds 1 c c'"
  by (simp add: adds_def forked_def waiting_paths_def)

lemma adds_event: "host_steady H \<Longrightarrow> event_handler H k c = Inr c' \<Longrightarrow> adds n c c'"
  using ctrl_event event_simps(1) [OF steady_ok] by (simp add: adds_def waiting_paths_def)

lemma adds_constrain:
  "constrain_taken cond c = Inr c' \<Longrightarrow> adds n c c'" "constrain_not_taken cond c = Inr c' \<Longrightarrow> adds n c c'"
  using ctrl_constrain constrain_simps(2) [of cond c c'] by (simp_all add: adds_def waiting_paths_def)

lemma adds_fork_path:
  assumes H: "host_steady H" and f: "fork_path S H cond_l cond jump_pc fall_pc c = Inr c'"
  shows "adds 1 c c'"
proof -
  have "ctrl c' = ctrl c"
    by (rule fork_path_steps [OF f])
       (simp add: ctrl_event [OF H] ctrl_keeps [OF keeps_solve_context] ctrl_constrain ctrl_snapshot ctrl_new_block)
  then show ?thesis using fork_path_forked [OF steady_ok [OF H] f] adds_forked by blast
qed

lemma adds_fork_cmov:
  assumes "fork_cmov S inst bb cond_l tv fv sp store c = Inr c'"
  shows "adds 1 c c'"
proof -
  have "ctrl c' = ctrl c"
    by (rule fork_cmov_steps [OF assms]) (simp add: ctrl_keeps [OF keeps_store_to] ctrl_snapshot ctrl_new_block)
  then show ?thesis using fork_cmov_forked [OF assms] adds_forked by blast
qed

lemma adds_branching:
  assumes H: "host_steady H" and b: "branching S H cond jump_pc fall_pc c = Inr c'"
  shows "adds 1 c c'"
  using b
proof (cases rule: branching_cases)
  case (taken v c1)
  then show ?thesis using adds_trans0 [OF adds_constrain(1) adds_event [OF H]] by fastforce
next
  case (not_taken v c1)
  then show ?thesis using adds_trans0 [OF adds_constrain(2) adds_event [OF H]] by fastforce
qed (rule adds_fork_path [OF H])

lemma adds_cmov:
  assumes "handle_conditional_moves S inst bb c = Inr c'"
  shows "adds 1 c c'"
proof -
  obtain store sp cond_l a b ws where f: "find_cmov (length (concat (ir_blocks (cp_ir c))))
      (map_of (concat (ir_blocks (cp_ir c)))) (rev (ir_blocks (cp_ir c) ! bb)) = Some (store, sp, (cond_l, a, b), ws)"
    using assms by (auto simp: handle_conditional_moves_def Let_def split: option.splits)
  from assms obtain tv c1 fv c2 result where
    1: "materialize S ws a c = Inr (tv, c1)" "materialize S ws b c1 = Inr (fv, c2)" and
    r: "(case result of Some taken \<Rightarrow> store_to S (if taken then tv else fv) sp (delete_later store c2)
      | None \<Rightarrow> fork_cmov S inst bb cond_l tv fv sp store c2) = Inr c'"
    unfolding handle_conditional_moves_def Let_def f option.case prod.case
    by (elim res_bindE) (auto split: prod.splits elim!: res_bindE)
  have "adds 0 c c2" using keeps_materialize [OF 1(1)] keeps_materialize [OF 1(2)] keeps_trans adds_keeps by blast
  moreover have "adds 1 c2 c'"
    using r adds_fork_cmov adds_keeps [OF keeps_store_to, of S _ sp "delete_later store c2"] by (cases result) auto
  ultimately show ?thesis by (rule adds_trans0)
qed

lemma adds_indirect:
  assumes H: "host_steady H" and i: "solve_indirect S H l v c = Inr (st, c')"
  shows "adds 1 c c'"
  using i adds_branching [OF H] adds_keeps [OF keeps_run_emitted, of S _ _ _ _ _ 0]
  by (auto simp: solve_indirect_def unfold_res split: if_splits dest!: adds_branching [OF H] keeps_run_emitted
      intro: adds_trans0 [OF adds_keeps])

lemma adds_control_flow:
  assumes H: "host_steady H" and f: "control_flow S H inst bb c = Inr (st, c')"
  shows "adds 1 c c'"
proof (cases "ri_is_control_flow inst")
  case True
  then show ?thesis
    using f by (auto simp: control_flow_def unfold_res split: if_splits
        dest!: keeps_get_condition adds_branching [OF H] adds_event [OF H, where n = 1] adds_indirect [OF H] intro: adds_trans0 [OF adds_keeps])
next
  case False
  then show ?thesis
    using f by (auto simp: control_flow_def unfold_res split: if_splits dest!: adds_cmov)
qed

section \<open>A round\<close>

text \<open>Control flow is recovered, and paths join by the program counter.\<close>

definition joins_by_pc :: "cpu \<Rightarrow> bool" where
  "joins_by_pc c \<longleftrightarrow> cp_mode c = CFG_RECOVERY \<and>
     (\<exists>policy. get_option CFG_JOIN_POLICY (cp_options c) = Inr policy \<and> policy \<noteq> SPECIALIZE_BY_PATH)"

definition lifts_left :: "cpu \<Rightarrow> nat" where
  "lifts_left c = card (- dom (cp_CFG c))"

text \<open>The rounds that are left at most.\<close>

definition rounds_left :: "cpu \<Rightarrow> nat" where
  "rounds_left c = 2 * lifts_left c + waiting_paths c"

lemma ctrl_eqs:
  assumes "ctrl c' = ctrl c"
  shows "joins_by_pc c' = joins_by_pc c" and "lifts_left c' = lifts_left c" and "cp_CFG c' = cp_CFG c"
  using assms by (simp_all add: ctrl_def joins_by_pc_def lifts_left_def)

lemma lifts_left_new:
  assumes "cp_CFG c pc = None" and "cp_CFG c' = (cp_CFG c)(pc \<mapsto> bb)"
  shows "lifts_left c' < lifts_left c"
proof -
  have "- dom (cp_CFG c') = - dom (cp_CFG c) - {pc}" using assms(2) by auto
  moreover have "pc \<in> - dom (cp_CFG c)" using assms(1) by auto
  ultimately show ?thesis unfolding lifts_left_def by (metis card_Diff1_less finite_code)
qed

lemma save_lifted_joins:
  assumes "joins_by_pc c" and "save_lifted bb c = Inr c'"
  shows "cp_CFG c' = (cp_CFG c)(cp_PC c \<mapsto> bb)" and "joins_by_pc c'" and "waiting_paths c' = waiting_paths c"
  using assms by (auto simp: joins_by_pc_def save_lifted_def waiting_paths_def)

text \<open>A lift adds an entry and at most one path; when remill refuses the instruction, nothing is added.\<close>

lemma lift_progress:
  assumes H: "host_steady H" and j: "joins_by_pc c" and new: "cp_CFG c (cp_PC c) = None"
    and l: "lift_instruction S H inst c = Inr (st, c')"
  shows "joins_by_pc c'"
    and "lifts_left c' < lifts_left c \<and> waiting_paths c' \<le> Suc (waiting_paths c) \<or>
      st = Explore_other_paths \<and> lifts_left c' = lifts_left c \<and> waiting_paths c' = waiting_paths c"
proof -
  obtain bb c1 where 1: "new_block c = (bb, c1)" by (cases "new_block c")
  let ?c2 = "(at_end_of bb (build (IBr bb) c1))\<lparr>cp_block := bb\<rparr>"
  from l obtain c3 d c4 where 3: "event_handler H INSTRUCTION_LIFT ?c2 = Inr c3"
      "run_emitted S (IStore (LConstantInt 64 (uint (cp_PC c3))) (next_pc c3)) 0 c3 = Inr (d, c4)"
    by (auto simp: lift_instruction_def 1 unfold_res)
  obtain ok b where b: "rm_lift H inst bb (cp_ir c4) = (ok, b)" by (cases "rm_lift H inst bb (cp_ir c4)")
  have ctrl4: "ctrl c4 = ctrl c" using ctrl_new_block [OF 1] ctrl_event [OF H 3(1)] ctrl_keeps [OF keeps_run_emitted [OF 3(2)]] by simp
  have w4: "waiting_paths c4 = waiting_paths c"
    using new_block_simps(2) [OF 1] event_simps(1) [OF steady_ok [OF H] 3(1)] keeps_fields(1) [OF keeps_run_emitted [OF 3(2)]]
    by (simp add: waiting_paths_def)
  have "cp_PC c1 = cp_PC c" using 1 by (auto simp: new_block_def split: prod.splits)
  then have pc4: "cp_PC c4 = cp_PC c"
    using H 3(1) keeps_fields(4) [OF keeps_run_emitted [OF 3(2)]] by (auto simp: event_handler_def host_steady_def split: option.splits)
  have "joins_by_pc c' \<and> (lifts_left c' < lifts_left c \<and> waiting_paths c' \<le> Suc (waiting_paths c) \<or>
      st = Explore_other_paths \<and> lifts_left c' = lifts_left c \<and> waiting_paths c' = waiting_paths c)"
  proof (cases ok)
    case False
    then have st: "st = Explore_other_paths" and c': "c' = (build IUnreachable (c4\<lparr>cp_ir := b\<rparr>))\<lparr>cp_PC := -1\<rparr>"
      using l by (auto simp: lift_instruction_def 1 3 b unfold_res)
    have "ctrl c' = ctrl c" "waiting_paths c' = waiting_paths c" using ctrl4 w4 c' by simp_all
    then show ?thesis using st j ctrl_eqs [of c' c] by simp
  next
    case True
    then obtain c5 c6 where 5: "run_block S (rm_hyper H) bb (c4\<lparr>cp_ir := b\<rparr>) = Inr c5" "save_lifted bb c5 = Inr c6"
        "control_flow S H inst bb c6 = Inr (st, c')"
      using l by (auto simp: lift_instruction_def 1 3 b unfold_res)
    have k5: "keeps c4 c5" using keeps_run_block [OF 5(1)] by simp
    have ctrl5: "ctrl c5 = ctrl c" using ctrl_keeps [OF k5] ctrl4 by simp
    note s = save_lifted_joins [OF _ 5(2)] and c = adds_control_flow [OF H 5(3), unfolded adds_def]
    have j6: "joins_by_pc c6" using s(2) ctrl_eqs(1) [OF ctrl5] j by simp
    have "cp_CFG c6 = (cp_CFG c)(cp_PC c \<mapsto> bb)"
      using s(1) ctrl_eqs [OF ctrl5] j keeps_fields(4) [OF k5] pc4 by simp
    then have "lifts_left c6 < lifts_left c" using lifts_left_new new by blast
    moreover have "waiting_paths c6 = waiting_paths c"
      using s(3) ctrl_eqs(1) [OF ctrl5] j keeps_fields(1) [OF k5] w4 by (simp add: waiting_paths_def)
    ultimately show ?thesis using c ctrl_eqs [of c' c6] j6 by simp
  qed
  then show "joins_by_pc c'" "lifts_left c' < lifts_left c \<and> waiting_paths c' \<le> Suc (waiting_paths c) \<or>
      st = Explore_other_paths \<and> lifts_left c' = lifts_left c \<and> waiting_paths c' = waiting_paths c" by simp_all
qed

lemma cfg_recovery_joins:
  assumes "joins_by_pc c"
  shows "cfg_recovery c = Inr (case cp_CFG c (cp_PC c) of Some bb \<Rightarrow> (True, build (IBr bb) c) | None \<Rightarrow> (False, c))"
  using assms by (auto simp: joins_by_pc_def cfg_recovery_def split: option.split)

lemma process_progress:
  assumes H: "host_steady H" and j: "joins_by_pc c" and p: "process_instruction S H c = Inr (st, c')"
  shows "joins_by_pc c' \<and> (lifts_left c' < lifts_left c \<and> waiting_paths c' \<le> Suc (waiting_paths c) \<or>
      (st = Explore_other_paths \<or> st = Function_ended) \<and> lifts_left c' = lifts_left c \<and> waiting_paths c' = waiting_paths c)"
proof (cases "cp_PC c = 0 \<or> cp_CFG c (cp_PC c) \<noteq> None")
  case True
  then have "st = Explore_other_paths \<or> st = Function_ended" "ctrl c' = ctrl c" "waiting_paths c' = waiting_paths c"
    using p by (auto simp: process_instruction_def cfg_recovery_joins [OF j] split: if_splits)
  then show ?thesis using j ctrl_eqs [of c' c] by simp
next
  case False
  then obtain bytes where p': "(case rm_decode H (cp_PC c) bytes of None \<Rightarrow> Inr (Explore_other_paths, c)
      | Some inst \<Rightarrow> res_bind (lift_instruction S H inst c) (\<lambda>(status, c2). Inr (status, c2\<lparr>lifted_count := Suc (lifted_count c2)\<rparr>))) =
      (Inr (st, c') :: _ res)"
    using p by (auto simp: process_instruction_def cfg_recovery_joins [OF j] res_bind_eq_Inr)
  show ?thesis
  proof (cases "rm_decode H (cp_PC c) bytes")
    case None
    then show ?thesis using p' j by simp
  next
    case (Some inst)
    then obtain c2 where c2: "lift_instruction S H inst c = Inr (st, c2)" and c': "c' = c2\<lparr>lifted_count := Suc (lifted_count c2)\<rparr>"
      using p' by (auto simp: res_bind_eq_Inr)
    have "ctrl c' = ctrl c2" "waiting_paths c' = waiting_paths c2" using c' by simp_all
    then show ?thesis using lift_progress [OF H j _ c2] False ctrl_eqs [of c' c2] by auto
  qed
qed

lemma explore_next_ctrl:
  assumes "explore_next c = (over, c')"
  shows "ctrl c' = ctrl c" and "over \<longleftrightarrow> unexplored_paths c = []" and "\<not> over \<Longrightarrow> waiting_paths c = Suc (waiting_paths c')"
    and "over \<Longrightarrow> unexplored_paths c' = []"
  using assms by (auto simp: explore_next_def waiting_paths_def split: list.splits)

lemma round_progress:
  assumes H: "host_steady H" and j: "joins_by_pc c" and r: "run_round S H c = Inr (over, c')"
  shows "joins_by_pc c'" and "\<not> over \<Longrightarrow> rounds_left c' < rounds_left c" and "over \<Longrightarrow> unexplored_paths c' = []"
proof -
  from r obtain st c1 where 1: "process_instruction S H c = Inr (st, c1)" and
    st: "(case st of Function_ended \<Rightarrow> Inr (explore_next (build (IRet (d_l (state_ptr c1))) c1))
       | Explore_other_paths \<Rightarrow> Inr (explore_next c1) | _ \<Rightarrow> Inr (False, c1)) = (Inr (over, c') :: _ res)"
    by (auto simp: run_round_def res_bind_eq_Inr)
  note progress = process_progress [OF H j 1]
  have "joins_by_pc c' \<and> (\<not> over \<longrightarrow> rounds_left c' < rounds_left c) \<and> (over \<longrightarrow> unexplored_paths c' = [])"
  proof (cases "st = Explore_other_paths \<or> st = Function_ended")
    case True
    define c2 where "c2 = (if st = Function_ended then build (IRet (d_l (state_ptr c1))) c1 else c1)"
    have e: "explore_next c2 = (over, c')" using st True by (auto simp: c2_def)
    have "ctrl c2 = ctrl c1" "waiting_paths c2 = waiting_paths c1" by (simp_all add: c2_def)
    then have "ctrl c' = ctrl c1" "\<not> over \<Longrightarrow> waiting_paths c1 = Suc (waiting_paths c')"
      using explore_next_ctrl(1,3) [OF e] by simp_all
    then show ?thesis using progress explore_next_ctrl(4) [OF e] ctrl_eqs [of c' c1] by (auto simp: rounds_left_def)
  next
    case False
    then have "c' = c1" "\<not> over" using st by (auto split: lifter_status.splits)
    then show ?thesis using progress False by (auto simp: rounds_left_def)
  qed
  then show "joins_by_pc c'" and "\<not> over \<Longrightarrow> rounds_left c' < rounds_left c" and "over \<Longrightarrow> unexplored_paths c' = []"
    by blast+
qed

section \<open>The exploration ends\<close>

text \<open>The loop of the exploration is a loop of the library, over the states that join by the program counter. The bound is
  that of a host that is steady; for another host the loop is not started.\<close>

interpretation exploration: bounded_loop "run_round S H" "\<lambda>c. c\<lparr>cp_ir := eraseDeletedInstructions (cp_ir c)\<rparr>" "run_loop S H"
  "\<lambda>c. host_steady H \<and> joins_by_pc c" rounds_left for S H
  by unfold_locales (auto dest: round_progress)

text \<open>The start of a run, which sets up the stack, the entry block and the segments, does not touch the control state.\<close>

lemma ctrl_emit [simp]: "ctrl (snd (cp_emit inst bits c)) = ctrl c"
  "unexplored_paths (snd (cp_emit inst bits c)) = unexplored_paths c"
  by (simp_all add: cp_emit_def ctrl_def split: prod.split)

lemma ctrl_set [simp]: "ctrl (cp_set l v c) = ctrl c" "unexplored_paths (cp_set l v c) = unexplored_paths c"
  "ctrl (c\<lparr>stack_ptr := d\<rparr>) = ctrl c" "ctrl (c\<lparr>next_pc := a\<rparr>) = ctrl c" "ctrl (c\<lparr>branch_taken := a\<rparr>) = ctrl c"
  by (simp_all add: ctrl_def cp_set_def)

lemma init_stack_ctrl: "init_stack c = Inr c' \<Longrightarrow> ctrl c' = ctrl c \<and> unexplored_paths c' = unexplored_paths c"
  by (auto simp: init_stack_def unfold_res case_prod_beta)

lemma init_entry_ctrl: "init_entry S H c = Inr c' \<Longrightarrow> ctrl c' = ctrl c \<and> unexplored_paths c' = unexplored_paths c"
  by (auto simp: init_entry_def unfold_res case_prod_beta ctrl_keeps [OF keeps_run_block] keeps_fields(1) [OF keeps_run_block])

lemma write_concrete_keeps: "write_concrete S p n c = Inr c' \<Longrightarrow> keeps c c'"
  by (auto simp: write_concrete_def unfold_res dest!: keeps_write)

lemma init_segments_keeps: "init_segments S c = Inr c' \<Longrightarrow> keeps c c'"
  by (auto simp: init_segments_def unfold_res dest!: write_concrete_keeps intro: keeps_trans)

lemma start_state:
  assumes "cpu_start S H pc c = Inr c0"
  shows "cp_options c0 = cp_options c" and "cp_CFG c0 = cp_CFG c" and "unexplored_paths c0 = unexplored_paths c"
    and "cp_PC c0 = pc" and "get_option MODE (cp_options c) = Inr (cp_mode c0)"
proof -
  from assms obtain c1 c2 c3 mode where 1: "init_stack c = Inr c1" "init_entry S H c1 = Inr c2" "init_segments S c2 = Inr c3"
      "get_option MODE (cp_options c3) = Inr mode" "c0 = c3\<lparr>cp_PC := pc, cp_mode := mode\<rparr>"
    by (auto simp: cpu_start_def unfold_res)
  have "ctrl c3 = ctrl c" "unexplored_paths c3 = unexplored_paths c"
    using init_stack_ctrl [OF 1(1)] init_entry_ctrl [OF 1(2)] ctrl_keeps [OF init_segments_keeps [OF 1(3)]]
      keeps_fields(1) [OF init_segments_keeps [OF 1(3)]] by simp_all
  then show "cp_options c0 = cp_options c" "cp_CFG c0 = cp_CFG c" "unexplored_paths c0 = unexplored_paths c" "cp_PC c0 = pc"
    "get_option MODE (cp_options c) = Inr (cp_mode c0)"
    using 1(4,5) by (simp_all add: ctrl_def)
qed

lemma rounds_of: "(\<lambda>c c'. run_round S H c = Inr (False, c'))\<^sup>*\<^sup>* c c' \<Longrightarrow> rounds S H [] c c'"
  by (induction rule: rtranclp_induct) (auto intro: rounds_refl rounds_step)

lemma run_loop_ends:
  assumes H: "host_steady H" and j: "joins_by_pc c" and fuel: "rounds_left c < fuel"
  shows "run_loop S H fuel c = run_loop S H (Suc (rounds_left c)) c \<and>
    ((\<exists>c'. run_loop S H fuel c = Inr c' \<and> unexplored_paths c' = []) \<or>
     (\<exists>e c1. run_loop S H fuel c = Inl e \<and> rounds S H [] c c1 \<and> run_round S H c1 = Inl e))"
proof -
  have inv: "host_steady H \<and> joins_by_pc c" using H j by simp
  from exploration.ends [where H = H and S = S, OF inv fuel] obtain c1 where c1: "joins_by_pc c1" "rounds S H [] c c1"
      "(\<exists>c2. run_round S H c1 = Inr (True, c2) \<and> run_loop S H fuel c = Inr (c2\<lparr>cp_ir := eraseDeletedInstructions (cp_ir c2)\<rparr>)) \<or>
       (\<exists>e. run_round S H c1 = Inl e \<and> run_loop S H fuel c = Inl e)"
    using rounds_of by fastforce
  have "unexplored_paths c2 = []" if "run_round S H c1 = Inr (True, c2)" for c2
    using round_progress(3) [OF H c1(1) that] by simp
  then have "(\<exists>c'. run_loop S H fuel c = Inr c' \<and> unexplored_paths c' = []) \<or>
     (\<exists>e c1. run_loop S H fuel c = Inl e \<and> rounds S H [] c c1 \<and> run_round S H c1 = Inl e)"
    using c1(2,3) by auto
  then show ?thesis using exploration.same_result [where H = H and S = S, OF inv fuel] by blast
qed

text \<open>The whole run, from the options that it starts with.\<close>

lemma cpu_run_ends:
  assumes H: "host_steady H" and mode: "get_option MODE (cp_options c) = Inr CFG_RECOVERY"
    and policy: "get_option CFG_JOIN_POLICY (cp_options c) = Inr policy" "policy \<noteq> SPECIALIZE_BY_PATH"
    and start: "cpu_start S H pc c = Inr c0" and fuel: "rounds_left c < fuel"
  shows "cpu_run S H fuel pc c = cpu_run S H (Suc (rounds_left c)) pc c \<and>
    ((\<exists>c'. cpu_run S H fuel pc c = Inr c' \<and> unexplored_paths c' = []) \<or>
     (\<exists>e c1. cpu_run S H fuel pc c = Inl e \<and> rounds S H [] c0 c1 \<and> run_round S H c1 = Inl e))"
proof -
  note s = start_state [OF start]
  have j: "joins_by_pc c0" using s(1,5) mode policy by (auto simp: joins_by_pc_def)
  have left: "rounds_left c0 = rounds_left c" using s(2,3) by (simp add: rounds_left_def lifts_left_def waiting_paths_def)
  have run: "cpu_run S H n pc c = run_loop S H n c0" for n by (simp add: cpu_run_def start)
  show ?thesis using run_loop_ends [OF H j, of fuel S] fuel unfolding run left by blast
qed

text \<open>C2: with \<open>CFG_RECOVERY\<close> and a join policy other than \<open>SPECIALIZE_BY_PATH\<close>, and with callbacks that leave the
  control state alone, the loop of \<open>cpu::run\<close> ends, and the number of its rounds is bounded before it starts: any fuel above twice the
  number of addresses without a lifted block and the number of waiting paths gives the same result. Either the loop ends
  normally and no path is left unexplored, or it ends with the exception of a round that was reached.\<close>

theorem exploration_ends:
  assumes H: "host_steady H" and j: "joins_by_pc c" and fuel: "rounds_left c < fuel"
  shows "run_loop S H fuel c = run_loop S H (Suc (rounds_left c)) c \<and>
    ((\<exists>c'. run_loop S H fuel c = Inr c' \<and> unexplored_paths c' = []) \<or>
     (\<exists>e c1. run_loop S H fuel c = Inl e \<and> rounds S H [] c c1 \<and> run_round S H c1 = Inl e))"
  using run_loop_ends [OF assms] .

text \<open>A state at the end of a path, with another path waiting at its end: two rounds are enough, and no fuel above the bound
  changes the result.\<close>

definition demo_joining :: cpu where
  "demo_joining = demo_forked\<lparr>cp_mode := CFG_RECOVERY, unexplored_paths := [demo_waiting\<lparr>ss_pc := 0\<rparr>]\<rparr>"

lemma demo_joining_ok: "host_steady demo_host" "joins_by_pc demo_joining"
proof -
  show "host_steady demo_host" by (simp add: host_steady_def demo_host_ok) (simp add: demo_host_def)
  have "cp_options demo_forked = default_options"
    by (simp add: demo_forked_def cpu_take_snapshot_def with_memory_def demo_cpu_def split: prod.splits)
  then show "joins_by_pc demo_joining"
    by (simp add: joins_by_pc_def demo_joining_def get_option_def default_options_def mode_defs)
qed

lemma demo_joining_runs: "\<exists>c'. run_loop reference_solver demo_host (Suc (Suc 0)) demo_joining = Inr c'"
proof -
  have "cp_PC demo_joining = 0"
    by (simp add: demo_joining_def demo_forked_def cpu_take_snapshot_def with_memory_def demo_cpu_def split: prod.splits)
  moreover have "unexplored_paths demo_joining = [demo_waiting\<lparr>ss_pc := 0\<rparr>]" by (simp add: demo_joining_def)
  ultimately show ?thesis by (simp add: run_round_def process_instruction_def explore_next_def)
qed

theorem exploration_ends_witness:
  "\<exists>c'. run_loop reference_solver demo_host (Suc (Suc (rounds_left demo_joining))) demo_joining = Inr c' \<and>
     run_loop reference_solver demo_host (Suc (rounds_left demo_joining)) demo_joining = Inr c' \<and> unexplored_paths c' = []"
proof -
  obtain c' where "run_loop reference_solver demo_host (Suc (Suc 0)) demo_joining = Inr c'" using demo_joining_runs by blast
  then have r: "run_loop reference_solver demo_host (Suc (Suc (rounds_left demo_joining))) demo_joining = Inr c'"
    using exploration.fuel_mono by (metis Suc_le_mono le0 sum.distinct(1))
  then show ?thesis
    using exploration_ends [OF demo_joining_ok, of "Suc (Suc (rounds_left demo_joining))" reference_solver] by (auto simp del: run_loop.simps)
qed

end
