(* ===== verification/Ite.thy ===== *)
theory Ite
  imports Value Reference_Solver
begin

text \<open>
  Resolving a choice between two addresses (arch.cpp, \<open>normalize_ite\<close> and \<open>resolve_ite\<close>): an if-then-else below
  the top of a term is pulled up to the top by substitution. The substitution of the term manager is an argument.
\<close>

lemma res_bind_cong [fundef_cong]:
  "m = m' \<Longrightarrow> (\<And>x. m' = Inr x \<Longrightarrow> f x = f' x) \<Longrightarrow> res_bind m f = res_bind m' f'"
  by (cases m') simp_all

section \<open>Normalizing\<close>

type_synonym substitution = "bw_term \<Rightarrow> bw_term \<Rightarrow> bw_term \<Rightarrow> bw_term"

text \<open>What \<open>substitute_term\<close> promises: replacing a term by one of the same sort keeps the sort, and under an assignment that
  gives both the same value also the value.\<close>

definition sound_substitution :: "substitution \<Rightarrow> bool" where
  "sound_substitution sub \<longleftrightarrow>
     (\<forall>t old new s s'. sort_of t = Some s \<longrightarrow> sort_of old = Some s' \<longrightarrow> sort_of new = Some s' \<longrightarrow>
        sort_of (sub t old new) = Some s \<and> (\<forall>env. eval env old = eval env new \<longrightarrow> eval env (sub t old new) = eval env t))"

fun children :: "bw_term \<Rightarrow> bw_term list" where
  "children (BwApp k ts ix) = ts"
| "children _ = []"

definition normalize :: "substitution \<Rightarrow> bw_term \<Rightarrow> bw_term \<Rightarrow> bw_term res" where
  "normalize sub parent_expr expr =
     (case expr of
        BwApp ITE ts ix \<Rightarrow> mk_term ITE [ts ! 0, sub parent_expr expr (ts ! 1), sub parent_expr expr (ts ! 2)] []
      | _ \<Rightarrow> Inr parent_expr)"

lemma normalize_cases: "normalize sub e x = Inr e' \<Longrightarrow> e' = e \<or> length (children e') = 3"
  by (auto simp: normalize_def mk_term_def split: bw_term.splits bw_kind.splits if_splits)

text \<open>The children are those of the current term, which may have become the if-then-else.\<close>

function normalize_from :: "substitution \<Rightarrow> nat \<Rightarrow> bw_term \<Rightarrow> bw_term res" where
  "normalize_from sub i e =
     (if i < length (children e) then res_bind (normalize sub e (children e ! i)) (normalize_from sub (Suc i)) else Inr e)"
  by pat_completeness auto
termination
proof (relation "measure (\<lambda>(sub, i, e). max 3 (length (children e)) - i)")
  fix sub :: substitution and i e e'
  assume "i < length (children e)" "normalize sub e (children e ! i) = Inr e'"
  then show "((sub, Suc i, e'), sub, i, e) \<in> measure (\<lambda>(sub, i, e). max 3 (length (children e)) - i)"
    using normalize_cases by fastforce
qed simp

declare normalize_from.simps [simp del]

definition normalize_ite :: "substitution \<Rightarrow> solver \<Rightarrow> bw_term \<Rightarrow> bw_term res" where
  "normalize_ite sub S e = res_bind (normalize_from sub 0 e) (\<lambda>e'. Inr (slv_simplify S e'))"

definition is_ite :: "vexa_value \<Rightarrow> bool" where
  "is_ite v \<longleftrightarrow> (case v_term v of BwApp ITE ts ix \<Rightarrow> True | _ \<Rightarrow> False)"

record resolved_path =
  true_ip :: u64
  false_ip :: u64

definition resolve_ite :: "substitution \<Rightarrow> solver \<Rightarrow> vexa_value \<Rightarrow> resolved_path res" where
  "resolve_ite sub S v =
     res_bind (normalize_ite sub S (v_term (v_simplify S v))) (\<lambda>v_expr.
     case v_expr of
       BwApp ITE ts ix \<Rightarrow>
         if is_value (ts ! 1) \<and> is_value (ts ! 2) then
           res_bind (term_as_uint64 (ts ! 1)) (\<lambda>t. res_bind (term_as_uint64 (ts ! 2)) (\<lambda>f. Inr \<lparr>true_ip = t, false_ip = f\<rparr>))
         else Inl (Throw ''failed to resolve ite'')
     | _ \<Rightarrow> Inl (Throw ''failed to resolve ite''))"

section \<open>Normalizing keeps the value\<close>

lemma sort_app_children: "sort_of (BwApp k ts ix) = Some s \<Longrightarrow> x \<in> set ts \<Longrightarrow> \<exists>s'. sort_of x = Some s'"
proof -
  assume s: "sort_of (BwApp k ts ix) = Some s" and x: "x \<in> set ts"
  obtain ss where "map sort_of ts = map Some ss" using s by (auto simp: sort_of.simps(4) those_eq_Some split: option.splits)
  then have "sort_of x \<in> Some ` set ss" using x by (metis image_eqI list.set_map)
  then show ?thesis by auto
qed

lemma sort_ite_parts:
  assumes "sort_of (BwApp ITE ts ix) = Some s"
  shows "\<exists>c a b. ts = [c, a, b] \<and> sort_of c = Some BoolSort \<and> sort_of a = Some s \<and> sort_of b = Some s"
  using assms by (auto simp: sort_of.simps(4) app_sort_def kind_defs those_eq_Some map_eq_Cons_conv
      split: option.splits list.splits bw_sort.splits if_splits)

lemma eval_ite: "eval env (BwApp ITE [c, a, b] ix) = (if eval env c \<noteq> 0 then eval env a else eval env b)"
  by (simp add: app_sem_def)

lemma normalize_sound:
  assumes sub: "sound_substitution sub" and e: "sort_of e = Some s" and x: "x \<in> set (children e)" and n: "normalize sub e x = Inr e'"
  shows "sort_of e' = Some s \<and> (\<forall>env. eval env e' = eval env e)"
proof (cases "\<exists>ts ix. x = BwApp ITE ts ix")
  case False
  then show ?thesis using n e by (auto simp: normalize_def split: bw_term.splits bw_kind.splits)
next
  case True
  then obtain ts ix where ite: "x = BwApp ITE ts ix" by blast
  obtain k us jx where app: "e = BwApp k us jx" "x \<in> set us" using x by (cases e) auto
  obtain s' where s': "sort_of x = Some s'" using sort_app_children [of k us jx s x] e app by auto
  then obtain c a b where ts: "ts = [c, a, b]" "sort_of c = Some BoolSort" "sort_of a = Some s'" "sort_of b = Some s'"
    using sort_ite_parts [of ts ix s'] ite by auto
  have e': "e' = BwApp ITE [c, sub e x a, sub e x b] []" using n ite ts by (auto simp: normalize_def mk_term_eq_Inr)
  have a: "sort_of (sub e x a) = Some s" "eval env x = eval env a \<Longrightarrow> eval env (sub e x a) = eval env e" for env
    using sub e s' ts(3) unfolding sound_substitution_def by blast+
  have b: "sort_of (sub e x b) = Some s" "eval env x = eval env b \<Longrightarrow> eval env (sub e x b) = eval env e" for env
    using sub e s' ts(4) unfolding sound_substitution_def by blast+
  have "eval env e' = eval env e" for env
    using a(2) [of env] b(2) [of env] unfolding e' eval_ite ite ts(1) by (simp split: if_splits)
  then show ?thesis using sort_ite [OF ts(2) a(1) b(1)] e' by simp
qed

lemma normalize_from_sound:
  assumes "sound_substitution sub"
    and "sort_of e = Some s" and "normalize_from sub i e = Inr e'"
  shows "sort_of e' = Some s \<and> (\<forall>env. eval env e' = eval env e)"
  using assms
proof (induction sub i e rule: normalize_from.induct)
  case (1 sub i e)
  show ?case
  proof (cases "i < length (children e)")
    case True
    then obtain e1 where e1: "normalize sub e (children e ! i) = Inr e1" "normalize_from sub (Suc i) e1 = Inr e'"
      using "1.prems"(3) by (auto simp: normalize_from.simps [of sub i] elim!: res_bindE)
    have "sort_of e1 = Some s \<and> (\<forall>env. eval env e1 = eval env e)"
      using normalize_sound [OF "1.prems"(1,2) _ e1(1)] True by simp
    then show ?thesis using "1.IH" [OF True e1(1) "1.prems"(1) _ e1(2)] by auto
  qed (use 1 in \<open>simp add: normalize_from.simps [of sub i]\<close>)
qed


fun reference_substitution :: "bw_term \<Rightarrow> bw_term \<Rightarrow> bw_term \<Rightarrow> bw_term" where
  "reference_substitution (BwApp k ts ix) old new =
     (if BwApp k ts ix = old then new else BwApp k (map (\<lambda>t. reference_substitution t old new) ts) ix)"
| "reference_substitution t old new = (if t = old then new else t)"

lemma reference_substitution_sound: "sound_substitution reference_substitution"
proof -
  have "sort_of old = sort_of new \<Longrightarrow> sort_of (reference_substitution t old new) = sort_of t" for t old new
  proof (induction t old new rule: reference_substitution.induct)
    case (1 k ts ix old new)
    then have "map sort_of (map (\<lambda>t. reference_substitution t old new) ts) = map sort_of ts" if "BwApp k ts ix \<noteq> old" using that by auto
    then show ?case using 1 by (auto simp: sort_of.simps(4) simp del: map_map)
  qed auto
  moreover have "eval env old = eval env new \<Longrightarrow> eval env (reference_substitution t old new) = eval env t"
    if "sort_of old = sort_of new" for t old new env
    using that
  proof (induction t old new rule: reference_substitution.induct)
    case (1 k ts ix old new)
    show ?case
    proof (cases "BwApp k ts ix = old")
      case False
      have "map bv_width (map (\<lambda>t. reference_substitution t old new) ts) = map bv_width ts"
        using calculation [OF "1.prems"(2)] by (simp add: bv_width_def)
      moreover have "map (eval env) (map (\<lambda>t. reference_substitution t old new) ts) = map (eval env) ts" using 1 False by auto
      ultimately show ?thesis using False by (simp del: map_map)
    qed (use 1 in auto)
  qed auto
  ultimately show ?thesis unfolding sound_substitution_def by metis
qed

text \<open>The reference solver with a simplification that also folds inside of a term.\<close>

fun fold_term :: "bw_term \<Rightarrow> bw_term" where
  "fold_term (BwApp k ts ix) =
     (let us = map fold_term ts in
      if list_all is_value us then value_under (\<lambda>_. 0) (BwApp k us ix) else BwApp k us ix)"
| "fold_term t = t"

definition folding_solver :: solver where
  "folding_solver = reference_solver\<lparr>slv_simplify := fold_term\<rparr>"

lemma fold_term_sound: "sort_of t = Some s \<Longrightarrow> sort_of (fold_term t) = Some s \<and> (\<forall>env. eval env (fold_term t) = eval env t)"
proof (induction t arbitrary: s rule: fold_term.induct)
  case (1 k ts ix)
  let ?u = "BwApp k (map fold_term ts) ix"
  have each: "sort_of (fold_term x) = sort_of x \<and> (\<forall>env. eval env (fold_term x) = eval env x)" if "x \<in> set ts" for x
    using "1.IH" [OF that] sort_app_children [OF "1.prems" that] by auto
  then have maps: "map sort_of (map fold_term ts) = map sort_of ts" "map bv_width (map fold_term ts) = map bv_width ts"
      "map (eval env) (map fold_term ts) = map (eval env) ts" for env by (auto simp: bv_width_def)
  have u: "sort_of ?u = Some s" "eval env ?u = eval env (BwApp k ts ix)" for env
    using "1.prems" maps by (simp_all add: sort_of.simps(4) del: map_map)
  show ?case
  proof (cases "list_all is_value (map fold_term ts)")
    case True
    have "map (eval env) (map fold_term ts) = map (eval (\<lambda>_. 0)) (map fold_term ts)" for env
      using True eval_is_value by (auto simp: list_all_iff)
    then have "eval (\<lambda>_. 0) ?u = eval env ?u" for env unfolding eval.simps(4) by metis
    then show ?thesis using True u eval_in_sort [OF u(1)] by (simp add: value_under_def eval_value_term sort_value_term Let_def)
  qed (use u in \<open>simp add: Let_def\<close>)
qed simp_all

lemma folding_solver_sound: "sound_solver folding_solver"
  using reference_solver_sound fold_term_sound by (simp add: sound_solver_def folding_solver_def)

text \<open>4096 plus 8 or 16, as \<open>x\<close> is zero or not.\<close>

definition demo_choice :: vexa_value where
  "demo_choice =
     value_new (BwApp BV_ADD [BwApp ITE [BwApp EQUAL [BwConst 0 ''x'' 64, BwBv 64 0] [], BwBv 64 8, BwBv 64 16] [], BwBv 64 4096] [])"

lemma demo_choice_resolved: "resolve_ite reference_substitution folding_solver demo_choice = Inr \<lparr>true_ip = 4104, false_ip = 4112\<rparr>"
  by code_simp


end
