(* ===== verification/Ir_Graph.thy ===== *)
theory Ir_Graph
  imports Ir
begin

text \<open>
  What the passes ask of a function: its instructions by number, the block of an instruction, the operands of an
  instruction, and the edges between the blocks.
\<close>

type_synonym ir_blocks = "ir_node list list"

definition insts_of :: "ir_blocks \<Rightarrow> nat \<rightharpoonup> ir_inst" where
  "insts_of blocks = map_of (concat blocks)"

definition block_of :: "ir_blocks \<Rightarrow> nat \<Rightarrow> block_id option" where
  "block_of blocks i = find (\<lambda>bb. i \<in> fst ` set (blocks ! bb)) [0..<length blocks]"

fun terminator_targets :: "ir_inst \<Rightarrow> block_id list" where
  "terminator_targets (IBr b) = [b]"
| "terminator_targets (ICondBr c a b) = [a, b]"
| "terminator_targets _ = []"

definition successors :: "ir_node list \<Rightarrow> block_id list" where
  "successors nodes = (if nodes = [] then [] else terminator_targets (snd (last nodes)))"

text \<open>\<open>pred_size\<close> counts the edges into a block.\<close>

definition pred_size :: "ir_blocks \<Rightarrow> block_id \<Rightarrow> nat" where
  "pred_size blocks bb = length (filter (\<lambda>s. s = bb) (concat (map successors blocks)))"

fun operands :: "ir_inst \<Rightarrow> llvm_value list" where
  "operands (IBinary op a b) = [a, b]"
| "operands (IICmp p a b) = [a, b]"
| "operands (IZExt s d a) = [a]"
| "operands (ISExt s d a) = [a]"
| "operands (ITrunc s d a) = [a]"
| "operands (ISelect c a b) = [c, a, b]"
| "operands (IFreeze a) = [a]"
| "operands (IExtractElement n w a i) = [a, i]"
| "operands (IGep p off) = [p]"
| "operands (IGepValue p off) = [p, off]"
| "operands (IIntToPtr a) = [a]"
| "operands (IStore a p) = [a, p]"
| "operands (ILoad n p) = [p]"
| "operands (ICall c args) = args"
| "operands (ICondBr c x y) = [c]"
| "operands (IRet a) = [a]"
| "operands (IPhi w incoming) = map fst incoming"
| "operands _ = []"

definition is_store :: "ir_inst \<Rightarrow> bool" where
  "is_store inst \<longleftrightarrow> (case inst of IStore v p \<Rightarrow> True | _ \<Rightarrow> False)"

definition is_load :: "ir_inst \<Rightarrow> bool" where
  "is_load inst \<longleftrightarrow> (case inst of ILoad n p \<Rightarrow> True | _ \<Rightarrow> False)"

fun is_phi :: "ir_inst \<Rightarrow> bool" where
  "is_phi (IPhi w incoming) = True"
| "is_phi inst = False"

text \<open>Other numbers for the blocks that an instruction names.\<close>

fun retarget :: "(block_id \<Rightarrow> block_id) \<Rightarrow> ir_inst \<Rightarrow> ir_inst" where
  "retarget f (IBr bb) = IBr (f bb)"
| "retarget f (ICondBr c x y) = ICondBr c (f x) (f y)"
| "retarget f (IPhi w incoming) = IPhi w (map (\<lambda>e. (fst e, f (snd e))) incoming)"
| "retarget f inst = inst"

definition eraseFromParent :: "nat \<Rightarrow> ir_builder \<Rightarrow> ir_builder" where
  "eraseFromParent i b = b\<lparr>ir_blocks := map (filter (\<lambda>node. fst node \<noteq> i)) (ir_blocks b)\<rparr>"

text \<open>An instruction whose uses become uses of another value and that is then erased.\<close>

definition replace_inst :: "nat \<Rightarrow> llvm_value \<Rightarrow> ir_builder \<Rightarrow> ir_builder" where
  "replace_inst i v b = eraseFromParent i (replaceAllUsesWith (LValue i) v b)"

definition nodes_of :: "ir_builder \<Rightarrow> ir_node set" where
  "nodes_of b = set (concat (ir_blocks b))"

lemma nodes_replace:
  "nodes_of (replace_inst i v b) =
    (\<lambda>(j, inst). (j, map_operands (subst_value (LValue i) v) inst)) ` {n \<in> nodes_of b. fst n \<noteq> i}"
  unfolding nodes_of_def replace_inst_def eraseFromParent_def replaceAllUsesWith_def
  by (auto simp: image_iff split: prod.splits) force+

lemma replace_next [simp]: "ir_next (replace_inst i v b) = ir_next b"
  by (simp add: replace_inst_def eraseFromParent_def replaceAllUsesWith_def)

text \<open>The operands are what \<open>map_operands\<close> changes.\<close>

lemma operands_map: "operands (map_operands f inst) = map f (operands inst)"
  by (cases inst) simp_all

lemma map_operands_comp: "map_operands f (map_operands g inst) = map_operands (\<lambda>v. f (g v)) inst"
  by (cases inst) simp_all

lemma operands_retarget [simp]: "operands (retarget f inst) = operands inst"
  by (cases inst) (simp_all add: comp_def)

lemma map_operands_unchanged: "(\<And>v. v \<in> set (operands inst) \<Longrightarrow> f v = v) \<Longrightarrow> map_operands f inst = inst"
  by (cases inst) (simp_all add: map_idI prod_eq_iff)

lemma map_operands_cong: "(\<And>v. v \<in> set (operands inst) \<Longrightarrow> f v = g v) \<Longrightarrow> map_operands f inst = map_operands g inst"
  by (cases inst) simp_all

end
