(* ===== verification/Ir_Semantics.thy ===== *)
theory Ir_Semantics
  imports Ir_Graph
begin

text \<open>
  What the instructions mean that the passes write: a state has the values of the instructions, the bytes of
  memory, and a trace. Loads, stores, constant address arithmetic and the few operations that take a number apart
  into its bytes are interpreted; any other instruction is a fixed but arbitrary function of its number, its operands, the
  trace and the memory (a phi node takes its value from the branch that is last in the trace), and its operands go to the trace, so that two runs with the same trace make the same
  calls, take the same branches and return the same value.
\<close>

section \<open>States\<close>

type_synonym ir_mem = "u64 \<Rightarrow> byte"

record ir_state =
  st_env :: "nat \<Rightarrow> int"
  st_mem :: ir_mem
  st_trace :: "(nat \<times> int list) list"

type_synonym ir_host = "nat \<Rightarrow> ir_inst \<Rightarrow> int list \<Rightarrow> (nat \<times> int list) list \<Rightarrow> ir_mem \<Rightarrow> int \<times> ir_mem"

definition val_of :: "ir_state \<Rightarrow> llvm_value \<Rightarrow> int" where
  "val_of s v = (case v of LConstantInt w n \<Rightarrow> n | LValue i \<Rightarrow> st_env s i)"

definition addr_of :: "ir_state \<Rightarrow> llvm_value \<Rightarrow> u64" where
  "addr_of s p = word_of_int (val_of s p)"

definition load_bytes :: "ir_mem \<Rightarrow> u64 \<Rightarrow> nat \<Rightarrow> byte list" where
  "load_bytes m a n = map (\<lambda>k. m (a + of_nat k)) [0..<n]"

definition store_bytes :: "u64 \<Rightarrow> byte list \<Rightarrow> ir_mem \<Rightarrow> ir_mem" where
  "store_bytes a bs m = (\<lambda>x. if unat (x - a) < length bs then bs ! unat (x - a) else m x)"

definition byte_size :: "nat \<Rightarrow> nat" where
  "byte_size bits = (bits + 7) div 8"

definition set_value :: "nat \<Rightarrow> int \<Rightarrow> ir_state \<Rightarrow> ir_state" where
  "set_value i x s = s\<lparr>st_env := (st_env s)(i := x)\<rparr>"

text \<open>The instruction without its operands.\<close>

definition shape :: "ir_inst \<Rightarrow> ir_inst" where
  "shape inst = map_operands (\<lambda>v. LConstantInt 0 0) inst"

lemma shape_retarget [simp]: "shape (retarget f inst) = retarget f (shape inst)"
  by (cases inst) (simp_all add: shape_def)

section \<open>Executing a block\<close>

fun ir_exec :: "ir_host \<Rightarrow> (nat \<Rightarrow> nat) \<Rightarrow> (llvm_value \<Rightarrow> nat) \<Rightarrow> ir_node \<Rightarrow> ir_state \<Rightarrow> ir_state" where
  "ir_exec h sizes psize (i, IStore v p) s =
     s\<lparr>st_mem := store_bytes (addr_of s p) (le_bytes (byte_size (psize v)) (val_of s v)) (st_mem s)\<rparr>"
| "ir_exec h sizes psize (i, ILoad bits p) s = set_value i (le_val (load_bytes (st_mem s) (addr_of s p) (byte_size bits))) s"
| "ir_exec h sizes psize (i, IGep p (Some off)) s = set_value i (uint (addr_of s p + off)) s"
| "ir_exec h sizes psize (i, ITrunc from to v) s = set_value i (take_bit to (val_of s v)) s"
| "ir_exec h sizes psize (i, IZExt from to v) s = set_value i (val_of s v) s"
| "ir_exec h sizes psize (i, IBinary LShr a b) s = set_value i (drop_bit (nat (val_of s b)) (val_of s a)) s"
| "ir_exec h sizes psize (i, IBinary Shl a b) s = set_value i (take_bit (sizes i) (push_bit (nat (val_of s b)) (val_of s a))) s"
| "ir_exec h sizes psize (i, IBinary Or a b) s = set_value i (val_of s a OR val_of s b) s"
| "ir_exec h sizes psize (i, inst) s =
     (case h i (shape inst) (map (val_of s) (operands inst)) (st_trace s) (st_mem s) of (x, m) \<Rightarrow>
        set_value i x (s\<lparr>st_mem := m, st_trace := st_trace s @ [(i, map (val_of s) (operands inst))]\<rparr>))"

text \<open>The instructions that wait for their deletion do not count.\<close>

definition exec_node :: "ir_host \<Rightarrow> ir_builder \<Rightarrow> ir_node \<Rightarrow> ir_state \<Rightarrow> ir_state" where
  "exec_node h b node s = (if fst node \<in> set (to_delete b) then s else ir_exec h (ir_sizes b) (primitive_size b) node s)"

definition exec_nodes :: "ir_host \<Rightarrow> ir_builder \<Rightarrow> ir_node list \<Rightarrow> ir_state \<Rightarrow> ir_state" where
  "exec_nodes h b nodes s = fold (exec_node h b) nodes s"

definition exec_path :: "ir_host \<Rightarrow> ir_builder \<Rightarrow> block_id list \<Rightarrow> ir_state \<Rightarrow> ir_state" where
  "exec_path h b path s = fold (\<lambda>bb. exec_nodes h b (ir_blocks b ! bb)) path s"

lemma exec_nodes_simps [simp]:
  "exec_nodes h b [] s = s" "exec_nodes h b (n # ns) s = exec_nodes h b ns (exec_node h b n s)"
  "exec_nodes h b (ns @ ms) s = exec_nodes h b ms (exec_nodes h b ns s)"
  by (simp_all add: exec_nodes_def)

lemma exec_path_concat: "exec_path h b path s = exec_nodes h b (concat (map ((!) (ir_blocks b)) path)) s"
  by (induction path arbitrary: s) (simp_all add: exec_path_def)

text \<open>A function implements another when every path of the one, from any memory and any values, leaves the same memory and
  the same trace in the other; the values of instructions that only the other has may be chosen.\<close>

definition implements :: "ir_builder \<Rightarrow> ir_builder \<Rightarrow> bool" where
  "implements b b' \<longleftrightarrow>
     (\<forall>h path s. set path \<subseteq> {..<length (ir_blocks b)} \<longrightarrow>
        (\<exists>s'. st_mem s' = st_mem s \<and> st_trace s' = st_trace s \<and> (\<forall>j < ir_next b. st_env s' j = st_env s j) \<and>
           st_mem (exec_path h b' path s') = st_mem (exec_path h b path s) \<and>
           st_trace (exec_path h b' path s') = st_trace (exec_path h b path s)))"

lemma implements_refl: "implements b b"
  unfolding implements_def by blast

lemma implements_trans:
  assumes "implements b b1" and "implements b1 b2" and "ir_next b \<le> ir_next b1" and "length (ir_blocks b1) = length (ir_blocks b)"
  shows "implements b b2"
  unfolding implements_def
proof (intro allI impI)
  fix h path s
  assume path: "set path \<subseteq> {..<length (ir_blocks b)}"
  then obtain s1 where s1: "st_mem s1 = st_mem s" "st_trace s1 = st_trace s" "\<forall>j < ir_next b. st_env s1 j = st_env s j"
      "st_mem (exec_path h b1 path s1) = st_mem (exec_path h b path s)" "st_trace (exec_path h b1 path s1) = st_trace (exec_path h b path s)"
    using assms(1) unfolding implements_def by meson
  obtain s2 where s2: "st_mem s2 = st_mem s1" "st_trace s2 = st_trace s1" "\<forall>j < ir_next b1. st_env s2 j = st_env s1 j"
      "st_mem (exec_path h b2 path s2) = st_mem (exec_path h b1 path s1)" "st_trace (exec_path h b2 path s2) = st_trace (exec_path h b1 path s1)"
    using assms(2) path assms(4) unfolding implements_def by (metis (no_types, lifting))
  show "\<exists>s'. st_mem s' = st_mem s \<and> st_trace s' = st_trace s \<and> (\<forall>j < ir_next b. st_env s' j = st_env s j) \<and>
      st_mem (exec_path h b2 path s') = st_mem (exec_path h b path s) \<and> st_trace (exec_path h b2 path s') = st_trace (exec_path h b path s)"
    by (rule exI [of _ s2]) (use s1 s2 assms(3) in auto)
qed

text \<open>Erasing what waits for its deletion changes nothing.\<close>

lemma exec_nodes_erased: "exec_nodes h (eraseDeletedInstructions b) (filter (\<lambda>n. fst n \<notin> set (to_delete b)) ns) s = exec_nodes h b ns s"
proof -
  have "primitive_size (eraseDeletedInstructions b) = primitive_size b"
    by (auto simp: primitive_size_def eraseDeletedInstructions_def fun_eq_iff split: llvm_value.split)
  then have "exec_node h (eraseDeletedInstructions b) n s = ir_exec h (ir_sizes b) (primitive_size b) n s" for n s
    by (simp add: exec_node_def) (simp add: eraseDeletedInstructions_def)
  then show ?thesis by (induction ns arbitrary: s) (auto simp: exec_node_def)
qed

lemma exec_path_erased:
  assumes "set path \<subseteq> {..<length (ir_blocks b)}"
  shows "exec_path h (eraseDeletedInstructions b) path s = exec_path h b path s"
proof -
  have "exec_nodes h (eraseDeletedInstructions b) (ir_blocks (eraseDeletedInstructions b) ! bb) s = exec_nodes h b (ir_blocks b ! bb) s"
    if "bb \<in> set path" for bb s
  proof -
    have "ir_blocks (eraseDeletedInstructions b) ! bb = filter (\<lambda>n. fst n \<notin> set (to_delete b)) (ir_blocks b ! bb)"
      using that assms by (auto simp: eraseDeletedInstructions_def)
    then show ?thesis by (simp add: exec_nodes_erased)
  qed
  then show ?thesis unfolding exec_path_def by (intro fold_cong) auto
qed

section \<open>Related states\<close>

lemma val_of_simps [simp]:
  "val_of (s\<lparr>st_mem := m\<rparr>) = val_of s" "val_of (s\<lparr>st_trace := t\<rparr>) = val_of s"
  by (simp_all add: val_of_def fun_eq_iff split: llvm_value.split)

text \<open>The second state has, under other names, the values of the first.\<close>

definition renamed :: "(llvm_value \<Rightarrow> llvm_value) \<Rightarrow> nat \<Rightarrow> ir_state \<Rightarrow> ir_state \<Rightarrow> bool" where
  "renamed f n s s' \<longleftrightarrow>
     st_mem s' = st_mem s \<and> st_trace s' = st_trace s \<and> (\<forall>j < n. val_of s' (f (LValue j)) = st_env s j)"

definition below :: "nat \<Rightarrow> llvm_value \<Rightarrow> bool" where
  "below n v \<longleftrightarrow> (case v of LConstantInt w c \<Rightarrow> True | LValue j \<Rightarrow> j < n)"

text \<open>A renaming keeps constants, sizes, and the values it does not rename apart from the instruction.\<close>

definition renaming :: "(llvm_value \<Rightarrow> llvm_value) \<Rightarrow> bool" where
  "renaming f \<longleftrightarrow> (\<forall>w n. f (LConstantInt w n) = LConstantInt w n)"

lemma renamed_val: "renamed f n s s' \<Longrightarrow> renaming f \<Longrightarrow> below n v \<Longrightarrow> val_of s' (f v) = val_of s v"
  by (cases v) (auto simp: renamed_def renaming_def below_def val_of_def)

lemma shape_map_operands [simp]: "shape (map_operands f inst) = shape inst"
  by (cases inst) (simp_all add: shape_def)

text \<open>An instruction that only has its operands renamed.\<close>

definition writes_apart :: "(llvm_value \<Rightarrow> llvm_value) \<Rightarrow> nat \<Rightarrow> nat \<Rightarrow> bool" where
  "writes_apart f n i \<longleftrightarrow> f (LValue i) = LValue i \<and> (\<forall>j < n. j \<noteq> i \<longrightarrow> f (LValue j) \<noteq> LValue i)"

lemma set_value_renamed:
  assumes "renamed f n s s'" and "writes_apart f n i"
  shows "renamed f n (set_value i x s) (set_value i x s')"
proof -
  have "val_of (set_value i x s') (f (LValue j)) = (if j = i then x else val_of s' (f (LValue j)))" if "j < n" for j
    using assms(2) that by (cases "f (LValue j)") (auto simp: val_of_def set_value_def writes_apart_def)
  then show ?thesis using assms(1) by (auto simp: renamed_def set_value_def)
qed

lemma renamed_mem: "renamed f n s s' \<Longrightarrow> renamed f n (s\<lparr>st_mem := m, st_trace := t\<rparr>) (s'\<lparr>st_mem := m, st_trace := t\<rparr>)"
  by (simp add: renamed_def)

lemma ir_exec_renamed:
  assumes ren: "renamed f n s s'" "renaming f" and ops: "\<forall>v \<in> set (operands inst). below n v" and apart: "writes_apart f n i"
    and sizes: "sizes' i = sizes i" "\<forall>v \<in> set (operands inst). psize' (f v) = psize v"
  shows "renamed f n (ir_exec h sizes psize (i, inst) s) (ir_exec h sizes' psize' (i, map_operands f inst) s')"
proof -
  have v: "val_of s' (f v) = val_of s v" if "v \<in> set (operands inst)" for v using renamed_val ren ops that by blast
  have a: "addr_of s' (f v) = addr_of s v" if "v \<in> set (operands inst)" for v using v [OF that] by (simp add: addr_of_def)
  have m: "st_mem s' = st_mem s" "st_trace s' = st_trace s" using ren(1) by (simp_all add: renamed_def)
  have vals: "map (val_of s') (operands (map_operands f inst)) = map (val_of s) (operands inst)" using v by (simp add: operands_map)
  note set = set_value_renamed [OF _ apart]
  have store: "renamed f n (s\<lparr>st_mem := x\<rparr>) (s'\<lparr>st_mem := x\<rparr>)" for x using ren(1) by (simp add: renamed_def)
  have other: "renamed f n
      (case h i (shape inst) (map (val_of s) (operands inst)) (st_trace s) (st_mem s) of (x, m) \<Rightarrow>
        set_value i x (s\<lparr>st_mem := m, st_trace := st_trace s @ [(i, map (val_of s) (operands inst))]\<rparr>))
      (case h i (shape (map_operands f inst)) (map (val_of s') (operands (map_operands f inst))) (st_trace s') (st_mem s') of (x, m) \<Rightarrow>
        set_value i x (s'\<lparr>st_mem := m, st_trace := st_trace s' @ [(i, map (val_of s') (operands (map_operands f inst)))]\<rparr>))"
    unfolding vals shape_map_operands m by (auto split: prod.split intro!: set renamed_mem ren(1))
  show ?thesis
  proof (cases inst)
    case (IBinary op x y)
    then show ?thesis using other v set [OF ren(1)] sizes(1) by (cases op) simp_all
  next
    case (IGep p off)
    then show ?thesis using other a set [OF ren(1)] by (cases off) simp_all
  qed (use other v a m set [OF ren(1)] store sizes in simp_all)
qed

end
