(* ===== verification/Remill.thy ===== *)
theory Remill
  imports Cpu Ir_Semantics "HOL-Library.AList"
begin

text \<open>
  The registers of remill as a pass sees them, and the start of \<open>vexa::cpu\<close> (arch.cpp): \<open>initialize_arch\<close>, which gives
  every register of the state a symbol, and \<open>replace_remill_intrinsics\<close>, which removes calls from the semantics of
  the instructions. What remill makes (the registers, the empty lifted function, the semantics) is an argument.
\<close>

section \<open>Registers of remill\<close>

text \<open>The registers in the order of \<open>ForEachRegister\<close>; a register that is a part of another one points to it.\<close>

datatype remill_register = Remill_register
  (rr_name: string) (rr_offset: u64) (rr_size: nat) (rr_parent: "remill_register option")

fun root_of :: "remill_register \<Rightarrow> remill_register" where
  "root_of (Remill_register n off sz None) = Remill_register n off sz None"
| "root_of (Remill_register n off sz (Some p)) = root_of p"

lemma root_of_parent [simp]: "rr_parent (root_of r) = None"
  by (induction r rule: root_of.induct) simp_all

definition register_of :: "remill_register \<Rightarrow> register" where
  "register_of r = \<lparr>reg_name = rr_name r, reg_offset = rr_offset r, reg_size = rr_size r, reg_has_parent = (rr_parent r \<noteq> None)\<rparr>"

section \<open>Intrinsics without a meaning\<close>

text \<open>The table of intrinsics; a function that the module does not have is null.\<close>

record intrinsic_table =
  compare_eq :: "string option"
  compare_neq :: "string option"
  compare_sgt :: "string option"
  compare_sle :: "string option"
  flag_computation_carry :: "string option"
  flag_computation_zero :: "string option"
  flag_computation_sign :: "string option"
  flag_computation_overflow :: "string option"
  undefined_64 :: "string option"
  undefined_32 :: "string option"
  undefined_16 :: "string option"
  undefined_8 :: "string option"

fun calls :: "string \<Rightarrow> ir_inst \<Rightarrow> bool" where
  "calls f (ICall (Unknown_callee g) args) = (g = f)"
| "calls f inst = False"

definition calls_of :: "string \<Rightarrow> ir_builder \<Rightarrow> nat list" where
  "calls_of f b = map fst (filter (\<lambda>node. calls f (snd node)) (concat (ir_blocks b)))"

definition replace_first_arg_at :: "nat \<Rightarrow> ir_builder \<Rightarrow> ir_builder res" where
  "replace_first_arg_at i b =
     (case insts_of (ir_blocks b) i of
        Some (ICall f (first_arg # args)) \<Rightarrow> Inr (replace_inst i first_arg b)
      | _ \<Rightarrow> Inl Undefined_behaviour)"

definition replace_with_first_arg :: "string option \<Rightarrow> ir_builder \<Rightarrow> ir_builder res" where
  "replace_with_first_arg f b =
     (case f of None \<Rightarrow> Inr b | Some name \<Rightarrow> res_fold replace_first_arg_at (calls_of name b) b)"

text \<open>All undefined values of a width are one LLVM value; every call gives it a new symbol.\<close>

definition replace_with_undefined ::
  "(nat \<Rightarrow> llvm_value) \<Rightarrow> nat \<Rightarrow> string option \<Rightarrow> ir_builder \<times> symex \<Rightarrow> (ir_builder \<times> symex) res" where
  "replace_with_undefined undef width f st =
     (case f of None \<Rightarrow> Inr st
      | Some name \<Rightarrow>
          res_fold (\<lambda>i (b, sx).
              res_bind (sx_symbolic (''undefined_'' @ show_nat width) width sx) (\<lambda>(v, sx1).
              Inr (replace_inst i (undef width) b, sx_set (undef width) v sx1)))
            (calls_of name (fst st)) st)"

definition extra_compares :: "string list" where
  "extra_compares =
     [''__remill_compare_slt'', ''__remill_compare_sge'', ''__remill_compare_ugt'', ''__remill_compare_uge'',
      ''__remill_compare_ult'', ''__remill_compare_ule'']"

definition replace_remill_intrinsics ::
  "intrinsic_table \<Rightarrow> (nat \<Rightarrow> llvm_value) \<Rightarrow> ir_builder \<times> symex \<Rightarrow> (ir_builder \<times> symex) res" where
  "replace_remill_intrinsics T undef st =
     res_bind (res_fold replace_with_first_arg
       ([compare_eq T, compare_neq T, compare_sgt T, compare_sle T] @ map Some extra_compares @
        [flag_computation_carry T, flag_computation_zero T, flag_computation_sign T, flag_computation_overflow T]) (fst st)) (\<lambda>b.
     res_fold (\<lambda>(width, f). replace_with_undefined undef width f)
       [(64, undefined_64 T), (32, undefined_32 T), (16, undefined_16 T), (8, undefined_8 T)] (b, snd st))"

section \<open>The start of the cpu\<close>

record arch_env =
  ae_registers :: "remill_register list"
  ae_loaded :: bool
  ae_lifted :: ir_builder
  ae_state_arg :: llvm_value
  ae_pc_arg :: llvm_value
  ae_mem_arg :: llvm_value
  ae_address_of :: "remill_register \<Rightarrow> llvm_value \<Rightarrow> ir_builder \<Rightarrow> ir_builder"
  ae_intrinsics :: intrinsic_table
  ae_semantics :: ir_builder
  ae_undef :: "nat \<Rightarrow> llvm_value"

text \<open>The members before \<open>initialize_arch\<close>. \<open>cpu::run\<close> sets the dual values that are still empty here.\<close>

definition no_value :: dual_value where
  "no_value = \<lparr>d_l = LConstantInt 0 0, d_v = value_new (BwBv 1 0)\<rparr>"

definition cpu_new :: "arch_env \<Rightarrow> options \<Rightarrow> cpu" where
  "cpu_new A os =
     \<lparr>cp_machine = \<lparr>mc_symex = symex_init, mc_memory = memory_init\<rparr>, cp_ir = ae_lifted A, cp_options = os, cp_registers = [],
      path_constraints = [], unexplored_paths = [], cp_PC = 0, cp_VPC = 0, cp_VJMP = False, cp_PATH = Map.empty,
      cp_CFG = Map.empty, cp_VCFG = Map.empty, lifted_count = 0, cp_block = 0, cp_mode = 0, stack_ptr = no_value,
      mem_ptr = no_value, state_ptr = no_value, next_pc = d_l no_value, branch_taken = d_l no_value, global_memory = 0,
      forked_block = None\<rparr>"

definition add_register :: "remill_register \<Rightarrow> (reg \<times> register) list \<Rightarrow> (reg \<times> register) list res" where
  "add_register r regs = res_bind (str2reg (rr_name r)) (\<lambda>n. Inr (AList.update n (register_of r) regs))"

text \<open>The table is a \<open>std::map\<close>, in the order of the numbers.\<close>

definition init_table :: "remill_register list \<Rightarrow> (reg \<times> register) list res" where
  "init_table rs = res_bind (res_fold add_register rs []) (\<lambda>regs. Inr (sort_key fst regs))"

definition init_args :: "arch_env \<Rightarrow> cpu \<Rightarrow> cpu res" where
  "init_args A c =
     (case mem_allocate (cp_memory c) of (state_page, m) \<Rightarrow>
      let c1 = with_memory m c in
      res_bind (sx_pointer_at 0 state_page) (\<lambda>state_v.
      res_bind (sx_concrete 0 64) (\<lambda>pc_v.
      res_bind (sx_pointer_at 0 (global_memory c1)) (\<lambda>mem_v.
      Inr ((cp_set (ae_mem_arg A) mem_v (cp_set (ae_pc_arg A) pc_v (cp_set (ae_state_arg A) state_v c1)))
             \<lparr>state_ptr := \<lparr>d_l = ae_state_arg A, d_v = state_v\<rparr>, mem_ptr := \<lparr>d_l = ae_mem_arg A, d_v = mem_v\<rparr>\<rparr>)))))"

definition init_register :: "solver \<Rightarrow> arch_env \<Rightarrow> remill_register \<Rightarrow> cpu \<Rightarrow> cpu res" where
  "init_register S A r c =
     (let c1 = c\<lparr>cp_ir := ae_address_of A r (d_l (state_ptr c)) (cp_ir c)\<rparr> in
      if rr_parent r = None then
        (case v_page (d_v (state_ptr c1)) of None \<Rightarrow> Inl Null_dereference
         | Some page \<Rightarrow>
             res_bind (sx_pointer_at (rr_offset r) page) (\<lambda>ptr.
             res_bind (sx_symbolic (rr_name r) (rr_size r * 8) (cp_symex c1)) (\<lambda>(v, sx).
             cp_write S ptr v (c1\<lparr>cp_machine := (cp_machine c1)\<lparr>mc_symex := sx\<rparr>\<rparr>))))
      else Inr c1)"

definition initialize_arch :: "solver \<Rightarrow> arch_env \<Rightarrow> cpu \<Rightarrow> (ir_builder \<times> cpu) res" where
  "initialize_arch S A c =
     res_bind (init_table (ae_registers A)) (\<lambda>regs.
     res_bind (vexa_assert ''module'' (ae_loaded A)) (\<lambda>_.
     case mem_allocate (cp_memory c) of (page, m) \<Rightarrow>
     res_bind (init_args A (with_memory m (c\<lparr>cp_registers := regs, global_memory := page, cp_ir := ae_lifted A\<rparr>))) (\<lambda>c1.
     res_bind (res_fold (init_register S A) (ae_registers A) c1) (\<lambda>c2.
     let c3 = at_end_of 0 c2 in
     res_bind (replace_remill_intrinsics (ae_intrinsics A) (ae_undef A) (ae_semantics A, cp_symex c3)) (\<lambda>(semantics, sx).
     Inr (semantics, c3\<lparr>cp_machine := (cp_machine c3)\<lparr>mc_symex := sx\<rparr>\<rparr>))))))"

section \<open>Access to the stack\<close>

definition stack_access :: "u64 \<Rightarrow> cpu \<Rightarrow> vexa_value res" where
  "stack_access offset c =
     res_bind (as_uint64 (d_v (stack_ptr c))) (\<lambda>sp.
     case v_page (d_v (stack_ptr c)) of None \<Rightarrow> Inl Null_dereference
     | Some page \<Rightarrow> sx_pointer_at (sp + offset) page)"

section \<open>The calls are removed\<close>

lemma calls_map_operands [simp]: "calls f (map_operands g inst) = calls f inst"
  by (cases "(f, inst)" rule: calls.cases) simp_all

lemma calls_iff: "calls f inst \<longleftrightarrow> (\<exists>args. inst = ICall (Unknown_callee f) args)"
  by (cases "(f, inst)" rule: calls.cases) auto

text \<open>The numbers of a function are distinct, and every call of some functions has an argument.\<close>

definition callable :: "string set \<Rightarrow> ir_builder \<Rightarrow> bool" where
  "callable F b \<longleftrightarrow> distinct (map fst (concat (ir_blocks b))) \<and>
     (\<forall>f \<in> F. \<forall>i. (i, ICall (Unknown_callee f) []) \<notin> nodes_of b)"

text \<open>A function without the operands of its instructions.\<close>

definition outline :: "ir_builder \<Rightarrow> ir_node list list" where
  "outline b = map (map (\<lambda>(i, inst). (i, shape inst))) (ir_blocks b)"

lemma calls_shape [simp]: "calls f (shape inst) = calls f inst"
  by (simp add: shape_def)

lemma outline_replace: "outline (replace_inst i v b) = map (filter (\<lambda>n. fst n \<noteq> i)) (outline b)"
  by (simp add: outline_def replace_inst_def eraseFromParent_def replaceAllUsesWith_def filter_map comp_def case_prod_beta)

lemma outline_ids: "map fst (concat (outline b)) = map fst (concat (ir_blocks b))"
  by (simp add: outline_def map_concat comp_def case_prod_beta)

lemma filter_none [simp]: "map (filter (\<lambda>n. True)) xss = xss"
  by (induction xss) simp_all

lemma filter_concat_map: "concat (map (filter P) xss) = filter P (concat xss)"
  by (simp add: filter_concat)

lemma distinct_replace: "distinct (map fst (concat (ir_blocks b))) \<Longrightarrow> distinct (map fst (concat (ir_blocks (replace_inst i v b))))"
  by (simp add: outline_replace filter_concat_map distinct_map_filter flip: outline_ids)

lemma callable_replace: "callable F b \<Longrightarrow> callable F (replace_inst i v b)"
proof -
  assume "callable F b"
  then have "distinct (map fst (concat (ir_blocks (replace_inst i v b))))" using distinct_replace by (simp add: callable_def)
  moreover have "(j, ICall (Unknown_callee f) []) \<notin> nodes_of (replace_inst i v b)" if "f \<in> F" for f j
  proof
    assume "(j, ICall (Unknown_callee f) []) \<in> nodes_of (replace_inst i v b)"
    then obtain inst where inst: "(j, inst) \<in> nodes_of b" "map_operands (subst_value (LValue i) v) inst = ICall (Unknown_callee f) []"
      by (auto simp: nodes_replace)
    then have "inst = ICall (Unknown_callee f) []" by (cases inst) auto
    with inst(1) that \<open>callable F b\<close> show False by (auto simp: callable_def)
  qed
  ultimately show ?thesis by (simp add: callable_def)
qed

lemma insts_of_distinct:
  "distinct (map fst (concat (ir_blocks b))) \<Longrightarrow> insts_of (ir_blocks b) i = Some inst \<longleftrightarrow> (i, inst) \<in> nodes_of b"
  by (simp add: insts_of_def nodes_of_def)

text \<open>Removing the calls whose numbers are in a list.\<close>

definition calls_at :: "string \<Rightarrow> nat list \<Rightarrow> ir_builder \<Rightarrow> bool" where
  "calls_at f is b \<longleftrightarrow> distinct is \<and> (\<forall>i \<in> set is. \<exists>inst. (i, inst) \<in> nodes_of b \<and> calls f inst)"

lemma calls_at_replace: "calls_at f (i # is) b \<Longrightarrow> calls_at f is (replace_inst i v b)"
proof -
  assume c: "calls_at f (i # is) b"
  have "\<exists>inst. (j, inst) \<in> nodes_of (replace_inst i v b) \<and> calls f inst" if j: "j \<in> set is" for j
  proof -
    obtain inst where "(j, inst) \<in> nodes_of b" "calls f inst" "j \<noteq> i" using c j by (auto simp: calls_at_def)
    then have "(j, map_operands (subst_value (LValue i) v) inst) \<in> nodes_of (replace_inst i v b)" by (force simp: nodes_replace)
    then show ?thesis using \<open>calls f inst\<close> by (metis calls_map_operands)
  qed
  then show ?thesis using c by (simp add: calls_at_def)
qed

lemma replace_first_args:
  "callable F b \<Longrightarrow> f \<in> F \<Longrightarrow> calls_at f is b \<Longrightarrow>
    \<exists>b'. res_fold replace_first_arg_at is b = Inr b' \<and> outline b' = map (filter (\<lambda>n. fst n \<notin> set is)) (outline b) \<and> callable F b'"
proof (induction "is" arbitrary: b)
  case (Cons i "is")
  obtain args where node: "(i, ICall (Unknown_callee f) args) \<in> nodes_of b"
    using Cons.prems(3) by (auto simp: calls_at_def calls_iff)
  then obtain a rest where "args = a # rest" using Cons.prems(1,2) by (cases args) (auto simp: callable_def)
  then have "insts_of (ir_blocks b) i = Some (ICall (Unknown_callee f) (a # rest))"
    using node insts_of_distinct Cons.prems(1) by (simp add: callable_def)
  then have "replace_first_arg_at i b = Inr (replace_inst i a b)" by (simp add: replace_first_arg_at_def)
  moreover from Cons.IH [OF callable_replace [OF Cons.prems(1)] Cons.prems(2) calls_at_replace [OF Cons.prems(3)], of a]
  obtain b' where "res_fold replace_first_arg_at is (replace_inst i a b) = Inr b'" "callable F b'"
      "outline b' = map (filter (\<lambda>n. fst n \<notin> set is)) (outline (replace_inst i a b))" by blast
  ultimately show ?case by (auto simp: outline_replace comp_def intro!: filter_cong)
qed simp

lemma replace_undefineds:
  "callable F b \<Longrightarrow> calls_at f is b \<Longrightarrow> 0 < width \<Longrightarrow>
    \<exists>b' sx'. res_fold (\<lambda>i (b, sx). res_bind (sx_symbolic name width sx) (\<lambda>(v, sx1).
        Inr (replace_inst i u b, sx_set u v sx1))) is (b, sx) = Inr (b', sx') \<and>
      outline b' = map (filter (\<lambda>n. fst n \<notin> set is)) (outline b) \<and> callable F b'"
proof (induction "is" arbitrary: b sx)
  case (Cons i "is")
  from Cons.IH [OF callable_replace [OF Cons.prems(1)] calls_at_replace [OF Cons.prems(2)] Cons.prems(3), of u]
  show ?case using Cons.prems(3) by (fastforce simp: sx_symbolic_eq outline_replace comp_def intro!: filter_cong)
qed simp

lemma calls_of_at: "distinct (map fst (concat (ir_blocks b))) \<Longrightarrow> calls_at f (calls_of f b) b"
  by (force simp: calls_at_def calls_of_def nodes_of_def distinct_map_filter)

lemma filter_calls_of:
  assumes "distinct (map fst (concat (ir_blocks b)))"
  shows "map (filter (\<lambda>n. fst n \<notin> set (calls_of f b))) (outline b) = map (filter (\<lambda>n. \<not> calls f (snd n))) (outline b)"
proof -
  have "fst n \<in> set (calls_of f b) \<longleftrightarrow> calls f (snd n)" if mem: "n \<in> set ns" "ns \<in> set (outline b)" for n ns
  proof -
    obtain i inst where n: "n = (i, shape inst)" "(i, inst) \<in> set (concat (ir_blocks b))" using mem unfolding outline_def by fastforce
    then have "i \<in> set (calls_of f b) \<longleftrightarrow> calls f inst"
      using assms eq_key_imp_eq_value [OF assms] by (fastforce simp: calls_of_def image_iff)
    then show ?thesis using n by simp
  qed
  then show ?thesis by (auto intro!: map_cong filter_cong)
qed

definition removed :: "string option list \<Rightarrow> ir_node \<Rightarrow> bool" where
  "removed fs n \<longleftrightarrow> (\<exists>f. Some f \<in> set fs \<and> calls f (snd n))"

lemma remove_first_args:
  "callable F b \<Longrightarrow> \<forall>f. Some f \<in> set fs \<longrightarrow> f \<in> F \<Longrightarrow>
    \<exists>b'. res_fold replace_with_first_arg fs b = Inr b' \<and> outline b' = map (filter (\<lambda>n. \<not> removed fs n)) (outline b) \<and> callable F b'"
proof (induction fs arbitrary: b)
  case Nil
  then show ?case by (simp add: removed_def)
next
  case (Cons f fs)
  show ?case
  proof (cases f)
    case None
    with Cons show ?thesis by (auto simp: replace_with_first_arg_def removed_def)
  next
    case (Some g)
    have d: "distinct (map fst (concat (ir_blocks b)))" using Cons.prems(1) by (simp add: callable_def)
    from replace_first_args [OF Cons.prems(1) _ calls_of_at [OF d], of g] Cons.prems(2) Some
    obtain b1 where b1: "replace_with_first_arg f b = Inr b1" "outline b1 = map (filter (\<lambda>n. \<not> calls g (snd n))) (outline b)" "callable F b1"
      by (auto simp: replace_with_first_arg_def filter_calls_of [OF d])
    from Cons.IH [OF b1(3)] Cons.prems(2) obtain b' where "res_fold replace_with_first_arg fs b1 = Inr b'"
        "outline b' = map (filter (\<lambda>n. \<not> removed fs n)) (outline b1)" "callable F b'" by auto
    then show ?thesis using b1 Some by (auto simp: removed_def comp_def intro!: filter_cong)
  qed
qed

lemma remove_undefineds:
  "callable F b \<Longrightarrow> \<forall>(width, f) \<in> set ws. 0 < width \<Longrightarrow>
    \<exists>b' sx'. res_fold (\<lambda>(width, f). replace_with_undefined undef width f) ws (b, sx) = Inr (b', sx') \<and>
      outline b' = map (filter (\<lambda>n. \<not> removed (map snd ws) n)) (outline b)"
proof (induction ws arbitrary: b sx)
  case Nil
  then show ?case by (simp add: removed_def)
next
  case (Cons w ws)
  obtain width f where w: "w = (width, f)" by fastforce
  show ?case
  proof (cases f)
    case None
    with Cons w show ?thesis by (auto simp: replace_with_undefined_def removed_def)
  next
    case (Some g)
    have d: "distinct (map fst (concat (ir_blocks b)))" using Cons.prems(1) by (simp add: callable_def)
    have width: "0 < width" using Cons.prems(2) w by simp
    from replace_undefineds [OF Cons.prems(1) calls_of_at [OF d, of g] width,
        where name = "''undefined_'' @ show_nat width" and u = "undef width" and sx = sx] Some
    obtain b1 sx1 where b1: "replace_with_undefined undef width f (b, sx) = Inr (b1, sx1)"
        "outline b1 = map (filter (\<lambda>n. \<not> calls g (snd n))) (outline b)" "callable F b1"
      by (auto simp: replace_with_undefined_def filter_calls_of [OF d])
    from Cons.IH [OF b1(3), of sx1] Cons.prems(2) obtain b' sx' where
        "res_fold (\<lambda>(width, f). replace_with_undefined undef width f) ws (b1, sx1) = Inr (b', sx')"
        "outline b' = map (filter (\<lambda>n. \<not> removed (map snd ws) n)) (outline b1)" by auto
    then show ?thesis using b1 Some w by (auto simp: removed_def comp_def intro!: filter_cong)
  qed
qed

definition identity_intrinsics :: "intrinsic_table \<Rightarrow> string option list" where
  "identity_intrinsics T =
     [compare_eq T, compare_neq T, compare_sgt T, compare_sle T] @ map Some extra_compares @
     [flag_computation_carry T, flag_computation_zero T, flag_computation_sign T, flag_computation_overflow T]"

definition undefined_intrinsics :: "intrinsic_table \<Rightarrow> string option list" where
  "undefined_intrinsics T = [undefined_64 T, undefined_32 T, undefined_16 T, undefined_8 T]"


definition demo_table :: intrinsic_table where
  "demo_table =
     \<lparr>compare_eq = Some ''__remill_compare_eq'', compare_neq = None, compare_sgt = None, compare_sle = None,
      flag_computation_carry = None, flag_computation_zero = None, flag_computation_sign = None, flag_computation_overflow = None,
      undefined_64 = None, undefined_32 = None, undefined_16 = None, undefined_8 = Some ''__remill_undefined_8''\<rparr>"

definition demo_semantics :: ir_builder where
  "demo_semantics =
     \<lparr>ir_next = 20, ir_sizes = (\<lambda>_. 8), ir_names = (\<lambda>_. None),
      ir_blocks = [[(10, ICall (Unknown_callee ''__remill_compare_eq'') [LValue 9]), (11, ICall (Unknown_callee ''__remill_undefined_8'') []),
        (12, IBinary Xor (LValue 10) (LValue 11)), (13, IRet (LValue 12))]],
      ir_ip = (0, None), insert_points = [], to_delete = []\<rparr>"


end
