(* ===== verification/Binary.thy ===== *)
theory Binary
  imports Vexa_Prelude
begin

text \<open>
  \<open>vexa::binary\<close> (binary.hpp, binary.cpp): a file with what LIEF made of it. The records of this theory
  hold what the code asks LIEF for; the parser itself and LIEF's writer are arguments.
\<close>

section \<open>What LIEF shows of a file\<close>

record elf_segment =
  seg_virtual_size :: u64
  seg_virtual_address :: u64
  seg_content :: "byte list"

text \<open>A section with the index that \<open>get_section_idx\<close> gives, whether it is \<open>NOBITS\<close>, and whether it
  has the flag \<open>ALLOC\<close>.\<close>

record elf_section =
  sec_name :: string
  sec_idx :: "nat option"
  sec_alignment :: u64
  sec_nobits :: bool
  sec_alloc :: bool
  sec_size :: u64
  sec_content :: "byte list"

record elf_symbol =
  sym_name :: string
  sym_section_idx :: nat
  sym_value :: u64

datatype reloc_type = X86_64_PC32 | X86_64_PLT32 | X86_64_64 | X86_64_32 | X86_64_32S | Other_reloc nat

record elf_reloc =
  rel_symbol :: "elf_symbol option"
  rel_section :: "elf_section option"
  rel_address :: u64
  rel_addend :: u64
  rel_type :: reloc_type

record elf_file =
  elf_is_object :: bool
  elf_is_pie :: bool
  elf_imagebase :: u64
  elf_segments :: "elf_segment list"
  elf_sections :: "elf_section list"
  elf_symbols :: "elf_symbol list"
  elf_relocations :: "elf_reloc list"

record pe_section =
  pes_virtual_address :: u64
  pes_content :: "byte list"

record pe_file =
  pe_is_object :: bool
  pe_imagebase :: u64
  pe_sections :: "pe_section list"

datatype lief_binary = Lief_ELF elf_file | Lief_PE pe_file | Lief_other bool

fun lief_is_object :: "lief_binary \<Rightarrow> bool" where
  "lief_is_object (Lief_ELF e) = elf_is_object e"
| "lief_is_object (Lief_PE p) = pe_is_object p"
| "lief_is_object (Lief_other b) = b"

record lief =
  lf_parse_file :: "string \<Rightarrow> lief_binary option"
  lf_parse_bytes :: "byte list \<Rightarrow> lief_binary option"
  lf_write :: "lief_binary \<Rightarrow> byte list"

section \<open>Files\<close>

text \<open>The file system: the contents of the files, the files that can be opened and read, and the ones
  that are executable.\<close>

record file_system =
  fs_files :: "string \<rightharpoonup> byte list"
  fs_can_open :: "string \<Rightarrow> bool"
  fs_can_read :: "string \<Rightarrow> bool"
  fs_executable :: "string \<Rightarrow> bool"

definition quoted :: "string \<Rightarrow> string \<Rightarrow> string" where
  "quoted msg name = ''Couldn'' @ [CHR 0x27] @ ''t '' @ msg @ '' '' @ name"

definition read_binary_file :: "file_system \<Rightarrow> string \<Rightarrow> byte list res" where
  "read_binary_file fs name =
     (if \<not> fs_can_open fs name then Inl (Throw (quoted ''open'' name))
      else
        (case fs_files fs name of
           Some bytes \<Rightarrow> if fs_can_read fs name then Inr bytes else Inl (Throw (quoted ''read'' name))
         | None \<Rightarrow> Inl (Throw (quoted ''open'' name))))"

section \<open>Binaries\<close>

record vexa_binary =
  bin_lief :: "lief_binary option"
  bin_filename :: string
  bin_data :: "byte list"

definition binary_of_file :: "lief \<Rightarrow> file_system \<Rightarrow> string \<Rightarrow> vexa_binary res" where
  "binary_of_file L fs name =
     (if fs_files fs name = None then Inl (Throw (''No file named '' @ name))
      else
        res_bind (read_binary_file fs name) (\<lambda>bytes.
        if bytes = [] then Inl (Throw (''Binary is empty: '' @ name))
        else Inr \<lparr>bin_lief = lf_parse_file L name, bin_filename = name, bin_data = bytes\<rparr>))"

definition binary_of_bytes :: "lief \<Rightarrow> byte list \<Rightarrow> vexa_binary" where
  "binary_of_bytes L bytes = \<lparr>bin_lief = lf_parse_bytes L bytes, bin_filename = [], bin_data = bytes\<rparr>"

definition is_elf :: "vexa_binary \<Rightarrow> bool" where
  "is_elf b \<longleftrightarrow> (case bin_lief b of Some (Lief_ELF e) \<Rightarrow> True | _ \<Rightarrow> False)"

definition is_pe :: "vexa_binary \<Rightarrow> bool" where
  "is_pe b \<longleftrightarrow> (case bin_lief b of Some (Lief_PE p) \<Rightarrow> True | _ \<Rightarrow> False)"

definition is_raw :: "vexa_binary \<Rightarrow> bool" where
  "is_raw b \<longleftrightarrow> bin_lief b = None \<or> \<not> is_elf b \<and> \<not> is_pe b"

definition as_elf :: "vexa_binary \<Rightarrow> elf_file res" where
  "as_elf b = (case bin_lief b of Some (Lief_ELF e) \<Rightarrow> Inr e | _ \<Rightarrow> Inl (Throw ''Binary is not an ELF''))"

definition as_pe :: "vexa_binary \<Rightarrow> pe_file res" where
  "as_pe b = (case bin_lief b of Some (Lief_PE p) \<Rightarrow> Inr p | _ \<Rightarrow> Inl (Throw ''Binary is not a PE''))"

definition lief_of :: "vexa_binary \<Rightarrow> lief_binary res" where
  "lief_of b =
     (case bin_lief b of Some l \<Rightarrow> Inr l
      | None \<Rightarrow> Inl (Throw ''This is a raw binary, not LIEF::Binary, use raw_data()''))"

text \<open>\<open>binary::write\<close> changes the file system before it can fail, so that the new file system is a
  result beside the exception.\<close>

definition binary_write :: "lief \<Rightarrow> vexa_binary \<Rightarrow> string \<Rightarrow> file_system \<Rightarrow> file_system \<times> unit res" where
  "binary_write L b name fs =
     (let fs1 = fs\<lparr>fs_files := (fs_files fs)(name := None)\<rparr>;
          content = (if is_elf b then res_bind (as_elf b) (\<lambda>e. Inr (lf_write L (Lief_ELF e)))
                     else res_bind (as_pe b) (\<lambda>p. Inr (lf_write L (Lief_PE p))))
      in
      case content of
        Inl e \<Rightarrow> (fs1, Inl e)
      | Inr bytes \<Rightarrow>
          (fs1\<lparr>fs_files := (fs_files fs1)(name \<mapsto> bytes), fs_executable := (fs_executable fs1)(name := True)\<rparr>, Inr ()))"

section \<open>Kinds of binaries\<close>

lemma as_elf_iff: "as_elf b = Inr e \<longleftrightarrow> bin_lief b = Some (Lief_ELF e)"
  by (simp add: as_elf_def split: option.split lief_binary.split)

lemma as_pe_iff: "as_pe b = Inr p \<longleftrightarrow> bin_lief b = Some (Lief_PE p)"
  by (simp add: as_pe_def split: option.split lief_binary.split)

lemma is_elf_iff: "is_elf b \<longleftrightarrow> (\<exists>e. bin_lief b = Some (Lief_ELF e))"
  by (auto simp: is_elf_def split: option.splits lief_binary.splits)

lemma is_pe_iff: "is_pe b \<longleftrightarrow> (\<exists>p. bin_lief b = Some (Lief_PE p))"
  by (auto simp: is_pe_def split: option.splits lief_binary.splits)

lemma is_raw_iff: "is_raw b \<longleftrightarrow> (\<forall>e. bin_lief b \<noteq> Some (Lief_ELF e)) \<and> (\<forall>p. bin_lief b \<noteq> Some (Lief_PE p))"
  by (auto simp: is_raw_def is_elf_iff is_pe_iff)

text \<open>A binary is of exactly one kind, and the view of it succeeds for that kind only.\<close>

lemma binary_kinds:
  obtains (elf) e where "is_elf b" "\<not> is_pe b" "\<not> is_raw b" "as_elf b = Inr e"
    | (pe) p where "is_pe b" "\<not> is_elf b" "\<not> is_raw b" "as_pe b = Inr p"
    | (raw) "is_raw b" "\<not> is_elf b" "\<not> is_pe b"
  by (auto simp: is_raw_iff is_elf_iff is_pe_iff as_elf_iff as_pe_iff)

text \<open>\<open>binary::write\<close> of an ELF or a PE leaves an executable file with what LIEF writes; for a raw
  binary it throws, and the file that was there before is gone. No other file changes.\<close>

theorem binary_write_outcome:
  "binary_write L b name fs =
     (case bin_lief b of
        Some (Lief_ELF e) \<Rightarrow>
          (fs\<lparr>fs_files := (fs_files fs)(name \<mapsto> lf_write L (Lief_ELF e)),
              fs_executable := (fs_executable fs)(name := True)\<rparr>, Inr ())
      | Some (Lief_PE p) \<Rightarrow>
          (fs\<lparr>fs_files := (fs_files fs)(name \<mapsto> lf_write L (Lief_PE p)),
              fs_executable := (fs_executable fs)(name := True)\<rparr>, Inr ())
      | _ \<Rightarrow> (fs\<lparr>fs_files := (fs_files fs)(name := None)\<rparr>, Inl (Throw ''Binary is not a PE'')))"
  by (auto simp: binary_write_def is_elf_def as_elf_def as_pe_def split: option.split lief_binary.split)

end
