(* ===== verification/Engine_Map.thy ===== *)
theory Engine_Map
  imports Cpu Binary
begin

text \<open>
  \<open>engine::write_memory\<close> and \<open>engine::map_binary\<close> (engine.cpp): the bytes of a file become the initial
  cells of the page of the program's memory.
\<close>

section \<open>Writing a buffer\<close>

text \<open>The loop counter is an \<open>unsigned int\<close>, which is compared with the 64-bit size of the buffer. The
  fuel of the loop is one more than the size.\<close>

fun write_memory_loop :: "nat \<Rightarrow> 32 word \<Rightarrow> u64 \<Rightarrow> byte list \<Rightarrow> page_id \<Rightarrow> memory \<Rightarrow> memory res" where
  "write_memory_loop 0 i address buf p m = Inl Diverges"
| "write_memory_loop (Suc fuel) i address buf p m =
     (if unat i < length buf then
        res_bind (sx_concrete (ucast (buf ! unat i)) 8) (\<lambda>v.
        write_memory_loop fuel (i + 1) address buf p (page_initialize p (address + ucast i) v m))
      else Inr m)"

definition engine_write_memory :: "u64 \<Rightarrow> byte list \<Rightarrow> cpu \<Rightarrow> cpu res" where
  "engine_write_memory address buf c =
     res_bind (write_memory_loop (Suc (length buf)) 0 address buf (global_memory c) (cp_memory c)) (\<lambda>m.
     Inr (with_memory m c))"

section \<open>Mapping a binary\<close>

definition zero_byte :: "u64 \<Rightarrow> nat \<Rightarrow> cpu \<Rightarrow> cpu res" where
  "zero_byte v_addr offset c =
     res_bind (sx_concrete 0 8) (\<lambda>z.
     Inr (with_memory (page_initialize (global_memory c) (v_addr + of_nat offset) z (cp_memory c)) c))"

text \<open>The size of the content goes through an \<open>int\<close>, and back to 64 bits for the comparison.\<close>

definition map_segment :: "elf_segment \<Rightarrow> cpu \<Rightarrow> cpu res" where
  "map_segment seg c =
     (let v_size = seg_virtual_size seg; v_addr = seg_virtual_address seg; content = seg_content seg;
          sz = (scast (of_nat (length content) :: 32 word) :: u64)
      in
      res_bind (engine_write_memory v_addr content c) (\<lambda>c1.
      if v_size \<le> sz then Inr c1
      else res_fold (zero_byte v_addr) [unat sz..<unat v_size] c1))"

definition map_section :: "u64 \<Rightarrow> pe_section \<Rightarrow> cpu \<Rightarrow> cpu res" where
  "map_section imagebase sec c =
     (let content = pes_content sec in
      if content = [] then Inr c
      else engine_write_memory (imagebase + pes_virtual_address sec) content c)"

definition map_binary :: "vexa_binary \<Rightarrow> cpu \<Rightarrow> cpu res" where
  "map_binary b c =
     (if is_elf b then res_bind (as_elf b) (\<lambda>elf. res_fold map_segment (elf_segments elf) c)
      else if is_pe b then
        res_bind (as_pe b) (\<lambda>pe. res_fold (map_section (pe_imagebase pe)) (pe_sections pe) c)
      else if is_raw b then engine_write_memory 0 (bin_data b) c
      else Inl (Throw ''Unknown binary type''))"

section \<open>The memory image of a binary\<close>

text \<open>What a loader makes of the file: regions of bytes, where a later region covers an earlier one.\<close>

definition segment_region :: "elf_segment \<Rightarrow> u64 \<times> byte list" where
  "segment_region seg =
     (seg_virtual_address seg,
      seg_content seg @ replicate (unat (seg_virtual_size seg) - length (seg_content seg)) 0)"

definition regions :: "vexa_binary \<Rightarrow> (u64 \<times> byte list) list" where
  "regions b =
     (case bin_lief b of
        Some (Lief_ELF e) \<Rightarrow> map segment_region (elf_segments e)
      | Some (Lief_PE p) \<Rightarrow> map (\<lambda>s. (pe_imagebase p + pes_virtual_address s, pes_content s)) (pe_sections p)
      | _ \<Rightarrow> [(0, bin_data b)])"

definition region_byte :: "u64 \<times> byte list \<Rightarrow> u64 \<Rightarrow> byte option" where
  "region_byte r a =
     (if unat (a - fst r) < length (snd r) then Some (snd r ! unat (a - fst r)) else None)"

fun image_byte :: "(u64 \<times> byte list) list \<Rightarrow> u64 \<Rightarrow> byte option" where
  "image_byte [] a = None"
| "image_byte (r # rs) a = (case image_byte rs a of Some b \<Rightarrow> Some b | None \<Rightarrow> region_byte r a)"

text \<open>The files that can be mapped: no content of 2 GiB or more.\<close>

definition mappable :: "vexa_binary \<Rightarrow> bool" where
  "mappable b \<longleftrightarrow>
     (case bin_lief b of
        Some (Lief_ELF e) \<Rightarrow> \<forall>s \<in> set (elf_segments e). length (seg_content s) < 2 ^ 31
      | Some (Lief_PE p) \<Rightarrow> \<forall>s \<in> set (pe_sections p). length (pes_content s) < 2 ^ 32
      | _ \<Rightarrow> length (bin_data b) < 2 ^ 32)"

section \<open>Initial cells\<close>

text \<open>The cell of a byte of the file.\<close>

definition byte_value :: "byte \<Rightarrow> vexa_value" where
  "byte_value b = value_new (BwBv 8 (uint b))"

lemma sx_concrete_byte: "sx_concrete (ucast (b :: byte)) 8 = Inr (byte_value b)"
proof -
  have "uint b < 2 ^ 8" using unsigned_less [of b] by simp
  then have "uint (ucast b :: u64) = uint b" by (simp add: unsigned_ucast_eq take_bit_int_eq_self_iff)
  moreover have "take_bit 8 (uint b) = uint b" by (metis uint_byte_of_int word_of_int_uint)
  ultimately show ?thesis by (simp add: sx_concrete_def mk_bv_value_def byte_value_def)
qed

text \<open>A memory in which a page that is not sealed starts with further bytes.\<close>

definition overlay :: "page_id \<Rightarrow> (u64 \<rightharpoonup> byte) \<Rightarrow> memory \<Rightarrow> memory" where
  "overlay p f m =
     m\<lparr>page_objs := (page_objs m)[p := (page_objs m ! p)
         \<lparr>initial_memory := initial_memory (page_objs m ! p) ++ (map_option (byte_cell \<circ> byte_value) \<circ> f)\<rparr>]\<rparr>"

definition unsealed :: "page_id \<Rightarrow> memory \<Rightarrow> bool" where
  "unsealed p m \<longleftrightarrow> p < length (page_objs m) \<and> \<not> page_sealed (page_objs m ! p)"

lemma unsealed_overlay [simp]: "unsealed p (overlay p f m) = unsealed p m"
  by (auto simp: unsealed_def overlay_def nth_list_update)

lemma overlay_overlay: "unsealed p m \<Longrightarrow> overlay p g (overlay p f m) = overlay p (f ++ g) m"
proof -
  have "map_option h \<circ> (f ++ g) = (map_option h \<circ> f) ++ (map_option h \<circ> g)" for h :: "byte \<Rightarrow> mem_cell"
    by (auto simp: map_add_def split: option.split)
  then show "unsealed p m \<Longrightarrow> ?thesis" by (simp add: unsealed_def overlay_def map_add_assoc)
qed

lemma overlay_empty [simp]: "overlay p Map.empty m = m"
proof -
  have "map_option h \<circ> Map.empty = Map.empty" for h :: "byte \<Rightarrow> mem_cell" by auto
  then show ?thesis by (simp add: overlay_def)
qed

lemma page_initialize_overlay:
  "unsealed p m \<Longrightarrow> page_initialize p a (byte_value x) m = overlay p [a \<mapsto> x] m"
proof -
  have "f(a \<mapsto> byte_cell (byte_value x)) = f ++ (map_option (byte_cell \<circ> byte_value) \<circ> [a \<mapsto> x])" for f
    by (auto simp: map_add_def)
  then show "unsealed p m \<Longrightarrow> ?thesis" by (simp add: unsealed_def overlay_def page_initialize_def)
qed

lemma page_find_overlay:
  assumes "unsealed p m" and "q < length (page_objs m)" and "page_storage m p = Map.empty"
  shows "page_find (overlay p f m) q a =
    (case (if q = p then f a else None) of Some x \<Rightarrow> Some (byte_cell (byte_value x)) | None \<Rightarrow> page_find m q a)"
  using assms
  by (auto simp: page_find_def page_storage_def overlay_def unsealed_def nth_list_update map_add_def
      split: option.split)

section \<open>Writing and mapping as overlays\<close>

text \<open>The bytes of a buffer from a position on.\<close>

definition bytes_from :: "nat \<Rightarrow> u64 \<Rightarrow> byte list \<Rightarrow> u64 \<rightharpoonup> byte" where
  "bytes_from k address buf a =
     (let i = unat (a - address) in if k \<le> i \<and> i < length buf then Some (buf ! i) else None)"

lemma bytes_from_0: "bytes_from 0 address buf = region_byte (address, buf)"
  by (auto simp: bytes_from_def region_byte_def Let_def)

lemma bytes_from_Suc:
  assumes "k < length buf" and "k < 2 ^ 64"
  shows "bytes_from k address buf = [address + of_nat k \<mapsto> buf ! k] ++ bytes_from (Suc k) address buf"
proof (rule ext)
  fix a
  have k: "unat (of_nat k :: u64) = k" using assms(2) by (simp add: unat_of_nat)
  have "unat (a - address) = k \<longleftrightarrow> a - address = of_nat k" using k by (metis word_unat_eq_iff)
  then have "unat (a - address) = k \<longleftrightarrow> a = address + of_nat k" by (simp add: diff_eq_eq add.commute)
  then show "bytes_from k address buf a = ([address + of_nat k \<mapsto> buf ! k] ++ bytes_from (Suc k) address buf) a"
    using assms(1) by (auto simp: bytes_from_def Let_def map_add_def)
qed

lemma write_memory_loop_overlay:
  assumes "length buf < 2 ^ 32"
  shows "length buf < fuel + unat i \<Longrightarrow> unat i \<le> length buf \<Longrightarrow> unsealed p m \<Longrightarrow>
    write_memory_loop fuel i address buf p m = Inr (overlay p (bytes_from (unat i) address buf) m)"
proof (induction fuel arbitrary: i m)
  case (Suc fuel)
  show ?case
  proof (cases "unat i < length buf")
    case True
    then have i: "unat (i + 1) = Suc (unat i)" using assms by (simp add: unat_word_ariths)
    have a: "ucast i = (of_nat (unat i) :: u64)" by simp
    have "unat i < 2 ^ 64" using assms True by simp
    note bytes = bytes_from_Suc [OF True this, of address]
    let ?m = "overlay p [address + of_nat (unat i) \<mapsto> buf ! unat i] m"
    have "write_memory_loop (Suc fuel) i address buf p m = write_memory_loop fuel (i + 1) address buf p ?m"
      using True Suc.prems by (simp add: sx_concrete_byte page_initialize_overlay)
    also have "\<dots> = Inr (overlay p (bytes_from (unat (i + 1)) address buf) ?m)"
      using Suc.prems i True by (intro Suc.IH) simp_all
    finally show ?thesis using Suc.prems by (simp only: bytes i overlay_overlay)
  next
    case False
    then have "bytes_from (unat i) address buf = Map.empty" by (auto simp: bytes_from_def Let_def)
    with False show ?thesis by simp
  qed
qed simp

lemma write_memory_loop_diverges: "2 ^ 32 \<le> length buf \<Longrightarrow> write_memory_loop fuel i address buf p m = Inl Diverges"
proof (induction fuel arbitrary: i m)
  case (Suc fuel)
  have "unat i < length buf" using Suc.prems unat_bound [of i] by simp
  with Suc show ?case by (simp add: sx_concrete_byte)
qed simp

lemma engine_write_memory_overlay:
  "length buf < 2 ^ 32 \<Longrightarrow> unsealed (global_memory c) (cp_memory c) \<Longrightarrow>
   engine_write_memory address buf c =
     Inr (with_memory (overlay (global_memory c) (region_byte (address, buf)) (cp_memory c)) c)"
  using write_memory_loop_overlay [where fuel = "Suc (length buf)" and i = 0]
  by (simp add: engine_write_memory_def bytes_from_0 del: write_memory_loop.simps)

lemma engine_memory_simps [simp]:
  "cp_memory (with_memory m c) = m" "global_memory (with_memory m c) = global_memory c"
  "with_memory m (with_memory m' c) = with_memory m c" "with_memory (cp_memory c) c = c"
  by (simp_all add: with_memory_def)

lemma zero_byte_overlay:
  "unsealed (global_memory c) (cp_memory c) \<Longrightarrow>
   zero_byte v_addr k c =
     Inr (with_memory (overlay (global_memory c) [v_addr + of_nat k \<mapsto> 0] (cp_memory c)) c)"
  using sx_concrete_byte [of 0] by (simp add: zero_byte_def page_initialize_overlay)

text \<open>Zeros behind the first \<open>k\<close> bytes of a region.\<close>

lemma zero_fill_overlay:
  assumes "n < 2 ^ 64"
  shows "k \<le> n \<Longrightarrow> unsealed (global_memory c) (cp_memory c) \<Longrightarrow>
    res_fold (zero_byte v_addr) [k..<n] c =
      Inr (with_memory (overlay (global_memory c) (bytes_from k v_addr (replicate n 0)) (cp_memory c)) c)"
proof (induction "n - k" arbitrary: k c)
  case 0
  then have "bytes_from k v_addr (replicate n 0) = Map.empty" by (auto simp: bytes_from_def Let_def)
  with 0 show ?case by simp
next
  case (Suc d)
  then have k: "k < n" by simp
  have upt: "[k..<n] = k # [Suc k..<n]" using k by (simp add: upt_conv_Cons)
  have "bytes_from k v_addr (replicate n 0) = [v_addr + of_nat k \<mapsto> 0] ++ bytes_from (Suc k) v_addr (replicate n 0)"
    using bytes_from_Suc [of k "replicate n 0" v_addr] k assms by simp
  with Suc(1) [of "Suc k"] Suc(2,4) k show ?case
    by (simp add: upt zero_byte_overlay overlay_overlay)
qed

lemma segment_bytes:
  assumes "length content \<le> n"
  shows "region_byte (a, content) ++ bytes_from (length content) a (replicate n 0) =
    region_byte (a, content @ replicate (n - length content) 0)"
  using assms by (auto simp: region_byte_def bytes_from_def Let_def map_add_def nth_append)

lemma scast_small: "n < 2 ^ 31 \<Longrightarrow> (scast (of_nat n :: 32 word) :: u64) = of_nat n"
proof -
  assume n: "n < 2 ^ 31"
  have "sint (of_nat n :: 32 word) = signed_take_bit 31 (int n)" by (simp add: sint_uint unsigned_of_nat of_nat_take_bit signed_take_bit_take_bit)
  also have "\<dots> = int n" using n by (simp add: signed_take_bit_int_eq_self)
  finally show ?thesis by (metis of_int_of_nat_eq of_int_sint)
qed

lemma map_segment_overlay:
  assumes "length (seg_content seg) < 2 ^ 31" and "unsealed (global_memory c) (cp_memory c)"
  shows "map_segment seg c =
    Inr (with_memory (overlay (global_memory c) (region_byte (segment_region seg)) (cp_memory c)) c)"
proof -
  let ?n = "length (seg_content seg)" and ?v = "seg_virtual_size seg"
  have n: "unat (of_nat ?n :: u64) = ?n" using assms(1) by (simp add: unat_of_nat)
  have v: "unat ?v < 2 ^ 64" using unat_bound [of ?v] by simp
  show ?thesis
  proof (cases "unat ?v \<le> ?n")
    case True
    then have "?v \<le> of_nat ?n" using n by (simp add: word_le_nat_alt)
    with True assms show ?thesis
      by (simp add: map_segment_def scast_small engine_write_memory_overlay segment_region_def)
  next
    case False
    then have "\<not> ?v \<le> of_nat ?n" using n by (simp add: word_le_nat_alt)
    with False assms n v show ?thesis
      by (simp add: map_segment_def scast_small engine_write_memory_overlay segment_region_def
          zero_fill_overlay overlay_overlay segment_bytes Let_def)
  qed
qed

lemma map_section_overlay:
  assumes "length (pes_content sec) < 2 ^ 32" and "unsealed (global_memory c) (cp_memory c)"
  shows "map_section base sec c =
    Inr (with_memory (overlay (global_memory c)
      (region_byte (base + pes_virtual_address sec, pes_content sec)) (cp_memory c)) c)"
proof (cases "pes_content sec = []")
  case True
  then have "region_byte (base + pes_virtual_address sec, pes_content sec) = Map.empty"
    by (auto simp: region_byte_def)
  with True show ?thesis by (simp add: map_section_def)
qed (use assms in \<open>simp add: map_section_def engine_write_memory_overlay\<close>)

lemma image_byte_Cons: "image_byte (r # rs) = region_byte r ++ image_byte rs"
  by (auto simp: map_add_def split: option.split)

text \<open>Mapping the parts of a file one after the other.\<close>

lemma map_parts_overlay:
  assumes "\<And>x c. x \<in> set xs \<Longrightarrow> unsealed (global_memory c) (cp_memory c) \<Longrightarrow>
    f x c = Inr (with_memory (overlay (global_memory c) (region_byte (g x)) (cp_memory c)) c)"
  shows "unsealed (global_memory c) (cp_memory c) \<Longrightarrow>
    res_fold f xs c = Inr (with_memory (overlay (global_memory c) (image_byte (map g xs)) (cp_memory c)) c)"
  using assms
proof (induction xs arbitrary: c)
  case Nil
  have "image_byte [] = Map.empty" by auto
  then show ?case by simp
next
  case (Cons x xs)
  let ?c = "with_memory (overlay (global_memory c) (region_byte (g x)) (cp_memory c)) c"
  have "res_fold f xs ?c =
      Inr (with_memory (overlay (global_memory ?c) (image_byte (map g xs)) (cp_memory ?c)) ?c)"
    using Cons.prems by (intro Cons.IH) simp_all
  with Cons.prems show ?case by (simp add: image_byte_Cons overlay_overlay del: image_byte.simps)
qed

lemma map_binary_overlay:
  assumes m: "mappable b" and u: "unsealed (global_memory c) (cp_memory c)"
  shows "map_binary b c =
    Inr (with_memory (overlay (global_memory c) (image_byte (regions b)) (cp_memory c)) c)"
proof (cases rule: binary_kinds [of b])
  case (elf e)
  then have "bin_lief b = Some (Lief_ELF e)" by (simp add: as_elf_iff)
  with elf m u show ?thesis
    by (simp add: map_binary_def regions_def mappable_def map_segment_overlay
        map_parts_overlay [where g = segment_region])
next
  case (pe p)
  then have "bin_lief b = Some (Lief_PE p)" by (simp add: as_pe_iff)
  with pe m u show ?thesis
    by (simp add: map_binary_def regions_def mappable_def map_section_overlay
        map_parts_overlay [where g = "\<lambda>s. (pe_imagebase p + pes_virtual_address s, pes_content s)"])
next
  case raw
  then have "regions b = [(0, bin_data b)]" and "length (bin_data b) < 2 ^ 32"
    using m by (auto simp: regions_def mappable_def is_raw_iff split: option.splits lief_binary.splits)
  moreover have "image_byte [(0, bin_data b)] = region_byte (0, bin_data b)"
    by (simp add: image_byte_Cons) (auto simp: map_add_def)
  ultimately show ?thesis using raw u by (simp add: map_binary_def engine_write_memory_overlay)
qed

section \<open>Mapping is loading\<close>

definition demo_elf :: vexa_binary where
  "demo_elf = \<lparr>bin_lief = Some (Lief_ELF
     \<lparr>elf_is_object = False, elf_is_pie = False, elf_imagebase = 0,
      elf_segments = [\<lparr>seg_virtual_size = 4, seg_virtual_address = 0x1000, seg_content = [0x90, 0xC3]\<rparr>],
      elf_sections = [], elf_symbols = [], elf_relocations = []\<rparr>), bin_filename = [], bin_data = []\<rparr>"

definition demo_fresh :: cpu where
  "demo_fresh = with_memory (snd (mem_allocate memory_init)) demo_cpu"

lemma demo_fresh_ok:
  "unsealed (global_memory demo_fresh) (cp_memory demo_fresh)"
  "page_storage (cp_memory demo_fresh) (global_memory demo_fresh) = Map.empty"
  "page_find (cp_memory demo_fresh) 0 a = None" "length (page_objs (cp_memory demo_fresh)) = 1"
  "global_memory demo_fresh = 0"
  by (simp_all add: demo_fresh_def demo_cpu_def unsealed_def mem_allocate_def memory_init_def page_storage_def
      page_find_def Let_def)

lemma demo_elf_ok:
  "mappable demo_elf" "regions demo_elf = [(0x1000, [0x90, 0xC3, 0, 0])]"
  by (simp_all add: demo_elf_def mappable_def regions_def segment_region_def replicate_at_numeral)



text \<open>C39: \<open>write_memory\<close> returns for every buffer of fewer than \<open>2\<^sup>3\<^sup>2\<close> bytes, and for no other: the 32-bit
  loop counter never reaches the size of a longer buffer, whatever the fuel.\<close>

theorem write_memory_terminates_iff:
  assumes "unsealed (global_memory c) (cp_memory c)"
  shows "if length buf < 2 ^ 32 then \<exists>c'. engine_write_memory address buf c = Inr c'
    else \<forall>fuel. write_memory_loop fuel 0 address buf (global_memory c) (cp_memory c) = Inl Diverges"
  using engine_write_memory_overlay [OF _ assms] write_memory_loop_diverges by simp

theorem write_memory_terminates_iff_witness:
  "\<exists>c'. engine_write_memory 0x1000 [1, 2, 3] demo_fresh = Inr c'"
  using write_memory_terminates_iff [OF demo_fresh_ok(1), where buf = "[1, 2, 3]" and address = "0x1000"] by simp

end
