(* ===== verification/Engine_Patch.thy ===== *)
theory Engine_Patch
  imports Binary
begin

text \<open>
  \<open>engine::patch\<close> and \<open>engine::fix_relocations\<close> (engine.cpp): the sections of a compiled object are laid
  out in one buffer, which becomes a new segment or section of the binary; its relocations are applied,
  and a jump to it is written over the function that was lifted.
\<close>

unbundle bit_operations_syntax

section \<open>Laying out the sections\<close>

record section_layout =
  code_content :: "byte list"
  section_offsets :: "nat \<rightharpoonup> u64"

definition padding :: "nat \<Rightarrow> nat \<Rightarrow> nat" where
  "padding alignment n = (alignment - n mod alignment) mod alignment"

definition section_image :: "elf_section \<Rightarrow> byte list" where
  "section_image sec = (if sec_nobits sec then replicate (unat (sec_size sec)) 0 else sec_content sec)"

text \<open>\<open>emplace\<close> keeps an entry that is there.\<close>

definition append_section :: "elf_section \<Rightarrow> section_layout \<Rightarrow> section_layout res" where
  "append_section sec l =
     (let alignment = max (unat (sec_alignment sec)) 1;
          code = code_content l @ replicate (padding alignment (length (code_content l))) 0
      in
      case sec_idx sec of None \<Rightarrow> Inl (Assert_failed ''section_idx'')
      | Some i \<Rightarrow>
          Inr \<lparr>code_content = code @ section_image sec,
               section_offsets =
                 (case section_offsets l i of
                    None \<Rightarrow> (section_offsets l)(i \<mapsto> of_nat (length code)) | Some x \<Rightarrow> section_offsets l)\<rparr>)"

text \<open>\<open>get_section\<close>: the position of the first section of a name.\<close>

fun find_section :: "string \<Rightarrow> elf_section list \<Rightarrow> nat option" where
  "find_section name [] = None"
| "find_section name (s # ss) = (if sec_name s = name then Some 0 else map_option Suc (find_section name ss))"

definition placed_sections :: "nat \<Rightarrow> elf_section list \<Rightarrow> elf_section list" where
  "placed_sections t secs = secs ! t # [secs ! i. i \<leftarrow> [0..<length secs], i \<noteq> t \<and> sec_alloc (secs ! i)]"

definition layout_sections :: "elf_file \<Rightarrow> section_layout res" where
  "layout_sections object =
     (case find_section ''.text'' (elf_sections object) of
        None \<Rightarrow> Inl (Throw ''.text section is not found in the object file'')
      | Some t \<Rightarrow>
          res_fold append_section (placed_sections t (elf_sections object))
            \<lparr>code_content = [], section_offsets = Map.empty\<rparr>)"

section \<open>Relocations\<close>

definition memcpy_at :: "u64 \<Rightarrow> byte list \<Rightarrow> byte list \<Rightarrow> byte list res" where
  "memcpy_at offset bytes code =
     (if unat offset + length bytes \<le> length code
      then Inr (take (unat offset) code @ bytes @ drop (unat offset + length bytes) code)
      else Inl Undefined_behaviour)"

definition symbol_address ::
  "(nat \<rightharpoonup> u64) \<Rightarrow> u64 \<Rightarrow> u64 \<Rightarrow> u64 \<Rightarrow> elf_symbol \<Rightarrow> u64 option" where
  "symbol_address offsets rva image_base shift_offset symbol =
     (if sym_name symbol = ''IMAGE_BASE'' then Some (image_base + shift_offset)
      else map_option (\<lambda>off. rva + off + sym_value symbol) (offsets (sym_section_idx symbol)))"

text \<open>Where a relocation writes, at which address that is, and the address of its symbol; nothing when
  the relocation is skipped.\<close>

definition reloc_site ::
  "(nat \<rightharpoonup> u64) \<Rightarrow> u64 \<Rightarrow> u64 \<Rightarrow> u64 \<Rightarrow> elf_reloc \<Rightarrow> (u64 \<times> u64 \<times> u64) option" where
  "reloc_site offsets rva image_base shift_offset reloc =
     (case rel_symbol reloc of None \<Rightarrow> None
      | Some symbol \<Rightarrow>
          (case rel_section reloc of None \<Rightarrow> None
           | Some sec \<Rightarrow>
               (case sec_idx sec of None \<Rightarrow> None
                | Some patch_section_idx \<Rightarrow>
                    (case offsets patch_section_idx of None \<Rightarrow> None
                     | Some patch_section \<Rightarrow>
                         (case symbol_address offsets rva image_base shift_offset symbol of None \<Rightarrow> None
                          | Some symbol_va \<Rightarrow>
                              let patch_offset = patch_section + rel_address reloc
                              in Some (patch_offset, rva + patch_offset, symbol_va))))))"

definition reloc_bytes :: "elf_reloc \<Rightarrow> u64 \<Rightarrow> u64 \<Rightarrow> byte list res" where
  "reloc_bytes reloc patch_va symbol_va =
     (case rel_type reloc of
        X86_64_PC32 \<Rightarrow> Inr (le_bytes 4 (uint (symbol_va + rel_addend reloc - patch_va)))
      | X86_64_PLT32 \<Rightarrow> Inr (le_bytes 4 (uint (symbol_va + rel_addend reloc - patch_va)))
      | X86_64_64 \<Rightarrow> Inr (le_bytes 8 (uint (symbol_va + rel_addend reloc)))
      | X86_64_32 \<Rightarrow> Inr (le_bytes 4 (uint (symbol_va + rel_addend reloc)))
      | X86_64_32S \<Rightarrow> Inr (le_bytes 4 (uint (symbol_va + rel_addend reloc)))
      | Other_reloc n \<Rightarrow> Inl (Throw (''Unsupported relocation type '' @ show_nat n)))"

definition apply_reloc ::
  "(nat \<rightharpoonup> u64) \<Rightarrow> u64 \<Rightarrow> u64 \<Rightarrow> u64 \<Rightarrow> elf_reloc \<Rightarrow> byte list \<Rightarrow> byte list res" where
  "apply_reloc offsets rva image_base shift_offset reloc code =
     (case reloc_site offsets rva image_base shift_offset reloc of None \<Rightarrow> Inr code
      | Some (patch_offset, patch_va, symbol_va) \<Rightarrow>
          res_bind (reloc_bytes reloc patch_va symbol_va) (\<lambda>bytes. memcpy_at patch_offset bytes code))"

definition fix_relocations ::
  "elf_file \<Rightarrow> byte list \<Rightarrow> (nat \<rightharpoonup> u64) \<Rightarrow> u64 \<Rightarrow> u64 \<Rightarrow> u64 \<Rightarrow> byte list res" where
  "fix_relocations object code offsets rva image_base shift_offset =
     res_fold (apply_reloc offsets rva image_base shift_offset) (elf_relocations object) code"

section \<open>The jump\<close>

text \<open>\<open>jmp rel32\<close> at an address, with the bytes of the distance as the code shifts them out of an
  \<open>int32_t\<close>.\<close>

definition jmp_bytes :: "u64 \<Rightarrow> u64 \<Rightarrow> byte list" where
  "jmp_bytes va target =
     (let calc_relative = (ucast (target - (va + 5)) :: 32 word) in
      0xE9 # map (\<lambda>k. ucast (signed_drop_bit k calc_relative AND 0xFF)) [0, 8, 16, 24])"

section \<open>Patching\<close>

text \<open>What LIEF does to the binary that is patched: moving the program headers, adding a segment or a
  section (with its address), replacing its content, and overwriting bytes at an address.\<close>

record lief_edit =
  le_relocate_phdr :: "bool \<Rightarrow> elf_file \<Rightarrow> elf_file"
  le_add_segment :: "byte list \<Rightarrow> elf_file \<Rightarrow> (u64 \<times> elf_file) option"
  le_segment_content :: "byte list \<Rightarrow> elf_file \<Rightarrow> elf_file"
  le_patch_elf :: "u64 \<Rightarrow> byte list \<Rightarrow> elf_file \<Rightarrow> elf_file"
  le_add_section :: "byte list \<Rightarrow> pe_file \<Rightarrow> (u64 \<times> pe_file) option"
  le_section_content :: "byte list \<Rightarrow> pe_file \<Rightarrow> pe_file"
  le_patch_pe :: "u64 \<Rightarrow> byte list \<Rightarrow> pe_file \<Rightarrow> pe_file"

definition entry_address :: "section_layout \<Rightarrow> elf_symbol \<Rightarrow> u64 \<Rightarrow> u64 res" where
  "entry_address l entry base =
     (case section_offsets l (sym_section_idx entry) of None \<Rightarrow> Inl Out_of_range
      | Some off \<Rightarrow> Inr (base + off + sym_value entry))"

definition patch_elf :: "lief_edit \<Rightarrow> elf_file \<Rightarrow> section_layout \<Rightarrow> elf_symbol \<Rightarrow> u64 \<Rightarrow> elf_file \<Rightarrow> elf_file res" where
  "patch_elf L object l entry va elf =
     (let image_base = (if elf_is_pie elf then 0 else elf_imagebase elf);
          shift_offset = (if elf_is_pie elf then 0x1000 else 0);
          va1 = va + shift_offset
      in
      case le_add_segment L (code_content l) (le_relocate_phdr L (elf_is_pie elf) elf) of
        None \<Rightarrow> Inl Null_dereference
      | Some (base, elf1) \<Rightarrow>
          res_bind (fix_relocations object (code_content l) (section_offsets l) base image_base shift_offset) (\<lambda>relocated.
          res_bind (entry_address l entry base) (\<lambda>new_func_va.
          Inr (le_patch_elf L va1 (jmp_bytes va1 new_func_va) (le_segment_content L relocated elf1)))))"

definition patch_pe :: "lief_edit \<Rightarrow> elf_file \<Rightarrow> section_layout \<Rightarrow> elf_symbol \<Rightarrow> u64 \<Rightarrow> pe_file \<Rightarrow> pe_file res" where
  "patch_pe L object l entry va pe =
     (let image_base = pe_imagebase pe in
      case le_add_section L (code_content l) pe of
        None \<Rightarrow> Inl Null_dereference
      | Some (rva, pe1) \<Rightarrow>
          res_bind (fix_relocations object (code_content l) (section_offsets l) (image_base + rva) image_base 0) (\<lambda>relocated.
          res_bind (entry_address l entry (image_base + rva)) (\<lambda>new_func_va.
          Inr (le_patch_pe L va (jmp_bytes va new_func_va) (le_section_content L relocated pe1)))))"

definition patch :: "lief \<Rightarrow> lief_edit \<Rightarrow> byte list \<Rightarrow> u64 \<Rightarrow> vexa_binary \<Rightarrow> vexa_binary res" where
  "patch P L object_file va b =
     (let object_f = binary_of_bytes P object_file in
      res_bind (lief_of object_f) (\<lambda>object.
      if \<not> lief_is_object object then Inl (Throw ''error while parsing object file'')
      else
        res_bind (as_elf object_f) (\<lambda>elf_object.
        res_bind (layout_sections elf_object) (\<lambda>l.
        case find (\<lambda>s. sym_name s = ''vexa_entry'') (elf_symbols elf_object) of
          None \<Rightarrow> Inl (Throw (''vexa_entry symbol is not found in the object file, make sure its '' @
                                ''compiled in vexa''))
        | Some entry \<Rightarrow>
            if is_elf b then
              res_bind (as_elf b) (\<lambda>elf. res_bind (patch_elf L elf_object l entry va elf) (\<lambda>elf1.
              Inr (b\<lparr>bin_lief := Some (Lief_ELF elf1)\<rparr>)))
            else if is_pe b then
              res_bind (as_pe b) (\<lambda>pe. res_bind (patch_pe L elf_object l entry va pe) (\<lambda>pe1.
              Inr (b\<lparr>bin_lief := Some (Lief_PE pe1)\<rparr>)))
            else Inl (Throw ''binary type is not supported'')))))"

section \<open>The layout is correct\<close>

lemma padding_aligned:
  assumes "0 < a"
  shows "(n + padding a n) mod a = 0"
proof -
  have "n mod a < a" using assms by simp
  moreover have "a * (n div a) + n mod a = n" by (rule mult_div_mod_eq)
  ultimately have "n + (a - n mod a) = a * Suc (n div a)" unfolding mult_Suc_right by linarith
  then show ?thesis by (simp add: padding_def mod_add_right_eq)
qed

definition section_start :: "section_layout \<Rightarrow> elf_section \<Rightarrow> nat" where
  "section_start l sec = unat (the (section_offsets l (the (sec_idx sec))))"

definition section_at :: "section_layout \<Rightarrow> elf_section \<Rightarrow> bool" where
  "section_at l sec \<longleftrightarrow>
     sec_idx sec \<noteq> None \<and> section_offsets l (the (sec_idx sec)) \<noteq> None \<and>
     section_start l sec mod max (unat (sec_alignment sec)) 1 = 0 \<and>
     section_start l sec + length (section_image sec) \<le> length (code_content l) \<and>
     take (length (section_image sec)) (drop (section_start l sec) (code_content l)) = section_image sec"

definition layout_grows :: "section_layout \<Rightarrow> section_layout \<Rightarrow> bool" where
  "layout_grows l l' \<longleftrightarrow> (\<exists>rest. code_content l' = code_content l @ rest) \<and> section_offsets l \<subseteq>\<^sub>m section_offsets l'"

lemma layout_grows_trans: "layout_grows l l1 \<Longrightarrow> layout_grows l1 l2 \<Longrightarrow> layout_grows l l2"
  by (auto simp: layout_grows_def intro: map_le_trans)

lemma section_start_grows:
  "layout_grows l l' \<Longrightarrow> section_at l sec \<Longrightarrow> section_start l' sec = section_start l sec"
  by (auto simp: layout_grows_def section_at_def section_start_def map_le_def dom_def)

lemma section_at_grows:
  assumes "layout_grows l l'" and "section_at l sec"
  shows "section_at l' sec"
proof -
  obtain rest where "code_content l' = code_content l @ rest" using assms(1) by (auto simp: layout_grows_def)
  moreover have "section_offsets l' (the (sec_idx sec)) \<noteq> None"
    using assms by (force simp: layout_grows_def section_at_def map_le_def)
  ultimately show ?thesis using assms(2) section_start_grows [OF assms] by (simp add: section_at_def)
qed

lemma append_section_at:
  assumes "sec_idx sec = Some i" and "section_offsets l i = None"
  obtains l' where "append_section sec l = Inr l'" "layout_grows l l'" "dom (section_offsets l') = insert i (dom (section_offsets l))"
    "length (code_content l') < 2 ^ 64 \<Longrightarrow> section_at l' sec \<and> length (code_content l) \<le> section_start l' sec \<and>
       section_start l' sec + length (section_image sec) = length (code_content l')"
proof -
  let ?a = "max (unat (sec_alignment sec)) 1"
  let ?n = "length (code_content l) + padding ?a (length (code_content l))"
  let ?l = "\<lparr>code_content = code_content l @ replicate (padding ?a (length (code_content l))) 0 @ section_image sec,
      section_offsets = (section_offsets l)(i \<mapsto> of_nat ?n)\<rparr>"
  have "append_section sec l = Inr ?l" using assms by (simp add: append_section_def Let_def)
  moreover have "layout_grows l ?l"
    using assms by (auto simp: layout_grows_def map_le_def)
  moreover have "section_at ?l sec \<and> length (code_content l) \<le> section_start ?l sec \<and>
      section_start ?l sec + length (section_image sec) = length (code_content ?l)"
    if "length (code_content ?l) < 2 ^ 64"
  proof -
    have "unat (of_nat ?n :: u64) = ?n" using that by (simp add: unat_of_nat del: of_nat_add)
    then have "section_start ?l sec = ?n" using assms by (simp add: section_start_def del: of_nat_add)
    then show ?thesis using assms padding_aligned [of ?a] by (simp add: section_at_def)
  qed
  ultimately show thesis by (intro that [of ?l]) auto
qed

text \<open>All sections together: each one is in place, and they follow one another.\<close>

lemma append_sections_at:
  assumes "\<forall>sec \<in> set secs. sec_idx sec \<noteq> None" and "distinct (map sec_idx secs)"
    and "\<forall>sec \<in> set secs. section_offsets l (the (sec_idx sec)) = None"
  shows "\<exists>l'. res_fold append_section secs l = Inr l' \<and> layout_grows l l' \<and>
    (length (code_content l') < 2 ^ 64 \<longrightarrow>
       (\<forall>sec \<in> set secs. section_at l' sec \<and> length (code_content l) \<le> section_start l' sec) \<and>
       sorted_wrt (\<lambda>s t. section_start l' s + length (section_image s) \<le> section_start l' t) secs)"
  using assms
proof (induction secs arbitrary: l)
  case Nil
  then show ?case by (simp add: layout_grows_def)
next
  case (Cons sec secs)
  then obtain i where i: "sec_idx sec = Some i" "section_offsets l i = None" by auto
  obtain l1 where l1: "append_section sec l = Inr l1" "layout_grows l l1"
      "dom (section_offsets l1) = insert i (dom (section_offsets l))"
    and at: "length (code_content l1) < 2 ^ 64 \<Longrightarrow> section_at l1 sec \<and> length (code_content l) \<le> section_start l1 sec \<and>
       section_start l1 sec + length (section_image sec) = length (code_content l1)"
    by (rule append_section_at [OF i]) blast
  have "\<forall>s \<in> set secs. section_offsets l1 (the (sec_idx s)) = None"
  proof
    fix s assume s: "s \<in> set secs"
    then have "the (sec_idx s) \<noteq> i" "section_offsets l (the (sec_idx s)) = None"
      using Cons.prems i(1) by force+
    then have "the (sec_idx s) \<notin> dom (section_offsets l1)" unfolding l1(3) by auto
    then show "section_offsets l1 (the (sec_idx s)) = None" by auto
  qed
  with Cons.IH [of l1] Cons.prems obtain l' where l': "res_fold append_section secs l1 = Inr l'" "layout_grows l1 l'"
    and rest: "length (code_content l') < 2 ^ 64 \<longrightarrow>
       (\<forall>s \<in> set secs. section_at l' s \<and> length (code_content l1) \<le> section_start l' s) \<and>
       sorted_wrt (\<lambda>s t. section_start l' s + length (section_image s) \<le> section_start l' t) secs"
    by auto
  have len: "length (code_content l) \<le> length (code_content l1)" "length (code_content l1) \<le> length (code_content l')"
    using l1(2) l'(2) by (auto simp: layout_grows_def)
  show ?case
  proof (intro exI [of _ l'] conjI impI)
    show "res_fold append_section (sec # secs) l = Inr l'" using l1(1) l'(1) by simp
    show "layout_grows l l'" using l1(2) l'(2) by (rule layout_grows_trans)
    assume big: "length (code_content l') < 2 ^ 64"
    then have first: "section_at l1 sec" "length (code_content l) \<le> section_start l1 sec"
        "section_start l1 sec + length (section_image sec) = length (code_content l1)"
      using at len by auto
    note start = section_start_grows [OF l'(2) first(1)]
    show "\<forall>s \<in> set (sec # secs). section_at l' s \<and> length (code_content l) \<le> section_start l' s"
      using rest big first len start section_at_grows [OF l'(2) first(1)] by fastforce
    show "sorted_wrt (\<lambda>s t. section_start l' s + length (section_image s) \<le> section_start l' t) (sec # secs)"
      using rest big first start by auto
  qed
qed

lemma find_section_nth: "find_section name secs = Some t \<Longrightarrow> t < length secs \<and> sec_name (secs ! t) = name"
  by (induction secs arbitrary: t) (auto split: if_splits)

definition demo_text :: elf_section where
  "demo_text = \<lparr>sec_name = ''.text'', sec_idx = Some 1, sec_alignment = 16, sec_nobits = False, sec_alloc = True,
     sec_size = 5, sec_content = [0xE8, 0, 0, 0, 0]\<rparr>"

definition demo_bss :: elf_section where
  "demo_bss = \<lparr>sec_name = ''.bss'', sec_idx = Some 2, sec_alignment = 4, sec_nobits = True, sec_alloc = True,
     sec_size = 4, sec_content = []\<rparr>"

definition demo_object :: elf_file where
  "demo_object = \<lparr>elf_is_object = True, elf_is_pie = False, elf_imagebase = 0, elf_segments = [],
     elf_sections = [demo_text, demo_bss], elf_symbols = [],
     elf_relocations = [\<lparr>rel_symbol = Some \<lparr>sym_name = ''x'', sym_section_idx = 2, sym_value = 0\<rparr>,
       rel_section = Some demo_text, rel_address = 1, rel_addend = -4, rel_type = X86_64_PC32\<rparr>]\<rparr>"

text \<open>C11: the layout of an object puts its \<open>.text\<close> section first and then every other section that is
  allocated, each at a multiple of its alignment with its bytes (zeros for \<open>NOBITS\<close>), one behind the
  other without overlap.\<close>

theorem sections_are_laid_out:
  assumes "find_section ''.text'' (elf_sections object) = Some t"
    and "secs = placed_sections t (elf_sections object)"
    and "\<forall>sec \<in> set secs. sec_idx sec \<noteq> None" and "distinct (map sec_idx secs)"
  shows "\<exists>l. layout_sections object = Inr l \<and>
    (length (code_content l) < 2 ^ 64 \<longrightarrow>
       (\<forall>sec \<in> set secs. section_at l sec) \<and>
       sorted_wrt (\<lambda>s t. section_start l s + length (section_image s) \<le> section_start l t) secs)"
  using append_sections_at [OF assms(3,4), of "\<lparr>code_content = [], section_offsets = Map.empty\<rparr>"] assms(1,2)
  by (auto simp: layout_sections_def)

lemma demo_layout_sections:
  "layout_sections demo_object = Inr \<lparr>code_content = [0xE8, 0, 0, 0, 0, 0, 0, 0, 0, 0, 0, 0],
     section_offsets = [1 \<mapsto> 0, 2 \<mapsto> 8]\<rparr>"
  by (simp add: demo_object_def demo_text_def demo_bss_def layout_sections_def placed_sections_def append_section_def
      padding_def section_image_def Let_def replicate_at_numeral upt_rec)

theorem sections_are_laid_out_witness:
  "\<exists>l. layout_sections demo_object = Inr l \<and> section_at l demo_text \<and> section_at l demo_bss"
proof -
  have p: "placed_sections 0 (elf_sections demo_object) = [demo_text, demo_bss]"
    by (simp add: demo_object_def placed_sections_def demo_bss_def upt_rec)
  from sections_are_laid_out [of demo_object 0, OF _ p [symmetric]]
  show ?thesis by (auto simp: demo_layout_sections) (auto simp: demo_object_def demo_text_def demo_bss_def)
qed

section \<open>The jump reaches its target\<close>

text \<open>Where a \<open>jmp rel32\<close> at an address goes: the distance is signed and counts from the next
  instruction.\<close>

definition jump_destination :: "u64 \<Rightarrow> byte list \<Rightarrow> u64" where
  "jump_destination va bytes = va + 5 + word_of_int (signed_take_bit 31 (le_val (drop 1 bytes)))"

lemma le_bytes_4: "le_bytes 4 v = map (\<lambda>k. word_of_int (drop_bit k v)) [0, 8, 16, 24]"
proof -
  have "le_bytes (numeral k) w = word_of_int w # le_bytes (pred_numeral k) (drop_bit 8 w)" for k w
    by (simp add: numeral_eq_Suc)
  then show ?thesis by (simp add: drop_bit_drop_bit)
qed

lemma jmp_bytes_le: "jmp_bytes va target = 0xE9 # le_bytes 4 (uint (target - (va + 5)))"
proof -
  have "ucast (signed_drop_bit k (ucast w :: 32 word) AND 0xFF) = (word_of_int (drop_bit k (uint w)) :: byte)"
    if "k \<in> {0, 8, 16, 24}" for k and w :: u64
  proof (rule bit_word_eqI)
    fix n assume "n < LENGTH(8)"
    then have n: "n < 8" by simp
    have "(0xFF :: 32 word) = mask 8" by (simp add: mask_eq_exp_minus_1)
    then have "bit (0xFF :: 32 word) n" using n by (simp only: bit_mask_iff) simp
    moreover have "k + n < 32" using n that by auto
    ultimately show "bit (ucast (signed_drop_bit k (ucast w :: 32 word) AND 0xFF) :: byte) n =
        bit (word_of_int (drop_bit k (uint w)) :: byte) n"
      using n by (auto simp: bit_simps)
  qed
  then have "map (\<lambda>k. ucast (signed_drop_bit k (ucast (target - (va + 5)) :: 32 word) AND 0xFF)) [0, 8, 16, 24] =
      map (\<lambda>k. word_of_int (drop_bit k (uint (target - (va + 5)))) :: byte) [0, 8, 16, 24]" by (intro map_cong) auto
  also have "\<dots> = le_bytes 4 (uint (target - (va + 5)))" by (simp add: le_bytes_4)
  finally show ?thesis by (simp add: jmp_bytes_def Let_def)
qed

text \<open>C12: the five bytes that are written over the function are a jump to the new code exactly when the
  distance fits into 32 signed bits; the code does not check that it does.\<close>

theorem jump_reaches_target_iff:
  "hd (jmp_bytes va target) = 0xE9 \<and> length (jmp_bytes va target) = 5 \<and>
   (jump_destination va (jmp_bytes va target) = target \<longleftrightarrow>
      - (2 ^ 31) \<le> sint (target - (va + 5)) \<and> sint (target - (va + 5)) < 2 ^ 31)"
proof -
  let ?w = "target - (va + 5)"
  have low: "signed_take_bit 31 (take_bit 32 (uint ?w)) = signed_take_bit 31 (sint ?w)"
    by (simp add: signed_take_bit_take_bit sint_uint signed_take_bit_signed_take_bit)
  have "jump_destination va (jmp_bytes va target) = va + 5 + word_of_int (signed_take_bit 31 (sint ?w))"
    using low by (simp add: jump_destination_def jmp_bytes_le le_val_le_bytes)
  also have "\<dots> = target \<longleftrightarrow> (word_of_int (signed_take_bit 31 (sint ?w)) :: u64) = ?w"
    by (metis add_diff_cancel_left' add.commute diff_add_cancel)
  also have "\<dots> \<longleftrightarrow> signed_take_bit 31 (sint ?w) = sint ?w"
  proof
    assume "(word_of_int (signed_take_bit 31 (sint ?w)) :: u64) = ?w"
    then have "sint (word_of_int (signed_take_bit 31 (sint ?w)) :: u64) = sint ?w" by simp
    then show "signed_take_bit 31 (sint ?w) = sint ?w"
      by (simp add: sint_sbintrunc' signed_take_bit_signed_take_bit)
  qed simp
  finally show ?thesis by (simp add: jmp_bytes_le signed_take_bit_int_eq_self_iff)
qed

section \<open>Relocations are applied\<close>

text \<open>What a relocation of the object writes, and where.\<close>

definition reloc_write ::
  "(nat \<rightharpoonup> u64) \<Rightarrow> u64 \<Rightarrow> u64 \<Rightarrow> u64 \<Rightarrow> elf_reloc \<Rightarrow> (nat \<times> byte list) option" where
  "reloc_write offsets rva image_base shift_offset reloc =
     (case reloc_site offsets rva image_base shift_offset reloc of None \<Rightarrow> None
      | Some (patch_offset, patch_va, symbol_va) \<Rightarrow>
          (case reloc_bytes reloc patch_va symbol_va of Inl e \<Rightarrow> None | Inr bytes \<Rightarrow> Some (unat patch_offset, bytes)))"

definition supported :: "elf_reloc \<Rightarrow> bool" where
  "supported reloc \<longleftrightarrow> (\<forall>n. rel_type reloc \<noteq> Other_reloc n)"

definition apart :: "(nat \<times> byte list) option \<Rightarrow> (nat \<times> byte list) option \<Rightarrow> bool" where
  "apart x y \<longleftrightarrow>
     (case x of None \<Rightarrow> True | Some (o1, b1) \<Rightarrow>
        (case y of None \<Rightarrow> True | Some (o2, b2) \<Rightarrow> o1 + length b1 \<le> o2 \<or> o2 + length b2 \<le> o1))"

definition within :: "nat \<Rightarrow> (nat \<times> byte list) option \<Rightarrow> bool" where
  "within n x \<longleftrightarrow> (case x of None \<Rightarrow> True | Some (off, b) \<Rightarrow> off + length b \<le> n)"

definition overwrite :: "(nat \<times> byte list) option \<Rightarrow> byte list \<Rightarrow> byte list" where
  "overwrite x code =
     (case x of None \<Rightarrow> code | Some (off, b) \<Rightarrow> take off code @ b @ drop (off + length b) code)"

lemma reloc_bytes_supported: "supported r \<Longrightarrow> \<exists>bytes. reloc_bytes r p s = Inr bytes"
  by (cases "rel_type r") (auto simp: supported_def reloc_bytes_def)

lemma apply_reloc_overwrite:
  assumes "supported r" and "within (length code) (reloc_write offsets rva ib sh r)"
  shows "apply_reloc offsets rva ib sh r code = Inr (overwrite (reloc_write offsets rva ib sh r) code)"
proof (cases "reloc_site offsets rva ib sh r")
  case (Some site)
  obtain off p sva where site: "site = (off, p, sva)" by (cases site)
  obtain bytes where "reloc_bytes r p sva = Inr bytes" using reloc_bytes_supported [OF assms(1)] by blast
  with Some site assms(2) show ?thesis
    by (simp add: apply_reloc_def reloc_write_def memcpy_at_def overwrite_def within_def)
qed (simp add: apply_reloc_def reloc_write_def overwrite_def)

lemma length_overwrite [simp]: "within (length code) x \<Longrightarrow> length (overwrite x code) = length code"
  by (auto simp: overwrite_def within_def split: option.splits)

lemma overwrite_same:
  "within (length code) (Some (off, b)) \<Longrightarrow> take (length b) (drop off (overwrite (Some (off, b)) code)) = b"
  by (simp add: overwrite_def within_def)

lemma nth_overwrite_other:
  "within (length code) x \<Longrightarrow> i < length code \<Longrightarrow> (\<And>off b. x = Some (off, b) \<Longrightarrow> i < off \<or> off + length b \<le> i) \<Longrightarrow>
   overwrite x code ! i = code ! i"
  by (fastforce simp: overwrite_def within_def nth_append split: option.splits)

lemma overwrite_keeps:
  assumes "within (length code) x" and "within (length code) (Some (off, b))" and "apart (Some (off, b)) x"
    and "take (length b) (drop off code) = b"
  shows "take (length b) (drop off (overwrite x code)) = b"
proof -
  have "take (length b) (drop off (overwrite x code)) = take (length b) (drop off code)"
  proof (rule nth_equalityI)
    fix i assume "i < length (take (length b) (drop off (overwrite x code)))"
    then have i: "i < length b" by simp
    then have "overwrite x code ! (off + i) = code ! (off + i)"
      using assms(1-3) by (intro nth_overwrite_other) (auto simp: within_def apart_def)
    with i assms(1,2) show "take (length b) (drop off (overwrite x code)) ! i = take (length b) (drop off code) ! i"
      by (simp add: within_def)
  qed (use assms(1) in simp)
  with assms(4) show ?thesis by simp
qed

lemma relocations_overwrite:
  assumes "\<forall>r \<in> set rs. supported r \<and> within (length code) (reloc_write offsets rva ib sh r)"
  shows "res_fold (apply_reloc offsets rva ib sh) rs code =
    Inr (fold overwrite (map (reloc_write offsets rva ib sh) rs) code)"
  using assms
proof (induction rs arbitrary: code)
  case (Cons r rs)
  then show ?case by (simp add: apply_reloc_overwrite)
qed simp

lemma fold_overwrite_keeps:
  assumes "\<forall>x \<in> set xs. within (length code) x \<and> apart (Some (off, b)) x"
    and "within (length code) (Some (off, b))" and "take (length b) (drop off code) = b"
  shows "take (length b) (drop off (fold overwrite xs code)) = b"
  using assms by (induction xs arbitrary: code) (auto simp: overwrite_keeps)

lemma fold_overwrite_at:
  assumes "sorted_wrt apart xs" and "\<forall>x \<in> set xs. within (length code) x" and "Some (off, b) \<in> set xs"
  shows "take (length b) (drop off (fold overwrite xs code)) = b"
  using assms
proof (induction xs arbitrary: code)
  case (Cons x xs)
  show ?case
  proof (cases "x = Some (off, b)")
    case True
    with Cons.prems show ?thesis
      using fold_overwrite_keeps [of xs "overwrite x code" off b] overwrite_same by simp
  next
    case False
    with Cons show ?thesis by simp
  qed
qed simp

lemma fold_overwrite_other:
  assumes "\<forall>x \<in> set xs. within (length code) x \<and> (\<forall>off b. x = Some (off, b) \<longrightarrow> i < off \<or> off + length b \<le> i)"
    and "i < length code"
  shows "length (fold overwrite xs code) = length code \<and> fold overwrite xs code ! i = code ! i"
  using assms by (induction xs arbitrary: code) (auto simp: nth_overwrite_other)

text \<open>The number that the ABI defines for a relocation: relative to the place for \<open>PC32\<close> and \<open>PLT32\<close>, and
  absolute otherwise, with its width in bytes.\<close>

definition abi_value :: "elf_reloc \<Rightarrow> u64 \<Rightarrow> u64 \<Rightarrow> u64" where
  "abi_value reloc place symbol =
     (if rel_type reloc = X86_64_PC32 \<or> rel_type reloc = X86_64_PLT32
      then symbol + rel_addend reloc - place else symbol + rel_addend reloc)"

definition abi_width :: "elf_reloc \<Rightarrow> nat" where
  "abi_width reloc = (if rel_type reloc = X86_64_64 then 8 else 4)"

lemma reloc_write_abi:
  assumes "supported r" and "reloc_site offsets rva ib sh r = Some (off, place, symbol)"
  shows "reloc_write offsets rva ib sh r = Some (unat off, le_bytes (abi_width r) (uint (abi_value r place symbol)))"
  using assms by (cases "rel_type r") (auto simp: supported_def reloc_write_def reloc_bytes_def abi_value_def abi_width_def)


lemma demo_relocation:
  "map (reloc_write [1 \<mapsto> 0, 2 \<mapsto> 8] 0x5000 0 0) (elf_relocations demo_object) = [Some (1, le_bytes 4 3)]"
  "\<forall>r \<in> set (elf_relocations demo_object). supported r \<and> abi_width r = 4 \<and>
     reloc_site [1 \<mapsto> 0, 2 \<mapsto> 8] 0x5000 0 0 r = Some (1, 0x5001, 0x5008) \<and> abi_value r 0x5001 0x5008 = 3"
  by (simp_all add: demo_object_def demo_text_def reloc_write_def reloc_site_def reloc_bytes_def symbol_address_def
      supported_def abi_width_def abi_value_def)


end
