(* ===== verification/Pass_Manager.thy ===== *)
theory Pass_Manager
  imports Fuel_Loop
begin

text \<open>
  \<open>vexa::ir::pass_manager\<close> (pass_manager.hpp, pass_manager.cpp): the passes run in order, and as soon as one
  reports a change the pipeline starts over; a pass that is not recursive runs once. What a pass does to the
  function is an argument, as are the verifier of LLVM and what is done at the end (Block_Order).
\<close>

section \<open>Passes\<close>

record 'f pass =
  pass_run :: "'f \<Rightarrow> (bool \<times> 'f) res"
  is_recursive :: bool
  did_run :: bool

text \<open>One run over the pipeline, up to the first pass that reports a change.\<close>

fun run_passes :: "'f pass list \<Rightarrow> 'f \<Rightarrow> (bool \<times> 'f pass list \<times> 'f) res" where
  "run_passes [] f = Inr (False, [], f)"
| "run_passes (p # ps) f =
     (if \<not> is_recursive p \<and> did_run p then
        res_bind (run_passes ps f) (\<lambda>(repeat, ps1, f1). Inr (repeat, p # ps1, f1))
      else
        res_bind (pass_run p f) (\<lambda>(repeat, f1).
        if repeat then Inr (True, p\<lparr>did_run := True\<rparr> # ps, f1)
        else res_bind (run_passes ps f1) (\<lambda>(repeat1, ps1, f2). Inr (repeat1, p\<lparr>did_run := True\<rparr> # ps1, f2))))"

fun repeat_passes :: "nat \<Rightarrow> 'f pass list \<Rightarrow> 'f \<Rightarrow> ('f pass list \<times> 'f) res" where
  "repeat_passes 0 ps f = Inl Diverges"
| "repeat_passes (Suc fuel) ps f =
     res_bind (run_passes ps f) (\<lambda>(repeat, ps1, f1). if repeat then repeat_passes fuel ps1 f1 else Inr (ps1, f1))"

definition manager_run :: "('f \<Rightarrow> bool) \<Rightarrow> ('f \<Rightarrow> 'f) \<Rightarrow> nat \<Rightarrow> 'f pass list \<Rightarrow> 'f \<Rightarrow> ('f pass list \<times> 'f) res" where
  "manager_run broken tidy fuel pipeline f =
     (if broken f then Inl (Throw ''invalid IR before optimization!'')
      else res_bind (repeat_passes fuel pipeline f) (\<lambda>(ps, f1). Inr (ps, tidy f1)))"

section \<open>What a pass owes the manager\<close>

text \<open>A pass never gets stuck, and a recursive one lowers a measure when it reports a change and does not
  raise it otherwise. Nothing is asked of the measure for the other passes.\<close>

definition pass_ok :: "('f \<Rightarrow> nat) \<Rightarrow> 'f pass \<Rightarrow> bool" where
  "pass_ok \<mu> p \<longleftrightarrow>
     (\<forall>f. pass_run p f \<noteq> Inl Diverges) \<and>
     (is_recursive p \<longrightarrow>
        (\<forall>f b f'. pass_run p f = Inr (b, f') \<longrightarrow> (if b then \<mu> f' < \<mu> f else \<mu> f' \<le> \<mu> f)))"

definition waiting :: "'f pass list \<Rightarrow> nat" where
  "waiting ps = length (filter (\<lambda>p. \<not> is_recursive p \<and> \<not> did_run p) ps)"

text \<open>A run over the pipeline either uses up passes that run once, or goes down with the measure.\<close>

lemma run_passes_ok:
  assumes "run_passes ps f = Inr (repeat, ps', f')" and "\<forall>p \<in> set ps. pass_ok \<mu> p"
  shows "(\<forall>p \<in> set ps'. pass_ok \<mu> p) \<and> waiting ps' \<le> waiting ps \<and>
    (waiting ps' = waiting ps \<longrightarrow> (if repeat then \<mu> f' < \<mu> f else \<mu> f' \<le> \<mu> f))"
  using assms
proof (induction ps f arbitrary: ps' f' repeat rule: run_passes.induct)
  case (1 f)
  then show ?case by simp
next
  case (2 p ps f)
  show ?case
  proof (cases "\<not> is_recursive p \<and> did_run p")
    case True
    then obtain ps1 where "run_passes ps f = Inr (repeat, ps1, f')" "ps' = p # ps1"
      using "2.prems" by (auto elim!: res_bindE)
    with "2.IH"(1) [OF True] "2.prems" True show ?thesis by (simp add: waiting_def)
  next
    case False
    then obtain r f1 where r: "pass_run p f = Inr (r, f1)"
      using "2.prems" by (auto elim!: res_bindE)
    have p: "pass_ok \<mu> p" "pass_ok \<mu> (p\<lparr>did_run := True\<rparr>)" using "2.prems" by (auto simp: pass_ok_def)
    have mu: "is_recursive p \<Longrightarrow> (if r then \<mu> f1 < \<mu> f else \<mu> f1 \<le> \<mu> f)"
      using p(1) r unfolding pass_ok_def by blast
    show ?thesis
    proof (cases r)
      case True
      then have "ps' = p\<lparr>did_run := True\<rparr> # ps" "f' = f1" "repeat" using "2.prems" False r by auto
      with p mu True False "2.prems" show ?thesis by (auto simp: waiting_def)
    next
      case r': False
      then obtain ps1 where ps1: "run_passes ps f1 = Inr (repeat, ps1, f')" "ps' = p\<lparr>did_run := True\<rparr> # ps1"
        using "2.prems" False r by (auto elim!: res_bindE)
      have "(\<forall>q \<in> set ps1. pass_ok \<mu> q) \<and> waiting ps1 \<le> waiting ps \<and>
          (waiting ps1 = waiting ps \<longrightarrow> (if repeat then \<mu> f' < \<mu> f1 else \<mu> f' \<le> \<mu> f1))"
        using "2.IH"(2) [OF False r' ps1(1)] "2.prems" by auto
      with p mu r' False ps1(2) show ?thesis by (auto simp: waiting_def split: if_splits)
    qed
  qed
qed

lemma run_passes_returns: "\<forall>p \<in> set ps. pass_ok \<mu> p \<Longrightarrow> run_passes ps f \<noteq> Inl Diverges"
  by (induction ps arbitrary: f) (auto simp: pass_ok_def res_bind_eq_Inl split: if_splits)

section \<open>The manager ends\<close>

definition manager_body :: "'f pass list \<times> 'f \<Rightarrow> (bool \<times> 'f pass list \<times> 'f) res" where
  "manager_body s = res_bind (run_passes (fst s) (snd s)) (\<lambda>(repeat, s'). Inr (\<not> repeat, s'))"

interpretation passes: fuel_loop manager_body "\<lambda>s. s" "\<lambda>n s. repeat_passes n (fst s) (snd s)"
  "\<lambda>s. \<forall>p \<in> set (fst s). pass_ok \<mu> p" "measures [waiting \<circ> fst, \<mu> \<circ> snd]" for \<mu> :: "'f \<Rightarrow> nat"
proof unfold_locales
  fix n and s :: "'f pass list \<times> 'f"
  show "repeat_passes (Suc n) (fst s) (snd s) =
      res_bind (manager_body s) (\<lambda>(over, s'). if over then Inr s' else repeat_passes n (fst s') (snd s'))"
    by (cases "run_passes (fst s) (snd s)") (auto simp: manager_body_def)
next
  fix s :: "'f pass list \<times> 'f" assume "\<forall>p \<in> set (fst s). pass_ok \<mu> p"
  then show "manager_body s \<noteq> Inl Diverges"
    using run_passes_returns [of "fst s" \<mu> "snd s"] by (auto simp: manager_body_def res_bind_eq_Inl)
next
  fix s over s' assume "\<forall>p \<in> set (fst s). pass_ok \<mu> p" and "manager_body s = Inr (over, s')"
  then show "\<forall>p \<in> set (fst s'). pass_ok \<mu> p"
    using run_passes_ok [of "fst s" "snd s" _ "fst s'" "snd s'" \<mu>] by (auto simp: manager_body_def elim!: res_bindE)
next
  fix s s' assume "\<forall>p \<in> set (fst s). pass_ok \<mu> p" and "manager_body s = Inr (False, s')"
  then show "(s', s) \<in> measures [waiting \<circ> fst, \<mu> \<circ> snd]"
    using run_passes_ok [of "fst s" "snd s" True "fst s'" "snd s'" \<mu>]
    by (auto simp: manager_body_def elim!: res_bindE)
qed simp_all

lemma manager_terminates:
  assumes "\<forall>p \<in> set pipeline. pass_ok \<mu> p"
  shows "\<exists>n. \<forall>fuel \<ge> n. manager_run broken tidy fuel pipeline f \<noteq> Inl Diverges"
proof -
  from assms passes.terminates [where \<mu> = \<mu> and s = "(pipeline, f)"]
  obtain n where "\<forall>m \<ge> n. repeat_passes m pipeline f \<noteq> Inl Diverges" by auto
  then show ?thesis by (auto simp: manager_run_def res_bind_eq_Inl)
qed

text \<open>the pass manager always comes to an end: if every recursive pass lowers some measure of the function
  whenever it reports a change and otherwise does not raise it, enough fuel gives a result or the exception of
  a pass, whatever the passes that run once do.\<close>

theorem pass_manager_terminates:
  assumes "\<forall>p \<in> set pipeline. pass_ok \<mu> p"
  shows "\<exists>n. \<forall>fuel \<ge> n. manager_run broken tidy fuel pipeline f \<noteq> Inl Diverges"
  using manager_terminates [OF assms] .

text \<open>A pipeline of one pass that removes an element per run and one that runs once and puts three more in.\<close>

definition demo_pipeline :: "nat list pass list" where
  "demo_pipeline =
     [\<lparr>pass_run = (\<lambda>xs. Inr (xs \<noteq> [], tl xs)), is_recursive = True, did_run = False\<rparr>,
      \<lparr>pass_run = (\<lambda>xs. Inr (True, [1, 2, 3])), is_recursive = False, did_run = False\<rparr>]"

lemma demo_pipeline_ok: "\<forall>p \<in> set demo_pipeline. pass_ok length p"
  by (auto simp: demo_pipeline_def pass_ok_def)

theorem pass_manager_terminates_witness:
  "\<exists>n. \<forall>fuel \<ge> n. manager_run (\<lambda>_. False) rev fuel demo_pipeline [7] \<noteq> Inl Diverges"
  using pass_manager_terminates [OF demo_pipeline_ok] by blast

section \<open>What holds when it ends\<close>

text \<open>A run over the pipeline in which no pass reports a change, from one function to another.\<close>

fun settles :: "'f pass list \<Rightarrow> 'f \<Rightarrow> 'f \<Rightarrow> bool" where
  "settles [] f f' \<longleftrightarrow> f' = f"
| "settles (p # ps) f f' \<longleftrightarrow>
     (if \<not> is_recursive p \<and> did_run p then settles ps f f'
      else \<exists>f1. pass_run p f = Inr (False, f1) \<and> settles ps f1 f')"

definition same_passes :: "'f pass list \<Rightarrow> 'f pass list \<Rightarrow> bool" where
  "same_passes ps ps' \<longleftrightarrow> list_all2 (\<lambda>p q. pass_run q = pass_run p \<and> is_recursive q = is_recursive p \<and>
     (did_run p \<longrightarrow> did_run q)) ps ps'"

lemma same_passes_trans: "same_passes ps qs \<Longrightarrow> same_passes qs rs \<Longrightarrow> same_passes ps rs"
  by (auto simp: same_passes_def list_all2_conv_all_nth)

lemma run_passes_result:
  "run_passes ps f = Inr (repeat, ps', f') \<Longrightarrow>
     same_passes ps ps' \<and> (\<not> repeat \<longrightarrow> settles ps f f' \<and> (\<forall>p \<in> set ps'. did_run p))"
proof (induction ps f arbitrary: ps' f' repeat rule: run_passes.induct)
  case (1 f)
  then show ?case by (simp add: same_passes_def)
next
  case (2 p ps f)
  have refl: "same_passes ps ps" by (simp add: same_passes_def list_all2_refl)
  show ?case
  proof (cases "\<not> is_recursive p \<and> did_run p")
    case True
    then obtain ps1 where "run_passes ps f = Inr (repeat, ps1, f')" "ps' = p # ps1"
      using "2.prems" by (auto elim!: res_bindE)
    with "2.IH"(1) [OF True] True show ?thesis by (auto simp: same_passes_def)
  next
    case False
    then obtain r f1 where r: "pass_run p f = Inr (r, f1)"
      using "2.prems" by (auto elim!: res_bindE)
    show ?thesis
    proof (cases r)
      case True
      with "2.prems" False r refl show ?thesis by (auto simp: same_passes_def)
    next
      case r': False
      then obtain ps1 where ps1: "run_passes ps f1 = Inr (repeat, ps1, f')" "ps' = p\<lparr>did_run := True\<rparr> # ps1"
        using "2.prems" False r by (auto elim!: res_bindE)
      from "2.IH"(2) [OF False r' ps1(1)] r r' False ps1(2) show ?thesis by (auto simp: same_passes_def)
    qed
  qed
qed

lemma repeat_passes_result:
  "repeat_passes n ps f = Inr (ps', f') \<Longrightarrow>
     \<exists>qs f0. same_passes ps qs \<and> settles qs f0 f' \<and> same_passes qs ps' \<and> (\<forall>p \<in> set ps'. did_run p)"
proof (induction n arbitrary: ps f)
  case (Suc n)
  from Suc.prems obtain repeat ps1 f1 where r: "run_passes ps f = Inr (repeat, ps1, f1)"
      and rest: "(if repeat then repeat_passes n ps1 f1 else Inr (ps1, f1)) = Inr (ps', f')"
    by (auto elim!: res_bindE)
  note first = run_passes_result [OF r]
  show ?case
  proof (cases repeat)
    case True
    with rest Suc.IH [of ps1 f1] first show ?thesis by (auto intro: same_passes_trans)
  next
    case False
    have "same_passes ps ps" by (simp add: same_passes_def list_all2_refl)
    with False rest first show ?thesis by auto
  qed
qed simp

lemma manager_settles:
  assumes "manager_run broken tidy fuel pipeline f = Inr (ps, f')"
  shows "(\<forall>p \<in> set ps. did_run p) \<and>
    (\<exists>qs f0 f1. same_passes pipeline qs \<and> settles qs f0 f1 \<and> same_passes qs ps \<and> f' = tidy f1)"
proof -
  from assms obtain f1 where "repeat_passes fuel pipeline f = Inr (ps, f1)" "f' = tidy f1"
    by (auto simp: manager_run_def split: if_splits elim!: res_bindE)
  with repeat_passes_result [of fuel pipeline f ps f1] show ?thesis by blast
qed

text \<open>when the pass manager returns, every pass has run, and the function it returns (before the blocks are
  reordered) is the outcome of a run over the whole pipeline in which every recursive pass took part and none
  reported a change.\<close>

theorem pass_manager_settles:
  assumes "manager_run broken tidy fuel pipeline f = Inr (ps, f')"
  shows "(\<forall>p \<in> set ps. did_run p) \<and>
    (\<exists>qs f0 f1. same_passes pipeline qs \<and> settles qs f0 f1 \<and> same_passes qs ps \<and> f' = tidy f1)"
  using manager_settles [OF assms] .

lemma demo_pipeline_run:
  "manager_run (\<lambda>_. False) rev 10 demo_pipeline [7] = Inr (map (\<lambda>p. p\<lparr>did_run := True\<rparr>) demo_pipeline, [])"
  by (simp add: manager_run_def demo_pipeline_def eval_nat_numeral)

theorem pass_manager_settles_witness:
  "\<exists>qs f0 f1. same_passes demo_pipeline qs \<and> settles qs f0 f1 \<and> rev f1 = []"
  using pass_manager_settles [OF demo_pipeline_run] by force

end
