(* ===== verification/Block_Order.thy ===== *)
theory Block_Order
  imports Ir_Semantics
begin

text \<open>
  The end of \<open>vexa::ir::pass_manager::run\<close> (pass_manager.cpp): the blocks are moved into the reverse post order, one behind the
  other, and the instructions lose their names. The traversal of LLVM is an argument, and so is what LLVM knows of
  the type of an instruction.
\<close>

section \<open>Moving blocks\<close>

text \<open>A block is the number of its position, so that moving a block gives new numbers to the blocks. The list has the old
  numbers in their new order; \<open>new_number\<close> is the number that a block has then.\<close>

fun position :: "'a list \<Rightarrow> 'a \<Rightarrow> nat" where
  "position [] x = 0"
| "position (y # ys) x = (if x = y then 0 else Suc (position ys x))"

definition new_number :: "block_id list \<Rightarrow> block_id \<Rightarrow> block_id" where
  "new_number order k = (if k \<in> set order then position order k else k)"

definition arrange :: "block_id list \<Rightarrow> ir_builder \<Rightarrow> ir_builder" where
  "arrange order b =
     b\<lparr>ir_blocks := map (\<lambda>k. map (\<lambda>(i, inst). (i, retarget (new_number order) inst)) (ir_blocks b ! k)) order,
       ir_ip := (new_number order (fst (ir_ip b)), snd (ir_ip b)),
       insert_points := map (\<lambda>(k, p). (new_number order k, p)) (insert_points b)\<rparr>"

fun place_after :: "'a \<Rightarrow> 'a \<Rightarrow> 'a list \<Rightarrow> 'a list" where
  "place_after a c [] = []"
| "place_after a c (x # xs) = (if x = a then x # c # xs else x # place_after a c xs)"

definition moveAfter :: "block_id \<Rightarrow> block_id \<Rightarrow> ir_builder \<Rightarrow> block_id list \<times> ir_builder" where
  "moveAfter c a b =
     (let order = place_after a c (filter (\<lambda>k. k \<noteq> c) [0..<length (ir_blocks b)]) in (order, arrange order b))"

text \<open>The loop over \<open>OrderedBlocks\<close>, whose blocks keep their places in the list under their new numbers.\<close>

function move_in_order :: "block_id list \<Rightarrow> ir_builder \<Rightarrow> ir_builder" where
  "move_in_order (a # c # rest) b =
     (case moveAfter c a b of (order, b1) \<Rightarrow> move_in_order (map (new_number order) (c # rest)) b1)"
| "move_in_order [a] b = b"
| "move_in_order [] b = b"
  by pat_completeness auto
termination by (relation "measure (length \<circ> fst)") auto

definition reorder_blocks :: "(ir_blocks \<Rightarrow> block_id list) \<Rightarrow> ir_builder \<Rightarrow> ir_builder" where
  "reorder_blocks rpo b = move_in_order (rpo (ir_blocks b)) b"

text \<open>\<open>setName("")\<close> takes the name of an instruction out of the symbol table.\<close>

definition strip_names :: "(ir_inst \<Rightarrow> bool) \<Rightarrow> ir_builder \<Rightarrow> ir_builder" where
  "strip_names is_pointer b =
     b\<lparr>ir_names := (\<lambda>s. case ir_names b s of None \<Rightarrow> None
        | Some v \<Rightarrow> if \<exists>node \<in> set (concat (ir_blocks b)). v = LValue (fst node) \<and> \<not> is_pointer (snd node) then None else Some v)\<rparr>"

definition tidy_function :: "(ir_blocks \<Rightarrow> block_id list) \<Rightarrow> (ir_inst \<Rightarrow> bool) \<Rightarrow> ir_builder \<Rightarrow> ir_builder" where
  "tidy_function rpo is_pointer b = strip_names is_pointer (reorder_blocks rpo b)"

section \<open>Renumbering\<close>

lemma position_less: "k \<in> set xs \<Longrightarrow> position xs k < length xs"
  by (induction xs) auto

lemma nth_position: "k \<in> set xs \<Longrightarrow> xs ! position xs k = k"
  by (induction xs) auto

lemma position_nth: "distinct xs \<Longrightarrow> p < length xs \<Longrightarrow> position xs (xs ! p) = p"
  by (meson nth_eq_iff_index_eq nth_mem nth_position position_less)

lemma position_map: "inj_on f (insert k (set xs)) \<Longrightarrow> position (map f xs) (f k) = position xs k"
  by (induction xs) (auto simp: inj_on_def)

lemma new_number_nth: "distinct l \<Longrightarrow> p < length l \<Longrightarrow> new_number l (l ! p) = p"
  by (simp add: new_number_def position_nth)

lemma nth_new_number: "k \<in> set l \<Longrightarrow> l ! new_number l k = k"
  by (simp add: new_number_def nth_position)

lemma new_number_less: "k \<in> set l \<Longrightarrow> new_number l k < length l"
  by (simp add: new_number_def position_less)

text \<open>An order of \<open>n\<close> blocks has each of them once.\<close>

definition orders :: "nat \<Rightarrow> block_id list \<Rightarrow> bool" where
  "orders n l \<longleftrightarrow> distinct l \<and> set l = {..<n}"

lemma orders_length: "orders n l \<Longrightarrow> length l = n"
  using distinct_card by (fastforce simp: orders_def)

lemma orders_upt [simp]: "orders n [0..<n]"
  by (auto simp: orders_def)

lemma nth_inj_on: "orders n l \<Longrightarrow> inj_on ((!) l) {..<n}"
  using orders_length by (fastforce simp: orders_def inj_on_def nth_eq_iff_index_eq)

lemma orders_map: "orders n l \<Longrightarrow> orders n l2 \<Longrightarrow> orders n (map ((!) l) l2)"
proof -
  assume l: "orders n l" and l2: "orders n l2"
  have "(!) l ` {..<n} = set l" using orders_length [OF l] by (auto simp: set_conv_nth)
  then show ?thesis using l l2 nth_inj_on [OF l] by (simp add: orders_def distinct_map)
qed

lemma new_number_upt: "new_number [0..<n] k = k"
  using position_nth [of "[0..<n]" k] by (auto simp: new_number_def)

lemma new_number_comp:
  assumes "orders n l" and "orders n l2"
  shows "new_number (map ((!) l) l2) k = new_number l2 (new_number l k)"
proof (cases "k < n")
  case True
  then have k: "k \<in> set l" "new_number l k < n" using assms(1) new_number_less orders_length by (fastforce simp: orders_def)+
  have "inj_on ((!) l) (insert (new_number l k) (set l2))"
    using nth_inj_on [OF assms(1)] assms(2) k(2) by (simp add: orders_def insert_absorb)
  from position_map [OF this] have "position (map ((!) l) l2) k = position l2 (new_number l k)" by (simp add: nth_new_number [OF k(1)])
  moreover have "k \<in> set (map ((!) l) l2)" using orders_map [OF assms] True by (simp add: orders_def)
  ultimately show ?thesis using assms(2) k(2) by (simp add: new_number_def orders_def)
next
  case False
  then show ?thesis using orders_map [OF assms] assms by (simp add: new_number_def orders_def)
qed

lemma retarget_comp: "retarget f (retarget g inst) = retarget (\<lambda>k. f (g k)) inst"
  by (cases inst) simp_all

lemma retarget_id [simp]: "retarget (\<lambda>k. k) inst = inst"
  by (cases inst) simp_all

lemma arrange_upt: "arrange [0..<length (ir_blocks b)] b = b"
proof -
  have "new_number [0..<length (ir_blocks b)] = (\<lambda>k. k)" by (simp add: new_number_upt fun_eq_iff)
  then show ?thesis by (simp add: arrange_def map_nth)
qed

lemma arrange_arrange:
  assumes "orders (length (ir_blocks b)) l" and "orders (length (ir_blocks b)) l2"
  shows "arrange l2 (arrange l b) = arrange (map ((!) l) l2) b"
proof -
  have comp: "new_number (map ((!) l) l2) = (\<lambda>k. new_number l2 (new_number l k))"
    using new_number_comp [OF assms] by (simp add: fun_eq_iff)
  have "\<forall>k \<in> set l2. k < length l" using assms orders_length by (fastforce simp: orders_def)
  then have "ir_blocks (arrange l2 (arrange l b)) = ir_blocks (arrange (map ((!) l) l2) b)"
    by (simp add: arrange_def comp retarget_comp case_prod_unfold comp_def)
  then show ?thesis by (simp add: arrange_def comp case_prod_unfold comp_def)
qed

section \<open>The order of the blocks\<close>

text \<open>The moves on the original numbers.\<close>

fun moves :: "block_id list \<Rightarrow> block_id list \<Rightarrow> block_id list" where
  "moves (a # c # rest) l = moves (c # rest) (place_after a c (filter (\<lambda>k. k \<noteq> c) l))"
| "moves xs l = l"

lemma map_place_after: "inj_on f (insert a (set xs)) \<Longrightarrow> map f (place_after a c xs) = place_after (f a) (f c) (map f xs)"
  by (induction xs) (auto simp: inj_on_def)

lemma set_place_after: "a \<in> set xs \<Longrightarrow> set (place_after a c xs) = insert c (set xs)"
  by (induction xs) auto

lemma distinct_place_after: "distinct xs \<Longrightarrow> c \<notin> set xs \<Longrightarrow> distinct (place_after a c xs)"
proof (induction xs)
  case (Cons x xs)
  have "set (place_after a c xs) \<subseteq> insert c (set xs)" by (induction xs) auto
  with Cons show ?case by auto
qed simp

lemma orders_place_after:
  assumes "orders n l" and "a < n" and "c < n" and "a \<noteq> c"
  shows "orders n (place_after a c (filter (\<lambda>k. k \<noteq> c) l))"
proof -
  have "a \<in> set (filter (\<lambda>k. k \<noteq> c) l)" using assms by (simp add: orders_def)
  from set_place_after [OF this, of c] show ?thesis
    using assms distinct_place_after [of "filter (\<lambda>k. k \<noteq> c) l" c a] by (auto simp: orders_def)
qed

lemma move_labels:
  assumes "orders n l" and "a < n" and "c < n" and "a \<noteq> c"
  shows "map ((!) l) (place_after (new_number l a) (new_number l c) (filter (\<lambda>k. k \<noteq> new_number l c) [0..<n])) =
    place_after a c (filter (\<lambda>k. k \<noteq> c) l)"
proof -
  have in_l: "a \<in> set l" "c \<in> set l" using assms by (simp_all add: orders_def)
  have len: "length l = n" using orders_length [OF assms(1)] .
  have other: "filter (\<lambda>k. k \<noteq> new_number l c) [0..<n] = filter (\<lambda>k. l ! k \<noteq> c) [0..<n]"
    using assms(1) in_l(2) nth_new_number [OF in_l(2)] len new_number_nth by (intro filter_cong) (auto simp: orders_def)
  have "inj_on ((!) l) (insert (new_number l a) (set (filter (\<lambda>k. k \<noteq> new_number l c) [0..<n])))"
    by (rule inj_on_subset [OF nth_inj_on [OF assms(1)]]) (use new_number_less [OF in_l(1)] in \<open>auto simp: len\<close>)
  then have "map ((!) l) (place_after (new_number l a) (new_number l c) (filter (\<lambda>k. k \<noteq> new_number l c) [0..<n])) =
      place_after a c (map ((!) l) (filter (\<lambda>k. k \<noteq> new_number l c) [0..<n]))"
    by (simp add: map_place_after nth_new_number in_l)
  also have "map ((!) l) (filter (\<lambda>k. k \<noteq> new_number l c) [0..<n]) = filter (\<lambda>k. k \<noteq> c) (map ((!) l) [0..<n])"
    unfolding other by (simp add: filter_map comp_def)
  also have "map ((!) l) [0..<n] = l" using len map_nth by blast
  finally show ?thesis .
qed

lemma move_in_order_moves:
  assumes "orders (length (ir_blocks b)) l" and "distinct xs" and "set xs \<subseteq> set l"
  shows "move_in_order (map (new_number l) xs) (arrange l b) = arrange (moves xs l) b"
  using assms
proof (induction xs l rule: moves.induct)
  case (1 a c rest l)
  let ?n = "length (ir_blocks b)" and ?l = "place_after a c (filter (\<lambda>k. k \<noteq> c) l)"
  let ?o = "place_after (new_number l a) (new_number l c) (filter (\<lambda>k. k \<noteq> new_number l c) [0..<?n])"
  have ac: "a < ?n" "c < ?n" "a \<noteq> c" and in_l: "a \<in> set l" "c \<in> set l" using "1.prems" by (auto simp: orders_def)
  have len: "length l = ?n" using orders_length [OF "1.prems"(1)] .
  have ne: "new_number l a \<noteq> new_number l c" using nth_new_number in_l ac(3) by metis
  have o: "orders ?n ?o" using orders_place_after [OF orders_upt _ _ ne] new_number_less in_l len by metis
  have l: "map ((!) l) ?o = ?l" by (rule move_labels [OF "1.prems"(1) ac])
  have "moveAfter (new_number l c) (new_number l a) (arrange l b) = (?o, arrange ?l b)"
    using arrange_arrange [OF "1.prems"(1) o] l by (simp add: moveAfter_def Let_def arrange_def [of l b] len)
  moreover have "map (new_number ?o) (map (new_number l) (c # rest)) = map (new_number ?l) (c # rest)"
    using new_number_comp [OF "1.prems"(1) o] l unfolding map_map by (intro map_cong) simp_all
  ultimately have "move_in_order (map (new_number l) (a # c # rest)) (arrange l b) =
      move_in_order (map (new_number ?l) (c # rest)) (arrange ?l b)" by (simp only: list.map move_in_order.simps prod.case)
  also have "\<dots> = arrange (moves (c # rest) ?l) b"
    using "1.prems" orders_place_after [OF "1.prems"(1) ac] by (intro "1.IH") (auto simp: orders_def)
  finally show ?case by simp
qed simp_all

lemma place_after_append: "a \<notin> set P \<Longrightarrow> place_after a c (P @ a # T) = P @ a # c # T"
  by (induction P) auto

lemma moves_list:
  assumes "distinct (P @ a # T)" and "distinct (a # r)" and "set r \<subseteq> set T"
  shows "moves (a # r) (P @ a # T) = P @ a # r @ filter (\<lambda>k. k \<notin> set r) T"
  using assms
proof (induction r arbitrary: P a T)
  case Nil
  then show ?case by simp
next
  case (Cons c r)
  let ?T = "filter (\<lambda>k. k \<noteq> c) T"
  have "filter (\<lambda>k. k \<noteq> c) P = P" using Cons.prems by (intro filter_True) auto
  then have "moves (a # c # r) (P @ a # T) = moves (c # r) ((P @ [a]) @ c # ?T)"
    using Cons.prems by (simp add: place_after_append)
  also have "\<dots> = (P @ [a]) @ c # r @ filter (\<lambda>k. k \<notin> set r) ?T"
    using Cons.prems by (intro Cons.IH) auto
  also have "filter (\<lambda>k. k \<notin> set r) ?T = filter (\<lambda>k. k \<notin> set (c # r)) T" by (simp add: conj_commute)
  finally show ?case by simp
qed

text \<open>What the traversal of LLVM gives: every block that can be reached from the first one, once, and the first one first.\<close>

definition edges :: "ir_blocks \<Rightarrow> (block_id \<times> block_id) set" where
  "edges blocks = {(k, t). k < length blocks \<and> t \<in> set (successors (blocks ! k))}"

definition traversal :: "ir_blocks \<Rightarrow> block_id list \<Rightarrow> bool" where
  "traversal blocks order \<longleftrightarrow> distinct order \<and> order \<noteq> [] \<and> hd order = 0 \<and> set order = (edges blocks)\<^sup>* `` {0}"

definition targets_exist :: "ir_blocks \<Rightarrow> bool" where
  "targets_exist blocks \<longleftrightarrow> blocks \<noteq> [] \<and> (\<forall>nodes \<in> set blocks. \<forall>t \<in> set (successors nodes). t < length blocks)"

definition laid_out :: "nat \<Rightarrow> block_id list \<Rightarrow> block_id list" where
  "laid_out n order = order @ filter (\<lambda>k. k \<notin> set order) [0..<n]"

lemma reachable_exist:
  assumes "targets_exist blocks" and "(0, k) \<in> (edges blocks)\<^sup>*"
  shows "k < length blocks"
  using assms(2) by (induction rule: rtrancl_induct) (use assms(1) in \<open>auto simp: targets_exist_def edges_def\<close>)

lemma orders_laid_out: "distinct order \<Longrightarrow> set order \<subseteq> {..<n} \<Longrightarrow> orders n (laid_out n order)"
  by (auto simp: orders_def laid_out_def)

lemma reorder_blocks_arrange:
  assumes "targets_exist (ir_blocks b)" and "traversal (ir_blocks b) (rpo (ir_blocks b))"
  shows "reorder_blocks rpo b = arrange (laid_out (length (ir_blocks b)) (rpo (ir_blocks b))) b"
    and "orders (length (ir_blocks b)) (laid_out (length (ir_blocks b)) (rpo (ir_blocks b)))"
proof -
  let ?n = "length (ir_blocks b)" and ?xs = "rpo (ir_blocks b)"
  obtain r where xs: "?xs = 0 # r" using assms(2) by (cases ?xs) (auto simp: traversal_def)
  have d: "distinct (0 # r)" using assms(2) xs by (simp add: traversal_def)
  have sub: "set ?xs \<subseteq> {..<?n}" using assms reachable_exist by (auto simp: traversal_def)
  have n: "[0..<?n] = [] @ 0 # [1..<?n]" using assms(1) by (simp add: targets_exist_def upt_conv_Cons)
  have r: "set r \<subseteq> set [1..<?n]"
  proof
    fix k assume k: "k \<in> set r"
    then have "k \<noteq> 0" using d by (metis distinct.simps(2))
    then show "k \<in> set [1..<?n]" using k sub xs by (auto simp: Suc_le_eq)
  qed
  have "moves ?xs [0..<?n] = [] @ 0 # r @ filter (\<lambda>k. k \<notin> set r) [1..<?n]"
    using moves_list [of "[]" 0 "[1..<?n]" r] d r unfolding xs n by simp
  also have "filter (\<lambda>k. k \<notin> set r) [1..<?n] = filter (\<lambda>k. k \<notin> set ?xs) [0..<?n]"
    unfolding n xs by (simp, intro filter_cong) auto
  finally have m: "moves ?xs [0..<?n] = laid_out ?n ?xs" by (simp add: laid_out_def xs)
  have "map (new_number [0..<?n]) ?xs = ?xs" by (intro map_idI) (simp add: new_number_upt)
  then show "reorder_blocks rpo b = arrange (laid_out ?n ?xs) b"
    using move_in_order_moves [OF orders_upt, where b = b and xs = ?xs] sub d m xs
    by (auto simp: reorder_blocks_def arrange_upt lessThan_atLeast0)
  show "orders ?n (laid_out ?n ?xs)" using d xs sub orders_laid_out by metis
qed


section \<open>The function is the same\<close>

text \<open>The instructions that are left to the host do not look at the numbers of the blocks.\<close>

definition ignores_numbers :: "ir_host \<Rightarrow> bool" where
  "ignores_numbers h \<longleftrightarrow> (\<forall>i f sh. h i (retarget f sh) = h i sh)"

lemma terminator_targets_retarget: "terminator_targets (retarget f inst) = map f (terminator_targets inst)"
  by (cases inst) simp_all

lemma arrange_block:
  "p < length l \<Longrightarrow> ir_blocks (arrange l b) ! p = map (\<lambda>(i, inst). (i, retarget (new_number l) inst)) (ir_blocks b ! (l ! p))"
  by (simp add: arrange_def)

lemma successors_arrange: "p < length l \<Longrightarrow> successors (ir_blocks (arrange l b) ! p) = map (new_number l) (successors (ir_blocks b ! (l ! p)))"
  by (simp add: arrange_block successors_def last_map case_prod_unfold terminator_targets_retarget)

lemma ir_exec_retarget:
  assumes "ignores_numbers h"
  shows "ir_exec h sizes psize (i, retarget f inst) s = ir_exec h sizes psize (i, inst) s"
proof -
  have "h i (retarget f sh) = h i sh" for sh using assms by (simp add: ignores_numbers_def)
  moreover have "shape (IPhi w xs) = IPhi w (map (\<lambda>e. (LConstantInt 0 0, snd e)) xs)" for w xs by (simp add: shape_def)
  moreover have "h i (IBr (f k)) = h i (IBr k)" "h i (ICondBr c (f k) (f j)) = h i (ICondBr c k j)" for k j c
    using assms retarget.simps(1,2) unfolding ignores_numbers_def by metis+
  moreover have "h i (IPhi w (map (\<lambda>e. (LConstantInt 0 0, f (snd e))) xs)) = h i (IPhi w (map (\<lambda>e. (LConstantInt 0 0, snd e)) xs))"
    for w and xs :: "(llvm_value \<times> nat) list"
    using assms [unfolded ignores_numbers_def, rule_format, of i f "IPhi w (map (\<lambda>e. (LConstantInt 0 0, snd e)) xs)"]
    by (simp add: comp_def)
  ultimately show ?thesis by (cases inst) (simp_all add: shape_def comp_def)
qed

lemma exec_nodes_arrange:
  assumes "ignores_numbers h"
  shows "exec_nodes h (arrange l b) (map (\<lambda>(i, inst). (i, retarget f inst)) ns) s = exec_nodes h b ns s"
proof -
  have "primitive_size (arrange l b) = primitive_size b"
    by (auto simp: primitive_size_def arrange_def fun_eq_iff split: llvm_value.split)
  then have "exec_node h (arrange l b) (fst n, retarget f (snd n)) t = exec_node h b n t" for n t
    using ir_exec_retarget [OF assms] by (cases n) (simp add: exec_node_def, simp add: arrange_def)
  then show ?thesis by (induction ns arbitrary: s) (simp_all add: case_prod_unfold)
qed

lemma exec_path_arrange:
  assumes "ignores_numbers h" and "set path \<subseteq> set l"
  shows "exec_path h (arrange l b) (map (new_number l) path) s = exec_path h b path s"
  using assms(2)
proof (induction path arbitrary: s)
  case (Cons k path)
  then have "ir_blocks (arrange l b) ! new_number l k = map (\<lambda>(i, inst). (i, retarget (new_number l) inst)) (ir_blocks b ! k)"
    by (simp add: arrange_block new_number_less nth_new_number)
  with Cons show ?case by (simp add: exec_path_def exec_nodes_arrange [OF assms(1)])
qed (simp add: exec_path_def)

lemma position_append: "position (xs @ ys) k = (if k \<in> set xs then position xs k else length xs + position ys k)"
  by (induction xs) auto

lemma sorted_position: "sorted_wrt (<) xs \<Longrightarrow> j \<in> set xs \<Longrightarrow> k \<in> set xs \<Longrightarrow> j < (k :: nat) \<Longrightarrow> position xs j < position xs k"
  by (induction xs) auto

text \<open>The blocks that are not in the traversal keep their order behind it.\<close>

lemma later_number:
  assumes "j < k" and "k < n" and "j \<notin> set order" and "k \<notin> set order"
  shows "new_number (laid_out n order) j < new_number (laid_out n order) k"
proof -
  have "sorted_wrt (<) (filter (\<lambda>k. k \<notin> set order) [0..<n])" by (intro sorted_wrt_filter) simp
  from sorted_position [OF this] show ?thesis using assms by (simp add: new_number_def laid_out_def position_append)
qed

text \<open>Names mean nothing.\<close>

lemma strip_names_blocks [simp]: "ir_blocks (strip_names is_pointer b) = ir_blocks b"
  by (simp add: strip_names_def)

lemma exec_path_strip [simp]: "exec_path h (strip_names is_pointer b) path s = exec_path h b path s"
proof -
  have "primitive_size (strip_names is_pointer b) = primitive_size b"
    by (auto simp: primitive_size_def strip_names_def fun_eq_iff split: llvm_value.split)
  moreover have "ir_sizes (strip_names is_pointer b) = ir_sizes b" "to_delete (strip_names is_pointer b) = to_delete b"
    by (simp_all add: strip_names_def)
  ultimately have "exec_node h (strip_names is_pointer b) = exec_node h b" by (intro ext) (simp add: exec_node_def)
  then have "exec_nodes h (strip_names is_pointer b) = exec_nodes h b" by (intro ext) (simp add: exec_nodes_def)
  then show ?thesis by (simp add: exec_path_def)
qed

lemma stripped_names:
  "(i, inst) \<in> set (concat (ir_blocks b)) \<Longrightarrow> \<not> is_pointer inst \<Longrightarrow> ir_names (strip_names is_pointer b) s \<noteq> Some (LValue i)"
proof
  assume "(i, inst) \<in> set (concat (ir_blocks b))" and "\<not> is_pointer inst"
  then have "\<exists>node \<in> set (concat (ir_blocks b)). LValue i = LValue (fst node) \<and> \<not> is_pointer (snd node)" by force
  moreover assume "ir_names (strip_names is_pointer b) s = Some (LValue i)"
  ultimately show False unfolding strip_names_def by (auto split: option.splits if_splits)
qed

text \<open>C18: the end of the pass manager, which puts the blocks in order and takes the names away, keeps the function. The blocks get
  new numbers, no two the same; the blocks of the traversal
  come first, in its order, and the entry block stays the first one; the blocks that cannot be reached follow in the
  order they had. The edges lead to the same blocks as before, and along every path of the
  function the same is computed: memory, values and trace. No instruction has a name any more unless it is a pointer.\<close>

theorem reordering_keeps_function:
  assumes targets: "targets_exist (ir_blocks b)" and order: "order = rpo (ir_blocks b)" and trav: "traversal (ir_blocks b) order"
    and n: "n = length (ir_blocks b)" and h: "ignores_numbers h" and b': "b' = tidy_function rpo is_pointer b"
  shows "\<exists>\<pi>. bij_betw \<pi> {..<n} {..<n} \<and> \<pi> 0 = 0 \<and> length (ir_blocks b') = n \<and>
    (\<forall>p < length order. \<pi> (order ! p) = p) \<and>
    (\<forall>j k. j < k \<longrightarrow> k < n \<longrightarrow> j \<notin> set order \<longrightarrow> k \<notin> set order \<longrightarrow> \<pi> j < \<pi> k) \<and>
    (\<forall>k < n. successors (ir_blocks b' ! \<pi> k) = map \<pi> (successors (ir_blocks b ! k))) \<and>
    (\<forall>path s. set path \<subseteq> {..<n} \<longrightarrow> exec_path h b' (map \<pi> path) s = exec_path h b path s) \<and>
    (\<forall>i inst s. (i, inst) \<in> set (concat (ir_blocks b')) \<longrightarrow> \<not> is_pointer inst \<longrightarrow> ir_names b' s \<noteq> Some (LValue i))"
proof -
  let ?l = "laid_out n order" and ?\<pi> = "new_number (laid_out n order)"
  have re: "reorder_blocks rpo b = arrange ?l b" "orders n ?l"
    using reorder_blocks_arrange [where b = b and rpo = rpo] targets trav unfolding order n by blast+
  have len: "length ?l = n" using orders_length [OF re(2)] .
  have d: "distinct ?l" and set: "set ?l = {..<n}" using re(2) by (simp_all add: orders_def)
  have bij: "bij_betw ?\<pi> {..<n} {..<n}"
  proof (rule bij_betw_byWitness [where f' = "(!) ?l"])
    show "\<forall>k \<in> {..<n}. ?l ! ?\<pi> k = k" using nth_new_number [of _ ?l] set by simp
    show "\<forall>p \<in> {..<n}. ?\<pi> (?l ! p) = p" using new_number_nth [OF d] len by simp
    show "?\<pi> ` {..<n} \<subseteq> {..<n}" using new_number_less [of _ ?l] set len by auto
    show "(!) ?l ` {..<n} \<subseteq> {..<n}"
    proof (rule image_subsetI)
      fix p assume "p \<in> {..<n}"
      then have "?l ! p \<in> set ?l" using len by (intro nth_mem) simp
      then show "?l ! p \<in> {..<n}" unfolding set .
    qed
  qed
  have first: "?\<pi> (order ! p) = p" if "p < length order" for p
    using new_number_nth [OF d, of p] that by (simp add: laid_out_def nth_append)
  moreover have "?\<pi> 0 = 0" using first [of 0] trav by (cases order) (simp_all add: traversal_def)
  moreover have "?\<pi> j < ?\<pi> k" if jk: "j < k" "k < n" "j \<notin> set order" "k \<notin> set order" for j k
    using later_number [OF jk] .
  moreover have "successors (ir_blocks (arrange ?l b) ! ?\<pi> k) = map ?\<pi> (successors (ir_blocks b ! k))" if "k < n" for k
    using successors_arrange [of "?\<pi> k" ?l b] new_number_less [of k ?l] nth_new_number [of k ?l] that set by simp
  moreover have "exec_path h (arrange ?l b) (map ?\<pi> path) s = exec_path h b path s" if "set path \<subseteq> {..<n}" for path s
    by (rule exec_path_arrange [OF h]) (use that set in simp)
  moreover have "length (ir_blocks (arrange ?l b)) = n" by (simp add: arrange_def len)
  moreover have "ir_names (strip_names is_pointer (arrange ?l b)) s \<noteq> Some (LValue i)"
    if "(i, inst) \<in> set (concat (ir_blocks (strip_names is_pointer (arrange ?l b))))" "\<not> is_pointer inst" for i inst s
    using stripped_names [of i inst "arrange ?l b" is_pointer] that by simp
  ultimately show ?thesis unfolding b' tidy_function_def re(1) strip_names_blocks exec_path_strip using bij by (intro exI [of _ ?\<pi>] conjI allI impI)
qed

text \<open>A function whose second block cannot be reached and whose third one comes before the fourth.\<close>

definition demo_cfg :: ir_builder where
  "demo_cfg =
     \<lparr>ir_next = 20, ir_sizes = (\<lambda>_. 64), ir_names = Map.empty,
      ir_blocks = [[(10, ICondBr (LValue 1) 2 3)], [(11, IBr 3)], [(12, IStore (LConstantInt 8 7) (LValue 2)), (13, IBr 3)], [(14, IRet (LValue 2))]],
      ir_ip = (3, None), insert_points = [], to_delete = []\<rparr>"

lemma demo_cfg_edges: "edges (ir_blocks demo_cfg) = {(0, 2), (0, 3), (1, 3), (2, 3)}"
  by (auto simp: edges_def demo_cfg_def successors_def less_Suc_eq numeral_eq_Suc)

lemma demo_cfg_traversal: "traversal (ir_blocks demo_cfg) [0, 2, 3]"
proof -
  have "(0, k) \<in> (edges (ir_blocks demo_cfg))\<^sup>* \<longleftrightarrow> k \<in> {0, 2, 3}" for k
  proof
    assume "(0, k) \<in> (edges (ir_blocks demo_cfg))\<^sup>*"
    then show "k \<in> {0, 2, 3}" by (induction rule: rtrancl_induct) (auto simp: demo_cfg_edges)
  next
    have "(0, 2) \<in> edges (ir_blocks demo_cfg)" "(0, 3) \<in> edges (ir_blocks demo_cfg)" by (simp_all add: demo_cfg_edges)
    moreover assume "k \<in> {0, 2, 3}"
    ultimately show "(0, k) \<in> (edges (ir_blocks demo_cfg))\<^sup>*" by auto
  qed
  then show ?thesis by (auto simp: traversal_def Image_def)
qed

lemma demo_cfg_reordered:
  "map (map fst) (ir_blocks (tidy_function (\<lambda>_. [0, 2, 3]) is_load demo_cfg)) = [[10], [12, 13], [14], [11]]"
  "successors (ir_blocks (tidy_function (\<lambda>_. [0, 2, 3]) is_load demo_cfg) ! 0) = [1, 2]"
  by (simp_all add: tidy_function_def reorder_blocks_def moveAfter_def arrange_def new_number_def demo_cfg_def upt_rec successors_def)

theorem reordering_keeps_function_witness:
  "\<exists>\<pi> :: nat \<Rightarrow> nat. bij_betw \<pi> {..<4} {..<4} \<and> \<pi> 3 = 2 \<and>
     (\<forall>s. exec_path (\<lambda>i sh vals t m. (0, m)) (tidy_function (\<lambda>_. [0, 2, 3]) is_load demo_cfg) (map \<pi> [0, 2, 3]) s =
        exec_path (\<lambda>i sh vals t m. (0, m)) demo_cfg [0, 2, 3] s)"
proof -
  have targets: "targets_exist (ir_blocks demo_cfg)" by (simp add: targets_exist_def demo_cfg_def successors_def)
  have n: "4 = length (ir_blocks demo_cfg)" by (simp add: demo_cfg_def)
  have h: "ignores_numbers (\<lambda>i sh vals t m. (0, m))" by (simp add: ignores_numbers_def)
  from reordering_keeps_function [OF targets refl demo_cfg_traversal n h refl [of "tidy_function (\<lambda>_. [0, 2, 3]) is_load demo_cfg"]] obtain \<pi> where
    "bij_betw \<pi> {..<4} {..<4}" "\<forall>p < 3. \<pi> ([0, 2, 3] ! p) = p"
    "\<forall>path s. set path \<subseteq> {..<4} \<longrightarrow> exec_path (\<lambda>i sh vals t m. (0, m)) (tidy_function (\<lambda>_. [0, 2, 3]) is_load demo_cfg) (map \<pi> path) s =
       exec_path (\<lambda>i sh vals t m. (0, m)) demo_cfg path s" by auto
  note \<pi> = this
  have "\<pi> 3 = 2" using \<pi>(2) [rule_format, of 2] by simp
  moreover have "set [0, 2, 3] \<subseteq> {..<4 :: nat}" by simp
  ultimately show ?thesis using \<pi>(1,3) by blast
qed

end
