(* ===== verification/State_Cleanup.thy ===== *)
theory State_Cleanup
  imports Emulator Ir_Graph
begin

text \<open>
  \<open>vexa::passes::state_cleanup\<close> (state_cleanup.cpp): stores to the registers in the state structure are erased
  when no load of the same place comes after them, except for the return register. \<open>isSameOperationAs\<close> of LLVM
  is an argument.
\<close>

section \<open>The scan\<close>

type_synonym same_op = "ir_inst \<Rightarrow> ir_inst \<Rightarrow> bool"

text \<open>A pointer that is a \<open>getelementptr\<close> with a constant offset: the instruction, its first operand, and the
  offset.\<close>

definition const_gep :: "ir_blocks \<Rightarrow> llvm_value \<Rightarrow> (ir_inst \<times> llvm_value \<times> u64) option" where
  "const_gep blocks v =
     (case v of LConstantInt w n \<Rightarrow> None
      | LValue i \<Rightarrow>
          (case insts_of blocks i of
             Some (IGep p (Some off)) \<Rightarrow> Some (IGep p (Some off), p, off)
           | Some (IGepValue p idx) \<Rightarrow> map_option (\<lambda>off. (IGepValue p idx, p, off)) (gep_offset idx)
           | _ \<Rightarrow> None))"

definition matches :: "same_op \<Rightarrow> ir_blocks \<Rightarrow> ir_inst \<Rightarrow> u64 \<Rightarrow> llvm_value \<Rightarrow> bool" where
  "matches same blocks gep off p =
     (case const_gep blocks p of None \<Rightarrow> False | Some (g, b, off1) \<Rightarrow> same g gep \<and> off1 = off)"

text \<open>The rest of a block, up to a store that overwrites the place or a load of it: whether there is such a
  load.\<close>

fun scan_block :: "same_op \<Rightarrow> ir_blocks \<Rightarrow> ir_inst \<Rightarrow> u64 \<Rightarrow> ir_node list \<Rightarrow> bool" where
  "scan_block same blocks gep off [] = False"
| "scan_block same blocks gep off ((i, inst) # rest) =
     (case inst of
        IStore v p \<Rightarrow> if matches same blocks gep off p then False else scan_block same blocks gep off rest
      | ILoad n p \<Rightarrow> if matches same blocks gep off p then True else scan_block same blocks gep off rest
      | _ \<Rightarrow> scan_block same blocks gep off rest)"

text \<open>The search over the blocks that can follow. A successor is always a block of the function.\<close>

function scan_blocks ::
  "same_op \<Rightarrow> ir_blocks \<Rightarrow> ir_inst \<Rightarrow> u64 \<Rightarrow> (block_id \<times> ir_node list) list \<Rightarrow> block_id set \<Rightarrow> bool \<Rightarrow> bool" where
  "scan_blocks same blocks gep off [] visited alive = alive"
| "scan_blocks same blocks gep off ((bb, rest) # queue) visited alive =
     (if bb \<in> visited \<or> length blocks \<le> bb then scan_blocks same blocks gep off queue visited alive
      else
        scan_blocks same blocks gep off
          (queue @ map (\<lambda>s. (s, blocks ! s)) (successors (blocks ! bb))) (insert bb visited)
          (alive \<or> scan_block same blocks gep off rest))"
  by pat_completeness auto

termination
proof (relation "measures [\<lambda>(same, blocks, gep, off, queue, visited, alive). card ({..<length blocks} - visited),
    \<lambda>(same, blocks, gep, off, queue, visited, alive). length queue]", goal_cases)
  case 1
  then show ?case by simp
next
  case 2
  then show ?case by simp
next
  case (3 same blocks gep off bb rest queue visited alive)
  then have "bb \<in> {..<length blocks} - visited" by simp
  then have "card ({..<length blocks} - visited - {bb}) < card ({..<length blocks} - visited)"
    by (intro card_Diff1_less) simp_all
  moreover have "{..<length blocks} - visited - {bb} = {..<length blocks} - insert bb visited" by blast
  ultimately show ?case by simp
qed

section \<open>Erasing dead stores\<close>

definition is_dead_store :: "same_op \<Rightarrow> llvm_value \<Rightarrow> u64 \<Rightarrow> ir_blocks \<Rightarrow> block_id \<Rightarrow> nat \<Rightarrow> bool" where
  "is_dead_store same state_l ret_offset blocks bb pos =
     (case snd (blocks ! bb ! pos) of
        IStore v p \<Rightarrow>
          (case const_gep blocks p of None \<Rightarrow> False
           | Some (gep, b, off) \<Rightarrow>
               b = state_l \<and> off \<noteq> ret_offset \<and>
               \<not> scan_blocks same blocks gep off [(bb, drop (Suc pos) (blocks ! bb))] {} False)
      | _ \<Rightarrow> False)"

definition cleanup_block :: "same_op \<Rightarrow> llvm_value \<Rightarrow> u64 \<Rightarrow> block_id \<Rightarrow> ir_blocks \<times> bool \<Rightarrow> ir_blocks \<times> bool" where
  "cleanup_block same state_l ret_offset bb st =
     (case st of (blocks, changed) \<Rightarrow>
        let kept = [blocks ! bb ! pos. pos \<leftarrow> [0..<length (blocks ! bb)],
                      \<not> is_dead_store same state_l ret_offset blocks bb pos]
        in (blocks[bb := kept], changed \<or> length kept < length (blocks ! bb)))"

definition state_cleanup :: "same_op \<Rightarrow> llvm_value \<Rightarrow> u64 \<Rightarrow> ir_blocks \<Rightarrow> ir_blocks \<times> bool" where
  "state_cleanup same state_l ret_offset blocks =
     fold (cleanup_block same state_l ret_offset) [0..<length blocks] (blocks, False)"

section \<open>What a load can observe\<close>

text \<open>An instruction that loads a place of the state, and one that overwrites it.\<close>

fun loads_slot :: "ir_blocks \<Rightarrow> llvm_value \<Rightarrow> u64 \<Rightarrow> ir_inst \<Rightarrow> bool" where
  "loads_slot blocks state_l off (ILoad n p) = (\<exists>g. const_gep blocks p = Some (g, state_l, off))"
| "loads_slot blocks state_l off _ = False"

fun stores_slot :: "ir_blocks \<Rightarrow> llvm_value \<Rightarrow> u64 \<Rightarrow> ir_inst \<Rightarrow> bool" where
  "stores_slot blocks state_l off (IStore v p) = (\<exists>g. const_gep blocks p = Some (g, state_l, off))"
| "stores_slot blocks state_l off _ = False"

text \<open>An execution that still has to run the rest of a block, and then goes from block to block, observes a
  place: it loads the place before it overwrites it. The blocks it goes through are not among \<open>avoid\<close>.\<close>

inductive observes :: "ir_blocks \<Rightarrow> llvm_value \<Rightarrow> u64 \<Rightarrow> block_id set \<Rightarrow> block_id \<Rightarrow> ir_node list \<Rightarrow> bool"
  for blocks state_l off avoid where
  observes_load: "loads_slot blocks state_l off inst \<Longrightarrow> observes blocks state_l off avoid bb ((i, inst) # rest)"
| observes_step: "observes blocks state_l off avoid bb rest \<Longrightarrow> \<not> stores_slot blocks state_l off inst \<Longrightarrow>
    observes blocks state_l off avoid bb ((i, inst) # rest)"
| observes_jump: "observes blocks state_l off avoid s (blocks ! s) \<Longrightarrow> s \<in> set (successors (blocks ! bb)) \<Longrightarrow>
    s \<notin> avoid \<Longrightarrow> s < length blocks \<Longrightarrow> observes blocks state_l off avoid bb []"

inductive_cases observes_ConsE: "observes blocks state_l off avoid bb ((i, inst) # rest)"
inductive_cases observes_NilE: "observes blocks state_l off avoid bb []"

text \<open>The scan tells the places apart correctly: a \<open>getelementptr\<close> of the same operation and offset is one of
  the state, and one of the state at the offset is of the same operation.\<close>

definition uniform :: "same_op \<Rightarrow> ir_blocks \<Rightarrow> llvm_value \<Rightarrow> ir_inst \<Rightarrow> u64 \<Rightarrow> bool" where
  "uniform same blocks state_l gep off \<longleftrightarrow>
     (\<forall>p g b. const_gep blocks p = Some (g, b, off) \<longrightarrow> (same g gep \<longleftrightarrow> b = state_l))"

lemma matches_uniform:
  "uniform same blocks state_l gep off \<Longrightarrow>
     matches same blocks gep off p \<longleftrightarrow> (\<exists>g. const_gep blocks p = Some (g, state_l, off))"
  by (auto simp: matches_def uniform_def split: option.splits)

text \<open>When the search over whole blocks finds no load, the blocks it has been through are closed under
  successors and have none.\<close>

lemma scan_blocks_closed:
  "\<forall>(b, r) \<in> set queue. r = blocks ! b \<Longrightarrow> \<not> scan_blocks same blocks gep off queue visited alive \<Longrightarrow>
   \<not> alive \<and> (\<exists>V. visited \<subseteq> V \<and> (\<forall>b \<in> fst ` set queue. b < length blocks \<longrightarrow> b \<in> V) \<and>
     (\<forall>b \<in> V - visited. \<not> scan_block same blocks gep off (blocks ! b) \<and>
        (\<forall>s \<in> set (successors (blocks ! b)). s < length blocks \<longrightarrow> s \<in> V)))"
proof (induction same blocks gep off queue visited alive rule: scan_blocks.induct)
  case (1 same blocks gep off visited alive)
  then show ?case by auto
next
  case (2 same blocks gep off bb rest queue visited alive)
  show ?case
  proof (cases "bb \<in> visited \<or> length blocks \<le> bb")
    case True
    then have skip: "scan_blocks same blocks gep off ((bb, rest) # queue) visited alive =
        scan_blocks same blocks gep off queue visited alive" by simp
    have "\<forall>(b, r) \<in> set queue. r = blocks ! b" using "2.prems"(1) by simp
    from "2.IH"(1) [OF True this] "2.prems"(2) obtain V where "\<not> alive" and V: "visited \<subseteq> V"
      "\<forall>b \<in> fst ` set queue. b < length blocks \<longrightarrow> b \<in> V"
      "\<forall>b \<in> V - visited. \<not> scan_block same blocks gep off (blocks ! b) \<and>
        (\<forall>s \<in> set (successors (blocks ! b)). s < length blocks \<longrightarrow> s \<in> V)" unfolding skip by blast
    moreover have "\<forall>b \<in> fst ` set ((bb, rest) # queue). b < length blocks \<longrightarrow> b \<in> V"
      using True V(1,2) by auto
    ultimately show ?thesis by blast
  next
    case False
    let ?q = "queue @ map (\<lambda>s. (s, blocks ! s)) (successors (blocks ! bb))"
    have "\<not> (alive \<or> scan_block same blocks gep off rest) \<and> (\<exists>V. insert bb visited \<subseteq> V \<and>
       (\<forall>b \<in> fst ` set ?q. b < length blocks \<longrightarrow> b \<in> V) \<and>
       (\<forall>b \<in> V - insert bb visited. \<not> scan_block same blocks gep off (blocks ! b) \<and>
          (\<forall>s \<in> set (successors (blocks ! b)). s < length blocks \<longrightarrow> s \<in> V)))"
    proof (rule "2.IH"(2) [OF False])
      show "\<forall>(b, r) \<in> set ?q. r = blocks ! b" using "2.prems"(1) by auto
      show "\<not> scan_blocks same blocks gep off ?q (insert bb visited) (alive \<or> scan_block same blocks gep off rest)"
        using "2.prems"(2) False by simp
    qed
    then obtain V where a: "\<not> alive" "\<not> scan_block same blocks gep off rest" and V: "insert bb visited \<subseteq> V"
      "\<forall>b \<in> fst ` set ?q. b < length blocks \<longrightarrow> b \<in> V"
      "\<forall>b \<in> V - insert bb visited. \<not> scan_block same blocks gep off (blocks ! b) \<and>
          (\<forall>s \<in> set (successors (blocks ! b)). s < length blocks \<longrightarrow> s \<in> V)" by blast
    have succ: "\<forall>s \<in> set (successors (blocks ! bb)). s < length blocks \<longrightarrow> s \<in> V"
      using V(2) by (auto simp: image_Un image_image)
    show ?thesis
    proof (intro conjI exI [of _ V])
      show "\<forall>b \<in> fst ` set ((bb, rest) # queue). b < length blocks \<longrightarrow> b \<in> V"
        using V(1,2) by (auto simp: image_Un)
      show "\<forall>b \<in> V - visited. \<not> scan_block same blocks gep off (blocks ! b) \<and>
          (\<forall>s \<in> set (successors (blocks ! b)). s < length blocks \<longrightarrow> s \<in> V)"
      proof
        fix b assume b: "b \<in> V - visited"
        have "rest = blocks ! bb" using "2.prems"(1) by simp
        then have "\<not> scan_block same blocks gep off (blocks ! bb)" using a(2) by simp
        with b V(3) succ show "\<not> scan_block same blocks gep off (blocks ! b) \<and>
            (\<forall>s \<in> set (successors (blocks ! b)). s < length blocks \<longrightarrow> s \<in> V)" by blast
      qed
    qed (use a V(1) in auto)
  qed
qed

lemma unscanned_unobserved:
  assumes u: "uniform same blocks state_l gep off"
    and closed: "\<forall>s \<in> V - {b0}. \<not> scan_block same blocks gep off (blocks ! s)"
      "\<forall>b \<in> V. \<forall>s \<in> set (successors (blocks ! b)). s < length blocks \<longrightarrow> s \<in> V"
  shows "observes blocks state_l off {b0} bb rest \<Longrightarrow> bb \<in> V \<Longrightarrow> scan_block same blocks gep off rest"
proof (induction rule: observes.induct)
  case (observes_load inst bb i rest)
  then show ?case using matches_uniform [OF u] by (cases inst) auto
next
  case (observes_step bb rest inst i)
  then show ?case using matches_uniform [OF u] by (cases inst) auto
next
  case (observes_jump s bb)
  then show ?case using closed by blast
qed

lemma dead_store_unobserved:
  assumes dead: "is_dead_store same state_l ret_offset blocks bb pos" and bb: "bb < length blocks"
  obtains i v p g off where "blocks ! bb ! pos = (i, IStore v p)" "const_gep blocks p = Some (g, state_l, off)"
    "off \<noteq> ret_offset" "uniform same blocks state_l g off \<Longrightarrow>
       \<not> observes blocks state_l off {bb} bb (drop (Suc pos) (blocks ! bb))"
proof -
  let ?rest = "drop (Suc pos) (blocks ! bb)"
  let ?q = "map (\<lambda>s. (s, blocks ! s)) (successors (blocks ! bb))"
  from dead obtain v p g off where st: "snd (blocks ! bb ! pos) = IStore v p" "const_gep blocks p = Some (g, state_l, off)"
      "off \<noteq> ret_offset" and no: "\<not> scan_blocks same blocks g off [(bb, ?rest)] {} False"
    by (auto simp: is_dead_store_def split: ir_inst.splits option.splits)
  from no bb have "\<not> scan_blocks same blocks g off ?q {bb} (scan_block same blocks g off ?rest)" by simp
  moreover have "\<forall>(b, r) \<in> set ?q. r = blocks ! b" by auto
  ultimately obtain V where V: "\<not> scan_block same blocks g off ?rest" "bb \<in> V"
    "\<forall>b \<in> fst ` set ?q. b < length blocks \<longrightarrow> b \<in> V"
    "\<forall>b \<in> V - {bb}. \<not> scan_block same blocks g off (blocks ! b) \<and>
        (\<forall>s \<in> set (successors (blocks ! b)). s < length blocks \<longrightarrow> s \<in> V)"
    using scan_blocks_closed [of ?q blocks same g off "{bb}" "scan_block same blocks g off ?rest"] by blast
  have closed: "\<forall>b \<in> V. \<forall>s \<in> set (successors (blocks ! b)). s < length blocks \<longrightarrow> s \<in> V"
  proof
    fix b assume "b \<in> V"
    moreover have "fst ` set ?q = set (successors (blocks ! bb))" by (simp add: image_image)
    ultimately show "\<forall>s \<in> set (successors (blocks ! b)). s < length blocks \<longrightarrow> s \<in> V"
      using V(3,4) by blast
  qed
  show thesis
  proof (rule that [of "fst (blocks ! bb ! pos)" v p g off])
    show "blocks ! bb ! pos = (fst (blocks ! bb ! pos), IStore v p)" using st(1) by (simp add: prod_eq_iff)
    assume "uniform same blocks state_l g off"
    from unscanned_unobserved [OF this _ closed] V(1,2,4)
    show "\<not> observes blocks state_l off {bb} bb ?rest" by blast
  qed (rule st)+
qed

section \<open>Erasing is safe away from loops\<close>

definition demo_state :: llvm_value where
  "demo_state = LValue 100"

definition demo_straight :: ir_blocks where
  "demo_straight = [[(0, IGep demo_state (Some 8)), (1, IStore (LConstantInt 64 7) (LValue 0)),
     (2, IStore (LConstantInt 64 9) (LValue 0)), (3, ILoad 64 (LValue 0)), (4, IRet demo_state)]]"


lemma demo_straight_gep: "const_gep demo_straight p = (if p = LValue 0 then Some (IGep demo_state (Some 8), demo_state, 8) else None)"
  by (auto simp: const_gep_def demo_straight_def insts_of_def split: llvm_value.splits)

lemma demo_straight_dead:
  "is_dead_store (=) demo_state 0 demo_straight 0 1" "\<not> is_dead_store (=) demo_state 0 demo_straight 0 2"
  by code_simp+


section \<open>Erasing in loops\<close>

text \<open>A loop of one block that loads a register, stores a new value to it, and goes around.\<close>

definition demo_loop :: ir_blocks where
  "demo_loop = [[(0, IGep demo_state (Some 8)), (1, IBr 1)],
     [(2, ILoad 64 (LValue 0)), (3, IBinary Add (LValue 2) (LConstantInt 64 1)), (4, IStore (LValue 3) (LValue 0)),
      (5, IBr 1)]]"


section \<open>What the pass manager relies on\<close>

definition inst_total :: "ir_blocks \<Rightarrow> nat" where
  "inst_total blocks = sum_list (map length blocks)"

lemma cleanup_block_total:
  assumes "bb < length blocks" and "cleanup_block same state_l ret bb (blocks, changed) = (blocks', changed')"
  shows "length blocks' = length blocks \<and> inst_total blocks' \<le> inst_total blocks \<and>
    (changed' \<longleftrightarrow> changed \<or> inst_total blocks' < inst_total blocks)"
proof -
  let ?kept = "[blocks ! bb ! pos. pos \<leftarrow> [0..<length (blocks ! bb)], \<not> is_dead_store same state_l ret blocks bb pos]"
  have "length [xs ! i. i \<leftarrow> is, P i] \<le> length is" for P "is" and xs :: "ir_node list"
    by (induction "is") auto
  from this [of "\<lambda>pos. \<not> is_dead_store same state_l ret blocks bb pos" "blocks ! bb" "[0..<length (blocks ! bb)]"]
  have le: "length ?kept \<le> length (blocks ! bb)" by simp
  have "length (blocks ! bb) \<le> inst_total blocks"
    using assms(1) by (auto simp: inst_total_def intro: member_le_sum_list)
  then have "inst_total (blocks[bb := ?kept]) + length (blocks ! bb) = inst_total blocks + length ?kept"
    using assms(1) by (simp add: inst_total_def map_update sum_list_update)
  with le assms show ?thesis by (auto simp: cleanup_block_def Let_def)
qed

lemma state_cleanup_total:
  assumes "state_cleanup same state_l ret blocks = (blocks', changed)"
  shows "inst_total blocks' \<le> inst_total blocks \<and> (changed \<longleftrightarrow> inst_total blocks' < inst_total blocks)"
proof -
  have "\<forall>bb \<in> set bbs. bb < length (fst st) \<Longrightarrow>
      inst_total (fst (fold (cleanup_block same state_l ret) bbs st)) \<le> inst_total (fst st) \<and>
      (snd (fold (cleanup_block same state_l ret) bbs st) \<longleftrightarrow>
         snd st \<or> inst_total (fst (fold (cleanup_block same state_l ret) bbs st)) < inst_total (fst st))" for bbs st
  proof (induction bbs arbitrary: st)
    case (Cons bb bbs)
    obtain blocks ch where st: "st = (blocks, ch)" by (cases st)
    obtain blocks1 ch1 where c: "cleanup_block same state_l ret bb st = (blocks1, ch1)" by (meson surj_pair)
    from cleanup_block_total [OF _ c [unfolded st]] Cons.prems st
    have one: "length blocks1 = length blocks" "inst_total blocks1 \<le> inst_total blocks"
      "ch1 \<longleftrightarrow> ch \<or> inst_total blocks1 < inst_total blocks" by auto
    with Cons.IH [of "(blocks1, ch1)"] Cons.prems st c show ?case by auto
  qed simp
  from this [of "[0..<length blocks]" "(blocks, False)"] assms show ?thesis by (simp add: state_cleanup_def)
qed

text \<open>A run that reports no change left the function alone, and there is no dead store in it.\<close>

lemma cleanup_block_unchanged:
  assumes "cleanup_block same state_l ret bb (blocks, changed) = (blocks', False)"
  shows "\<not> changed \<and> blocks' = blocks \<and> (\<forall>pos < length (blocks ! bb). \<not> is_dead_store same state_l ret blocks bb pos)"
proof -
  let ?P = "\<lambda>pos. \<not> is_dead_store same state_l ret blocks bb pos" and ?xs = "[0..<length (blocks ! bb)]"
  have comp: "[f pos. pos \<leftarrow> xs, P pos] = map f (filter P xs)" for f :: "nat \<Rightarrow> ir_node" and P xs by (induction xs) simp_all
  have kept: "\<not> changed" "\<not> length (filter ?P ?xs) < length ?xs" "blocks' = blocks[bb := map ((!) (blocks ! bb)) (filter ?P ?xs)]"
    using assms by (simp_all add: cleanup_block_def Let_def comp)
  have all: "?P pos" if "pos < length (blocks ! bb)" for pos
    using kept(2) length_filter_less [of pos ?xs ?P] that by auto
  then have "filter ?P ?xs = ?xs" by (simp add: filter_id_conv)
  then show ?thesis using kept all by (simp add: map_nth)
qed

lemma state_cleanup_unchanged:
  assumes "state_cleanup same state_l ret blocks = (blocks', False)"
  shows "blocks' = blocks \<and> (\<forall>bb < length blocks. \<forall>pos < length (blocks ! bb). \<not> is_dead_store same state_l ret blocks bb pos)"
proof -
  have "fold (cleanup_block same state_l ret) bbs (blocks, ch) = (blocks', False) \<Longrightarrow>
      \<not> ch \<and> blocks' = blocks \<and> (\<forall>bb \<in> set bbs. \<forall>pos < length (blocks ! bb). \<not> is_dead_store same state_l ret blocks bb pos)" for bbs ch
  proof (induction bbs arbitrary: ch)
    case (Cons bb bbs)
    obtain blocks1 ch1 where c: "cleanup_block same state_l ret bb (blocks, ch) = (blocks1, ch1)" by fastforce
    have grow: "snd (fold (cleanup_block same state_l ret) xs (bs, True))" for xs bs
      by (induction xs arbitrary: bs) (simp_all add: cleanup_block_def Let_def)
    then have "\<not> ch1" using Cons.prems c by (cases ch1) (auto, metis grow snd_conv)
    then have "\<not> ch \<and> blocks1 = blocks \<and> (\<forall>pos < length (blocks ! bb). \<not> is_dead_store same state_l ret blocks bb pos)"
      using cleanup_block_unchanged [of same state_l ret bb blocks ch blocks1] c by simp
    with Cons c show ?case by simp
  qed simp
  from this [of "[0..<length blocks]" False] assms show ?thesis by (simp add: state_cleanup_def)
qed

end
