(* ===== verification/Const_Prop_Memory.thy ===== *)
theory Const_Prop_Memory
  imports Emulator Ir_Graph
begin

text \<open>
  \<open>constant_propagation::concretize_memory_loads\<close> (constant_propagation_memory.cpp): which loads may be replaced
  by the constant that the emulation found. The definitions of memory (MemorySSA) form a forest, which is walked
  depth first with a map from bytes to whether they are safe; the changes of the map are logged and undone on
  the way back. MemorySSA and the loops of the function are arguments.
\<close>

section \<open>Accesses\<close>

datatype mem_access = Live_on_entry | Mem_phi block_id | Mem_def nat

type_synonym mem_addr = "page_id \<times> u64"

record concrete_access =
  ca_page :: page_id
  ca_offset :: u64
  ca_size :: nat

text \<open>What the pass works with: the symbolic values and the solver, the function, which blocks are in a loop,
  which other instructions touch memory, and the defining access of an instruction that defines memory and of a
  load.\<close>

record cp_env =
  ce_solver :: solver
  ce_symex :: symex
  ce_ir :: ir_builder
  ce_in_loop :: "block_id \<Rightarrow> bool"
  ce_touches_memory :: "ir_inst \<Rightarrow> bool"
  ce_def_parent :: "nat \<rightharpoonup> mem_access"
  ce_use_parent :: "nat \<rightharpoonup> mem_access"

abbreviation ce_blocks :: "cp_env \<Rightarrow> ir_blocks" where
  "ce_blocks E \<equiv> ir_blocks (ce_ir E)"

definition ce_inst :: "cp_env \<Rightarrow> nat \<rightharpoonup> ir_inst" where
  "ce_inst E = insts_of (ce_blocks E)"

definition store_size :: "nat \<Rightarrow> nat" where
  "store_size bits = (bits + 7) div 8"

text \<open>\<open>get_memory_access\<close>. The two caches only keep its answers. A pointer is a bit vector, so that the number of
  a concrete one can be read.\<close>

definition accessed :: "cp_env \<Rightarrow> ir_inst \<Rightarrow> (llvm_value \<times> nat) option" where
  "accessed E inst =
     (case inst of ILoad bits p \<Rightarrow> Some (p, bits) | IStore v p \<Rightarrow> Some (p, primitive_size (ce_ir E) v) | _ \<Rightarrow> None)"

definition get_memory_access :: "cp_env \<Rightarrow> ir_inst \<Rightarrow> concrete_access option" where
  "get_memory_access E inst =
     (case accessed E inst of None \<Rightarrow> None
      | Some (p, bits) \<Rightarrow>
          (case sx_vars (ce_symex E) p of None \<Rightarrow> None
           | Some v \<Rightarrow>
               (let expression = v_simplify (ce_solver E) v in
                case v_page expression of None \<Rightarrow> None
                | Some page \<Rightarrow>
                    if \<not> is_concrete expression then None
                    else
                      (case as_uint64 expression of Inl e \<Rightarrow> None
                       | Inr offset \<Rightarrow> Some \<lparr>ca_page = page, ca_offset = offset, ca_size = store_size bits\<rparr>))))"

section \<open>The forest of definitions\<close>

definition all_insts :: "cp_env \<Rightarrow> nat list" where
  "all_insts E = map fst (concat (ce_blocks E))"

definition def_children :: "cp_env \<Rightarrow> mem_access \<Rightarrow> nat list" where
  "def_children E parent = filter (\<lambda>i. ce_def_parent E i = Some parent) (all_insts E)"

definition access_loads :: "cp_env \<Rightarrow> mem_access \<Rightarrow> nat list" where
  "access_loads E parent =
     filter (\<lambda>i. (case ce_inst E i of Some inst \<Rightarrow> is_load inst | None \<Rightarrow> False) \<and> ce_use_parent E i = Some parent)
       (all_insts E)"

definition add_root :: "mem_access option \<Rightarrow> mem_access list \<Rightarrow> mem_access list" where
  "add_root access roots =
     (case access of Some (Mem_phi b) \<Rightarrow> if Mem_phi b \<in> set roots then roots else roots @ [Mem_phi b] | _ \<Rightarrow> roots)"

definition roots_of :: "cp_env \<Rightarrow> mem_access list" where
  "roots_of E =
     fold (\<lambda>i roots.
         add_root (case ce_inst E i of Some inst \<Rightarrow> if is_load inst then ce_use_parent E i else None | None \<Rightarrow> None)
           (add_root (ce_def_parent E i) roots))
       (all_insts E) [Live_on_entry]"

section \<open>Safe values\<close>

datatype safety = Visiting | Safe | Unsafe

type_synonym safety_cache = "nat \<rightharpoonup> safety"

fun all_safe :: "(llvm_value \<Rightarrow> safety_cache \<Rightarrow> bool \<times> safety_cache) \<Rightarrow> llvm_value list \<Rightarrow> safety_cache \<Rightarrow> bool \<times> safety_cache" where
  "all_safe f [] cache = (True, cache)"
| "all_safe f (v # vs) cache =
     (case f v cache of (safe, cache1) \<Rightarrow> if safe then all_safe f vs cache1 else (False, cache1))"

definition range_is_safe :: "(mem_addr \<Rightarrow> bool) \<Rightarrow> concrete_access \<Rightarrow> bool" where
  "range_is_safe safe access \<longleftrightarrow> (\<forall>k < ca_size access. safe (ca_page access, ca_offset access + of_nat k))"

definition load_candidate :: "cp_env \<Rightarrow> mem_access \<Rightarrow> nat \<Rightarrow> block_id \<Rightarrow> concrete_access option \<Rightarrow> bool" where
  "load_candidate E active i bb access \<longleftrightarrow>
     pred_size (ce_blocks E) bb \<le> 1 \<and> ce_use_parent E i = Some active \<and>
     (case access of None \<Rightarrow> False | Some a \<Rightarrow> ca_size a \<le> 64)"

text \<open>The middle of \<open>is_safe_value\<close>: the answer for an instruction that has no entry yet, by the answers \<open>f\<close> for its
  operands.\<close>

definition inst_is_safe ::
  "(llvm_value \<Rightarrow> safety_cache \<Rightarrow> bool \<times> safety_cache) \<Rightarrow> cp_env \<Rightarrow> mem_access \<Rightarrow> (mem_addr \<Rightarrow> bool) \<Rightarrow> nat \<Rightarrow> ir_inst \<Rightarrow>
   safety_cache \<Rightarrow> bool \<times> safety_cache" where
  "inst_is_safe f E active safe i inst cache =
     (let bb = the (block_of (ce_blocks E) i) in
      if ce_in_loop E bb \<or> is_phi inst then (False, cache)
      else
        case inst of
          ILoad n p \<Rightarrow>
            (let access = get_memory_access E inst in
             if load_candidate E active i bb access then
               (case f p cache of (s, c) \<Rightarrow> (s \<and> range_is_safe safe (the access), c))
             else (False, cache))
        | _ \<Rightarrow> if ce_touches_memory E inst then (False, cache) else all_safe f (operands inst) cache)"

text \<open>\<open>is_safe_value\<close> while \<open>active\<close> is the access that is visited and \<open>safe\<close> tells which bytes are safe there. An
  instruction is marked before its operands are looked at, so that the number of instructions is enough fuel.\<close>

primrec is_safe_value ::
  "nat \<Rightarrow> cp_env \<Rightarrow> mem_access \<Rightarrow> (mem_addr \<Rightarrow> bool) \<Rightarrow> llvm_value \<Rightarrow> safety_cache \<Rightarrow> bool \<times> safety_cache" where
  "is_safe_value 0 E active safe v cache = (False, cache)"
| "is_safe_value (Suc fuel) E active safe v cache =
     (case v of LConstantInt w n \<Rightarrow> (True, cache)
      | LValue i \<Rightarrow>
          (case ce_inst E i of None \<Rightarrow> (True, cache)
           | Some inst \<Rightarrow>
               (case cache i of Some s \<Rightarrow> (s = Safe, cache)
                | None \<Rightarrow>
                    (case inst_is_safe (is_safe_value fuel E active safe) E active safe i inst (cache(i \<mapsto> Visiting)) of
                       (ok, cache2) \<Rightarrow> (ok, cache2(i \<mapsto> (if ok then Safe else Unsafe)))))))"

definition safe_value :: "cp_env \<Rightarrow> mem_access \<Rightarrow> (mem_addr \<Rightarrow> bool) \<Rightarrow> llvm_value \<Rightarrow> safety_cache \<Rightarrow> bool \<times> safety_cache" where
  "safe_value E = is_safe_value (Suc (length (all_insts E))) E"

section \<open>The byte map with its log\<close>

type_synonym byte_state = "mem_access \<times> bool"

record byte_map =
  bm_bytes :: "mem_addr \<rightharpoonup> byte_state"
  bm_undo :: "(mem_addr \<times> byte_state option) list"
  bm_generation :: mem_access
  bm_default :: bool

text \<open>What the map says of a byte: an entry of an earlier generation does not count.\<close>

definition byte_is_safe :: "byte_map \<Rightarrow> mem_addr \<Rightarrow> bool" where
  "byte_is_safe m a =
     (case bm_bytes m a of
        Some (g, s) \<Rightarrow> if g = bm_generation m then s else bm_default m | None \<Rightarrow> bm_default m)"

text \<open>Erasing through the iterator of an entry that is not there would be undefined; the log is kept with the last
  record first.\<close>

definition set_byte_safety :: "mem_addr \<Rightarrow> bool \<Rightarrow> byte_map \<Rightarrow> byte_map res" where
  "set_byte_safety a safe m =
     (if byte_is_safe m a = safe then Inr m
      else
        (let m1 = m\<lparr>bm_undo := (a, bm_bytes m a) # bm_undo m\<rparr> in
         if safe = bm_default m then
           (if bm_bytes m a = None then Inl Undefined_behaviour
            else Inr (m1\<lparr>bm_bytes := (bm_bytes m)(a := None)\<rparr>))
         else Inr (m1\<lparr>bm_bytes := (bm_bytes m)(a \<mapsto> (bm_generation m, safe))\<rparr>)))"

fun undo_records :: "(mem_addr \<times> byte_state option) list \<Rightarrow> (mem_addr \<rightharpoonup> byte_state) \<Rightarrow> (mem_addr \<rightharpoonup> byte_state)" where
  "undo_records [] bytes = bytes"
| "undo_records ((a, old) # log) bytes = undo_records log (bytes(a := old))"

definition rollback :: "nat \<Rightarrow> byte_map \<Rightarrow> byte_map" where
  "rollback checkpoint m =
     (let n = length (bm_undo m) - checkpoint in
      m\<lparr>bm_bytes := undo_records (take n (bm_undo m)) (bm_bytes m), bm_undo := drop n (bm_undo m)\<rparr>)"

section \<open>The walk\<close>

text \<open>The bytes of an access, up to the end of the address space.\<close>

definition access_bytes :: "concrete_access \<Rightarrow> mem_addr list" where
  "access_bytes access =
     map (\<lambda>k. (ca_page access, ca_offset access + of_nat k))
       (takeWhile (\<lambda>k. ca_offset access \<le> ca_offset access + of_nat k) [0..<ca_size access])"

definition store_access :: "cp_env \<Rightarrow> nat \<Rightarrow> (block_id \<times> llvm_value \<times> llvm_value \<times> concrete_access) option" where
  "store_access E d =
     (case ce_inst E d of
        Some (IStore v p) \<Rightarrow>
          map_option (\<lambda>a. (the (block_of (ce_blocks E) d), v, p, a)) (get_memory_access E (IStore v p))
      | _ \<Rightarrow> None)"

text \<open>Whether the bytes that a store writes are safe.\<close>

definition store_is_safe ::
  "cp_env \<Rightarrow> mem_access \<Rightarrow> (mem_addr \<Rightarrow> bool) \<Rightarrow> block_id \<Rightarrow> llvm_value \<Rightarrow> llvm_value \<Rightarrow> safety_cache \<Rightarrow> bool \<times> safety_cache" where
  "store_is_safe E active safe bb v p cache =
     (if \<not> ce_in_loop E bb \<and> pred_size (ce_blocks E) bb \<le> 1 then
        (case safe_value E active safe p cache of (s, cache1) \<Rightarrow>
           if s then safe_value E active safe v cache1 else (False, cache1))
      else (False, cache))"

definition enter_definition :: "cp_env \<Rightarrow> mem_access \<Rightarrow> nat \<Rightarrow> byte_map \<times> safety_cache \<Rightarrow> (byte_map \<times> safety_cache) res" where
  "enter_definition E active d st =
     (case st of (m, cache) \<Rightarrow>
        (case store_access E d of
           None \<Rightarrow> Inr (m\<lparr>bm_generation := Mem_def d, bm_default := False\<rparr>, cache)
         | Some (bb, v, p, access) \<Rightarrow>
             (case store_is_safe E active (byte_is_safe m) bb v p cache of (s, cache1) \<Rightarrow>
                res_bind (res_fold (\<lambda>a. set_byte_safety a s) (access_bytes access) m) (\<lambda>m1. Inr (m1, cache1)))))"

definition visit_loads :: "cp_env \<Rightarrow> mem_access \<Rightarrow> (mem_addr \<Rightarrow> bool) \<Rightarrow> safety_cache \<Rightarrow> safety_cache" where
  "visit_loads E access safe cache =
     fold (\<lambda>i cache. snd (safe_value E access safe (LValue i) cache)) (access_loads E access) cache"

record frame =
  fr_access :: mem_access
  fr_next_child :: nat
  fr_checkpoint :: nat
  fr_generation :: mem_access
  fr_default :: bool
  fr_entered :: bool

type_synonym walk = "frame list \<times> byte_map \<times> safety_cache"

text \<open>One round of the loop over the stack.\<close>

definition walk_step :: "cp_env \<Rightarrow> walk \<Rightarrow> (bool \<times> walk) res" where
  "walk_step E w =
     (case w of
        ([], m, cache) \<Rightarrow> Inr (True, w)
      | (fr # stack, m, cache) \<Rightarrow>
          let active = fr_access fr;
              cache1 = (if fr_entered fr then cache else visit_loads E active (byte_is_safe m) cache);
              fr1 = fr\<lparr>fr_entered := True\<rparr>;
              children = def_children E active
          in
          if fr_next_child fr1 < length children then
            let d = children ! fr_next_child fr1;
                fr2 = fr1\<lparr>fr_next_child := Suc (fr_next_child fr1)\<rparr>;
                child = \<lparr>fr_access = Mem_def d, fr_next_child = 0, fr_checkpoint = length (bm_undo m),
                         fr_generation = bm_generation m, fr_default = bm_default m, fr_entered = False\<rparr>
            in res_bind (enter_definition E active d (m, cache1)) (\<lambda>(m1, cache2).
               Inr (False, child # fr2 # stack, m1, cache2))
          else
            Inr (False, stack,
              (rollback (fr_checkpoint fr1) m)\<lparr>bm_generation := fr_generation fr1, bm_default := fr_default fr1\<rparr>, cache1))"

fun walk_loop :: "nat \<Rightarrow> cp_env \<Rightarrow> walk \<Rightarrow> walk res" where
  "walk_loop 0 E w = Inl Diverges"
| "walk_loop (Suc fuel) E w =
     res_bind (walk_step E w) (\<lambda>(over, w1). if over then Inr w1 else walk_loop fuel E w1)"

definition walk_root :: "nat \<Rightarrow> cp_env \<Rightarrow> mem_access \<Rightarrow> safety_cache \<Rightarrow> safety_cache res" where
  "walk_root fuel E root cache =
     (let m = \<lparr>bm_bytes = Map.empty, bm_undo = [], bm_generation = root, bm_default = (root = Live_on_entry)\<rparr>;
          fr = \<lparr>fr_access = root, fr_next_child = 0, fr_checkpoint = 0, fr_generation = root,
                fr_default = (root = Live_on_entry), fr_entered = False\<rparr>
      in res_bind (walk_loop fuel E ([fr], m, cache)) (\<lambda>(stack, m1, cache1). Inr cache1))"

definition value_safety :: "nat \<Rightarrow> cp_env \<Rightarrow> safety_cache res" where
  "value_safety fuel E = res_fold (walk_root fuel E) (roots_of E) Map.empty"

section \<open>Replacing the loads\<close>

text \<open>The constant for a load: it must be safe, and its value concrete and of the type of the load.\<close>

definition load_constant :: "cp_env \<Rightarrow> safety_cache \<Rightarrow> nat \<Rightarrow> llvm_value option" where
  "load_constant E cache i =
     (case ce_inst E i of
        Some (ILoad bits p) \<Rightarrow>
          (case sx_vars (ce_symex E) (LValue i) of None \<Rightarrow> None
           | Some v \<Rightarrow>
               if cache i \<noteq> Some Safe then None
               else
                 (let x = v_simplify (ce_solver E) v in
                  if \<not> is_concrete x then None
                  else
                    (case (v_size x, as_uint64 x) of
                       (Inr w, Inr n) \<Rightarrow> if w = bits then Some (LConstantInt w (take_bit w (uint n))) else None
                     | _ \<Rightarrow> None)))
      | _ \<Rightarrow> None)"

text \<open>\<open>users()\<close> has an instruction once for every operand that is the value; the order is the one of the function.\<close>

definition users_of :: "ir_builder \<Rightarrow> llvm_value \<Rightarrow> nat list" where
  "users_of b v = concat (map (\<lambda>(i, inst). replicate (count_list (operands inst) v) i) (concat (ir_blocks b)))"

record memory_propagation_result =
  dead_loads :: "nat list"
  fold_seeds :: "nat list"

definition concretize_load ::
  "cp_env \<Rightarrow> safety_cache \<Rightarrow> nat \<Rightarrow> ir_builder \<times> memory_propagation_result \<Rightarrow> ir_builder \<times> memory_propagation_result" where
  "concretize_load E cache i st =
     (case st of (b, r) \<Rightarrow>
        (case load_constant E cache i of None \<Rightarrow> (b, r)
         | Some k \<Rightarrow>
             (replaceAllUsesWith (LValue i) k b,
              \<lparr>dead_loads = dead_loads r @ [i], fold_seeds = fold_seeds r @ users_of b (LValue i)\<rparr>)))"

definition concretize_memory_loads :: "nat \<Rightarrow> cp_env \<Rightarrow> (ir_builder \<times> memory_propagation_result) res" where
  "concretize_memory_loads fuel E =
     res_bind (value_safety fuel E) (\<lambda>cache.
     Inr (fold (concretize_load E cache) (all_insts E) (ce_ir E, \<lparr>dead_loads = [], fold_seeds = []\<rparr>)))"

end
