(* ===== verification/Const_Prop_Walk.thy ===== *)
theory Const_Prop_Walk
  imports Const_Prop_Memory Fuel_Loop Reference_Solver
begin

text \<open>
  The walk over the definitions of memory, seen without its stack and its log: a recursion that passes the safety
  of the bytes as a function. The log is an implementation of functions that can be taken back
  (\<open>undo_map\<close>), and the loop over the stack implements the recursion.
\<close>

section \<open>Maps whose updates can be taken back\<close>

locale undo_map =
  fixes view :: "'m \<Rightarrow> 'a \<Rightarrow> 'b"
    and assign :: "'a \<Rightarrow> 'b \<Rightarrow> 'm \<Rightarrow> 'm res"
    and mark :: "'m \<Rightarrow> nat"
    and undo :: "nat \<Rightarrow> 'm \<Rightarrow> 'm"
    and kept :: "'m \<Rightarrow> 'm \<Rightarrow> bool"
  assumes assign_returns: "\<exists>m'. assign a x m = Inr m'"
    and assign_view: "assign a x m = Inr m' \<Longrightarrow> view m' = (view m)(a := x)"
    and assign_undo: "assign a x m = Inr m' \<Longrightarrow> n \<le> mark m \<Longrightarrow> n \<le> mark m' \<and> undo n m' = undo n m"
    and assign_kept: "assign a x m = Inr m' \<Longrightarrow> kept m m'"
    and undo_mark: "undo (mark m) m = m"
    and kept_refl: "kept m m"
    and kept_trans: "kept m1 m2 \<Longrightarrow> kept m2 m3 \<Longrightarrow> kept m1 m3"
begin

lemma assign_all:
  "\<exists>m'. res_fold (\<lambda>a. assign a x) as m = Inr m' \<and> view m' = (\<lambda>a. if a \<in> set as then x else view m a) \<and>
     kept m m' \<and> (\<forall>n \<le> mark m. n \<le> mark m' \<and> undo n m' = undo n m)"
proof (induction "as" arbitrary: m)
  case (Cons a "as")
  obtain m1 where m1: "assign a x m = Inr m1" using assign_returns by blast
  obtain m2 where m2: "res_fold (\<lambda>a. assign a x) as m1 = Inr m2"
      "view m2 = (\<lambda>a. if a \<in> set as then x else view m1 a)" "kept m1 m2"
      "\<forall>n \<le> mark m1. n \<le> mark m2 \<and> undo n m2 = undo n m1" using Cons.IH by blast
  have "\<forall>n \<le> mark m. n \<le> mark m2 \<and> undo n m2 = undo n m" using assign_undo [OF m1] m2(4) by auto
  moreover have "view m2 = (\<lambda>b. if b \<in> set (a # as) then x else view m b)"
    using assign_view [OF m1] m2(2) by auto
  moreover have "kept m m2" using assign_kept [OF m1] m2(3) by (rule kept_trans)
  ultimately show ?case using m1 m2(1) by (auto simp: fun_eq_iff)
qed (simp add: kept_refl)

lemma assign_all_undone:
  assumes "res_fold (\<lambda>a. assign a x) as m = Inr m'"
  shows "undo (mark m) m' = m"
  using assign_all [of x "as" m] assms undo_mark by auto

end

lemma set_byte_safety_undo:
  assumes "set_byte_safety a s m = Inr m'" and "n \<le> length (bm_undo m)"
  shows "n \<le> length (bm_undo m') \<and> rollback n m' = rollback n m"
proof (cases "bm_undo m' = bm_undo m")
  case True
  then have "m' = m" using assms(1) by (auto simp: set_byte_safety_def Let_def split: if_splits)
  then show ?thesis using assms(2) by simp
next
  case False
  then obtain b where m': "m' = m\<lparr>bm_undo := (a, bm_bytes m a) # bm_undo m, bm_bytes := (bm_bytes m)(a := b)\<rparr>"
    using assms(1) by (auto simp: set_byte_safety_def Let_def split: if_splits)
  obtain k where k: "length (bm_undo m) = n + k" using assms(2) le_Suc_ex by blast
  show ?thesis using k by (simp add: m' rollback_def Let_def)
qed

lemma set_byte_safety_view:
  assumes "set_byte_safety a s m = Inr m'"
  shows "byte_is_safe m' = (byte_is_safe m)(a := s)"
proof (cases "byte_is_safe m a = s")
  case True
  then have "m' = m" using assms by (auto simp: set_byte_safety_def)
  then show ?thesis using fun_upd_idem [of "byte_is_safe m" a s, OF True] by simp
next
  case False
  then have "m' = m\<lparr>bm_undo := (a, bm_bytes m a) # bm_undo m,
      bm_bytes := (bm_bytes m)(a := if s = bm_default m then None else Some (bm_generation m, s))\<rparr>"
    using assms by (auto simp: set_byte_safety_def Let_def split: if_splits)
  then show ?thesis by (intro ext) (simp add: byte_is_safe_def split: option.split)
qed

text \<open>An entry of the map belongs to the generation that is current when it is written.\<close>

definition same_generation :: "byte_map \<Rightarrow> byte_map \<Rightarrow> bool" where
  "same_generation m m' \<longleftrightarrow>
     bm_generation m' = bm_generation m \<and> bm_default m' = bm_default m \<and>
     (\<forall>a g s. bm_bytes m' a = Some (g, s) \<longrightarrow> g = bm_generation m \<or> (\<exists>a s. bm_bytes m a = Some (g, s)))"

interpretation bytes: undo_map byte_is_safe set_byte_safety "\<lambda>m. length (bm_undo m)" rollback same_generation
proof unfold_locales
  fix a s m
  show "\<exists>m'. set_byte_safety a s m = Inr m'"
    by (auto simp: set_byte_safety_def Let_def byte_is_safe_def split: option.splits)
next
  fix a s m m' assume "set_byte_safety a s m = Inr m'"
  then show "byte_is_safe m' = (byte_is_safe m)(a := s)"
    by (rule set_byte_safety_view)
next
  fix a s m m' assume "set_byte_safety a s m = Inr m'"
  then show "same_generation m m'"
    by (auto simp: set_byte_safety_def Let_def same_generation_def split: if_splits)
next
  fix a s m m' and n :: nat assume "set_byte_safety a s m = Inr m'" "n \<le> length (bm_undo m)"
  then show "n \<le> length (bm_undo m') \<and> rollback n m' = rollback n m" by (rule set_byte_safety_undo)
next
  fix m1 m2 m3 assume "same_generation m1 m2" "same_generation m2 m3"
  then show "same_generation m1 m3" unfolding same_generation_def by metis
qed (auto simp: rollback_def same_generation_def)

section \<open>The recursion\<close>

text \<open>What a definition does to the safety of the bytes, and the visit of an access with everything below it.\<close>

definition ref_enter ::
  "cp_env \<Rightarrow> mem_access \<Rightarrow> nat \<Rightarrow> (mem_addr \<Rightarrow> bool) \<Rightarrow> safety_cache \<Rightarrow> (mem_addr \<Rightarrow> bool) \<times> safety_cache" where
  "ref_enter E active d safe cache =
     (case store_access E d of
        None \<Rightarrow> (\<lambda>a. False, cache)
      | Some (bb, v, p, access) \<Rightarrow>
          (case store_is_safe E active safe bb v p cache of (s, cache1) \<Rightarrow>
             (\<lambda>a. if a \<in> set (access_bytes access) then s else safe a, cache1)))"

primrec ref_visit :: "nat \<Rightarrow> cp_env \<Rightarrow> mem_access \<Rightarrow> (mem_addr \<Rightarrow> bool) \<Rightarrow> safety_cache \<Rightarrow> safety_cache" where
  "ref_visit 0 E active safe cache = cache"
| "ref_visit (Suc n) E active safe cache =
     fold (\<lambda>d cache. case ref_enter E active d safe cache of (safe1, cache1) \<Rightarrow> ref_visit n E (Mem_def d) safe1 cache1)
       (def_children E active) (visit_loads E active safe cache)"

definition ref_value_safety :: "nat \<Rightarrow> cp_env \<Rightarrow> safety_cache" where
  "ref_value_safety n E = fold (\<lambda>root. ref_visit n E root (\<lambda>a. root = Live_on_entry)) (roots_of E) Map.empty"

text \<open>The definitions of memory are a forest: the defining access of a definition is closer to a root.\<close>

definition def_forest :: "cp_env \<Rightarrow> (mem_access \<Rightarrow> nat) \<Rightarrow> nat \<Rightarrow> bool" where
  "def_forest E depth n \<longleftrightarrow>
     (\<forall>d \<in> set (all_insts E). depth (Mem_def d) < n \<and>
        (case ce_def_parent E d of None \<Rightarrow> True | Some p \<Rightarrow> depth p < depth (Mem_def d)))"

definition generations_below :: "(mem_access \<Rightarrow> nat) \<Rightarrow> nat \<Rightarrow> byte_map \<Rightarrow> bool" where
  "generations_below depth n m \<longleftrightarrow>
     depth (bm_generation m) \<le> n \<and> (\<forall>a g s. bm_bytes m a = Some (g, s) \<longrightarrow> depth g \<le> n)"

lemma same_generation_below:
  assumes "same_generation m m'" and "generations_below depth n m" and "n \<le> k"
  shows "generations_below depth k m'"
  using assms unfolding same_generation_def generations_below_def by (metis le_trans)

text \<open>A definition that is not a concrete store starts a generation that no entry belongs to.\<close>

lemma enter_definition_ref:
  assumes below: "generations_below depth (depth active) m" and deeper: "depth active < depth (Mem_def d)"
  shows "\<exists>m1. enter_definition E active d (m, cache) = Inr (m1, snd (ref_enter E active d (byte_is_safe m) cache)) \<and>
    byte_is_safe m1 = fst (ref_enter E active d (byte_is_safe m) cache) \<and>
    generations_below depth (depth (Mem_def d)) m1 \<and>
    (rollback (length (bm_undo m)) m1)\<lparr>bm_generation := bm_generation m, bm_default := bm_default m\<rparr> = m"
proof (cases "store_access E d")
  case None
  let ?m1 = "m\<lparr>bm_generation := Mem_def d, bm_default := False\<rparr>"
  have "g \<noteq> Mem_def d" if "bm_bytes m a = Some (g, s)" for a g s
    using below deeper that unfolding generations_below_def by (metis not_le)
  then have "byte_is_safe ?m1 = (\<lambda>a. False)"
    by (auto simp: byte_is_safe_def fun_eq_iff split: option.splits)
  moreover have "generations_below depth (depth (Mem_def d)) ?m1"
    using below deeper unfolding generations_below_def by (fastforce dest: order.strict_implies_order)
  ultimately show ?thesis using None by (simp add: enter_definition_def ref_enter_def rollback_def)
next
  case (Some x)
  obtain bb v p access where x: "x = (bb, v, p, access)" by (cases x)
  obtain s cache1 where s: "store_is_safe E active (byte_is_safe m) bb v p cache = (s, cache1)" by fastforce
  obtain m1 where m1: "res_fold (\<lambda>a. set_byte_safety a s) (access_bytes access) m = Inr m1"
      "byte_is_safe m1 = (\<lambda>a. if a \<in> set (access_bytes access) then s else byte_is_safe m a)" "same_generation m m1"
    using bytes.assign_all by blast
  have "rollback (length (bm_undo m)) m1 = m" using bytes.assign_all_undone [OF m1(1)] .
  moreover have "generations_below depth (depth (Mem_def d)) m1"
    using same_generation_below [OF m1(3) below] deeper by simp
  ultimately show ?thesis using Some x s m1 by (simp add: enter_definition_def ref_enter_def)
qed

section \<open>The loop over the stack\<close>

definition walks :: "cp_env \<Rightarrow> walk \<Rightarrow> walk \<Rightarrow> bool" where
  "walks E w w' \<longleftrightarrow> (\<exists>k. \<forall>fuel. walk_loop (Suc k + fuel) E w = walk_loop fuel E w')"

lemma walks_trans:
  assumes "walks E w w1" and "walks E w1 w2" shows "walks E w w2"
proof -
  obtain j k where "walk_loop (Suc j + fuel) E w = walk_loop fuel E w1" "walk_loop (Suc k + fuel) E w1 = walk_loop fuel E w2"
    for fuel using assms unfolding walks_def by blast
  then have "walk_loop (Suc (j + Suc k) + fuel) E w = walk_loop fuel E w2" for fuel by (metis add.assoc add_Suc)
  then show ?thesis unfolding walks_def by blast
qed

lemma walks_step: "walk_step E w = Inr (False, w') \<Longrightarrow> walks E w w'"
  unfolding walks_def by (rule exI [of _ 0]) simp

text \<open>The state after a frame has been popped.\<close>

definition popped :: "frame \<Rightarrow> byte_map \<Rightarrow> byte_map" where
  "popped fr m = (rollback (fr_checkpoint fr) m)\<lparr>bm_generation := fr_generation fr, bm_default := fr_default fr\<rparr>"

definition below_frame :: "nat \<Rightarrow> cp_env \<Rightarrow> mem_access \<Rightarrow> (mem_addr \<Rightarrow> bool) \<Rightarrow> nat list \<Rightarrow> safety_cache \<Rightarrow> safety_cache" where
  "below_frame n E active safe =
     fold (\<lambda>d cache. case ref_enter E active d safe cache of (safe1, cache1) \<Rightarrow> ref_visit n E (Mem_def d) safe1 cache1)"

lemma walk_enters:
  assumes "\<not> fr_entered fr"
    and "walks E (fr\<lparr>fr_entered := True\<rparr> # stack, m, visit_loads E (fr_access fr) (byte_is_safe m) cache) w"
  shows "walks E (fr # stack, m, cache) w"
proof -
  have "walk_step E (fr # stack, m, cache) =
      walk_step E (fr\<lparr>fr_entered := True\<rparr> # stack, m, visit_loads E (fr_access fr) (byte_is_safe m) cache)"
    using assms(1) by (simp add: walk_step_def Let_def)
  then show ?thesis using assms(2) by (simp add: walks_def)
qed

lemma walk_children:
  assumes forest: "def_forest E depth bound" and below: "generations_below depth (depth (fr_access fr)) m"
    and subtree: "\<And>d m cache stack fr'. \<lbrakk>d \<in> set (def_children E (fr_access fr)); fr_access fr' = Mem_def d;
        fr_next_child fr' = 0; \<not> fr_entered fr'; generations_below depth (depth (Mem_def d)) m\<rbrakk> \<Longrightarrow>
        walks E (fr' # stack, m, cache) (stack, popped fr' m, ref_visit n E (Mem_def d) (byte_is_safe m) cache)"
    and entered: "fr_entered fr"
  shows "walks E (fr # stack, m, cache)
    (stack, popped fr m, below_frame n E (fr_access fr) (byte_is_safe m) (drop (fr_next_child fr) (def_children E (fr_access fr))) cache)"
  using below subtree entered
proof (induction "length (def_children E (fr_access fr)) - fr_next_child fr" arbitrary: fr cache)
  case 0
  have "fr\<lparr>fr_entered := True\<rparr> = fr" using "0.prems"(3) by simp
  then have "walk_step E (fr # stack, m, cache) = Inr (False, stack, popped fr m, cache)"
    using "0.hyps" "0.prems"(3) by (simp add: walk_step_def Let_def popped_def)
  then show ?case using "0.hyps" by (auto simp: below_frame_def intro: walks_step)
next
  case (Suc l)
  let ?active = "fr_access fr" let ?cs = "def_children E (fr_access fr)" let ?j = "fr_next_child fr"
  have j: "?j < length ?cs" using Suc.hyps(2) by simp
  let ?d = "?cs ! ?j"
  have d: "?d \<in> set ?cs" using j by simp
  then have deeper: "depth ?active < depth (Mem_def ?d)"
    using forest unfolding def_forest_def def_children_def by fastforce
  obtain m1 where m1: "enter_definition E ?active ?d (m, cache) = Inr (m1, snd (ref_enter E ?active ?d (byte_is_safe m) cache))"
      "byte_is_safe m1 = fst (ref_enter E ?active ?d (byte_is_safe m) cache)" "generations_below depth (depth (Mem_def ?d)) m1"
      "(rollback (length (bm_undo m)) m1)\<lparr>bm_generation := bm_generation m, bm_default := bm_default m\<rparr> = m"
    using enter_definition_ref [OF Suc.prems(1) deeper] by blast
  let ?child = "\<lparr>fr_access = Mem_def ?d, fr_next_child = 0, fr_checkpoint = length (bm_undo m),
    fr_generation = bm_generation m, fr_default = bm_default m, fr_entered = False\<rparr>"
  let ?fr = "fr\<lparr>fr_next_child := Suc ?j\<rparr>"
  let ?cache = "ref_visit n E (Mem_def ?d) (byte_is_safe m1) (snd (ref_enter E ?active ?d (byte_is_safe m) cache))"
  have "fr\<lparr>fr_entered := True, fr_next_child := Suc ?j\<rparr> = ?fr" using Suc.prems(3) by simp
  then have "walk_step E (fr # stack, m, cache) =
      Inr (False, ?child # ?fr # stack, m1, snd (ref_enter E ?active ?d (byte_is_safe m) cache))"
    using j m1(1) Suc.prems(3) by (simp add: walk_step_def Let_def)
  moreover have "walks E (?child # ?fr # stack, m1, snd (ref_enter E ?active ?d (byte_is_safe m) cache))
      (?fr # stack, popped ?child m1, ?cache)"
    by (rule Suc.prems(2)) (use d m1(3) in simp_all)
  moreover have "popped ?child m1 = m" using m1(4) by (simp add: popped_def)
  moreover have "walks E (?fr # stack, m, ?cache) (stack, popped ?fr m, below_frame n E ?active (byte_is_safe m) (drop (Suc ?j) ?cs) ?cache)"
    using Suc.hyps(1) [of ?fr ?cache] Suc.hyps(2) Suc.prems by simp
  moreover have "below_frame n E ?active (byte_is_safe m) (drop ?j ?cs) cache =
      below_frame n E ?active (byte_is_safe m) (drop (Suc ?j) ?cs) ?cache"
    using j m1(2) by (simp add: below_frame_def Cons_nth_drop_Suc [symmetric] split_beta)
  moreover have "popped ?fr m = popped fr m" by (simp add: popped_def)
  ultimately show ?case using walks_trans [OF walks_step [of E "(fr # stack, m, cache)"] walks_trans] by simp
qed

lemma walk_subtree:
  assumes forest: "def_forest E depth bound"
  shows "\<lbrakk>bound \<le> depth (fr_access fr) + n; 0 < n; fr_next_child fr = 0; \<not> fr_entered fr;
      generations_below depth (depth (fr_access fr)) m\<rbrakk> \<Longrightarrow>
    walks E (fr # stack, m, cache) (stack, popped fr m, ref_visit n E (fr_access fr) (byte_is_safe m) cache)"
proof (induction n arbitrary: fr m cache stack)
  case (Suc n)
  let ?fr = "fr\<lparr>fr_entered := True\<rparr>"
  have "walks E (?fr # stack, m, visit_loads E (fr_access fr) (byte_is_safe m) cache) (stack, popped ?fr m,
      below_frame n E (fr_access ?fr) (byte_is_safe m) (drop (fr_next_child ?fr) (def_children E (fr_access ?fr)))
        (visit_loads E (fr_access fr) (byte_is_safe m) cache))"
  proof (rule walk_children [OF forest])
    fix d m' cache' stack' and fr' :: frame
    assume d: "d \<in> set (def_children E (fr_access ?fr))"
      and fr': "fr_access fr' = Mem_def d" "fr_next_child fr' = 0" "\<not> fr_entered fr'" "generations_below depth (depth (Mem_def d)) m'"
    have "depth (fr_access fr) < depth (Mem_def d)" "depth (Mem_def d) < bound"
      using d forest unfolding def_forest_def def_children_def by fastforce+
    then have "bound \<le> depth (fr_access fr') + n" "0 < n" using Suc.prems(1) fr'(1) by simp_all
    then show "walks E (fr' # stack', m', cache') (stack', popped fr' m', ref_visit n E (Mem_def d) (byte_is_safe m') cache')"
      using Suc.IH [of fr' m' stack' cache'] fr' by simp
  qed (use Suc.prems in simp_all)
  moreover have "popped ?fr m = popped fr m" by (simp add: popped_def)
  ultimately show ?case using walk_enters [of fr] Suc.prems by (simp add: below_frame_def)
qed simp

lemma walk_root_ref:
  assumes "def_forest E depth n" and "0 < n"
  shows "\<exists>k. \<forall>fuel \<ge> k. walk_root fuel E root cache = Inr (ref_visit n E root (\<lambda>a. root = Live_on_entry) cache)"
proof -
  let ?m = "\<lparr>bm_bytes = Map.empty, bm_undo = [], bm_generation = root, bm_default = (root = Live_on_entry)\<rparr>"
  let ?fr = "\<lparr>fr_access = root, fr_next_child = 0, fr_checkpoint = 0, fr_generation = root,
    fr_default = (root = Live_on_entry), fr_entered = False\<rparr>"
  have safe: "byte_is_safe ?m = (\<lambda>a. root = Live_on_entry)" by (simp add: byte_is_safe_def fun_eq_iff)
  have "walks E ([?fr], ?m, cache) ([], popped ?fr ?m, ref_visit n E root (byte_is_safe ?m) cache)"
    using walk_subtree [OF assms(1), of ?fr n ?m] assms(2) by (simp add: generations_below_def)
  then obtain k where k: "walk_loop (Suc k + fuel) E ([?fr], ?m, cache) =
      walk_loop fuel E ([], popped ?fr ?m, ref_visit n E root (\<lambda>a. root = Live_on_entry) cache)" for fuel
    unfolding walks_def safe by blast
  have "walk_loop (Suc fuel) E ([], m, c) = Inr ([], m, c)" for fuel m c by (simp add: walk_step_def)
  with k have "walk_loop (Suc k + Suc fuel) E ([?fr], ?m, cache) =
      Inr ([], popped ?fr ?m, ref_visit n E root (\<lambda>a. root = Live_on_entry) cache)" for fuel
    by metis
  then have "walk_root (Suc k + Suc fuel) E root cache = Inr (ref_visit n E root (\<lambda>a. root = Live_on_entry) cache)" for fuel
    unfolding walk_root_def Let_def by (simp del: walk_loop.simps add_Suc_right)
  then have "walk_root (k + 2 + fuel) E root cache = Inr (ref_visit n E root (\<lambda>a. root = Live_on_entry) cache)" for fuel
    by simp
  then show ?thesis by (metis le_Suc_ex)
qed

text \<open>The loop only depends on its fuel by whether there is enough.\<close>

interpretation walk: fuel_rounds "walk_step E" "\<lambda>w. w" "\<lambda>n. walk_loop n E" for E
  by unfold_locales simp_all

lemma walk_root_fuel:
  assumes "walk_root n E root cache = Inr c" and "n \<le> m" shows "walk_root m E root cache = Inr c"
proof -
  have "walk_loop m E w = Inr r" if "walk_loop n E w = Inr r" for w r
    using walk.fuel_mono [OF that _ assms(2)] by simp
  then show ?thesis using assms(1) unfolding walk_root_def Let_def by (auto simp: res_bind_eq_Inr)
qed

lemma value_safety_fuel:
  assumes "value_safety n E = Inr c" and "n \<le> m" shows "value_safety m E = Inr c"
proof -
  have "res_fold (walk_root n E) roots cache = Inr c \<Longrightarrow> res_fold (walk_root m E) roots cache = Inr c" for roots cache
    by (induction roots arbitrary: cache) (auto simp: res_bind_eq_Inr dest: walk_root_fuel [OF _ assms(2)])
  then show ?thesis using assms(1) by (simp add: value_safety_def)
qed

lemma value_safety_ref:
  assumes "def_forest E depth n" and "0 < n"
  shows "\<exists>k. \<forall>fuel \<ge> k. value_safety fuel E = Inr (ref_value_safety n E)"
proof -
  have "\<exists>k. \<forall>fuel \<ge> k. res_fold (walk_root fuel E) roots cache =
      Inr (fold (\<lambda>root. ref_visit n E root (\<lambda>a. root = Live_on_entry)) roots cache)" for roots cache
  proof (induction roots arbitrary: cache)
    case (Cons root roots)
    let ?c = "ref_visit n E root (\<lambda>a. root = Live_on_entry) cache"
    obtain k where k: "\<forall>fuel \<ge> k. walk_root fuel E root cache = Inr ?c" using walk_root_ref [OF assms] by blast
    obtain l where l: "\<forall>fuel \<ge> l. res_fold (walk_root fuel E) roots ?c =
        Inr (fold (\<lambda>root. ref_visit n E root (\<lambda>a. root = Live_on_entry)) roots ?c)" using Cons.IH by blast
    show ?case by (rule exI [of _ "max k l"]) (use k l in simp)
  qed simp
  then show ?thesis by (simp add: value_safety_def ref_value_safety_def)
qed

lemma value_safety_result:
  assumes "def_forest E depth n" and "0 < n" and "value_safety fuel E = Inr cache"
  shows "cache = ref_value_safety n E"
proof -
  obtain k where k: "\<forall>fuel \<ge> k. value_safety fuel E = Inr (ref_value_safety n E)" using value_safety_ref [OF assms(1,2)] by blast
  then have "value_safety (max k fuel) E = Inr (ref_value_safety n E)" by simp
  moreover have "value_safety (max k fuel) E = Inr cache" using value_safety_fuel [OF assms(3)] by simp
  ultimately show ?thesis by simp
qed

text \<open>C21: \<open>concretize_memory_loads\<close> decides which loads are constant with an explicit stack, one mutable map of the
  bytes, a log of its changes, and generations for the writes it knows nothing of. Whenever the definitions of memory
  form a forest, enough rounds of that loop end, and what they leave is the result of the plain recursion in
  which every visit of a definition has its own function from bytes to their safety: the bytes
  of a concrete store get the safety of the store, every other definition makes all bytes unsafe, and
  nothing of a subtree is seen by its siblings.\<close>

theorem memory_walk_refines:
  assumes "def_forest E depth n" and "0 < n"
  shows "\<exists>k. \<forall>fuel \<ge> k. value_safety fuel E = Inr (ref_value_safety n E)"
  using assms by (rule value_safety_ref)

text \<open>A store of 5 to a byte of page 0, a load of that byte, and a load behind a call.\<close>

definition demo_cp :: cp_env where
  "demo_cp =
     \<lparr>ce_solver = reference_solver,
      ce_symex = \<lparr>sx_fresh = 0, sx_vars = [LValue 10 \<mapsto> pointer_new (value_new (BwBv 64 16)) 0,
        LValue 12 \<mapsto> value_new (BwBv 8 5), LValue 14 \<mapsto> value_new (BwBv 8 5)]\<rparr>,
      ce_ir = \<lparr>ir_next = 16, ir_sizes = (\<lambda>i. 8), ir_names = Map.empty, ir_blocks = [[(10, IGep (LValue 100) (Some 16)), (11, IStore (LConstantInt 8 5) (LValue 10)),
        (12, ILoad 8 (LValue 10)), (13, IOther ''call''), (14, ILoad 8 (LValue 10)), (15, IRet (LValue 12))]],
        ir_ip = (0, None), insert_points = [], to_delete = []\<rparr>,
      ce_in_loop = (\<lambda>bb. False), ce_touches_memory = (\<lambda>inst. inst = IOther ''call''),
      ce_def_parent = [11 \<mapsto> Live_on_entry, 13 \<mapsto> Mem_def 11], ce_use_parent = [12 \<mapsto> Mem_def 11, 14 \<mapsto> Mem_def 13]\<rparr>"

definition demo_depth :: "mem_access \<Rightarrow> nat" where
  "demo_depth a = (case a of Mem_def d \<Rightarrow> d | _ \<Rightarrow> 0)"

lemma demo_cp_forest: "def_forest demo_cp demo_depth 16"
  by (simp add: def_forest_def demo_cp_def all_insts_def demo_depth_def)

text \<open>The recursion on this function, one visit after the other.\<close>

lemma demo_cp_insts:
  "ce_inst demo_cp 10 = Some (IGep (LValue 100) (Some 16))" "ce_inst demo_cp 12 = Some (ILoad 8 (LValue 10))"
  "ce_inst demo_cp 14 = Some (ILoad 8 (LValue 10))" "ce_inst demo_cp 100 = None"
  "get_memory_access demo_cp (ILoad 8 (LValue 10)) = Some \<lparr>ca_page = 0, ca_offset = 16, ca_size = 1\<rparr>"
  "store_access demo_cp 11 = Some (0, LConstantInt 8 5, LValue 10, \<lparr>ca_page = 0, ca_offset = 16, ca_size = 1\<rparr>)"
  "store_access demo_cp 13 = None"
  by code_simp+

lemma demo_cp_forest_lists:
  "def_children demo_cp Live_on_entry = [11]" "def_children demo_cp (Mem_def 11) = [13]" "def_children demo_cp (Mem_def 13) = []"
  "access_loads demo_cp Live_on_entry = []" "access_loads demo_cp (Mem_def 11) = [12]" "access_loads demo_cp (Mem_def 13) = [14]"
  "roots_of demo_cp = [Live_on_entry]" "length (all_insts demo_cp) = 6"
  by code_simp+

lemma demo_cp_env:
  "ce_in_loop demo_cp bb = False" "ce_touches_memory demo_cp (IGep p off) = False" "pred_size (ce_blocks demo_cp) bb = 0"
  "ce_use_parent demo_cp 12 = Some (Mem_def 11)" "ce_use_parent demo_cp 14 = Some (Mem_def 13)"
  by (simp_all add: demo_cp_def pred_size_def successors_def)

lemmas demo_cp_simps = demo_cp_insts demo_cp_forest_lists demo_cp_env

lemma demo_cp_pointer:
  "cache 10 = None \<Longrightarrow> is_safe_value (Suc (Suc n)) demo_cp active safe (LValue 10) cache = (True, cache(10 \<mapsto> Safe))"
  "cache 10 = Some Safe \<Longrightarrow> is_safe_value (Suc n) demo_cp active safe (LValue 10) cache = (True, cache)"
  by (simp_all add: demo_cp_simps inst_is_safe_def)

lemma demo_cp_store: "store_is_safe demo_cp active safe 0 (LConstantInt 8 5) (LValue 10) Map.empty = (True, [10 \<mapsto> Safe])"
proof -
  have "safe_value demo_cp active safe (LValue 10) Map.empty = (True, [10 \<mapsto> Safe])"
    using demo_cp_pointer(1) [of Map.empty 5] by (simp add: safe_value_def demo_cp_simps eval_nat_numeral del: is_safe_value.simps)
  moreover have "safe_value demo_cp active safe (LConstantInt 8 5) cache = (True, cache)" for cache
    by (simp add: safe_value_def)
  ultimately show ?thesis by (simp add: store_is_safe_def demo_cp_simps)
qed

lemma demo_cp_load:
  assumes "cache 10 = Some Safe" and "cache i = None" and "i = 12 \<and> active = Mem_def 11 \<or> i = 14 \<and> active = Mem_def 13"
  shows "safe_value demo_cp active safe (LValue i) cache = (safe (0, 16), cache(i \<mapsto> (if safe (0, 16) then Safe else Unsafe)))"
proof -
  have p: "is_safe_value 6 demo_cp active safe (LValue 10) (cache(i \<mapsto> Visiting)) = (True, cache(i \<mapsto> Visiting))"
    using demo_cp_pointer(2) [of "cache(i \<mapsto> Visiting)" 5] assms by (auto simp: eval_nat_numeral)
  have c: "load_candidate demo_cp active i bb (Some \<lparr>ca_page = 0, ca_offset = 16, ca_size = 1\<rparr>)" for bb
    using assms(3) by (auto simp: load_candidate_def demo_cp_simps)
  have "inst_is_safe (is_safe_value 6 demo_cp active safe) demo_cp active safe i (ILoad 8 (LValue 10)) (cache(i \<mapsto> Visiting)) =
      (safe (0, 16), cache(i \<mapsto> Visiting))"
    using c by (simp add: inst_is_safe_def demo_cp_simps p range_is_safe_def Let_def)
  moreover have "ce_inst demo_cp i = Some (ILoad 8 (LValue 10))" using assms(3) by (auto simp: demo_cp_simps)
  ultimately show ?thesis using assms(2) unfolding safe_value_def demo_cp_forest_lists(8) is_safe_value.simps by simp
qed

lemma demo_cp_safety: "ref_value_safety 16 demo_cp = [10 \<mapsto> Safe, 12 \<mapsto> Safe, 14 \<mapsto> Unsafe]"
proof -
  have "ref_visit (Suc (Suc (Suc n))) demo_cp Live_on_entry (\<lambda>a. True) Map.empty = [10 \<mapsto> Safe, 12 \<mapsto> Safe, 14 \<mapsto> Unsafe]" for n
    by (simp add: demo_cp_forest_lists visit_loads_def ref_enter_def demo_cp_insts demo_cp_store demo_cp_load)
  from this [of 13] show ?thesis by (simp add: ref_value_safety_def demo_cp_forest_lists del: ref_visit.simps)
qed

theorem memory_walk_refines_witness:
  "def_forest demo_cp demo_depth 16 \<and>
   (\<exists>k. \<forall>fuel \<ge> k. value_safety fuel demo_cp = Inr [10 \<mapsto> Safe, 12 \<mapsto> Safe, 14 \<mapsto> Unsafe])"
  using memory_walk_refines [OF demo_cp_forest] demo_cp_forest by (simp add: demo_cp_safety)

end
