(* ===== verification/Const_Prop_Loads.thy ===== *)
theory Const_Prop_Loads
  imports Const_Prop_Walk
begin

text \<open>
  What a load that \<open>concretize_memory_loads\<close> finds safe is entitled to: where its bytes come from, and that the
  values they are made of are safe themselves.
\<close>

section \<open>Where the bytes of a load come from\<close>

definition ok_value :: "cp_env \<Rightarrow> safety_cache \<Rightarrow> llvm_value \<Rightarrow> bool" where
  "ok_value E cache v \<longleftrightarrow>
     (case v of LConstantInt w n \<Rightarrow> True | LValue i \<Rightarrow> ce_inst E i = None \<or> cache i = Some Safe)"

text \<open>A byte is defined at an access when it was there on entry, or the last definition that writes it is a store of a
  safe value through a safe pointer; between that store and the access there are only stores to other bytes.\<close>

inductive defined_byte :: "cp_env \<Rightarrow> safety_cache \<Rightarrow> mem_access \<Rightarrow> mem_addr \<Rightarrow> bool" for E cache where
  on_entry: "defined_byte E cache Live_on_entry a"
| written: "store_access E d = Some (bb, v, p, access) \<Longrightarrow> a \<in> set (access_bytes access) \<Longrightarrow>
     \<not> ce_in_loop E bb \<Longrightarrow> pred_size (ce_blocks E) bb \<le> 1 \<Longrightarrow> ok_value E cache p \<Longrightarrow> ok_value E cache v \<Longrightarrow>
     defined_byte E cache (Mem_def d) a"
| kept: "store_access E d = Some (bb, v, p, access) \<Longrightarrow> a \<notin> set (access_bytes access) \<Longrightarrow>
     ce_def_parent E d = Some parent \<Longrightarrow> defined_byte E cache parent a \<Longrightarrow> defined_byte E cache (Mem_def d) a"

inductive_cases defined_byte_defE: "defined_byte E cache (Mem_def d) a"
inductive_simps defined_byte_phi: "defined_byte E cache (Mem_phi bb) a"

definition load_justified :: "cp_env \<Rightarrow> safety_cache \<Rightarrow> nat \<Rightarrow> llvm_value \<Rightarrow> concrete_access option \<Rightarrow> bool" where
  "load_justified E cache i p access \<longleftrightarrow>
     pred_size (ce_blocks E) (the (block_of (ce_blocks E) i)) \<le> 1 \<and> ok_value E cache p \<and>
     (\<exists>a parent. access = Some a \<and> ca_size a \<le> 64 \<and> ce_use_parent E i = Some parent \<and>
        (\<forall>k < ca_size a. defined_byte E cache parent (ca_page a, ca_offset a + of_nat k)))"

definition entry_justified :: "cp_env \<Rightarrow> safety_cache \<Rightarrow> nat \<Rightarrow> ir_inst \<Rightarrow> bool" where
  "entry_justified E cache i inst \<longleftrightarrow>
     \<not> ce_in_loop E (the (block_of (ce_blocks E) i)) \<and>
     (case inst of
        ILoad n p \<Rightarrow> load_justified E cache i p (get_memory_access E inst)
      | _ \<Rightarrow> \<not> ce_touches_memory E inst \<and> (\<forall>v \<in> set (operands inst). ok_value E cache v))"

definition cache_justified :: "cp_env \<Rightarrow> safety_cache \<Rightarrow> bool" where
  "cache_justified E cache \<longleftrightarrow>
     (\<forall>i inst. cache i = Some Safe \<longrightarrow> ce_inst E i = Some inst \<longrightarrow> entry_justified E cache i inst)"

text \<open>All of this survives when more instructions are found safe.\<close>

definition more_safe :: "safety_cache \<Rightarrow> safety_cache \<Rightarrow> bool" where
  "more_safe c c' \<longleftrightarrow> (\<forall>i. c i = Some Safe \<longrightarrow> c' i = Some Safe)"

lemma more_safe_refl [simp]: "more_safe c c"
  by (simp add: more_safe_def)

lemma more_safe_trans: "more_safe c1 c2 \<Longrightarrow> more_safe c2 c3 \<Longrightarrow> more_safe c1 c3"
  by (simp add: more_safe_def)

lemma map_le_more_safe: "c \<subseteq>\<^sub>m c' \<Longrightarrow> more_safe c c'"
  by (simp add: more_safe_def map_le_def) (metis domI)

lemma ok_value_mono: "ok_value E c v \<Longrightarrow> more_safe c c' \<Longrightarrow> ok_value E c' v"
  by (auto simp: ok_value_def more_safe_def split: llvm_value.splits)

lemma defined_byte_mono: "defined_byte E c acc a \<Longrightarrow> more_safe c c' \<Longrightarrow> defined_byte E c' acc a"
  by (induction rule: defined_byte.induct) (auto intro: defined_byte.intros ok_value_mono)

lemma load_justified_mono: "load_justified E c i p access \<Longrightarrow> more_safe c c' \<Longrightarrow> load_justified E c' i p access"
  unfolding load_justified_def using ok_value_mono defined_byte_mono by fastforce

lemma entry_justified_mono:
  assumes "entry_justified E c i inst" and "more_safe c c'" shows "entry_justified E c' i inst"
  using assms load_justified_mono [OF _ assms(2)] ok_value_mono [OF _ assms(2)]
  unfolding entry_justified_def by (cases inst) simp_all

lemma cache_justified_upd:
  assumes "cache_justified E c" and "c i \<noteq> Some Safe"
    and "s = Safe \<Longrightarrow> ce_inst E i = Some inst \<Longrightarrow> entry_justified E c i inst" and "ce_inst E i = Some inst"
  shows "cache_justified E (c(i \<mapsto> s))"
proof -
  have "more_safe c (c(i \<mapsto> s))" using assms(2) by (simp add: more_safe_def)
  then show ?thesis using assms entry_justified_mono unfolding cache_justified_def
    by (metis fun_upd_apply option.inject)
qed

section \<open>Values\<close>

text \<open>What a call of \<open>is_safe_value\<close> at an access relies on and gives.\<close>

definition values_ok :: "cp_env \<Rightarrow> mem_access \<Rightarrow> (mem_addr \<Rightarrow> bool) \<Rightarrow> safety_cache \<Rightarrow> bool" where
  "values_ok E active safe cache \<longleftrightarrow> cache_justified E cache \<and> (\<forall>a. safe a \<longrightarrow> defined_byte E cache active a)"

definition sound_result :: "cp_env \<Rightarrow> mem_access \<Rightarrow> (mem_addr \<Rightarrow> bool) \<Rightarrow> safety_cache \<Rightarrow> (safety_cache \<Rightarrow> bool) \<Rightarrow> bool \<times> safety_cache \<Rightarrow> bool" where
  "sound_result E active safe cache Q r \<longleftrightarrow>
     cache \<subseteq>\<^sub>m snd r \<and> values_ok E active safe (snd r) \<and> (fst r \<longrightarrow> Q (snd r))"

lemma values_ok_mono:
  "values_ok E active safe c \<Longrightarrow> more_safe c c' \<Longrightarrow> cache_justified E c' \<Longrightarrow> values_ok E active safe c'"
  unfolding values_ok_def by (meson defined_byte_mono)

lemma sound_result_same [simp]:
  "sound_result E active safe cache Q (s, cache) \<longleftrightarrow> values_ok E active safe cache \<and> (s \<longrightarrow> Q cache)"
  by (simp add: sound_result_def)

lemma all_safe_sound:
  assumes each: "\<And>v cache. v \<in> set vs \<Longrightarrow> values_ok E active safe cache \<Longrightarrow>
      sound_result E active safe cache (\<lambda>c. ok_value E c v) (f v cache)"
    and "values_ok E active safe cache"
  shows "sound_result E active safe cache (\<lambda>c. \<forall>v \<in> set vs. ok_value E c v) (all_safe f vs cache)"
  using assms
proof (induction vs arbitrary: cache)
  case (Cons v vs)
  obtain s c1 where f: "f v cache = (s, c1)" by fastforce
  have first: "cache \<subseteq>\<^sub>m c1" "values_ok E active safe c1" "s \<longrightarrow> ok_value E c1 v"
    using Cons.prems f unfolding sound_result_def by (metis list.set_intros(1) fst_conv snd_conv)+
  show ?case
  proof (cases s)
    case True
    have "sound_result E active safe c1 (\<lambda>c. \<forall>v \<in> set vs. ok_value E c v) (all_safe f vs c1)"
      using Cons.IH Cons.prems(1) first(2) by simp
    then show ?thesis using f True first map_le_trans ok_value_mono map_le_more_safe
      unfolding sound_result_def by (auto; blast)
  qed (use f first in \<open>simp add: sound_result_def\<close>)
qed simp

lemma sound_marked:
  assumes inst: "ce_inst E i = Some inst" and new: "cache i = None" and ok: "values_ok E active safe cache"
    and r: "sound_result E active safe (cache(i \<mapsto> Visiting)) (\<lambda>c. entry_justified E c i inst) r"
  shows "sound_result E active safe cache (\<lambda>c. ok_value E c (LValue i)) (fst r, (snd r)(i \<mapsto> (if fst r then Safe else Unsafe)))"
proof -
  let ?c = "(snd r)(i \<mapsto> (if fst r then Safe else Unsafe))"
  have v: "snd r i = Some Visiting" using r by (auto simp: sound_result_def map_le_def)
  then have le: "more_safe (snd r) ?c" by (simp add: more_safe_def)
  have "cache_justified E ?c"
    using r v inst by (intro cache_justified_upd) (auto simp: sound_result_def values_ok_def split: if_splits)
  then have "values_ok E active safe ?c" using r le values_ok_mono by (auto simp: sound_result_def)
  moreover have "cache \<subseteq>\<^sub>m ?c"
  proof -
    have "cache \<subseteq>\<^sub>m cache(i \<mapsto> Visiting)" using new by (auto simp: map_le_def)
    then have "cache \<subseteq>\<^sub>m snd r" using r map_le_trans by (auto simp: sound_result_def)
    then show ?thesis using new by (auto simp: map_le_def)
  qed
  moreover have "fst r \<longrightarrow> ok_value E ?c (LValue i)" by (simp add: ok_value_def)
  ultimately show ?thesis by (simp add: sound_result_def)
qed

lemma marked_ok:
  assumes "cache i = None" and "values_ok E active safe cache" and "ce_inst E i = Some inst"
  shows "values_ok E active safe (cache(i \<mapsto> Visiting))"
proof -
  have "cache_justified E (cache(i \<mapsto> Visiting))"
    using assms by (intro cache_justified_upd [of _ _ _ _ inst]) (auto simp: values_ok_def)
  moreover have "more_safe cache (cache(i \<mapsto> Visiting))" using assms(1) by (simp add: more_safe_def)
  ultimately show ?thesis using assms(2) by (blast intro: values_ok_mono)
qed

lemma load_sound:
  assumes cand: "load_candidate E active i (the (block_of (ce_blocks E) i)) access"
    and ptr: "sound_result E active safe c1 (\<lambda>c. ok_value E c p) (s, c)"
    and loop: "\<not> ce_in_loop E (the (block_of (ce_blocks E) i))" and acc: "access = get_memory_access E (ILoad n p)"
  shows "sound_result E active safe c1 (\<lambda>c. entry_justified E c i (ILoad n p)) (s \<and> range_is_safe safe (the access), c)"
proof -
  have "entry_justified E c i (ILoad n p)" if "s" "range_is_safe safe (the access)"
    using that cand ptr loop unfolding acc
    by (auto simp: entry_justified_def load_justified_def load_candidate_def range_is_safe_def sound_result_def
        values_ok_def split: option.splits)
  then show ?thesis using ptr by (auto simp: sound_result_def)
qed

lemma inst_is_safe_sound:
  assumes each: "\<And>v cache. values_ok E active safe cache \<Longrightarrow> sound_result E active safe cache (\<lambda>c. ok_value E c v) (f v cache)"
    and ok: "values_ok E active safe cache"
  shows "sound_result E active safe cache (\<lambda>c. entry_justified E c i inst) (inst_is_safe f E active safe i inst cache)"
proof (cases "ce_in_loop E (the (block_of (ce_blocks E) i)) \<or> is_phi inst \<or> (\<not> is_load inst \<and> ce_touches_memory E inst)")
  case True
  then show ?thesis using ok by (cases inst) (auto simp: inst_is_safe_def is_load_def Let_def)
next
  case False
  show ?thesis
  proof (cases "is_load inst")
    case True
    then obtain n p where inst: "inst = ILoad n p" by (auto simp: is_load_def split: ir_inst.splits)
    obtain s c where "f p cache = (s, c)" by fastforce
    moreover from this have "sound_result E active safe cache (\<lambda>c. ok_value E c p) (s, c)" using each [OF ok, of p] by metis
    ultimately show ?thesis using load_sound [of E active i] inst False ok by (simp add: inst_is_safe_def Let_def)
  next
    case nl: False
    have "entry_justified E c i inst \<longleftrightarrow> (\<forall>v \<in> set (operands inst). ok_value E c v)" for c
      using nl False by (cases inst) (simp_all add: entry_justified_def is_load_def)
    moreover have "inst_is_safe f E active safe i inst cache = all_safe f (operands inst) cache"
      using nl False by (cases inst) (simp_all add: inst_is_safe_def is_load_def Let_def)
    ultimately show ?thesis using all_safe_sound [OF each ok, of "operands inst"] by simp
  qed
qed

lemma is_safe_value_sound:
  "values_ok E active safe cache \<Longrightarrow>
   sound_result E active safe cache (\<lambda>c. ok_value E c v) (is_safe_value fuel E active safe v cache)"
proof (induction fuel arbitrary: v cache)
  case (Suc fuel)
  have "sound_result E active safe cache (\<lambda>c. ok_value E c (LValue i)) (is_safe_value (Suc fuel) E active safe (LValue i) cache)"
    if inst: "ce_inst E i = Some inst" and new: "cache i = None" for i inst
    using sound_marked [OF inst new Suc.prems inst_is_safe_sound [OF Suc.IH marked_ok [OF new Suc.prems inst]]] inst new
    by (simp add: split_beta)
  then show ?case using Suc.prems
    by (cases v) (auto simp: ok_value_def split: option.splits)
qed simp

lemma safe_value_sound:
  "values_ok E active safe cache \<Longrightarrow> sound_result E active safe cache (\<lambda>c. ok_value E c v) (safe_value E active safe v cache)"
  unfolding safe_value_def by (rule is_safe_value_sound)

section \<open>The walk\<close>

definition grown :: "cp_env \<Rightarrow> mem_access \<Rightarrow> (mem_addr \<Rightarrow> bool) \<Rightarrow> safety_cache \<Rightarrow> safety_cache \<Rightarrow> bool" where
  "grown E active safe cache cache' \<longleftrightarrow> cache \<subseteq>\<^sub>m cache' \<and> values_ok E active safe cache'"

lemma grown_fold:
  assumes "\<And>x c. x \<in> set xs \<Longrightarrow> values_ok E active safe c \<Longrightarrow> grown E active safe c (f x c)"
    and "values_ok E active safe cache"
  shows "grown E active safe cache (fold f xs cache)"
  using assms
proof (induction xs arbitrary: cache)
  case (Cons x xs)
  have "grown E active safe cache (f x cache)" using Cons.prems by simp
  then show ?case using Cons.IH [of "f x cache"] Cons.prems(1) map_le_trans by (auto simp: grown_def)
qed (simp add: grown_def)

lemma visit_loads_grown: "values_ok E active safe cache \<Longrightarrow> grown E active safe cache (visit_loads E active safe cache)"
  unfolding visit_loads_def by (rule grown_fold) (use safe_value_sound in \<open>auto simp: grown_def sound_result_def\<close>)

lemma store_is_safe_sound:
  assumes "values_ok E active safe cache"
  shows "sound_result E active safe cache
    (\<lambda>c. ok_value E c p \<and> ok_value E c v \<and> \<not> ce_in_loop E bb \<and> pred_size (ce_blocks E) bb \<le> 1)
    (store_is_safe E active safe bb v p cache)"
proof (cases "\<not> ce_in_loop E bb \<and> pred_size (ce_blocks E) bb \<le> 1")
  case True
  obtain s c where p: "safe_value E active safe p cache = (s, c)" by fastforce
  then have sp: "cache \<subseteq>\<^sub>m c" "values_ok E active safe c" "s \<longrightarrow> ok_value E c p"
    using safe_value_sound [OF assms] unfolding sound_result_def by (metis fst_conv snd_conv)+
  have "sound_result E active safe c (\<lambda>c. ok_value E c v) (safe_value E active safe v c)"
    using safe_value_sound [OF sp(2)] .
  then show ?thesis using p sp True map_le_trans [OF sp(1)] ok_value_mono [OF _ map_le_more_safe]
    by (auto simp: store_is_safe_def sound_result_def)
qed (use assms in \<open>auto simp: store_is_safe_def\<close>)

lemma ref_enter_grown:
  assumes ok: "values_ok E active safe cache" and parent: "ce_def_parent E d = Some active"
    and enter: "ref_enter E active d safe cache = (safe1, c1)"
  shows "grown E active safe cache c1 \<and> values_ok E (Mem_def d) safe1 c1"
proof (cases "store_access E d")
  case None
  then show ?thesis using ok enter by (auto simp: ref_enter_def grown_def values_ok_def)
next
  case (Some x)
  obtain bb v p access where x: "x = (bb, v, p, access)" by (cases x)
  obtain s c where s: "store_is_safe E active safe bb v p cache = (s, c)" by fastforce
  have r: "cache \<subseteq>\<^sub>m c" "values_ok E active safe c"
      "s \<longrightarrow> ok_value E c p \<and> ok_value E c v \<and> \<not> ce_in_loop E bb \<and> pred_size (ce_blocks E) bb \<le> 1"
    using store_is_safe_sound [OF ok, of p v bb] s by (simp_all add: sound_result_def)
  have c1: "c1 = c" "safe1 = (\<lambda>a. if a \<in> set (access_bytes access) then s else safe a)"
    using enter Some x s by (auto simp: ref_enter_def)
  have "defined_byte E c (Mem_def d) a" if "safe1 a" for a
  proof (cases "a \<in> set (access_bytes access)")
    case True
    then show ?thesis using that r(3) Some x written unfolding c1 by auto
  next
    case False
    then have "defined_byte E c active a" using that r(2) unfolding c1 values_ok_def by metis
    then show ?thesis using kept [OF _ False parent] Some x by simp
  qed
  then show ?thesis using r c1(1) by (simp add: grown_def values_ok_def)
qed

lemma ref_visit_grown: "values_ok E active safe cache \<Longrightarrow> grown E active safe cache (ref_visit n E active safe cache)"
proof (induction n arbitrary: active safe cache)
  case (Suc n)
  let ?f = "\<lambda>d cache. case ref_enter E active d safe cache of (safe1, cache1) \<Rightarrow> ref_visit n E (Mem_def d) safe1 cache1"
  have loads: "grown E active safe cache (visit_loads E active safe cache)" using visit_loads_grown [OF Suc.prems] .
  have "grown E active safe c (?f d c)" if d: "d \<in> set (def_children E active)" and ok: "values_ok E active safe c" for d c
  proof -
    obtain safe1 c1 where enter: "ref_enter E active d safe c = (safe1, c1)" by fastforce
    have "ce_def_parent E d = Some active" using d by (simp add: def_children_def)
    then have g: "grown E active safe c c1" "values_ok E (Mem_def d) safe1 c1" using ref_enter_grown [OF ok _ enter] by simp_all
    have "grown E (Mem_def d) safe1 c1 (ref_visit n E (Mem_def d) safe1 c1)" using Suc.IH [OF g(2)] .
    then show ?thesis using g(1) enter map_le_trans values_ok_mono map_le_more_safe
      by (auto simp: grown_def values_ok_def)
  qed
  then have "grown E active safe (visit_loads E active safe cache) (ref_visit (Suc n) E active safe cache)"
    using grown_fold [of "def_children E active" E active safe ?f] loads by (simp add: grown_def)
  then show ?case using loads map_le_trans by (auto simp: grown_def)
qed (simp add: grown_def)

lemma ref_value_safety_justified: "cache_justified E (ref_value_safety n E)"
proof -
  have "cache_justified E (fold (\<lambda>root. ref_visit n E root (\<lambda>a. root = Live_on_entry)) roots c)" if "cache_justified E c" for roots c
    using that
  proof (induction roots arbitrary: c)
    case (Cons root roots)
    have "values_ok E root (\<lambda>a. root = Live_on_entry) c" using Cons.prems by (auto simp: values_ok_def intro: on_entry)
    then have "cache_justified E (ref_visit n E root (\<lambda>a. root = Live_on_entry) c)"
      using ref_visit_grown by (auto simp: grown_def values_ok_def)
    then show ?case using Cons.IH by simp
  qed simp
  then show ?thesis by (simp add: ref_value_safety_def cache_justified_def)
qed

section \<open>Enough fuel for a value\<close>

text \<open>The number of instructions that have no entry yet bounds the depth of \<open>is_safe_value\<close>: a call marks its
  instruction before it goes on, and no entry is ever taken back.\<close>

definition unvisited :: "cp_env \<Rightarrow> safety_cache \<Rightarrow> nat set" where
  "unvisited E cache = set (all_insts E) - dom cache"

lemma finite_unvisited [simp]: "finite (unvisited E cache)"
  by (simp add: unvisited_def)

lemma unvisited_mono: "dom c \<subseteq> dom c' \<Longrightarrow> card (unvisited E c') \<le> card (unvisited E c)"
  by (auto simp: unvisited_def intro!: card_mono)

lemma unvisited_mark:
  assumes "ce_inst E i = Some inst" and "c i = None"
  shows "card (unvisited E (c(i \<mapsto> s))) < card (unvisited E c)"
proof -
  have "i \<in> set (all_insts E)" using assms(1) by (auto simp: ce_inst_def insts_of_def all_insts_def dest!: map_of_SomeD intro: rev_image_eqI)
  then have "unvisited E (c(i \<mapsto> s)) \<subset> unvisited E c" using assms(2) by (auto simp: unvisited_def)
  then show ?thesis by (simp add: psubset_card_mono)
qed

text \<open>Two answers to the operands that agree where it matters give the same answer, and entries stay.\<close>

definition agree :: "(safety_cache \<Rightarrow> bool) \<Rightarrow> (llvm_value \<Rightarrow> safety_cache \<Rightarrow> bool \<times> safety_cache) \<Rightarrow> (llvm_value \<Rightarrow> safety_cache \<Rightarrow> bool \<times> safety_cache) \<Rightarrow> bool" where
  "agree P f g \<longleftrightarrow> (\<forall>v c. P c \<longrightarrow> f v c = g v c) \<and> (\<forall>v c. dom c \<subseteq> dom (snd (f v c)))"

lemma all_safe_agree:
  assumes "agree P f g" and "\<And>c c'. P c \<Longrightarrow> dom c \<subseteq> dom c' \<Longrightarrow> P c'"
  shows "P cache \<Longrightarrow> all_safe f vs cache = all_safe g vs cache"
  using assms(1)
proof (induction vs arbitrary: cache)
  case (Cons v vs)
  have "f v cache = g v cache" using Cons.prems by (simp add: agree_def)
  moreover have "P (snd (f v cache))"
    by (rule assms(2) [OF Cons.prems(1)]) (use Cons.prems(2) in \<open>simp add: agree_def\<close>)
  ultimately show ?case using Cons by (simp add: split_beta)
qed simp

lemma all_safe_dom: "agree P f g \<Longrightarrow> dom cache \<subseteq> dom (snd (all_safe f vs cache))"
proof (induction vs arbitrary: cache)
  case (Cons v vs)
  have "dom cache \<subseteq> dom (snd (f v cache))" using Cons.prems by (simp add: agree_def)
  then show ?case using Cons.IH [OF Cons.prems, of "snd (f v cache)"] by (auto simp: split_beta)
qed simp

lemma inst_is_safe_agree:
  assumes "agree P f g" and "\<And>c c'. P c \<Longrightarrow> dom c \<subseteq> dom c' \<Longrightarrow> P c'" and "P cache"
  shows "inst_is_safe f E active safe i inst cache = inst_is_safe g E active safe i inst cache"
proof -
  have "f v cache = g v cache" for v using assms(1,3) by (simp add: agree_def)
  moreover have "all_safe f vs cache = all_safe g vs cache" for vs using all_safe_agree [OF assms(1) _ assms(3)] assms(2) by blast
  ultimately show ?thesis by (cases inst) (simp_all add: inst_is_safe_def Let_def del: all_safe.simps)
qed

lemma inst_is_safe_dom:
  assumes "agree P f g" shows "dom cache \<subseteq> dom (snd (inst_is_safe f E active safe i inst cache))"
proof -
  have "dom cache \<subseteq> dom (snd (f v cache))" for v using assms by (simp add: agree_def)
  then show ?thesis using all_safe_dom [OF assms]
    by (cases inst) (simp_all add: inst_is_safe_def Let_def split_beta del: all_safe.simps)
qed

lemma is_safe_value_dom: "dom cache \<subseteq> dom (snd (is_safe_value fuel E active safe v cache))"
proof (induction fuel arbitrary: v cache)
  case (Suc fuel)
  have "agree (\<lambda>c. True) (is_safe_value fuel E active safe) (is_safe_value fuel E active safe)" using Suc by (simp add: agree_def)
  note step = inst_is_safe_dom [OF this, of "cache(_ \<mapsto> Visiting)" E active safe]
  show ?case
  proof (cases v)
    case (LValue i)
    then show ?thesis using step [of i i] by (auto simp: split_beta split: option.split)
  qed simp
qed simp

lemma is_safe_value_fuel:
  "card (unvisited E cache) < n \<Longrightarrow> n \<le> m \<Longrightarrow> is_safe_value n E active safe v cache = is_safe_value m E active safe v cache"
proof (induction n arbitrary: m v cache)
  case (Suc n)
  then obtain m' where m: "m = Suc m'" "n \<le> m'" by (cases m) auto
  let ?P = "\<lambda>c. card (unvisited E c) < n"
  have agree: "agree ?P (is_safe_value n E active safe) (is_safe_value m' E active safe)"
    using Suc.IH [OF _ m(2)] is_safe_value_dom by (simp add: agree_def)
  have mono: "?P c \<Longrightarrow> dom c \<subseteq> dom c' \<Longrightarrow> ?P c'" for c c' using unvisited_mono by (meson le_less_trans)
  have "inst_is_safe (is_safe_value n E active safe) E active safe i inst (cache(i \<mapsto> Visiting)) =
      inst_is_safe (is_safe_value m' E active safe) E active safe i inst (cache(i \<mapsto> Visiting))"
    if "ce_inst E i = Some inst" "cache i = None" for i inst
  proof (rule inst_is_safe_agree [OF agree])
    show "?P (cache(i \<mapsto> Visiting))" using unvisited_mark [where c = cache and s = Visiting, OF that] Suc.prems(1) by linarith
  qed (rule mono)
  then show ?case unfolding m(1) by (auto split: llvm_value.split option.split)
qed simp

text \<open>So \<open>safe_value\<close> is the value with any larger fuel.\<close>

lemma safe_value_fuel:
  assumes "Suc (length (all_insts E)) \<le> n"
  shows "is_safe_value n E active safe v cache = safe_value E active safe v cache"
proof -
  have "card (unvisited E cache) \<le> length (all_insts E)"
    unfolding unvisited_def by (meson card_length card_mono Diff_subset finite_set le_trans)
  then show ?thesis using is_safe_value_fuel [of E cache "Suc (length (all_insts E))" n] assms by (simp add: safe_value_def)
qed

section \<open>The loads that are replaced\<close>

lemma concretize_loads_dead:
  assumes "fold (concretize_load E cache) is (b0, r0) = (b, r)"
  shows "set (dead_loads r) = set (dead_loads r0) \<union> {i \<in> set is. load_constant E cache i \<noteq> None}"
  using assms
proof (induction "is" arbitrary: b0 r0)
  case (Cons i "is")
  obtain b1 r1 where s: "concretize_load E cache i (b0, r0) = (b1, r1)" by fastforce
  then have "set (dead_loads r1) = set (dead_loads r0) \<union> (if load_constant E cache i \<noteq> None then {i} else {})"
    by (auto simp: concretize_load_def split: option.splits)
  then show ?case using Cons.IH [of b1 r1] Cons.prems s by (auto split: if_splits)
qed simp

lemma load_constant_load:
  assumes "load_constant E cache i = Some k"
  shows "\<exists>bits p. ce_inst E i = Some (ILoad bits p) \<and> cache i = Some Safe"
  using assms by (auto simp: load_constant_def split: option.splits ir_inst.splits if_splits)

text \<open>C22: Every load that \<open>concretize_memory_loads\<close> replaces by a constant is entitled to it: it is in no loop and not in
  a block with several predecessors, its address is concrete and its pointer safe, it reads at most 64
  bytes, and each of these bytes was there on entry or was last written by a store of a safe value through a
  safe pointer, outside of loops and joins, with nothing between but concrete stores to other bytes. No byte comes
  from behind a merge of memory states or a definition the analysis knows nothing of.\<close>

theorem replaced_loads_are_justified:
  assumes "def_forest E depth n" and "0 < n"
    and "concretize_memory_loads fuel E = Inr (b, r)" and "i \<in> set (dead_loads r)"
  shows "\<exists>bits p cache. ce_inst E i = Some (ILoad bits p) \<and> value_safety fuel E = Inr cache \<and>
    \<not> ce_in_loop E (the (block_of (ce_blocks E) i)) \<and>
    load_justified E cache i p (get_memory_access E (ILoad bits p))"
proof -
  obtain cache where c: "value_safety fuel E = Inr cache"
      "fold (concretize_load E cache) (all_insts E) (ce_ir E, \<lparr>dead_loads = [], fold_seeds = []\<rparr>) = (b, r)"
    using assms(3) unfolding concretize_memory_loads_def by (auto elim!: res_bindE)
  then have "load_constant E cache i \<noteq> None" using concretize_loads_dead [OF c(2)] assms(4) by simp
  then obtain bits p where i: "ce_inst E i = Some (ILoad bits p)" "cache i = Some Safe" using load_constant_load by blast
  have "cache_justified E cache"
    using ref_value_safety_justified value_safety_result [OF assms(1,2) c(1)] by simp
  then show ?thesis using i c(1) unfolding cache_justified_def entry_justified_def by fastforce
qed

lemma demo_cp_result:
  "\<exists>fuel b r. concretize_memory_loads fuel demo_cp = Inr (b, r) \<and> 12 \<in> set (dead_loads r) \<and> 14 \<notin> set (dead_loads r)"
proof -
  obtain fuel where v: "value_safety fuel demo_cp = Inr [10 \<mapsto> Safe, 12 \<mapsto> Safe, 14 \<mapsto> Unsafe]"
    using value_safety_ref [OF demo_cp_forest] demo_cp_safety by auto
  let ?c = "[10 \<mapsto> Safe, 12 \<mapsto> Safe, 14 \<mapsto> Unsafe]"
  obtain b r where f: "fold (concretize_load demo_cp ?c) (all_insts demo_cp) (ce_ir demo_cp, \<lparr>dead_loads = [], fold_seeds = []\<rparr>) = (b, r)"
    by fastforce
  have "load_constant demo_cp ?c 12 \<noteq> None" "load_constant demo_cp ?c 14 = None" "12 \<in> set (all_insts demo_cp)" by code_simp+
  then have "12 \<in> set (dead_loads r)" "14 \<notin> set (dead_loads r)" using concretize_loads_dead [OF f] by simp_all
  moreover have "concretize_memory_loads fuel demo_cp = Inr (b, r)" using v f by (simp add: concretize_memory_loads_def)
  ultimately show ?thesis by blast
qed

theorem replaced_loads_are_justified_witness:
  "\<exists>fuel b r cache. concretize_memory_loads fuel demo_cp = Inr (b, r) \<and> 12 \<in> set (dead_loads r) \<and>
     load_justified demo_cp cache 12 (LValue 10) (get_memory_access demo_cp (ILoad 8 (LValue 10)))"
proof -
  obtain fuel b r where r: "concretize_memory_loads fuel demo_cp = Inr (b, r)" "12 \<in> set (dead_loads r)" using demo_cp_result by blast
  from replaced_loads_are_justified [OF demo_cp_forest _ r] obtain bits p cache where
    "ce_inst demo_cp 12 = Some (ILoad bits p)" "load_justified demo_cp cache 12 p (get_memory_access demo_cp (ILoad bits p))" by auto
  then show ?thesis using r by (auto simp: demo_cp_insts)
qed


text \<open>A 128-bit load whose concrete value is \<open>2 ^ 64 + 7\<close> becomes the constant 7.\<close>

definition demo_wide :: cp_env where
  "demo_wide =
     demo_cp\<lparr>ce_symex := \<lparr>sx_fresh = 0, sx_vars = [LValue 12 \<mapsto> value_new (BwBv 128 18446744073709551623)]\<rparr>,
       ce_ir := (ce_ir demo_cp)\<lparr>ir_blocks := [[(12, ILoad 128 (LValue 10))]]\<rparr>\<rparr>"


end
