(* ===== verification/Const_Prop.thy ===== *)
theory Const_Prop
  imports Const_Prop_Loads
begin

text \<open>
  \<open>constant_propagation\<close> (constant_propagation.cpp): after the loads, the instructions whose operands have become
  constants are folded with a worklist, and what is no longer used is erased. What LLVM knows of an instruction
  is an argument. The theorems: the worklist runs empty, nothing that could be folded is left behind, and the
  pass changes nothing but operands that have become constants and the instructions they replace.
\<close>

section \<open>The worklist\<close>

record fold_env =
  fe_cp :: cp_env
  fe_defined_constant :: "nat \<Rightarrow> bool"
  fe_integer_width :: "nat \<Rightarrow> nat option"
  fe_side_effects :: "ir_inst \<Rightarrow> bool"
  fe_foldable_operator :: "ir_inst \<Rightarrow> bool"

definition has_only_defined_constant_operands :: "fold_env \<Rightarrow> ir_inst \<Rightarrow> bool" where
  "has_only_defined_constant_operands F inst \<longleftrightarrow>
     (\<forall>v \<in> set (operands inst). case v of LConstantInt w n \<Rightarrow> True | LValue i \<Rightarrow> fe_defined_constant F i)"

text \<open>\<open>fe_foldable_operator\<close>: it is an \<open>Operator\<close> that cannot create undef or poison and may be executed speculatively.\<close>

definition is_ssa_fold_candidate :: "fold_env \<Rightarrow> ir_blocks \<Rightarrow> nat \<Rightarrow> bool" where
  "is_ssa_fold_candidate F blocks i \<longleftrightarrow>
     (case (block_of blocks i, insts_of blocks i) of
        (Some bb, Some inst) \<Rightarrow>
          \<not> is_load inst \<and> \<not> is_store inst \<and> \<not> is_phi inst \<and> \<not> is_terminator inst \<and> \<not> fe_side_effects F inst \<and>
          fe_integer_width F i \<noteq> None \<and> \<not> ce_in_loop (fe_cp F) bb \<and> pred_size blocks bb \<le> 1 \<and>
          has_only_defined_constant_operands F inst \<and> fe_foldable_operator F inst \<and>
          sx_vars (ce_symex (fe_cp F)) (LValue i) \<noteq> None
      | _ \<Rightarrow> False)"

text \<open>The constant for an instruction that is a candidate.\<close>

definition fold_constant :: "fold_env \<Rightarrow> nat \<Rightarrow> llvm_value option res" where
  "fold_constant F i =
     (case sx_vars (ce_symex (fe_cp F)) (LValue i) of
        None \<Rightarrow> Inl Null_dereference
      | Some v \<Rightarrow>
          if v_kind v = Kind_pointer then Inr None
          else
            (let x = v_simplify (ce_solver (fe_cp F)) v in
             if \<not> is_concrete x then Inr None
             else res_bind (v_size x) (\<lambda>w.
               if Some w \<noteq> fe_integer_width F i then Inr None
               else res_bind (as_uint64 x) (\<lambda>n. Inr (Some (LConstantInt w (take_bit w (uint n))))))))"

record fold_state =
  fs_ir :: ir_builder
  fs_dead :: "nat list"
  fs_worklist :: "nat list"
  fs_queued :: "nat set"
  fs_folded :: "nat set"

definition enqueue :: "nat \<Rightarrow> fold_state \<Rightarrow> fold_state" where
  "enqueue i s =
     (if i \<notin> fs_folded s \<and> i \<notin> fs_queued s then
        s\<lparr>fs_worklist := fs_worklist s @ [i], fs_queued := insert i (fs_queued s)\<rparr>
      else s)"

definition fold_value :: "nat \<Rightarrow> llvm_value \<Rightarrow> fold_state \<Rightarrow> fold_state" where
  "fold_value i k s =
     (let users = users_of (fs_ir s) (LValue i) in
      fold enqueue users
        (s\<lparr>fs_folded := insert i (fs_folded s), fs_ir := replaceAllUsesWith (LValue i) k (fs_ir s), fs_dead := fs_dead s @ [i]\<rparr>))"

definition propagate_step :: "fold_env \<Rightarrow> fold_state \<Rightarrow> (bool \<times> fold_state) res" where
  "propagate_step F s =
     (case fs_worklist s of
        [] \<Rightarrow> Inr (True, s)
      | i # rest \<Rightarrow>
          let s1 = s\<lparr>fs_worklist := rest, fs_queued := fs_queued s - {i}\<rparr> in
          if i \<in> fs_folded s1 \<or> \<not> is_ssa_fold_candidate F (ir_blocks (fs_ir s1)) i then Inr (False, s1)
          else res_bind (fold_constant F i) (\<lambda>c.
            case c of None \<Rightarrow> Inr (False, s1) | Some k \<Rightarrow> Inr (False, fold_value i k s1)))"

fun propagate_loop :: "nat \<Rightarrow> fold_env \<Rightarrow> fold_state \<Rightarrow> fold_state res" where
  "propagate_loop 0 F s = Inl Diverges"
| "propagate_loop (Suc fuel) F s =
     res_bind (propagate_step F s) (\<lambda>(over, s1). if over then Inr s1 else propagate_loop fuel F s1)"

definition seeded :: "nat list \<Rightarrow> ir_builder \<Rightarrow> fold_state" where
  "seeded seeds b =
     fold enqueue seeds \<lparr>fs_ir = b, fs_dead = [], fs_worklist = [], fs_queued = {}, fs_folded = {}\<rparr>"

definition propagate_ssa_values :: "nat \<Rightarrow> fold_env \<Rightarrow> nat list \<Rightarrow> ir_builder \<Rightarrow> (ir_builder \<times> nat list) res" where
  "propagate_ssa_values fuel F seeds b =
     res_bind (propagate_loop fuel F (seeded seeds b)) (\<lambda>s. Inr (fs_ir s, fs_dead s))"

section \<open>The pass\<close>

definition use_empty :: "ir_builder \<Rightarrow> nat \<Rightarrow> bool" where
  "use_empty b i \<longleftrightarrow> (\<forall>(j, inst) \<in> set (concat (ir_blocks b)). LValue i \<notin> set (operands inst))"

definition erase_dead_instructions :: "nat list \<Rightarrow> ir_builder \<Rightarrow> ir_builder" where
  "erase_dead_instructions is b = fold (\<lambda>i b. if use_empty b i then eraseFromParent i b else b) (rev is) b"

definition constant_propagation_run :: "nat \<Rightarrow> fold_env \<Rightarrow> (bool \<times> ir_builder) res" where
  "constant_propagation_run fuel F =
     res_bind (concretize_memory_loads fuel (fe_cp F)) (\<lambda>(b, memory).
     res_bind (propagate_ssa_values fuel F (fold_seeds memory) b) (\<lambda>(b1, dead_ssa_values).
     let b2 = erase_dead_instructions dead_ssa_values b1;
         b3 = erase_dead_instructions (dead_loads memory) b2
     in Inr (True, eraseDeletedInstructions b3)))"

section \<open>The worklist runs empty\<close>

definition ir_ids :: "ir_builder \<Rightarrow> nat set" where
  "ir_ids b = fst ` set (concat (ir_blocks b))"

lemma finite_ir_ids [simp]: "finite (ir_ids b)"
  by (simp add: ir_ids_def)

lemma ir_ids_replace [simp]: "ir_ids (replaceAllUsesWith x k b) = ir_ids b"
  by (force simp: ir_ids_def replaceAllUsesWith_def image_iff)

lemma enqueue_simps [simp]:
  "fs_ir (enqueue i s) = fs_ir s" "fs_dead (enqueue i s) = fs_dead s" "fs_folded (enqueue i s) = fs_folded s"
  by (simp_all add: enqueue_def)

lemma enqueue_all_simps [simp]:
  "fs_ir (fold enqueue is s) = fs_ir s" "fs_dead (fold enqueue is s) = fs_dead s" "fs_folded (fold enqueue is s) = fs_folded s"
  by (induction "is" arbitrary: s) simp_all

lemma candidate_in_ids: "is_ssa_fold_candidate F (ir_blocks b) i \<Longrightarrow> i \<in> ir_ids b"
  by (auto simp: is_ssa_fold_candidate_def ir_ids_def insts_of_def split: option.splits dest!: map_of_SomeD intro: rev_image_eqI)

lemma fold_constant_returns: "fold_constant F i \<noteq> Inl Diverges"
  by (auto simp: fold_constant_def v_size_def term_bv_size_def as_uint64_def term_as_uint64_def Let_def res_bind_eq_Inl
      split: option.splits bw_sort.splits bw_term.splits if_splits)

inductive fold_round :: "fold_env \<Rightarrow> fold_state \<Rightarrow> fold_state \<Rightarrow> bool" for F where
  skipped: "fs_worklist s = i # rest \<Longrightarrow>
     i \<in> fs_folded s \<or> \<not> is_ssa_fold_candidate F (ir_blocks (fs_ir s)) i \<or> fold_constant F i = Inr None \<Longrightarrow>
     fold_round F s (s\<lparr>fs_worklist := rest, fs_queued := fs_queued s - {i}\<rparr>)"
| folded: "fs_worklist s = i # rest \<Longrightarrow> i \<notin> fs_folded s \<Longrightarrow> is_ssa_fold_candidate F (ir_blocks (fs_ir s)) i \<Longrightarrow>
     fold_constant F i = Inr (Some k) \<Longrightarrow>
     fold_round F s (fold_value i k (s\<lparr>fs_worklist := rest, fs_queued := fs_queued s - {i}\<rparr>))"

lemma propagate_step_round:
  assumes "propagate_step F s = Inr (over, s')"
  shows "if over then s' = s \<and> fs_worklist s = [] else fold_round F s s'"
  using assms by (auto simp: propagate_step_def Let_def split: list.splits if_splits option.splits elim!: res_bindE intro: fold_round.intros)

definition fold_rank :: "(fold_state \<times> fold_state) set" where
  "fold_rank = inv_image (less_than <*lex*> less_than) (\<lambda>s. (card (ir_ids (fs_ir s) - fs_folded s), length (fs_worklist s)))"

lemma fold_round_rank:
  assumes "fold_round F s s'" shows "(s', s) \<in> fold_rank"
  using assms
proof cases
  case (skipped i rest)
  then show ?thesis by (simp add: fold_rank_def)
next
  case (folded i rest k)
  have "ir_ids (fs_ir s') - fs_folded s' = (ir_ids (fs_ir s) - fs_folded s) - {i}"
    using folded(1) by (auto simp: fold_value_def Let_def)
  moreover have "i \<in> ir_ids (fs_ir s) - fs_folded s" using folded candidate_in_ids by blast
  ultimately have "card (ir_ids (fs_ir s') - fs_folded s') < card (ir_ids (fs_ir s) - fs_folded s)"
    by (metis card_Diff1_less finite_Diff finite_ir_ids)
  then show ?thesis by (simp add: fold_rank_def)
qed

interpretation worklist: fuel_loop "propagate_step F" "\<lambda>s. s" "\<lambda>n. propagate_loop n F" "\<lambda>s. True" fold_rank for F
proof unfold_locales
  show "wf fold_rank" by (auto simp: fold_rank_def)
  show "propagate_step F s \<noteq> Inl Diverges" for s
    using fold_constant_returns
    by (auto simp: propagate_step_def Let_def res_bind_eq_Inl split: list.splits option.splits)
  show "(s', s) \<in> fold_rank" if "propagate_step F s = Inr (False, s')" for s s'
    using propagate_step_round [OF that] fold_round_rank by simp
qed simp_all

lemma constant_propagation_returns:
  assumes "def_forest (fe_cp F) depth n" and "0 < n"
  shows "\<exists>k. \<forall>fuel \<ge> k. constant_propagation_run fuel F \<noteq> Inl Diverges"
proof -
  obtain k where k: "\<forall>fuel \<ge> k. value_safety fuel (fe_cp F) = Inr (ref_value_safety n (fe_cp F))"
    using value_safety_ref [OF assms] by blast
  obtain b memory where m: "fold (concretize_load (fe_cp F) (ref_value_safety n (fe_cp F))) (all_insts (fe_cp F))
      (ce_ir (fe_cp F), \<lparr>dead_loads = [], fold_seeds = []\<rparr>) = (b, memory)" by fastforce
  obtain l where l: "\<forall>fuel \<ge> l. propagate_loop fuel F (seeded (fold_seeds memory) b) \<noteq> Inl Diverges"
    using worklist.terminates by blast
  have "constant_propagation_run fuel F \<noteq> Inl Diverges" if "max k l \<le> fuel" for fuel
    using k l m that
    by (auto simp: constant_propagation_run_def concretize_memory_loads_def propagate_ssa_values_def res_bind_eq_Inl Let_def)
  then show ?thesis by blast
qed

text \<open>C26: \<open>constant_propagation::run\<close> comes to its end on every function whose definitions of memory form a forest: the walk
  over the definitions and the worklist both need only finitely many rounds, whatever the emulation found and whatever
  LLVM says of the instructions.\<close>

theorem constant_propagation_terminates:
  assumes "def_forest (fe_cp F) depth n" and "0 < n"
  shows "\<exists>k. \<forall>fuel \<ge> k. constant_propagation_run fuel F \<noteq> Inl Diverges"
  using constant_propagation_returns [OF assms] .

section \<open>Substituting constants\<close>

definition substituted :: "(llvm_value \<Rightarrow> llvm_value) \<Rightarrow> ir_blocks \<Rightarrow> ir_blocks" where
  "substituted f blocks = map (map (\<lambda>(i, inst). (i, map_operands f inst))) blocks"

definition const_subst :: "(nat \<rightharpoonup> llvm_value) \<Rightarrow> llvm_value \<Rightarrow> llvm_value" where
  "const_subst K v = (case v of LConstantInt w n \<Rightarrow> v | LValue i \<Rightarrow> (case K i of Some k \<Rightarrow> k | None \<Rightarrow> v))"

definition constants :: "(nat \<rightharpoonup> llvm_value) \<Rightarrow> bool" where
  "constants K \<longleftrightarrow> (\<forall>i k. K i = Some k \<longrightarrow> (\<exists>w n. k = LConstantInt w n))"

lemma substituted_comp: "substituted f (substituted g B) = substituted (\<lambda>v. f (g v)) B"
  by (auto simp: substituted_def map_operands_comp)

lemma substituted_id: "(\<And>v. f v = v) \<Longrightarrow> substituted f B = B"
proof -
  assume "\<And>v. f v = v"
  then have "map_operands f inst = inst" for inst by (simp add: map_operands_unchanged)
  then show ?thesis by (auto simp: substituted_def intro!: map_idI)
qed

lemma replace_substituted: "ir_blocks (replaceAllUsesWith x k b) = substituted (subst_value x k) (ir_blocks b)"
  by (simp add: replaceAllUsesWith_def substituted_def)

lemma concat_substituted: "concat (substituted f B) = map (\<lambda>(i, inst). (i, map_operands f inst)) (concat B)"
  by (simp add: substituted_def map_concat)

lemma insts_of_substituted: "insts_of (substituted f B) i = map_option (map_operands f) (insts_of B i)"
  by (simp add: insts_of_def concat_substituted map_of_map)

lemma fst_substituted_block: "fst ` set (map (\<lambda>(i, inst). (i, g inst)) ns) = fst ` set ns"
  by (force simp: image_iff)

lemma block_of_substituted [simp]: "block_of (substituted f B) i = block_of B i"
proof -
  have "find (\<lambda>bb. i \<in> fst ` set (substituted f B ! bb)) [0..<length B] = find (\<lambda>bb. i \<in> fst ` set (B ! bb)) [0..<length B]"
    by (intro find_cong refl) (auto simp: substituted_def fst_substituted_block simp del: set_map)
  then show ?thesis by (simp add: block_of_def) (simp add: substituted_def)
qed

lemma pred_size_substituted [simp]: "pred_size (substituted f B) bb = pred_size B bb"
proof -
  have "terminator_targets (map_operands f inst) = terminator_targets inst" for inst by (cases inst) simp_all
  then have "successors (map (\<lambda>(i, inst). (i, map_operands f inst)) ns) = successors ns" for ns
    by (cases ns rule: rev_cases) (auto simp: successors_def)
  then have "map successors (substituted f B) = map successors B" by (simp add: substituted_def)
  then show ?thesis by (simp add: pred_size_def)
qed

lemma const_subst_empty [simp]: "const_subst Map.empty v = v"
  by (simp add: const_subst_def split: llvm_value.split)

lemma const_subst_comp:
  assumes "constants K" shows "const_subst L (const_subst K v) = const_subst (L ++ K) v"
  using assms by (fastforce simp: const_subst_def constants_def map_add_def split: llvm_value.split option.split)

lemma subst_value_const: "subst_value (LValue i) k = const_subst [i \<mapsto> k]"
  by (auto simp: subst_value_def const_subst_def fun_eq_iff split: llvm_value.split)

text \<open>A value that is replaced by a constant has no uses left.\<close>

lemma no_uses:
  assumes "constants K" and "K i \<noteq> None"
  shows "\<forall>(j, inst) \<in> set (concat (substituted (const_subst K) B)). LValue i \<notin> set (operands inst)"
proof -
  have "const_subst K v \<noteq> LValue i" for v
    using assms by (auto simp: const_subst_def constants_def split: llvm_value.splits option.splits)
  then show ?thesis by (fastforce simp: concat_substituted operands_map)
qed

lemma users_of_iff: "i \<in> set (users_of b v) \<longleftrightarrow> (\<exists>inst. (i, inst) \<in> set (concat (ir_blocks b)) \<and> v \<in> set (operands inst))"
  by (force simp: users_of_def count_list_0_iff)

section \<open>What the worklist does\<close>

definition const_of :: "fold_env \<Rightarrow> nat \<rightharpoonup> llvm_value" where
  "const_of F i = (case fold_constant F i of Inl e \<Rightarrow> None | Inr c \<Rightarrow> c)"

lemma const_of_constants [simp]: "constants (const_of F |` D)"
  by (auto simp: constants_def const_of_def fold_constant_def restrict_map_def Let_def
      split: option.splits sum.splits if_splits elim!: res_bindE)

definition foldable :: "fold_env \<Rightarrow> ir_blocks \<Rightarrow> nat \<Rightarrow> bool" where
  "foldable F blocks i \<longleftrightarrow> is_ssa_fold_candidate F blocks i \<and> const_of F i \<noteq> None"

text \<open>An instruction that was a candidate when some operands of the function had been replaced.\<close>

definition was_candidate :: "fold_env \<Rightarrow> ir_blocks \<Rightarrow> nat \<Rightarrow> bool" where
  "was_candidate F blocks i \<longleftrightarrow> (\<exists>f. is_ssa_fold_candidate F (substituted f blocks) i)"

lemma was_candidate_substituted: "was_candidate F (substituted f blocks) i \<Longrightarrow> was_candidate F blocks i"
  unfolding was_candidate_def substituted_comp by blast

text \<open>An instruction that does not use the value is a candidate after the replacement when it was one before.\<close>

lemma candidate_replaced:
  assumes "j \<notin> set (users_of b (LValue i))"
  shows "is_ssa_fold_candidate F (ir_blocks (replaceAllUsesWith (LValue i) k b)) j = is_ssa_fold_candidate F (ir_blocks b) j"
proof -
  have "map_operands (subst_value (LValue i) k) inst = inst" if "insts_of (ir_blocks b) j = Some inst" for inst
  proof -
    have "LValue i \<notin> set (operands inst)"
      using map_of_SomeD [OF that [unfolded insts_of_def]] assms unfolding users_of_iff by blast
    then show ?thesis by (intro map_operands_unchanged) (auto simp: subst_value_def)
  qed
  then have "insts_of (ir_blocks (replaceAllUsesWith (LValue i) k b)) j = insts_of (ir_blocks b) j"
    by (cases "insts_of (ir_blocks b) j") (simp_all add: replace_substituted insts_of_substituted)
  then show ?thesis by (simp add: is_ssa_fold_candidate_def replace_substituted split: option.split)
qed

text \<open>The instructions that the worklist is responsible for: the seeds, and the users of what has been folded.\<close>

definition watched :: "nat list \<Rightarrow> ir_builder \<Rightarrow> nat set \<Rightarrow> nat set" where
  "watched seeds b0 folded = set seeds \<union> {i. \<exists>d \<in> folded. i \<in> set (users_of b0 (LValue d))}"

definition fold_inv :: "fold_env \<Rightarrow> nat list \<Rightarrow> ir_builder \<Rightarrow> fold_state \<Rightarrow> bool" where
  "fold_inv F seeds b0 s \<longleftrightarrow>
     fs_queued s = set (fs_worklist s) \<and> distinct (fs_worklist s) \<and> set (fs_dead s) = fs_folded s \<and>
     (\<forall>i \<in> fs_folded s. const_of F i \<noteq> None \<and> was_candidate F (ir_blocks b0) i) \<and>
     fs_ir s = b0\<lparr>ir_blocks := substituted (const_subst (const_of F |` fs_folded s)) (ir_blocks b0)\<rparr> \<and>
     (\<forall>i \<in> watched seeds b0 (fs_folded s). i \<in> fs_folded s \<or> i \<in> set (fs_worklist s) \<or> \<not> foldable F (ir_blocks (fs_ir s)) i)"

lemma enqueue_all:
  assumes "fs_queued s = set (fs_worklist s)" and "distinct (fs_worklist s)"
  shows "set (fs_worklist (fold enqueue is s)) = set (fs_worklist s) \<union> (set is - fs_folded s) \<and>
    fs_queued (fold enqueue is s) = set (fs_worklist (fold enqueue is s)) \<and> distinct (fs_worklist (fold enqueue is s))"
  using assms
proof (induction "is" arbitrary: s)
  case (Cons i "is")
  have "fs_queued (enqueue i s) = set (fs_worklist (enqueue i s))" "distinct (fs_worklist (enqueue i s))"
    using Cons.prems by (auto simp: enqueue_def)
  then show ?case using Cons.IH [of "enqueue i s"] Cons.prems by (auto simp: enqueue_def)
qed simp

lemma seeded_inv: "fold_inv F seeds b (seeded seeds b)"
proof -
  let ?s = "\<lparr>fs_ir = b, fs_dead = [], fs_worklist = [], fs_queued = {}, fs_folded = {}\<rparr>"
  have "set (fs_worklist (seeded seeds b)) = set seeds \<and> fs_queued (seeded seeds b) = set seeds \<and> distinct (fs_worklist (seeded seeds b))"
    using enqueue_all [of ?s seeds] by (simp add: seeded_def)
  then show ?thesis by (simp add: fold_inv_def seeded_def watched_def substituted_id)
qed

lemma restrict_insert: "K i = Some k \<Longrightarrow> [i \<mapsto> k] ++ (K |` D) = K |` insert i D"
  by (auto simp: fun_eq_iff map_add_def restrict_map_def split: option.split)

lemma skipped_inv:
  assumes "fold_inv F seeds b0 s" and "fs_worklist s = i # rest"
    and "i \<in> fs_folded s \<or> \<not> is_ssa_fold_candidate F (ir_blocks (fs_ir s)) i \<or> fold_constant F i = Inr None"
  shows "fold_inv F seeds b0 (s\<lparr>fs_worklist := rest, fs_queued := fs_queued s - {i}\<rparr>)"
proof -
  have "i \<in> fs_folded s \<or> \<not> foldable F (ir_blocks (fs_ir s)) i"
    using assms(3) by (auto simp: foldable_def const_of_def)
  then show ?thesis using assms(1,2) by (auto simp: fold_inv_def)
qed

lemma folded_inv:
  assumes inv: "fold_inv F seeds b0 s" and wl: "fs_worklist s = i # rest" and new: "i \<notin> fs_folded s"
    and cand: "is_ssa_fold_candidate F (ir_blocks (fs_ir s)) i" and k: "fold_constant F i = Inr (Some k)"
  shows "fold_inv F seeds b0 (fold_value i k (s\<lparr>fs_worklist := rest, fs_queued := fs_queued s - {i}\<rparr>))"
proof -
  let ?D = "insert i (fs_folded s)" let ?us = "users_of (fs_ir s) (LValue i)"
  let ?s1 = "s\<lparr>fs_worklist := rest, fs_queued := fs_queued s - {i}, fs_folded := ?D,
    fs_ir := replaceAllUsesWith (LValue i) k (fs_ir s), fs_dead := fs_dead s @ [i]\<rparr>"
  let ?s = "fold_value i k (s\<lparr>fs_worklist := rest, fs_queued := fs_queued s - {i}\<rparr>)"
  have s: "?s = fold enqueue ?us ?s1" by (simp add: fold_value_def Let_def)
  have q: "set (fs_worklist ?s) = set rest \<union> (set ?us - ?D)" "fs_queued ?s = set (fs_worklist ?s)" "distinct (fs_worklist ?s)"
    using enqueue_all [of ?s1 ?us] inv wl unfolding s fold_inv_def by auto
  have c: "const_of F i = Some k" using k by (simp add: const_of_def)
  have was: "was_candidate F (ir_blocks b0) i" using cand inv by (auto simp: fold_inv_def was_candidate_def)
  have ir: "fs_ir ?s = b0\<lparr>ir_blocks := substituted (const_subst (const_of F |` ?D)) (ir_blocks b0)\<rparr>"
    using inv unfolding s fold_inv_def
    by (simp add: replaceAllUsesWith_def substituted_def [symmetric] substituted_comp subst_value_const const_subst_comp restrict_insert [of "const_of F", OF c])
  have users: "j \<in> set ?us" if u: "j \<in> set (users_of b0 (LValue i))" for j
  proof -
    obtain inst where inst: "(j, inst) \<in> set (concat (ir_blocks b0))" "LValue i \<in> set (operands inst)" using u unfolding users_of_iff by blast
    let ?f = "const_subst (const_of F |` fs_folded s)"
    have "?f (LValue i) = LValue i" using new by (simp add: const_subst_def)
    then have "LValue i \<in> set (operands (map_operands ?f inst))" using inst(2) by (force simp: operands_map)
    moreover have "(j, map_operands ?f inst) \<in> set (concat (ir_blocks (fs_ir s)))"
      using inst(1) inv unfolding fold_inv_def by (force simp: concat_substituted simp del: set_concat)
    ultimately show ?thesis by (auto simp: users_of_iff)
  qed
  have "j \<in> ?D \<or> j \<in> set (fs_worklist ?s) \<or> \<not> foldable F (ir_blocks (fs_ir ?s)) j" if w: "j \<in> watched seeds b0 ?D" for j
  proof (cases "j \<in> set ?us")
    case True
    then show ?thesis using q(1) by blast
  next
    case False
    then have "j \<in> watched seeds b0 (fs_folded s)" using w users by (auto simp: watched_def)
    then have "j \<in> fs_folded s \<or> j \<in> set (i # rest) \<or> \<not> foldable F (ir_blocks (fs_ir s)) j"
      using inv wl unfolding fold_inv_def by auto
    then show ?thesis using q(1) candidate_replaced [OF False] unfolding s by (auto simp: foldable_def)
  qed
  moreover have "fs_folded ?s = ?D" "set (fs_dead ?s) = ?D" using inv unfolding s fold_inv_def by auto
  ultimately show ?thesis using q ir inv c was unfolding fold_inv_def by auto
qed

lemma propagate_loop_inv:
  assumes "fold_inv F seeds b0 s" and "propagate_loop n F s = Inr s'"
  shows "fold_inv F seeds b0 s' \<and> fs_worklist s' = []"
  using assms
proof (induction n arbitrary: s)
  case (Suc n)
  from Suc.prems(2) obtain over s1 where s1: "propagate_step F s = Inr (over, s1)"
      "(if over then Inr s1 else propagate_loop n F s1) = Inr s'" by (auto elim!: res_bindE)
  have "fold_inv F seeds b0 s1" if "fold_round F s s1"
    using that by cases (auto intro: skipped_inv folded_inv Suc.prems(1))
  then show ?case using Suc propagate_step_round [OF s1(1)] s1(2) by (cases over) auto
qed simp

text \<open>C25: The worklist misses nothing: when it has run empty, no instruction that it was asked to look at, and no user of
  a value that it folded, is left that could still be folded, though an instruction may have been looked at before its last
  operand became a constant.\<close>

theorem folding_is_complete:
  assumes "propagate_ssa_values fuel F seeds b = Inr (b', dead)"
    and "i \<in> set seeds \<or> (\<exists>d \<in> set dead. i \<in> set (users_of b (LValue d)))" and "i \<notin> set dead"
  shows "\<not> foldable F (ir_blocks b') i"
proof -
  obtain s where s: "propagate_loop fuel F (seeded seeds b) = Inr s" "b' = fs_ir s" "dead = fs_dead s"
    using assms(1) by (auto simp: propagate_ssa_values_def elim!: res_bindE)
  then have "fold_inv F seeds b s" "fs_worklist s = []" using propagate_loop_inv seeded_inv by blast+
  then show ?thesis using assms(2,3) s(2,3) unfolding fold_inv_def watched_def by auto
qed

section \<open>The function after the pass\<close>

lemma erase_dead_all:
  assumes "constants K" and "set is \<subseteq> dom K"
    and "ir_blocks b = map (filter (\<lambda>node. fst node \<notin> D)) (substituted (const_subst K) B)"
  shows "erase_dead_instructions is b =
    b\<lparr>ir_blocks := map (filter (\<lambda>node. fst node \<notin> D \<union> set is)) (substituted (const_subst K) B)\<rparr>"
proof -
  have "set is \<subseteq> dom K \<Longrightarrow> ir_blocks b = map (filter (\<lambda>node. fst node \<notin> D)) (substituted (const_subst K) B) \<Longrightarrow>
      fold (\<lambda>i b. if use_empty b i then eraseFromParent i b else b) is b =
      b\<lparr>ir_blocks := map (filter (\<lambda>node. fst node \<notin> D \<union> set is)) (substituted (const_subst K) B)\<rparr>" for "is" b D
  proof (induction "is" arbitrary: b D)
    case (Cons i "is")
    have "set (concat (ir_blocks b)) \<subseteq> set (concat (substituted (const_subst K) B))" using Cons.prems(2) by auto
    then have "use_empty b i" using no_uses [OF assms(1), of i B] Cons.prems(1) unfolding use_empty_def by fastforce
    moreover have "ir_blocks (eraseFromParent i b) = map (filter (\<lambda>node. fst node \<notin> insert i D)) (substituted (const_subst K) B)"
      using Cons.prems(2) by (auto simp: eraseFromParent_def intro!: filter_cong)
    ultimately show ?case using Cons.IH [of "eraseFromParent i b" "insert i D"] Cons.prems(1)
      by (simp add: eraseFromParent_def)
  qed simp
  from this [of "rev is" b D] show ?thesis using assms(2,3) by (simp add: erase_dead_instructions_def)
qed

lemma load_constant_constants [simp]: "constants (load_constant E cache |` D)"
  by (auto simp: constants_def load_constant_def restrict_map_def Let_def
      split: option.splits sum.splits if_splits ir_inst.splits prod.splits)

lemma loads_substituted:
  assumes "fold (concretize_load E cache) is (b0, r0) = (b, r)"
    and "b0 = base\<lparr>ir_blocks := substituted (const_subst (load_constant E cache |` set (dead_loads r0))) B\<rparr>"
  shows "b = base\<lparr>ir_blocks := substituted (const_subst (load_constant E cache |` set (dead_loads r))) B\<rparr>"
  using assms
proof (induction "is" arbitrary: b0 r0)
  case (Cons i "is")
  obtain b1 r1 where s: "concretize_load E cache i (b0, r0) = (b1, r1)" by fastforce
  have "b1 = base\<lparr>ir_blocks := substituted (const_subst (load_constant E cache |` set (dead_loads r1))) B\<rparr>"
  proof (cases "load_constant E cache i")
    case (Some k)
    then show ?thesis using s Cons.prems(2) restrict_insert [of "load_constant E cache" i k]
      by (auto simp: concretize_load_def replaceAllUsesWith_def substituted_def [symmetric] substituted_comp subst_value_const const_subst_comp)
  qed (use s Cons.prems(2) in \<open>auto simp: concretize_load_def\<close>)
  then show ?case using Cons.IH [of b1 r1] Cons.prems(1) s by simp
qed simp

lemma filter_erased:
  "map (filter (\<lambda>n. fst n \<notin> T) \<circ> filter (\<lambda>n. fst n \<notin> dom K)) xs = map (filter (\<lambda>(i, inst). K i = None \<and> i \<notin> T)) xs"
  by (auto simp: split_beta domIff intro!: filter_cong)

text \<open>The constants that the pass may put in: those that the emulation gives for a safe load or for an instruction that can be folded.\<close>

definition recorded :: "fold_env \<Rightarrow> safety_cache \<Rightarrow> nat \<Rightarrow> llvm_value \<Rightarrow> bool" where
  "recorded F cache i k \<longleftrightarrow>
     load_constant (fe_cp F) cache i = Some k \<or> fold_constant F i = Inr (Some k) \<and> was_candidate F (ir_blocks (ce_ir (fe_cp F))) i"

lemma constant_propagation_blocks:
  assumes "constant_propagation_run fuel F = Inr (changed, b')"
  obtains cache K where "changed" and "value_safety fuel (fe_cp F) = Inr cache" and "constants K"
    and "\<And>i k. K i = Some k \<Longrightarrow> recorded F cache i k"
    and "b' = (ce_ir (fe_cp F))\<lparr>ir_blocks := map (filter (\<lambda>(i, inst). K i = None \<and> i \<notin> set (to_delete (ce_ir (fe_cp F)))))
        (substituted (const_subst K) (ir_blocks (ce_ir (fe_cp F)))), to_delete := []\<rparr>"
proof -
  let ?B = "ir_blocks (ce_ir (fe_cp F))" let ?E = "fe_cp F"
  obtain cache b r b1 dead where c: "value_safety fuel ?E = Inr cache"
      and l: "fold (concretize_load ?E cache) (all_insts ?E) (ce_ir ?E, \<lparr>dead_loads = [], fold_seeds = []\<rparr>) = (b, r)"
      and p: "propagate_ssa_values fuel F (fold_seeds r) b = Inr (b1, dead)"
      and b': "changed" "b' = eraseDeletedInstructions (erase_dead_instructions (dead_loads r) (erase_dead_instructions dead b1))"
    using assms unfolding constant_propagation_run_def concretize_memory_loads_def by (auto simp: Let_def elim!: res_bindE)
  let ?L = "load_constant ?E cache |` set (dead_loads r)" let ?S = "const_of F |` set dead"
  define K where "K = ?S ++ ?L"
  have b: "b = (ce_ir ?E)\<lparr>ir_blocks := substituted (const_subst ?L) ?B\<rparr>"
    using loads_substituted [where base = "ce_ir ?E" and B = ?B, OF l] by (simp add: substituted_id)
  obtain s where s: "propagate_loop fuel F (seeded (fold_seeds r) b) = Inr s" "b1 = fs_ir s" "dead = fs_dead s"
    using p by (auto simp: propagate_ssa_values_def elim!: res_bindE)
  have inv: "fold_inv F (fold_seeds r) b s" using propagate_loop_inv [OF seeded_inv s(1)] by simp
  from b s inv have b1: "b1 = (ce_ir ?E)\<lparr>ir_blocks := substituted (const_subst K) ?B\<rparr>"
    by (simp add: fold_inv_def substituted_comp const_subst_comp K_def)
  have K: "constants K" using const_of_constants [of F "set dead"] load_constant_constants [of ?E cache "set (dead_loads r)"]
    by (auto simp: constants_def map_add_def K_def split: option.splits)
  have dom: "set dead \<subseteq> dom K" "set (dead_loads r) \<subseteq> dom K" "dom K = set dead \<union> set (dead_loads r)"
    using inv s(3) concretize_loads_dead [OF l] by (auto simp: fold_inv_def restrict_map_def dom_def K_def)
  have start: "ir_blocks b1 = map (filter (\<lambda>node. fst node \<notin> {})) (substituted (const_subst K) ?B)" using b1 by (simp add: map_idI)
  have "erase_dead_instructions dead b1 = b1\<lparr>ir_blocks := map (filter (\<lambda>node. fst node \<notin> set dead)) (substituted (const_subst K) ?B)\<rparr>"
    using erase_dead_all [OF K dom(1) start] by simp
  then have "erase_dead_instructions (dead_loads r) (erase_dead_instructions dead b1) =
      b1\<lparr>ir_blocks := map (filter (\<lambda>node. fst node \<notin> dom K)) (substituted (const_subst K) ?B)\<rparr>"
    using erase_dead_all [OF K dom(2), of "erase_dead_instructions dead b1" "set dead" ?B] dom(3) by simp
  then have "b' = (ce_ir ?E)\<lparr>ir_blocks := map (filter (\<lambda>(i, inst). K i = None \<and> i \<notin> set (to_delete (ce_ir ?E))))
      (substituted (const_subst K) ?B), to_delete := []\<rparr>"
    using b'(2) b1 by (simp add: eraseDeletedInstructions_def filter_erased)
  moreover have "was_candidate F ?B i" if "i \<in> set dead" for i
    using that inv s(3) b was_candidate_substituted unfolding fold_inv_def by fastforce
  then have "recorded F cache i k" if "K i = Some k" for i k
    using that by (auto simp: recorded_def K_def map_add_def restrict_map_def const_of_def split: option.splits if_splits sum.splits)
  ultimately show thesis using that b'(1) c K by blast
qed

text \<open>C24: What \<open>constant_propagation::run\<close> returns, block for block: the function it was given in which some
  operands have become constants and the instructions that computed them are gone, together with those that were marked for
  deletion before. The constants are the ones that the emulation gives for a safe load or a folded
  instruction; every other instruction is in its place, and the pass always reports a change.\<close>

theorem constant_propagation_result:
  assumes "constant_propagation_run fuel F = Inr (changed, b')"
  shows "changed \<and> (\<exists>cache K. value_safety fuel (fe_cp F) = Inr cache \<and>
    (\<forall>i k. K i = Some k \<longrightarrow> load_constant (fe_cp F) cache i = Some k \<or> fold_constant F i = Inr (Some k)) \<and>
    ir_blocks b' = map (filter (\<lambda>(i, inst). K i = None \<and> i \<notin> set (to_delete (ce_ir (fe_cp F)))))
      (substituted (const_subst K) (ir_blocks (ce_ir (fe_cp F)))))"
proof (rule constant_propagation_blocks [OF assms])
  fix cache K
  assume "changed" and "value_safety fuel (fe_cp F) = Inr cache" and "\<And>i k. K i = Some k \<Longrightarrow> recorded F cache i k"
    and "b' = (ce_ir (fe_cp F))\<lparr>ir_blocks := map (filter (\<lambda>(i, inst). K i = None \<and> i \<notin> set (to_delete (ce_ir (fe_cp F)))))
        (substituted (const_subst K) (ir_blocks (ce_ir (fe_cp F)))), to_delete := []\<rparr>"
  then show ?thesis by (intro conjI exI [of _ cache] exI [of _ K]) (auto simp: recorded_def)
qed

text \<open>A load through an argument, an addition of 1 to the loaded byte, and the return of the sum.\<close>

definition demo_fold :: fold_env where
  "demo_fold =
     \<lparr>fe_cp = demo_cp\<lparr>ce_symex := \<lparr>sx_fresh = 0, sx_vars = [LValue 100 \<mapsto> pointer_new (value_new (BwBv 64 16)) 0,
          LValue 12 \<mapsto> value_new (BwBv 8 5), LValue 13 \<mapsto> value_new (BwBv 8 6)]\<rparr>,
        ce_ir := (ce_ir demo_cp)\<lparr>ir_blocks :=
          [[(12, ILoad 8 (LValue 100)), (13, IBinary Add (LValue 12) (LConstantInt 8 1)), (14, IRet (LValue 13))]]\<rparr>,
        ce_def_parent := Map.empty, ce_use_parent := [12 \<mapsto> Live_on_entry]\<rparr>,
      fe_defined_constant = (\<lambda>i. False), fe_integer_width = (\<lambda>i. Some 8), fe_side_effects = (\<lambda>inst. False),
      fe_foldable_operator = (\<lambda>inst. True)\<rparr>"

lemma demo_fold_forest: "def_forest (fe_cp demo_fold) demo_depth 16"
  by (simp add: def_forest_def demo_fold_def all_insts_def demo_depth_def)

lemma demo_fold_facts:
  "roots_of (fe_cp demo_fold) = [Live_on_entry]" "access_loads (fe_cp demo_fold) Live_on_entry = [12]"
  "def_children (fe_cp demo_fold) Live_on_entry = []" "all_insts (fe_cp demo_fold) = [12, 13, 14]"
  "ce_inst (fe_cp demo_fold) 12 = Some (ILoad 8 (LValue 100))" "ce_inst (fe_cp demo_fold) 100 = None"
  "get_memory_access (fe_cp demo_fold) (ILoad 8 (LValue 100)) = Some \<lparr>ca_page = 0, ca_offset = 16, ca_size = 1\<rparr>"
  "load_candidate (fe_cp demo_fold) Live_on_entry 12 0 (Some \<lparr>ca_page = 0, ca_offset = 16, ca_size = Suc 0\<rparr>)"
  "block_of (ce_blocks (fe_cp demo_fold)) 12 = Some 0"
  "load_constant (fe_cp demo_fold) [12 \<mapsto> Safe] 12 = Some (LConstantInt 8 5)"
  "load_constant (fe_cp demo_fold) [12 \<mapsto> Safe] 13 = None" "load_constant (fe_cp demo_fold) [12 \<mapsto> Safe] 14 = None"
  "users_of (ce_ir (fe_cp demo_fold)) (LValue 12) = [13]" "fold_constant demo_fold 13 = Inr (Some (LConstantInt 8 6))"
  by code_simp+

lemma demo_fold_loops: "ce_in_loop (fe_cp demo_fold) bb = False"
  by (simp add: demo_fold_def demo_cp_def)

lemma demo_fold_safety: "value_safety (Suc (Suc n)) (fe_cp demo_fold) = Inr [12 \<mapsto> Safe]"
proof -
  have "safe_value (fe_cp demo_fold) Live_on_entry (\<lambda>a. True) (LValue 12) Map.empty = (True, [12 \<mapsto> Safe])"
    unfolding safe_value_def demo_fold_facts(4)
    by (simp add: demo_fold_facts demo_fold_loops inst_is_safe_def range_is_safe_def Let_def)
  then show ?thesis
    by (simp add: value_safety_def demo_fold_facts walk_root_def walk_step_def visit_loads_def byte_is_safe_def [abs_def])
qed

lemma demo_fold_memory:
  "fold (concretize_load (fe_cp demo_fold) [12 \<mapsto> Safe]) (all_insts (fe_cp demo_fold))
     (ce_ir (fe_cp demo_fold), \<lparr>dead_loads = [], fold_seeds = []\<rparr>) =
   (replaceAllUsesWith (LValue 12) (LConstantInt 8 5) (ce_ir (fe_cp demo_fold)), \<lparr>dead_loads = [12], fold_seeds = [13]\<rparr>)"
  by (simp add: demo_fold_facts concretize_load_def)

lemma demo_fold_candidate:
  "is_ssa_fold_candidate demo_fold (ir_blocks (replaceAllUsesWith (LValue 12) (LConstantInt 8 5) (ce_ir (fe_cp demo_fold)))) 13"
  "\<not> is_ssa_fold_candidate demo_fold (ir_blocks (replaceAllUsesWith (LValue 13) (LConstantInt 8 6)
     (replaceAllUsesWith (LValue 12) (LConstantInt 8 5) (ce_ir (fe_cp demo_fold))))) 14"
  "users_of (replaceAllUsesWith (LValue 12) (LConstantInt 8 5) (ce_ir (fe_cp demo_fold))) (LValue 13) = [14]"
  by code_simp+

lemma demo_fold_propagate:
  "propagate_ssa_values (Suc (Suc (Suc n))) demo_fold [13] (replaceAllUsesWith (LValue 12) (LConstantInt 8 5) (ce_ir (fe_cp demo_fold))) =
   Inr (replaceAllUsesWith (LValue 13) (LConstantInt 8 6) (replaceAllUsesWith (LValue 12) (LConstantInt 8 5) (ce_ir (fe_cp demo_fold))), [13])"
  by (simp add: propagate_ssa_values_def seeded_def enqueue_def propagate_step_def demo_fold_candidate demo_fold_facts fold_value_def)

lemma demo_fold_erase:
  "ir_blocks (eraseDeletedInstructions (erase_dead_instructions [12] (erase_dead_instructions [13]
     (replaceAllUsesWith (LValue 13) (LConstantInt 8 6) (replaceAllUsesWith (LValue 12) (LConstantInt 8 5) (ce_ir (fe_cp demo_fold))))))) =
   [[(14, IRet (LConstantInt 8 6))]]"
  by code_simp

lemma demo_fold_run:
  "\<exists>b'. constant_propagation_run 3 demo_fold = Inr (True, b') \<and> ir_blocks b' = [[(14, IRet (LConstantInt 8 6))]]"
  using demo_fold_safety [of 1] demo_fold_propagate [of 0] demo_fold_erase
  by (simp add: constant_propagation_run_def concretize_memory_loads_def demo_fold_memory numeral_3_eq_3)

theorem constant_propagation_terminates_witness:
  "def_forest (fe_cp demo_fold) demo_depth 16 \<and> (\<exists>k. \<forall>fuel \<ge> k. constant_propagation_run fuel demo_fold \<noteq> Inl Diverges)"
  using constant_propagation_terminates [OF demo_fold_forest] demo_fold_forest by simp

theorem folding_is_complete_witness:
  "\<not> foldable demo_fold (ir_blocks (replaceAllUsesWith (LValue 13) (LConstantInt 8 6)
     (replaceAllUsesWith (LValue 12) (LConstantInt 8 5) (ce_ir (fe_cp demo_fold))))) 14"
  using folding_is_complete [OF demo_fold_propagate [of 0], of 14] demo_fold_candidate(3) by simp

theorem constant_propagation_result_witness:
  "\<exists>b' cache K. constant_propagation_run 3 demo_fold = Inr (True, b') \<and> value_safety 3 (fe_cp demo_fold) = Inr cache \<and>
     [[(14, IRet (LConstantInt 8 6))]] = map (filter (\<lambda>(i, inst). K i = None \<and> i \<notin> set (to_delete (ce_ir (fe_cp demo_fold)))))
       (substituted (const_subst K) (ce_blocks (fe_cp demo_fold)))"
proof -
  obtain b' where b': "constant_propagation_run 3 demo_fold = Inr (True, b')" "ir_blocks b' = [[(14, IRet (LConstantInt 8 6))]]"
    using demo_fold_run by blast
  moreover from constant_propagation_result [OF b'(1)] obtain cache K where "value_safety 3 (fe_cp demo_fold) = Inr cache"
    "ir_blocks b' = map (filter (\<lambda>(i, inst). K i = None \<and> i \<notin> set (to_delete (ce_ir (fe_cp demo_fold)))))
       (substituted (const_subst K) (ce_blocks (fe_cp demo_fold)))" by blast
  ultimately show ?thesis by (intro exI [of _ b'] exI [of _ cache] exI [of _ K]) simp
qed

end
