(* ===== verification/Const_Prop_Correct.thy ===== *)
theory Const_Prop_Correct
  imports Const_Prop Ir_Semantics
begin

text \<open>
  The constant propagation keeps the meaning of a function on every path on which the emulation was right: a simulation of the
  path in the new function, in which operands are constants and the instructions that computed them are gone.
\<close>

section \<open>What can be left out\<close>

text \<open>Instructions without effects: loads, and what LLVM says has no side effects. Their entries in the trace are left out.\<close>

definition silent :: "fold_env \<Rightarrow> nat \<Rightarrow> bool" where
  "silent F i \<longleftrightarrow>
     (case insts_of (ir_blocks (ce_ir (fe_cp F))) i of None \<Rightarrow> False
      | Some inst \<Rightarrow> is_load inst \<or> \<not> is_store inst \<and> \<not> is_terminator inst \<and> \<not> is_phi inst \<and> \<not> fe_side_effects F inst)"

definition visible :: "fold_env \<Rightarrow> (nat \<times> int list) list \<Rightarrow> (nat \<times> int list) list" where
  "visible F t = filter (\<lambda>e. \<not> silent F (fst e)) t"

text \<open>The host does not look at what has no effects, and what has no effects does not write to memory.\<close>

definition effects_only :: "fold_env \<Rightarrow> ir_host \<Rightarrow> bool" where
  "effects_only F h \<longleftrightarrow>
     (\<forall>i sh vals t t' m. visible F t = visible F t' \<longrightarrow> h i sh vals t m = h i sh vals t' m) \<and>
     (\<forall>i sh vals t m. silent F i \<longrightarrow> snd (h i sh vals t m) = m)"

text \<open>What is asked of the function and of LLVM: an instruction has one number, the size of a value is that of its type, and
  whether an instruction has side effects does not depend on its operands.\<close>

definition typed_function :: "fold_env \<Rightarrow> bool" where
  "typed_function F \<longleftrightarrow>
     distinct (map fst (concat (ir_blocks (ce_ir (fe_cp F))))) \<and>
     (\<forall>i bits p. insts_of (ir_blocks (ce_ir (fe_cp F))) i = Some (ILoad bits p) \<longrightarrow> ir_sizes (ce_ir (fe_cp F)) i = bits) \<and>
     (\<forall>i w. fe_integer_width F i = Some w \<longrightarrow> ir_sizes (ce_ir (fe_cp F)) i = w) \<and>
     (\<forall>f inst. fe_side_effects F (map_operands f inst) = fe_side_effects F inst)"

text \<open>The emulation is right on a run: what it recorded for an instruction is what the instruction computes, and such a
  value is used only after it was computed. \<open>D\<close> has the instructions that were executed.\<close>

fun emulation_right :: "(nat \<Rightarrow> llvm_value \<Rightarrow> bool) \<Rightarrow> ir_host \<Rightarrow> ir_builder \<Rightarrow> nat set \<Rightarrow> ir_node list \<Rightarrow> ir_state \<Rightarrow> bool" where
  "emulation_right R h b D [] s = True"
| "emulation_right R h b D (node # ns) s =
     (if fst node \<in> set (to_delete b) then emulation_right R h b D ns s
      else
        (\<forall>k. R (fst node) k \<longrightarrow> st_env (exec_node h b node s) (fst node) = val_of s k) \<and>
        (\<forall>j k. LValue j \<in> set (operands (snd node)) \<longrightarrow> R j k \<longrightarrow> j \<in> D) \<and>
        emulation_right R h b (insert (fst node) D) ns (exec_node h b node s))"

section \<open>The simulation\<close>

text \<open>The two states agree on everything but the values that became constants.\<close>

definition agrees :: "fold_env \<Rightarrow> (nat \<rightharpoonup> llvm_value) \<Rightarrow> nat set \<Rightarrow> ir_state \<Rightarrow> ir_state \<Rightarrow> bool" where
  "agrees F K D s s' \<longleftrightarrow>
     st_mem s' = st_mem s \<and> visible F (st_trace s') = visible F (st_trace s) \<and>
     (\<forall>j. K j = None \<longrightarrow> st_env s' j = st_env s j) \<and>
     (\<forall>j w n. j \<in> D \<longrightarrow> K j = Some (LConstantInt w n) \<longrightarrow> st_env s j = n)"

lemma visible_snoc: "visible F (t @ [e]) = (if silent F (fst e) then visible F t else visible F t @ [e])"
  by (simp add: visible_def)

lemma agrees_value:
  assumes "agrees F K D s s'" and "constants K" and "\<And>j k. v = LValue j \<Longrightarrow> K j = Some k \<Longrightarrow> j \<in> D"
  shows "val_of s' (const_subst K v) = val_of s v"
proof (cases v)
  case (LValue j)
  show ?thesis
  proof (cases "K j")
    case None
    then show ?thesis using assms(1) LValue by (simp add: const_subst_def val_of_def agrees_def)
  next
    case (Some k)
    then obtain w n where "k = LConstantInt w n" using assms(2) unfolding constants_def by blast
    then show ?thesis using assms(1,3) LValue Some by (simp add: const_subst_def val_of_def agrees_def)
  qed
qed (simp add: const_subst_def val_of_def)

text \<open>An instruction that stays does the same with its new operands.\<close>

lemma host_step:
  assumes agree: "agrees F K D s s'" and host: "effects_only F h" and i: "K i = None"
    and step: "h i sh vals (st_trace s) (st_mem s) = (x, m)" "h i sh vals (st_trace s') (st_mem s') = (x', m')"
  shows "agrees F K (insert i D) (set_value i x (s\<lparr>st_mem := m, st_trace := st_trace s @ [(i, vals)]\<rparr>))
    (set_value i x' (s'\<lparr>st_mem := m', st_trace := st_trace s' @ [(i, vals)]\<rparr>))"
proof -
  have "h i sh vals (st_trace s') (st_mem s') = h i sh vals (st_trace s) (st_mem s)"
    using agree host unfolding agrees_def effects_only_def by metis
  then have "x' = x" "m' = m" using step by simp_all
  then show ?thesis using agree i by (auto simp: agrees_def set_value_def visible_snoc)
qed

lemma kept_step:
  assumes agree: "agrees F K D s s'" and K: "constants K" and host: "effects_only F h" and i: "K i = None"
    and uses: "\<And>j k. LValue j \<in> set (operands inst) \<Longrightarrow> K j = Some k \<Longrightarrow> j \<in> D"
    and sizes: "\<And>v. v \<in> set (operands inst) \<Longrightarrow> psize (const_subst K v) = psize v"
  shows "agrees F K (insert i D) (ir_exec h sizes psize (i, inst) s) (ir_exec h sizes psize (i, map_operands (const_subst K) inst) s')"
proof -
  have val: "val_of s' (const_subst K v) = val_of s v" if "v \<in> set (operands inst)" for v
  proof (rule agrees_value [OF agree K])
    show "j \<in> D" if "v = LValue j" "K j = Some k" for j k using uses \<open>v \<in> set (operands inst)\<close> that by blast
  qed
  then have addr: "addr_of s' (const_subst K v) = addr_of s v" if "v \<in> set (operands inst)" for v using that by (simp add: addr_of_def)
  have vals: "map (val_of s') (operands (map_operands (const_subst K) inst)) = map (val_of s) (operands inst)"
    using val by (simp add: operands_map)
  have mem: "st_mem s' = st_mem s" using agree by (simp add: agrees_def)
  have result: "agrees F K (insert i D) (set_value i x s) (set_value i x s')" for x
    using agree i by (auto simp: agrees_def set_value_def)
  have store: "agrees F K (insert i D) (s\<lparr>st_mem := m\<rparr>) (s'\<lparr>st_mem := m\<rparr>)" for m
    using agree i by (auto simp: agrees_def)
  obtain x m where x: "h i (shape inst) (map (val_of s) (operands inst)) (st_trace s) (st_mem s) = (x, m)" by fastforce
  obtain x' m' where x': "h i (shape inst) (map (val_of s) (operands inst)) (st_trace s') (st_mem s') = (x', m')" by fastforce
  let ?inst = "map_operands (const_subst K) inst"
  have other: "agrees F K (insert i D)
      (case h i (shape inst) (map (val_of s) (operands inst)) (st_trace s) (st_mem s) of (x, m) \<Rightarrow>
        set_value i x (s\<lparr>st_mem := m, st_trace := st_trace s @ [(i, map (val_of s) (operands inst))]\<rparr>))
      (case h i (shape ?inst) (map (val_of s') (operands ?inst)) (st_trace s') (st_mem s') of (x, m) \<Rightarrow>
        set_value i x (s'\<lparr>st_mem := m, st_trace := st_trace s' @ [(i, map (val_of s') (operands ?inst))]\<rparr>))"
    using host_step [OF agree host i x x'] by (simp only: vals shape_map_operands x x' prod.case)
  show ?thesis
  proof (cases inst)
    case (IStore v p)
    then show ?thesis using val addr mem sizes store by simp
  next
    case (ILoad bits p)
    then show ?thesis using addr mem result by simp
  next
    case (IBinary op a c)
    then show ?thesis using other val result by (cases op) simp_all
  next
    case (IGep p off)
    then show ?thesis using other addr result by (cases off) simp_all
  qed (use other val result in simp_all)
qed


text \<open>An instruction whose value became a constant has no effects.\<close>

lemma candidate_silent:
  assumes "was_candidate F (ir_blocks (ce_ir (fe_cp F))) i" and "typed_function F"
  shows "silent F i"
proof -
  have kinds: "is_load (map_operands f inst) = is_load inst" "is_store (map_operands f inst) = is_store inst"
      "is_phi (map_operands f inst) = is_phi inst" "is_terminator (map_operands f inst) = is_terminator inst" for f inst
    by (cases inst; simp add: is_load_def is_store_def)+
  show ?thesis using assms
    by (auto simp: was_candidate_def is_ssa_fold_candidate_def silent_def insts_of_substituted kinds typed_function_def split: option.splits)
qed

lemma recorded_silent:
  assumes "recorded F cache i k" and "typed_function F"
  shows "silent F i"
  using assms candidate_silent load_constant_load unfolding recorded_def
  by (fastforce simp: silent_def ce_inst_def is_load_def)

lemma recorded_size:
  assumes "recorded F cache i k" and "typed_function F"
  obtains n where "k = LConstantInt (ir_sizes (ce_ir (fe_cp F)) i) n"
proof (cases "load_constant (fe_cp F) cache i = Some k")
  case True
  then obtain bits p n where "ce_inst (fe_cp F) i = Some (ILoad bits p)" "k = LConstantInt bits n"
    by (auto simp: load_constant_def Let_def split: option.splits ir_inst.splits sum.splits if_splits)
  then show ?thesis using assms(2) that by (auto simp: typed_function_def ce_inst_def)
next
  case False
  then have "fold_constant F i = Inr (Some k)" using assms(1) by (simp add: recorded_def)
  then obtain w n where "Some w = fe_integer_width F i" "k = LConstantInt w n"
    by (auto simp: fold_constant_def Let_def split: option.splits if_splits elim!: res_bindE)
  then show ?thesis using assms(2) that unfolding typed_function_def by metis
qed

lemma silent_exec:
  assumes "silent F i" and "insts_of (ir_blocks (ce_ir (fe_cp F))) i = Some inst" and "effects_only F h"
  shows "st_mem (ir_exec h sizes psize (i, inst) s) = st_mem s"
    and "visible F (st_trace (ir_exec h sizes psize (i, inst) s)) = visible F (st_trace s)"
    and "j \<noteq> i \<Longrightarrow> st_env (ir_exec h sizes psize (i, inst) s) j = st_env s j"
proof -
  have pure: "snd (h i sh vals t m) = m" for sh vals t m using assms(1,3) unfolding effects_only_def by blast
  have store: "\<not> is_store inst" using assms(1,2) by (cases inst) (simp_all add: silent_def is_load_def is_store_def)
  have "st_mem (ir_exec h sizes psize (i, inst) s) = st_mem s \<and>
      visible F (st_trace (ir_exec h sizes psize (i, inst) s)) = visible F (st_trace s) \<and>
      (j \<noteq> i \<longrightarrow> st_env (ir_exec h sizes psize (i, inst) s) j = st_env s j)"
  proof -
    have other: "st_mem (case h i (shape inst) (map (val_of s) (operands inst)) (st_trace s) (st_mem s) of (x, m) \<Rightarrow>
          set_value i x (s\<lparr>st_mem := m, st_trace := st_trace s @ [(i, map (val_of s) (operands inst))]\<rparr>)) = st_mem s"
        "visible F (st_trace (case h i (shape inst) (map (val_of s) (operands inst)) (st_trace s) (st_mem s) of (x, m) \<Rightarrow>
          set_value i x (s\<lparr>st_mem := m, st_trace := st_trace s @ [(i, map (val_of s) (operands inst))]\<rparr>))) = visible F (st_trace s)"
        "j \<noteq> i \<longrightarrow> st_env (case h i (shape inst) (map (val_of s) (operands inst)) (st_trace s) (st_mem s) of (x, m) \<Rightarrow>
          set_value i x (s\<lparr>st_mem := m, st_trace := st_trace s @ [(i, map (val_of s) (operands inst))]\<rparr>)) j = st_env s j"
      using pure [of "shape inst" "map (val_of s) (operands inst)" "st_trace s" "st_mem s"] assms(1)
      by (auto simp: set_value_def visible_snoc split: prod.splits)
    show ?thesis
    proof (cases inst)
      case (IStore v p)
      then show ?thesis using store by (simp add: is_store_def)
    next
      case (IBinary op a c)
      then show ?thesis using other by (cases op) (simp_all add: set_value_def)
    next
      case (IGep p off)
      then show ?thesis using other by (cases off) (simp_all add: set_value_def)
    qed (use other in \<open>simp_all add: set_value_def\<close>)
  qed
  then show "st_mem (ir_exec h sizes psize (i, inst) s) = st_mem s"
    "visible F (st_trace (ir_exec h sizes psize (i, inst) s)) = visible F (st_trace s)"
    "j \<noteq> i \<Longrightarrow> st_env (ir_exec h sizes psize (i, inst) s) j = st_env s j" by blast+
qed

section \<open>Every path\<close>

text \<open>The nodes of a block after the pass.\<close>

abbreviation propagated :: "(nat \<rightharpoonup> llvm_value) \<Rightarrow> nat list \<Rightarrow> ir_node list \<Rightarrow> ir_node list" where
  "propagated K del ns \<equiv>
     filter (\<lambda>(i, inst). K i = None \<and> i \<notin> set del) (map (\<lambda>(i, inst). (i, map_operands (const_subst K) inst)) ns)"

lemma run_agrees:
  assumes typed: "typed_function F" and host: "effects_only F h" and K: "constants K"
    and rec: "\<And>i k. K i = Some k \<Longrightarrow> recorded F cache i k" and b: "b = ce_ir (fe_cp F)"
    and b': "ir_sizes b' = ir_sizes b" "to_delete b' = []"
  shows "set ns \<subseteq> set (concat (ir_blocks b)) \<Longrightarrow> agrees F K D s s' \<Longrightarrow> emulation_right (recorded F cache) h b D ns s \<Longrightarrow>
    \<exists>D'. agrees F K D' (exec_nodes h b ns s) (exec_nodes h b' (propagated K (to_delete b) ns) s')"
proof (induction ns arbitrary: D s s')
  case Nil
  then show ?case by auto
next
  case (Cons node ns)
  obtain i inst where node: "node = (i, inst)" by fastforce
  let ?s = "exec_node h b node s"
  have rest: "set ns \<subseteq> set (concat (ir_blocks b))" using Cons.prems(1) by simp
  have psize: "primitive_size b' = primitive_size b"
    using b'(1) by (auto simp: primitive_size_def fun_eq_iff split: llvm_value.split)
  show ?case
  proof (cases "i \<in> set (to_delete b)")
    case True
    then have "?s = s" by (simp add: exec_node_def node)
    then show ?thesis using Cons.IH [OF rest Cons.prems(2)] Cons.prems(3) True node by simp
  next
    case False
    have exec: "?s = ir_exec h (ir_sizes b) (primitive_size b) (i, inst) s" using False by (simp add: exec_node_def node)
    have right: "\<forall>k. recorded F cache i k \<longrightarrow> st_env ?s i = val_of s k"
        "\<forall>j k. LValue j \<in> set (operands inst) \<longrightarrow> recorded F cache j k \<longrightarrow> j \<in> D"
        "emulation_right (recorded F cache) h b (insert i D) ns ?s"
      using Cons.prems(3) False node by auto
    show ?thesis
    proof (cases "K i")
      case None
      have "primitive_size b (const_subst K v) = primitive_size b v" for v
      proof (cases "\<exists>j k. v = LValue j \<and> K j = Some k")
        case True
        then obtain j k n where "v = LValue j" "K j = Some k" "k = LConstantInt (ir_sizes b j) n"
          using recorded_size [OF rec typed] b by metis
        then show ?thesis by (simp add: const_subst_def primitive_size_def)
      qed (auto simp: const_subst_def split: llvm_value.splits option.splits)
      then have "agrees F K (insert i D) ?s (ir_exec h (ir_sizes b) (primitive_size b) (i, map_operands (const_subst K) inst) s')"
        unfolding exec
      proof (intro kept_step [OF Cons.prems(2) K host None])
        show "j \<in> D" if "LValue j \<in> set (operands inst)" "K j = Some k" for j k using right(2) rec that by blast
      qed
      moreover have "exec_node h b' (i, map_operands (const_subst K) inst) s' =
          ir_exec h (ir_sizes b) (primitive_size b) (i, map_operands (const_subst K) inst) s'"
        using b' psize by (simp add: exec_node_def)
      ultimately show ?thesis using Cons.IH [OF rest _ right(3)] None False node by simp
    next
      case (Some k)
      then obtain w n where k: "k = LConstantInt w n" using K unfolding constants_def by blast
      have i: "insts_of (ir_blocks b) i = Some inst"
        using Cons.prems(1) node typed b unfolding insts_of_def typed_function_def by (intro map_of_is_SomeI) auto
      note quiet = silent_exec [OF recorded_silent [OF rec [OF Some] typed] i [unfolded b] host,
          where sizes = "ir_sizes b" and psize = "primitive_size b" and s = s, folded exec]
      have "st_env ?s i = n" using right(1) rec [OF Some] k by (auto simp: val_of_def)
      then have "agrees F K (insert i D) ?s s'"
        using Cons.prems(2) quiet Some k unfolding agrees_def by (metis insert_iff llvm_value.inject(1) option.distinct(1) option.inject)
      then show ?thesis using Cons.IH [OF rest _ right(3)] Some node by simp
    qed
  qed
qed


lemma propagated_concat: "concat (map (\<lambda>bb. propagated K del (f bb)) path) = propagated K del (concat (map f path))"
  by (simp add: map_concat filter_concat comp_def)

text \<open>C23: constant propagation keeps the meaning of a function. Along every path, from every state from which the emulation was right
  on that path (what it recorded for a load that it found safe, or for an instruction that can be folded, is what the
  instruction computes, and it is computed before it is used), the new function leaves the same memory, makes the same
  calls, takes the same branches and returns the same value as before, and every value that was not recorded is the same. The
  host stands for the other instructions; what has no side effects does not write to memory and is not
  seen by the others.\<close>

theorem constant_propagation_keeps_meaning:
  assumes run: "constant_propagation_run fuel F = Inr (changed, b')" and b: "b = ce_ir (fe_cp F)"
    and cache: "value_safety fuel (fe_cp F) = Inr cache" and typed: "typed_function F" and host: "effects_only F h"
    and path: "set path \<subseteq> {..<length (ir_blocks b)}"
    and right: "emulation_right (recorded F cache) h b {} (concat (map ((!) (ir_blocks b)) path)) s"
    and t: "t = exec_path h b path s" and t': "t' = exec_path h b' path s"
  shows "st_mem t' = st_mem t \<and> visible F (st_trace t') = visible F (st_trace t) \<and>
    (\<forall>j. (\<nexists>k. recorded F cache j k) \<longrightarrow> st_env t' j = st_env t j)"
proof (rule constant_propagation_blocks [OF run])
  fix cache' K
  assume "value_safety fuel (fe_cp F) = Inr cache'" and K: "constants K"
    and rec': "\<And>i k. K i = Some k \<Longrightarrow> recorded F cache' i k"
    and b': "b' = (ce_ir (fe_cp F))\<lparr>ir_blocks := map (filter (\<lambda>(i, inst). K i = None \<and> i \<notin> set (to_delete (ce_ir (fe_cp F)))))
        (substituted (const_subst K) (ir_blocks (ce_ir (fe_cp F)))), to_delete := []\<rparr>"
  then have rec: "recorded F cache i k" if "K i = Some k" for i k using that cache by simp
  let ?ns = "concat (map ((!) (ir_blocks b)) path)"
  have "ir_blocks b' ! bb = propagated K (to_delete b) (ir_blocks b ! bb)" if "bb \<in> set path" for bb
    using that path by (auto simp: b' b substituted_def)
  then have "map ((!) (ir_blocks b')) path = map (\<lambda>bb. propagated K (to_delete b) (ir_blocks b ! bb)) path" by simp
  then have t'': "t' = exec_nodes h b' (propagated K (to_delete b) ?ns) s"
    by (simp only: t' exec_path_concat propagated_concat)
  have "set ?ns \<subseteq> set (concat (ir_blocks b))" using path by (force simp: nth_mem)
  moreover have "agrees F K {} s s" by (simp add: agrees_def)
  ultimately obtain D where "agrees F K D t t'"
    using run_agrees [OF typed host K rec b _ _ _ _ right, of b' s] by (auto simp: b' b t t'' exec_path_concat)
  then show ?thesis using rec unfolding agrees_def by (metis not_None_eq)
qed

text \<open>The function that adds 1 to a loaded byte, in a memory of fives.\<close>

definition demo_adder :: ir_host where
  "demo_adder i sh vals t m = (sum_list vals, m)"

definition demo_fives :: ir_state where
  "demo_fives = \<lparr>st_env = (\<lambda>_. 0)(100 := 4096), st_mem = (\<lambda>_. 5), st_trace = []\<rparr>"

lemma demo_recorded:
  assumes "recorded demo_fold [12 \<mapsto> Safe] i k"
  shows "i = 12 \<and> k = LConstantInt 8 5 \<or> i = 13 \<and> k = LConstantInt 8 6"
proof -
  have "sx_vars (ce_symex (fe_cp demo_fold)) (LValue i) \<noteq> None"
    using assms by (auto simp: recorded_def load_constant_def fold_constant_def split: option.splits ir_inst.splits)
  then have i: "i = 100 \<or> i = 12 \<or> i = 13" by (auto simp: demo_fold_def split: if_splits)
  have "fold_constant demo_fold 12 = Inr (Some (LConstantInt 8 5))" "fold_constant demo_fold 100 = Inr None"
      "load_constant (fe_cp demo_fold) [12 \<mapsto> Safe] 100 = None" by code_simp+
  then show ?thesis using i assms demo_fold_facts by (auto simp: recorded_def)
qed

theorem constant_propagation_keeps_meaning_witness:
  "\<exists>b'. constant_propagation_run 3 demo_fold = Inr (True, b') \<and> visible demo_fold (st_trace (exec_path demo_adder b' [0] demo_fives)) = [(14, [6])]"
proof -
  obtain b' where b': "constant_propagation_run 3 demo_fold = Inr (True, b')" using demo_fold_run by blast
  let ?b = "ce_ir (fe_cp demo_fold)"
  have cache: "value_safety 3 (fe_cp demo_fold) = Inr [12 \<mapsto> Safe]" using demo_fold_safety [of 1] by (simp add: numeral_3_eq_3)
  have blocks: "ir_blocks ?b = [[(12, ILoad 8 (LValue 100)), (13, IBinary Add (LValue 12) (LConstantInt 8 1)), (14, IRet (LValue 13))]]"
    and rest: "ir_sizes ?b = (\<lambda>i. 8)" "to_delete ?b = []" by (simp_all add: demo_fold_def demo_cp_def)
  have typed: "typed_function demo_fold"
    unfolding typed_function_def blocks rest by (simp add: insts_of_def) (simp add: demo_fold_def)
  have host: "effects_only demo_fold demo_adder" by (simp add: effects_only_def demo_adder_def)
  have path: "set [0] \<subseteq> {..<length (ir_blocks ?b)}" by (simp add: blocks)
  have silent: "silent demo_fold 12" "silent demo_fold 13" "\<not> silent demo_fold 14"
    unfolding silent_def blocks by (simp_all add: insts_of_def is_load_def is_store_def) (simp add: demo_fold_def)
  have load: "le_val (load_bytes (\<lambda>_. 5) a (byte_size 8)) = 5" for a by (simp add: load_bytes_def byte_size_def)
  have right: "emulation_right (recorded demo_fold [12 \<mapsto> Safe]) demo_adder ?b {} (concat (map ((!) (ir_blocks ?b)) [0])) demo_fives"
    unfolding blocks by (auto dest!: demo_recorded simp: exec_node_def rest load demo_fives_def demo_adder_def set_value_def val_of_def)
  have "visible demo_fold (st_trace (exec_path demo_adder ?b [0] demo_fives)) = [(14, [6])]"
    unfolding exec_path_def blocks
    by (simp add: exec_nodes_def exec_node_def rest load demo_fives_def demo_adder_def set_value_def val_of_def visible_def silent)
  then show ?thesis
    using b' constant_propagation_keeps_meaning [OF b' refl cache typed host path right refl refl] by auto
qed

end
