(* ===== verification/Memory_Scalarizer.thy ===== *)
theory Memory_Scalarizer
  imports Ir_Semantics
begin

text \<open>
  \<open>memory_scalarizer\<close> (memory_scalarizer.cpp): every store to a local variable of more than one byte becomes stores
  of its bytes, and every such load is put together from loads of bytes. The pass implements the function it is given.
\<close>

section \<open>The pass\<close>

text \<open>\<open>CreateTrunc\<close> and \<open>CreateLShr\<close> of constants are folded by the builder.\<close>

definition create_trunc8 :: "llvm_value \<Rightarrow> ir_builder \<Rightarrow> llvm_value \<times> ir_builder" where
  "create_trunc8 v b =
     (case v of LConstantInt w n \<Rightarrow> (LConstantInt 8 (take_bit 8 n), b)
      | LValue i \<Rightarrow> ir_insert (ITrunc (ir_sizes b i) 8 v) 8 b)"

definition create_lshr :: "llvm_value \<Rightarrow> nat \<Rightarrow> nat \<Rightarrow> ir_builder \<Rightarrow> llvm_value \<times> ir_builder" where
  "create_lshr v w n b =
     (case v of LConstantInt w' x \<Rightarrow> (LConstantInt w' (drop_bit n x), b)
      | LValue i \<Rightarrow> ir_insert (IBinary LShr v (LConstantInt w (int n))) w b)"

text \<open>The address of a byte: \<open>getInt8(i)\<close> is a signed index.\<close>

definition byte_gep :: "llvm_value \<Rightarrow> nat \<Rightarrow> ir_builder \<Rightarrow> llvm_value \<times> ir_builder" where
  "byte_gep p k b = ir_insert (IGep p (Some (scast (of_nat k :: byte)))) 64 b"

definition store_byte :: "llvm_value \<Rightarrow> llvm_value \<Rightarrow> nat \<Rightarrow> nat \<Rightarrow> ir_builder \<Rightarrow> ir_builder" where
  "store_byte v p sz k b =
     (if k = 0 then
        (case create_trunc8 v b of (t, b1) \<Rightarrow> snd (ir_insert (IStore t p) 0 b1))
      else
        (case create_lshr v (sz * 8) (k * 8) b of (shifted, b1) \<Rightarrow>
         case create_trunc8 shifted b1 of (t, b2) \<Rightarrow>
         case byte_gep p k b2 of (g, b3) \<Rightarrow> snd (ir_insert (IStore t g) 0 b3)))"

definition load_byte :: "nat \<Rightarrow> llvm_value \<Rightarrow> nat \<Rightarrow> nat \<Rightarrow> llvm_value \<times> ir_builder \<Rightarrow> llvm_value \<times> ir_builder" where
  "load_byte bits p sz k st =
     (case st of (whole, b) \<Rightarrow>
        if k = 0 then
          (case ir_insert (ILoad 8 p) 8 b of (x, b1) \<Rightarrow> ir_insert (IZExt 8 bits x) bits b1)
        else
          (case byte_gep p k b of (g, b1) \<Rightarrow>
           case ir_insert (ILoad 8 g) 8 b1 of (x, b2) \<Rightarrow>
           case ir_insert (IZExt 8 bits x) bits b2 of (z, b3) \<Rightarrow>
           case ir_insert (IBinary Shl z (LConstantInt (sz * 8) (int (k * 8)))) bits b3 of (shifted, b4) \<Rightarrow>
           ir_insert (IBinary Or whole shifted) bits b4))"

text \<open>\<open>is_alloca\<close> follows the address arithmetic; a chain is not longer than the function.\<close>

fun is_alloca :: "nat \<Rightarrow> ir_blocks \<Rightarrow> llvm_value \<Rightarrow> bool" where
  "is_alloca n blocks (LConstantInt w x) = False"
| "is_alloca n blocks (LValue i) =
     (case insts_of blocks i of
        Some (IAlloca s) \<Rightarrow> True
      | Some (IGep p off) \<Rightarrow> (case n of 0 \<Rightarrow> False | Suc m \<Rightarrow> is_alloca m blocks p)
      | Some (IGepValue p off) \<Rightarrow> (case n of 0 \<Rightarrow> False | Suc m \<Rightarrow> is_alloca m blocks p)
      | _ \<Rightarrow> False)"

text \<open>The size is kept in a \<open>uint8_t\<close>, and the constants for the shifts have eight times as many bits; a value of another
  type would make an ill-typed instruction, and of no byte at all a null pointer.\<close>

definition size_in_bytes :: "nat \<Rightarrow> nat" where
  "size_in_bytes bits = byte_size bits mod 256"

definition scalarize_store :: "nat \<Rightarrow> llvm_value \<Rightarrow> llvm_value \<Rightarrow> ir_builder \<Rightarrow> ir_builder res" where
  "scalarize_store i v p b =
     (let bits = primitive_size b v; sz = size_in_bytes bits in
      if byte_size bits \<le> 1 \<or> \<not> is_alloca (length (concat (ir_blocks b))) (ir_blocks b) p then Inr b
      else if bits \<noteq> sz * 8 then Inl Undefined_behaviour
      else Inr (deleteLater i (fold (store_byte v p sz) [0..<sz] b)))"

definition scalarize_load :: "nat \<Rightarrow> nat \<Rightarrow> llvm_value \<Rightarrow> ir_builder \<Rightarrow> ir_builder res" where
  "scalarize_load i bits p b =
     (let sz = size_in_bytes bits in
      if byte_size bits \<le> 1 \<or> \<not> is_alloca (length (concat (ir_blocks b))) (ir_blocks b) p then Inr b
      else if bits \<noteq> sz * 8 then Inl Undefined_behaviour
      else
        (case fold (load_byte bits p sz) [0..<sz] (LConstantInt bits 0, b) of (whole, b1) \<Rightarrow>
           Inr (deleteLater i (replaceAllUsesWith (LValue i) whole b1))))"

definition scalarize_inst :: "block_id \<times> nat \<Rightarrow> ir_builder \<Rightarrow> ir_builder res" where
  "scalarize_inst pos b =
     (let b1 = set_insert_point (fst pos, Some (snd pos)) b in
      (case insts_of (ir_blocks b) (snd pos) of
         Some (IStore v p) \<Rightarrow> scalarize_store (snd pos) v p b1
       | Some (ILoad bits p) \<Rightarrow> scalarize_load (snd pos) bits p b1
       | _ \<Rightarrow> Inr b1))"

definition positions :: "ir_blocks \<Rightarrow> (block_id \<times> nat) list" where
  "positions blocks = concat (map (\<lambda>bb. map (\<lambda>node. (bb, fst node)) (blocks ! bb)) [0..<length blocks])"

definition memory_scalarizer :: "ir_builder \<Rightarrow> (bool \<times> ir_builder) res" where
  "memory_scalarizer b =
     res_bind (res_fold scalarize_inst (positions (ir_blocks b)) b) (\<lambda>b1. Inr (True, eraseDeletedInstructions b1))"

section \<open>What is inserted before an instruction\<close>

definition put :: "nat \<Rightarrow> ir_node list \<Rightarrow> ir_node list \<Rightarrow> ir_node list" where
  "put i es ns = takeWhile (\<lambda>n. fst n \<noteq> i) ns @ es @ dropWhile (\<lambda>n. fst n \<noteq> i) ns"

lemma insert_before_put: "insert_before (Some i) node ns = put i [node] ns"
  by (induction ns) (auto simp: put_def)

lemma put_put:
  assumes "i \<notin> fst ` set es" shows "put i es2 (put i es ns) = put i (es @ es2) ns"
proof -
  let ?P = "\<lambda>n. fst n \<noteq> i"
  have all: "?P x" if "x \<in> set (takeWhile ?P ns @ es)" for x using that assms by (auto dest: set_takeWhileD)
  have rest: "takeWhile ?P (dropWhile ?P ns) = []" "dropWhile ?P (dropWhile ?P ns) = dropWhile ?P ns" by (induction ns) auto
  have "takeWhile ?P ((takeWhile ?P ns @ es) @ dropWhile ?P ns) = takeWhile ?P ns @ es"
    using takeWhile_append2 [of "takeWhile ?P ns @ es" ?P "dropWhile ?P ns"] all rest(1) by auto
  moreover have "dropWhile ?P ((takeWhile ?P ns @ es) @ dropWhile ?P ns) = dropWhile ?P ns"
    using dropWhile_append2 [of "takeWhile ?P ns @ es" ?P "dropWhile ?P ns"] all rest(2) by auto
  ultimately show ?thesis by (simp add: put_def)
qed

lemma put_split: "i \<notin> fst ` set pre \<Longrightarrow> put i es (pre @ (i, inst) # post) = pre @ es @ (i, inst) # post"
  by (induction pre) (auto simp: put_def)

lemma put_Nil [simp]: "put i [] ns = ns"
  by (simp add: put_def)

text \<open>\<open>emits U b b' P\<close>: instructions have been put in at the insert point, with operands from \<open>U\<close> and among themselves,
  that leave older values and the trace alone and change the rest of the state by \<open>P\<close>.\<close>

definition ready :: "llvm_value set \<Rightarrow> ir_builder \<Rightarrow> bool" where
  "ready U b \<longleftrightarrow>
     (\<exists>bb i. ir_ip b = (bb, Some i) \<and> i < ir_next b \<and> bb < length (ir_blocks b)) \<and> (\<forall>v \<in> U. below (ir_next b) v)"

definition allowed :: "llvm_value set \<Rightarrow> nat \<Rightarrow> nat \<Rightarrow> llvm_value \<Rightarrow> bool" where
  "allowed U m n v \<longleftrightarrow> v \<in> U \<or> (case v of LConstantInt w c \<Rightarrow> True | LValue k \<Rightarrow> m \<le> k \<and> k < n)"

definition placed :: "ir_builder \<Rightarrow> ir_builder \<Rightarrow> ir_node list \<Rightarrow> bool" where
  "placed b b' es \<longleftrightarrow>
     ir_next b' = ir_next b + length es \<and> ir_ip b' = ir_ip b \<and> to_delete b' = to_delete b \<and>
     ir_blocks b' = (ir_blocks b)[fst (ir_ip b) := put (the (snd (ir_ip b))) es (ir_blocks b ! fst (ir_ip b))] \<and>
     map fst es = [ir_next b..<ir_next b + length es] \<and> (\<forall>j < ir_next b. ir_sizes b' j = ir_sizes b j)"

definition byte_access :: "ir_builder \<Rightarrow> ir_node \<Rightarrow> bool" where
  "byte_access b node \<longleftrightarrow>
     (case snd node of ILoad bits p \<Rightarrow> bits = 8 \<and> ir_sizes b (fst node) = 8 | IStore v p \<Rightarrow> primitive_size b v = 8 | _ \<Rightarrow> True)"

definition emitted :: "llvm_value set \<Rightarrow> ir_builder \<Rightarrow> ir_builder \<Rightarrow> ir_node list \<Rightarrow> bool" where
  "emitted U b b' es \<longleftrightarrow>
     ready U b \<and> placed b b' es \<and>
     (\<forall>(j, inst) \<in> set es. (\<forall>v \<in> set (operands inst). allowed U (ir_next b) j v) \<and> byte_access b' (j, inst))"

definition suits :: "ir_builder \<Rightarrow> ir_builder \<Rightarrow> ir_builder \<Rightarrow> bool" where
  "suits b b' c \<longleftrightarrow> (\<forall>j < ir_next b'. ir_sizes c j = ir_sizes b' j) \<and> (\<forall>j \<ge> ir_next b. j < ir_next b' \<longrightarrow> j \<notin> set (to_delete c))"

definition framed :: "nat \<Rightarrow> ir_state \<Rightarrow> ir_state \<Rightarrow> bool" where
  "framed n s s' \<longleftrightarrow> st_trace s' = st_trace s \<and> (\<forall>j < n. st_env s' j = st_env s j)"

definition effect :: "ir_builder \<Rightarrow> ir_builder \<Rightarrow> ir_node list \<Rightarrow> (ir_state \<Rightarrow> ir_state \<Rightarrow> bool) \<Rightarrow> bool" where
  "effect b b' es P \<longleftrightarrow>
     (\<forall>h c s. suits b b' c \<longrightarrow> framed (ir_next b) s (exec_nodes h c es s) \<and> P s (exec_nodes h c es s))"

definition emits :: "llvm_value set \<Rightarrow> ir_builder \<Rightarrow> ir_builder \<Rightarrow> (ir_state \<Rightarrow> ir_state \<Rightarrow> bool) \<Rightarrow> bool" where
  "emits U b b' P \<longleftrightarrow> (\<exists>es. emitted U b b' es \<and> effect b b' es P)"

lemma framed_val: "framed n s s' \<Longrightarrow> below n v \<Longrightarrow> val_of s' v = val_of s v"
  by (cases v) (auto simp: framed_def below_def val_of_def)

lemma framed_addr: "framed n s s' \<Longrightarrow> below n v \<Longrightarrow> addr_of s' v = addr_of s v"
  by (simp add: addr_of_def framed_val)

lemma framed_trans: "framed n s t \<Longrightarrow> framed m t s' \<Longrightarrow> n \<le> m \<Longrightarrow> framed n s s'"
  by (simp add: framed_def)

lemma below_mono: "below n v \<Longrightarrow> n \<le> m \<Longrightarrow> below m v"
  by (cases v) (auto simp: below_def)

lemma below_const [simp]: "below n (LConstantInt w c)" "below n (LValue j) \<longleftrightarrow> j < n"
  by (simp_all add: below_def)

lemma allowed_below:
  assumes "allowed U m n v" and "\<forall>v \<in> U. below m v" and "n \<le> k" and "m \<le> k"
  shows "below k v"
proof (cases "v \<in> U")
  case True
  then show ?thesis using assms(2,4) below_mono by blast
qed (use assms(1,3) in \<open>cases v; simp add: allowed_def\<close>)

lemma allowed_trans:
  assumes "allowed U' m1 j v" and "\<forall>v \<in> U'. allowed U m m1 v" and "m \<le> m1" and "m1 \<le> j"
  shows "allowed U m j v"
proof (cases "v \<in> U'")
  case True
  then have "allowed U m m1 v" using assms(2) by blast
  then show ?thesis using assms(4) by (cases v) (auto simp: allowed_def)
qed (use assms(1,3) in \<open>cases v; simp add: allowed_def\<close>)

lemma placed_Nil: "placed b b []"
  by (simp add: placed_def)

lemma placed_primitive_size: "placed b b' es \<Longrightarrow> below (ir_next b) v \<Longrightarrow> primitive_size b' v = primitive_size b v"
  by (cases v) (auto simp: placed_def primitive_size_def)

lemma placed_trans:
  assumes "placed b b1 es" and "placed b1 b2 es2" and "ready U b"
  shows "placed b b2 (es @ es2)"
proof -
  obtain bb i where ip: "ir_ip b = (bb, Some i)" "i < ir_next b" "bb < length (ir_blocks b)" using assms(3) by (auto simp: ready_def)
  have "set (map fst es) = {ir_next b..<ir_next b + length es}" using assms(1) by (simp add: placed_def)
  then have "i \<notin> fst ` set es" using ip(2) by auto
  then have "ir_blocks b2 = (ir_blocks b)[bb := put i (es @ es2) (ir_blocks b ! bb)]"
    using assms(1,2) ip by (simp add: placed_def put_put)
  moreover have "map fst (es @ es2) = [ir_next b..<ir_next b + length (es @ es2)]"
    using assms(1,2) upt_add_eq_append [of "ir_next b" "ir_next b + length es" "length es2"] by (simp add: placed_def add.assoc)
  ultimately show ?thesis using assms(1,2) ip(1) by (simp add: placed_def)
qed

lemma emitted_trans:
  assumes 1: "emitted U b b1 es" and 2: "emitted U' b1 b2 es2" and sub: "\<forall>v \<in> U'. allowed U (ir_next b) (ir_next b1) v"
  shows "emitted U b b2 (es @ es2)"
proof -
  have p: "placed b b1 es" "placed b1 b2 es2" "ready U b" using 1 2 by (simp_all add: emitted_def)
  have nx: "ir_next b1 = ir_next b + length es" "\<forall>j < ir_next b1. ir_sizes b2 j = ir_sizes b1 j" using p by (auto simp: placed_def)
  have ids: "fst ` set es = {ir_next b..<ir_next b1}" "fst ` set es2 = {ir_next b1..<ir_next b2}"
    using p(1,2) unfolding placed_def by (metis set_map set_upt)+
  have first: "(\<forall>v \<in> set (operands inst). allowed U (ir_next b) j v) \<and> byte_access b2 (j, inst)" if e: "(j, inst) \<in> set es" for j inst
  proof -
    have j: "j < ir_next b1" using ids(1) e by force
    have ops: "\<forall>v \<in> set (operands inst). allowed U (ir_next b) j v" "byte_access b1 (j, inst)" using 1 e unfolding emitted_def by auto
    have "primitive_size b2 v = primitive_size b1 v" if "v \<in> set (operands inst)" for v
    proof (rule placed_primitive_size [OF p(2)])
      show "below (ir_next b1) v" using allowed_below [of U "ir_next b" j v] that ops(1) j p(3) nx(1) unfolding ready_def by simp
    qed
    then show ?thesis using ops j nx(2) by (cases inst) (auto simp: byte_access_def)
  qed
  have second: "(\<forall>v \<in> set (operands inst). allowed U (ir_next b) j v) \<and> byte_access b2 (j, inst)" if e: "(j, inst) \<in> set es2" for j inst
  proof -
    have j: "ir_next b1 \<le> j" using ids(2) e by force
    have ops: "\<forall>v \<in> set (operands inst). allowed U' (ir_next b1) j v" "byte_access b2 (j, inst)" using 2 e unfolding emitted_def by auto
    have "allowed U (ir_next b) j v" if "v \<in> set (operands inst)" for v
      using allowed_trans [OF _ sub _ j] ops(1) that nx(1) by simp
    then show ?thesis using ops(2) by blast
  qed
  show ?thesis using placed_trans [OF p] p(3) first second by (auto simp: emitted_def)
qed

lemma emits_trans:
  assumes "emits U b b1 P" and "emits U' b1 b2 Q" and "\<forall>v \<in> U'. allowed U (ir_next b) (ir_next b1) v"
  shows "emits U b b2 (\<lambda>s s'. \<exists>t. framed (ir_next b) s t \<and> P s t \<and> framed (ir_next b1) t s' \<and> Q t s')"
proof -
  obtain es es2 where e: "emitted U b b1 es" "effect b b1 es P" "emitted U' b1 b2 es2" "effect b1 b2 es2 Q" using assms(1,2) unfolding emits_def by blast
  have p: "placed b b1 es" "placed b1 b2 es2" using e(1,3) by (simp_all add: emitted_def)
  have "suits b b1 c" "suits b1 b2 c" if "suits b b2 c" for c using that p by (auto simp: suits_def placed_def)
  moreover have "ir_next b \<le> ir_next b1" using p by (simp add: placed_def)
  ultimately have "effect b b2 (es @ es2) (\<lambda>s s'. \<exists>t. framed (ir_next b) s t \<and> P s t \<and> framed (ir_next b1) t s' \<and> Q t s')"
    unfolding effect_def
  proof (intro allI impI conjI)
    fix h c s
    assume "suits b b2 c" and le: "ir_next b \<le> ir_next b1" and parts: "\<And>c. suits b b2 c \<Longrightarrow> suits b b1 c" "\<And>c. suits b b2 c \<Longrightarrow> suits b1 b2 c"
    then have c: "framed (ir_next b) s (exec_nodes h c es s)" "P s (exec_nodes h c es s)"
        "framed (ir_next b1) (exec_nodes h c es s) (exec_nodes h c es2 (exec_nodes h c es s))" "Q (exec_nodes h c es s) (exec_nodes h c es2 (exec_nodes h c es s))"
      using e(2,4) unfolding effect_def by blast+
    then show "framed (ir_next b) s (exec_nodes h c (es @ es2) s)" using framed_trans le by fastforce
    show "\<exists>t. framed (ir_next b) s t \<and> P s t \<and> framed (ir_next b1) t (exec_nodes h c (es @ es2) s) \<and> Q t (exec_nodes h c (es @ es2) s)"
      using c by auto
  qed
  then show ?thesis using emitted_trans [OF e(1,3) assms(3)] unfolding emits_def by blast
qed

lemma emits_weaken: "emits U b b' P \<Longrightarrow> (\<And>s s'. framed (ir_next b) s s' \<Longrightarrow> P s s' \<Longrightarrow> Q s s') \<Longrightarrow> emits U b b' Q"
  unfolding emits_def effect_def by blast

lemma emits_nothing: "ready U b \<Longrightarrow> emits U b b (\<lambda>s s'. s' = s)"
  unfolding emits_def by (rule exI [of _ "[]"]) (auto simp: emitted_def placed_Nil effect_def framed_def)

lemma emits_ready:
  assumes "emits U b b' P" and "\<forall>v \<in> U'. allowed U (ir_next b) (ir_next b') v"
  shows "ready U' b'"
proof -
  have "ready U b" "ir_next b \<le> ir_next b'" "ir_ip b' = ir_ip b" "length (ir_blocks b') = length (ir_blocks b)"
    using assms(1) by (auto simp: emits_def emitted_def placed_def)
  moreover have "below (ir_next b') v" if "v \<in> U'" for v
    using allowed_below [of U "ir_next b" "ir_next b'" v] assms(2) that calculation(1,2) unfolding ready_def by simp
  ultimately show ?thesis unfolding ready_def by fastforce
qed

section \<open>The instructions of the pass\<close>

lemma set_value_framed [simp]: "framed n s (set_value i x s) \<longleftrightarrow> (i < n \<longrightarrow> x = st_env s i)"
  by (auto simp: framed_def set_value_def)

lemma set_value_simps [simp]: "st_mem (set_value i x s) = st_mem s" "val_of (set_value i x s) (LValue i) = x"
  by (simp_all add: set_value_def val_of_def)

lemma ir_insert_placed:
  assumes "ir_insert inst bits b = (r, b')" and "ready U b"
  shows "r = LValue (ir_next b)" "placed b b' [(ir_next b, inst)]" "ir_sizes b' (ir_next b) = bits" "primitive_size b' r = bits"
proof -
  obtain bb i where "ir_ip b = (bb, Some i)" using assms(2) by (auto simp: ready_def)
  then show "r = LValue (ir_next b)" "placed b b' [(ir_next b, inst)]" "ir_sizes b' (ir_next b) = bits" "primitive_size b' r = bits"
    using assms(1) by (auto simp: ir_insert_def placed_def Let_def insert_before_put primitive_size_def)
qed

lemma ir_insert_emits:
  assumes ins: "ir_insert inst bits b = (r, b')" and rdy: "ready U b"
    and ops: "\<forall>v \<in> set (operands inst). allowed U (ir_next b) (ir_next b) v" and acc: "byte_access b' (ir_next b, inst)"
    and exec: "\<And>h c s. ir_sizes c (ir_next b) = bits \<Longrightarrow> \<forall>j < ir_next b. ir_sizes c j = ir_sizes b j \<Longrightarrow>
      framed (ir_next b) s (ir_exec h (ir_sizes c) (primitive_size c) (ir_next b, inst) s) \<and>
      P s (ir_exec h (ir_sizes c) (primitive_size c) (ir_next b, inst) s)"
  shows "emits U b b' P"
proof -
  note p = ir_insert_placed [OF ins rdy]
  have "ir_next b' = Suc (ir_next b)" using p(2) by (simp add: placed_def)
  moreover have "\<forall>j < ir_next b. ir_sizes b' j = ir_sizes b j" using p(2) by (simp add: placed_def)
  ultimately have "effect b b' [(ir_next b, inst)] P" using exec p(3) by (auto simp: effect_def suits_def exec_node_def)
  moreover have "emitted U b b' [(ir_next b, inst)]" using rdy p(2) ops acc by (simp add: emitted_def)
  ultimately show ?thesis unfolding emits_def by blast
qed

text \<open>An instruction whose only effect is its value.\<close>

lemma ir_insert_value:
  assumes ins: "ir_insert inst bits b = (r, b')" and rdy: "ready U b"
    and ops: "\<forall>v \<in> set (operands inst). allowed U (ir_next b) (ir_next b) v" and acc: "byte_access b' (ir_next b, inst)"
    and exec: "\<And>h c s. ir_sizes c (ir_next b) = bits \<Longrightarrow>
      ir_exec h (ir_sizes c) (primitive_size c) (ir_next b, inst) s = set_value (ir_next b) (f s) s"
  shows "emits U b b' (\<lambda>s s'. st_mem s' = st_mem s \<and> val_of s' r = f s) \<and> r = LValue (ir_next b) \<and> ir_next b' = Suc (ir_next b) \<and> primitive_size b' r = bits"
proof -
  note p = ir_insert_placed [OF ins rdy]
  have "emits U b b' (\<lambda>s s'. st_mem s' = st_mem s \<and> val_of s' r = f s)"
    by (rule ir_insert_emits [OF ins rdy ops acc]) (use exec p(1) in simp)
  then show ?thesis using p by (simp add: placed_def)
qed

text \<open>What a builder call that makes a value gives.\<close>

definition makes :: "llvm_value set \<Rightarrow> ir_builder \<Rightarrow> llvm_value \<times> ir_builder \<Rightarrow> nat \<Rightarrow> (ir_state \<Rightarrow> int) \<Rightarrow> bool" where
  "makes U b r bits f \<longleftrightarrow>
     emits U b (snd r) (\<lambda>s s'. st_mem s' = st_mem s \<and> val_of s' (fst r) = f s) \<and>
     allowed {} (ir_next b) (ir_next (snd r)) (fst r) \<and> primitive_size (snd r) (fst r) = bits"

lemma ir_insert_makes:
  assumes "ready U b" and "\<forall>v \<in> set (operands inst). allowed U (ir_next b) (ir_next b) v"
    and "\<not> is_store inst" and "\<not> is_load inst \<or> (\<exists>p. inst = ILoad 8 p \<and> bits = 8)"
    and "\<And>h c s. ir_sizes c (ir_next b) = bits \<Longrightarrow>
      ir_exec h (ir_sizes c) (primitive_size c) (ir_next b, inst) s = set_value (ir_next b) (f s) s"
  shows "makes U b (ir_insert inst bits b) bits f"
proof -
  obtain r b' where ins: "ir_insert inst bits b = (r, b')" by fastforce
  have "byte_access b' (ir_next b, inst)"
    using assms(3,4) ir_insert_placed(3) [OF ins assms(1)] by (cases inst) (auto simp: byte_access_def is_store_def is_load_def)
  from ir_insert_value [OF ins assms(1,2) this assms(5)] show ?thesis by (auto simp: makes_def ins allowed_def)
qed

lemma create_trunc8_makes:
  assumes "ready U b" and "v \<in> U" shows "makes U b (create_trunc8 v b) 8 (\<lambda>s. take_bit 8 (val_of s v))"
proof (cases v)
  case (LConstantInt w n)
  then show ?thesis using emits_weaken [OF emits_nothing [OF assms(1)]]
    by (simp add: create_trunc8_def makes_def allowed_def primitive_size_def val_of_def)
next
  case (LValue i)
  then show ?thesis unfolding create_trunc8_def using assms
    by (auto intro!: ir_insert_makes simp: allowed_def is_store_def is_load_def)
qed

lemma create_lshr_makes:
  assumes "ready U b" and "v \<in> U" and "primitive_size b v = w"
  shows "makes U b (create_lshr v w n b) w (\<lambda>s. drop_bit n (val_of s v))"
proof (cases v)
  case (LConstantInt w' x)
  then show ?thesis using emits_weaken [OF emits_nothing [OF assms(1)]] assms(3)
    by (simp add: create_lshr_def makes_def allowed_def primitive_size_def val_of_def)
next
  case (LValue i)
  then show ?thesis unfolding create_lshr_def using assms
    by (auto intro!: ir_insert_makes simp: allowed_def is_store_def is_load_def val_of_def)
qed

lemma byte_gep_makes:
  assumes "ready U b" and "p \<in> U" and "k < 128"
  shows "makes U b (byte_gep p k b) 64 (\<lambda>s. uint (addr_of s p + of_nat k))"
proof -
  have "sint (word_of_int (int k) :: byte) = int k"
    unfolding sint_sbintrunc' by (rule signed_take_bit_int_eq_self) (use assms(3) in simp_all)
  then have "scast (of_nat k :: byte) = (of_nat k :: u64)" by (simp add: scast_eq)
  then show ?thesis unfolding byte_gep_def using assms
    by (auto intro!: ir_insert_makes simp: allowed_def is_store_def is_load_def)
qed

lemma store_emits:
  assumes "ready U b" and "t \<in> U" and "g \<in> U" and "primitive_size b t = 8"
  shows "emits U b (snd (ir_insert (IStore t g) 0 b)) (\<lambda>s s'. st_mem s' = store_bytes (addr_of s g) [word_of_int (val_of s t)] (st_mem s))"
proof -
  obtain r b' where ins: "ir_insert (IStore t g) 0 b = (r, b')" by fastforce
  note p = ir_insert_placed [OF ins assms(1)]
  have t: "below (ir_next b) t" using assms(1,2) by (simp add: ready_def)
  then have "byte_access b' (ir_next b, IStore t g)" using placed_primitive_size [OF p(2) t] assms(4) by (simp add: byte_access_def)
  moreover have "primitive_size c t = 8" if "\<forall>j < ir_next b. ir_sizes c j = ir_sizes b j" for c
    using that t assms(4) by (cases t) (auto simp: primitive_size_def)
  ultimately have "emits U b b' (\<lambda>s s'. st_mem s' = store_bytes (addr_of s g) [word_of_int (val_of s t)] (st_mem s))"
    by (intro ir_insert_emits [OF ins assms(1)]) (use assms(2,3) in \<open>auto simp: allowed_def framed_def byte_size_def\<close>)
  then show ?thesis by (simp add: ins)
qed

lemma makes_emits:
  assumes "makes U b r bits f" and "emits U' (snd r) b' Q" and "\<forall>v \<in> U'. v = fst r \<or> v \<in> U"
  shows "emits U b b' (\<lambda>s s'. \<exists>t. framed (ir_next b) s t \<and> st_mem t = st_mem s \<and> val_of t (fst r) = f s \<and> Q t s')"
  by (rule emits_weaken [OF emits_trans [of U b "snd r" _ U' b' Q]])
    (use assms in \<open>auto simp: makes_def allowed_def\<close>)

lemma makes_ready:
  assumes "makes U b r bits f" and "\<forall>v \<in> U'. v = fst r \<or> v \<in> U" shows "ready U' (snd r)"
  by (rule emits_ready [of U b]) (use assms in \<open>auto simp: makes_def allowed_def\<close>)

lemma makes_size: "makes U b r bits f \<Longrightarrow> ready U b \<Longrightarrow> v \<in> U \<Longrightarrow> primitive_size (snd r) v = primitive_size b v"
  by (auto simp: makes_def emits_def emitted_def ready_def intro: placed_primitive_size)

lemma store_byte_emits:
  assumes rdy: "ready {v, p} b" and size: "primitive_size b v = sz * 8" and k: "k < 128"
  shows "emits {v, p} b (store_byte v p sz k b)
    (\<lambda>s s'. st_mem s' = store_bytes (addr_of s p + of_nat k) [word_of_int (drop_bit (8 * k) (val_of s v))] (st_mem s))"
proof -
  have old: "val_of t v = val_of s v" "addr_of t p = addr_of s p" if "framed (ir_next b) s t" for s t
    using framed_val [OF that] framed_addr [OF that] rdy by (simp_all add: ready_def)
  have byte: "word_of_int (take_bit 8 x) = (word_of_int x :: byte)" for x by (metis uint_byte_of_int word_of_int_uint)
  show ?thesis
  proof (cases "k = 0")
    case True
    let ?t = "create_trunc8 v b"
    have t: "makes {v, p} b ?t 8 (\<lambda>s. take_bit 8 (val_of s v))" using create_trunc8_makes [OF rdy] by simp
    have "ready {fst ?t, p} (snd ?t)" by (rule makes_ready [OF t]) simp
    from store_emits [OF this, of "fst ?t" p] t
    have "emits {fst ?t, p} (snd ?t) (store_byte v p sz k b)
        (\<lambda>s s'. st_mem s' = store_bytes (addr_of s p) [word_of_int (val_of s (fst ?t))] (st_mem s))"
      using True by (simp add: store_byte_def split_beta makes_def)
    from makes_emits [OF t this] show ?thesis
      by (rule emits_weaken) (use True old byte in auto)
  next
    case False
    let ?l = "create_lshr v (sz * 8) (k * 8) b" let ?t = "create_trunc8 (fst ?l) (snd ?l)" let ?g = "byte_gep p k (snd ?t)"
    have l: "makes {v, p} b ?l (sz * 8) (\<lambda>s. drop_bit (k * 8) (val_of s v))" using create_lshr_makes [OF rdy _ size] by simp
    have rl: "ready {fst ?l, p} (snd ?l)" by (rule makes_ready [OF l]) simp
    have t: "makes {fst ?l, p} (snd ?l) ?t 8 (\<lambda>s. take_bit 8 (val_of s (fst ?l)))" using create_trunc8_makes [OF rl] by simp
    have rt: "ready {fst ?t, p} (snd ?t)" by (rule makes_ready [OF t]) simp
    have g: "makes {fst ?t, p} (snd ?t) ?g 64 (\<lambda>s. uint (addr_of s p + of_nat k))" using byte_gep_makes [OF rt _ k] by simp
    have rg: "ready {fst ?t, fst ?g} (snd ?g)" by (rule makes_ready [OF g]) auto
    have "primitive_size (snd ?g) (fst ?t) = 8" using makes_size [OF g rt] t by (simp add: makes_def)
    from store_emits [OF rg _ _ this]
    have "emits {fst ?t, fst ?g} (snd ?g) (store_byte v p sz k b)
        (\<lambda>s s'. st_mem s' = store_bytes (addr_of s (fst ?g)) [word_of_int (val_of s (fst ?t))] (st_mem s))"
      using False by (simp add: store_byte_def split_beta)
    from makes_emits [OF g this]
    have "emits {fst ?t, p} (snd ?t) (store_byte v p sz k b)
        (\<lambda>s s'. st_mem s' = store_bytes (addr_of s p + of_nat k) [word_of_int (val_of s (fst ?t))] (st_mem s))"
      by (rule emits_weaken) (use framed_val rt in \<open>auto simp: addr_of_def ready_def\<close>)
    from makes_emits [OF t this]
    have "emits {fst ?l, p} (snd ?l) (store_byte v p sz k b)
        (\<lambda>s s'. st_mem s' = store_bytes (addr_of s p + of_nat k) [word_of_int (val_of s (fst ?l))] (st_mem s))"
      by (rule emits_weaken) (use framed_addr rl byte in \<open>auto simp: ready_def\<close>)
    from makes_emits [OF l this] show ?thesis
      by (rule emits_weaken) (use old in \<open>auto simp: mult.commute\<close>)
  qed
qed

lemma le_bytes_snoc: "le_bytes (Suc n) v = le_bytes n v @ [word_of_int (drop_bit (8 * n) v)]"
  by (rule nth_equalityI) (auto simp: nth_le_bytes nth_append less_Suc_eq simp del: le_bytes.simps)

lemma store_bytes_snoc:
  assumes "length bs < 2 ^ 64"
  shows "store_bytes a (bs @ [x]) m = store_bytes (a + of_nat (length bs)) [x] (store_bytes a bs m)"
proof
  fix y
  have len: "unat (of_nat (length bs) :: u64) = length bs" using assms by (simp add: unat_of_nat take_bit_eq_mod)
  have "unat (y - a) = unat (of_nat (length bs) :: u64) \<longleftrightarrow> y - (a + of_nat (length bs)) = 0"
    by (simp add: diff_eq_eq add.commute flip: word_unat_eq_iff [of "y - a" "of_nat (length bs)"])
  with len show "store_bytes a (bs @ [x]) m y = store_bytes (a + of_nat (length bs)) [x] (store_bytes a bs m) y"
    by (auto simp: store_bytes_def nth_append less_Suc_eq unat_eq_zero)
qed

lemma emits_size: "emits U b b' P \<Longrightarrow> v \<in> U \<Longrightarrow> primitive_size b' v = primitive_size b v"
  by (auto simp: emits_def emitted_def ready_def intro: placed_primitive_size)

lemma store_bytes_emits:
  assumes rdy: "ready {v, p} b" and size: "primitive_size b v = sz * 8" and n: "n \<le> 128"
  shows "emits {v, p} b (fold (store_byte v p sz) [0..<n] b)
    (\<lambda>s s'. st_mem s' = store_bytes (addr_of s p) (le_bytes n (val_of s v)) (st_mem s))"
  using n
proof (induction n)
  case 0
  show ?case using emits_weaken [OF emits_nothing [OF rdy]] by (simp add: store_bytes_def)
next
  case (Suc n)
  let ?b = "fold (store_byte v p sz) [0..<n] b"
  have ih: "emits {v, p} b ?b (\<lambda>s s'. st_mem s' = store_bytes (addr_of s p) (le_bytes n (val_of s v)) (st_mem s))" using Suc by simp
  have rdy': "ready {v, p} ?b" using emits_ready [OF ih, of "{v, p}"] by (simp add: allowed_def)
  have "primitive_size ?b v = sz * 8" using emits_size [OF ih] size by simp
  note step = store_byte_emits [OF rdy' this, of n]
  have "emits {v, p} b (store_byte v p sz n ?b)
      (\<lambda>s s'. \<exists>t. framed (ir_next b) s t \<and> st_mem t = store_bytes (addr_of s p) (le_bytes n (val_of s v)) (st_mem s) \<and>
         framed (ir_next ?b) t s' \<and> st_mem s' = store_bytes (addr_of t p + of_nat n) [word_of_int (drop_bit (8 * n) (val_of t v))] (st_mem t))"
    by (rule emits_trans [OF ih step]) (use Suc.prems in \<open>auto simp: allowed_def\<close>)
  then have "emits {v, p} b (store_byte v p sz n ?b)
      (\<lambda>s s'. st_mem s' = store_bytes (addr_of s p) (le_bytes (Suc n) (val_of s v)) (st_mem s))"
    by (rule emits_weaken) (use framed_addr framed_val rdy Suc.prems store_bytes_snoc [of "le_bytes n _"] in
      \<open>auto simp: ready_def le_bytes_snoc simp del: le_bytes.simps\<close>)
  then show ?case by simp
qed

lemma le_val_snoc: "le_val (bs @ [x]) = le_val bs OR push_bit (8 * length bs) (uint x)"
proof (induction bs)
  case (Cons b bs)
  have "le_val ((b # bs) @ [x]) = push_bit 8 (le_val bs OR push_bit (8 * length bs) (uint x)) OR uint b" using Cons by simp
  also have "\<dots> = (push_bit 8 (le_val bs) OR uint b) OR push_bit (8 * length (b # bs)) (uint x)"
    by (simp add: push_bit_or push_bit_push_bit or.assoc or.commute)
  finally show ?case by simp
qed simp

lemma le_val_load_Suc:
  "le_val (load_bytes m a (Suc n)) = le_val (load_bytes m a n) OR push_bit (8 * n) (uint (m (a + of_nat n)))"
  using le_val_snoc [of "load_bytes m a n"] by (simp add: load_bytes_def)

lemma shifted_byte:
  assumes "8 * k + 8 \<le> bits" shows "take_bit bits (push_bit (8 * k) (uint (x :: byte))) = push_bit (8 * k) (uint x)"
proof -
  have "fits 8 (uint x)" using uint_byte_of_int [of "uint x"] by simp
  then have "fits (bits - 8 * k) (uint x)" by (rule fits_mono) (use assms in simp)
  then show ?thesis by (simp add: take_bit_push_bit)
qed

lemma load_makes:
  assumes "ready U b" and "g \<in> U" shows "makes U b (ir_insert (ILoad 8 g) 8 b) 8 (\<lambda>s. uint (st_mem s (addr_of s g)))"
  by (rule ir_insert_makes) (use assms in \<open>auto simp: allowed_def is_store_def byte_size_def load_bytes_def\<close>)

lemma zext_makes:
  assumes "ready U b" and "x \<in> U" shows "makes U b (ir_insert (IZExt 8 bits x) bits b) bits (\<lambda>s. val_of s x)"
  by (rule ir_insert_makes) (use assms in \<open>auto simp: allowed_def is_store_def is_load_def\<close>)

lemma shl_makes:
  assumes "ready U b" and "z \<in> U"
  shows "makes U b (ir_insert (IBinary Shl z (LConstantInt w (int n))) bits b) bits (\<lambda>s. take_bit bits (push_bit n (val_of s z)))"
  by (rule ir_insert_makes) (use assms in \<open>auto simp: allowed_def is_store_def is_load_def val_of_def\<close>)

lemma or_makes:
  assumes "ready U b" and "x \<in> U" and "y \<in> U"
  shows "makes U b (ir_insert (IBinary Or x y) bits b) bits (\<lambda>s. val_of s x OR val_of s y)"
  by (rule ir_insert_makes) (use assms in \<open>auto simp: allowed_def is_store_def is_load_def\<close>)

text \<open>One value after another.\<close>

lemma makes_makes:
  assumes "makes U b r bits f" and "makes U' (snd r) r' bits' g" and "\<forall>v \<in> U'. v = fst r \<or> v \<in> U"
    and "\<And>s t. framed (ir_next b) s t \<Longrightarrow> st_mem t = st_mem s \<Longrightarrow> val_of t (fst r) = f s \<Longrightarrow> g t = e s"
  shows "makes U b r' bits' e"
proof -
  have "emits U' (snd r) (snd r') (\<lambda>s s'. st_mem s' = st_mem s \<and> val_of s' (fst r') = g s)" using assms(2) by (simp add: makes_def)
  from makes_emits [OF assms(1) this assms(3)]
  have "emits U b (snd r') (\<lambda>s s'. st_mem s' = st_mem s \<and> val_of s' (fst r') = e s)"
    by (rule emits_weaken) (use assms(4) in auto)
  moreover have "ir_next b \<le> ir_next (snd r)" using assms(1) by (auto simp: makes_def emits_def emitted_def placed_def)
  ultimately show ?thesis using assms(2) by (auto simp: makes_def allowed_def split: llvm_value.splits)
qed

lemma load_first_makes:
  assumes rdy: "ready {p} b"
  shows "makes {p} b (load_byte bits p sz 0 (x, b)) bits (\<lambda>s. uint (st_mem s (addr_of s p)))"
proof -
  let ?x = "ir_insert (ILoad 8 p) 8 b"
  have x: "makes {p} b ?x 8 (\<lambda>s. uint (st_mem s (addr_of s p)))" using load_makes [OF rdy] by simp
  have rx: "ready {fst ?x} (snd ?x)" by (rule makes_ready [OF x]) simp
  have "makes {p} b (ir_insert (IZExt 8 bits (fst ?x)) bits (snd ?x)) bits (\<lambda>s. uint (st_mem s (addr_of s p)))"
    by (rule makes_makes [OF x zext_makes [OF rx]]) auto
  then show ?thesis by (simp add: load_byte_def split_beta)
qed

lemma load_next_makes:
  assumes rdy: "ready {p, whole} b" and k: "k \<noteq> 0" "k < 128" "8 * k + 8 \<le> bits"
  shows "makes {p, whole} b (load_byte bits p sz k (whole, b)) bits
    (\<lambda>s. val_of s whole OR push_bit (8 * k) (uint (st_mem s (addr_of s p + of_nat k))))"
proof -
  let ?g = "byte_gep p k b" let ?x = "ir_insert (ILoad 8 (fst ?g)) 8 (snd ?g)"
  let ?z = "ir_insert (IZExt 8 bits (fst ?x)) bits (snd ?x)"
  let ?s = "ir_insert (IBinary Shl (fst ?z) (LConstantInt (sz * 8) (int (k * 8)))) bits (snd ?z)"
  let ?r = "ir_insert (IBinary Or whole (fst ?s)) bits (snd ?s)"
  have g: "makes {p, whole} b ?g 64 (\<lambda>s. uint (addr_of s p + of_nat k))" using byte_gep_makes [OF rdy _ k(2)] by simp
  have rg: "ready {fst ?g, whole} (snd ?g)" by (rule makes_ready [OF g]) auto
  have x: "makes {fst ?g, whole} (snd ?g) ?x 8 (\<lambda>s. uint (st_mem s (addr_of s (fst ?g))))" using load_makes [OF rg] by simp
  have rx: "ready {fst ?x, whole} (snd ?x)" by (rule makes_ready [OF x]) auto
  have z: "makes {fst ?x, whole} (snd ?x) ?z bits (\<lambda>s. val_of s (fst ?x))" using zext_makes [OF rx] by simp
  have rz: "ready {fst ?z, whole} (snd ?z)" by (rule makes_ready [OF z]) auto
  have s: "makes {fst ?z, whole} (snd ?z) ?s bits (\<lambda>s. take_bit bits (push_bit (k * 8) (val_of s (fst ?z))))" by (rule shl_makes [OF rz]) simp
  have rs: "ready {whole, fst ?s} (snd ?s)" by (rule makes_ready [OF s]) auto
  have r: "makes {whole, fst ?s} (snd ?s) ?r bits (\<lambda>s. val_of s whole OR val_of s (fst ?s))" using or_makes [OF rs] by simp
  have keep: "val_of t whole = val_of s whole" if "framed n s t" "below n whole" for n s t using framed_val that by blast
  have 1: "makes {fst ?z, whole} (snd ?z) ?r bits (\<lambda>s. val_of s whole OR take_bit bits (push_bit (k * 8) (val_of s (fst ?z))))"
    by (rule makes_makes [OF s r]) (use keep rz in \<open>auto simp: ready_def\<close>)
  have 2: "makes {fst ?x, whole} (snd ?x) ?r bits (\<lambda>s. val_of s whole OR take_bit bits (push_bit (k * 8) (val_of s (fst ?x))))"
    by (rule makes_makes [OF z 1]) (use keep rx in \<open>auto simp: ready_def\<close>)
  have 3: "makes {fst ?g, whole} (snd ?g) ?r bits (\<lambda>s. val_of s whole OR push_bit (8 * k) (uint (st_mem s (addr_of s (fst ?g)))))"
    by (rule makes_makes [OF x 2]) (use keep rg shifted_byte [OF k(3)] in \<open>auto simp: ready_def mult.commute\<close>)
  have "makes {p, whole} b ?r bits (\<lambda>s. val_of s whole OR push_bit (8 * k) (uint (st_mem s (addr_of s p + of_nat k))))"
    by (rule makes_makes [OF g 3]) (use keep rdy in \<open>auto simp: ready_def addr_of_def\<close>)
  then show ?thesis using k(1) by (simp add: load_byte_def split_beta)
qed

lemma load_bytes_makes:
  assumes rdy: "ready {p} b" and n: "n < 128" "8 * Suc n \<le> bits"
  shows "makes {p} b (fold (load_byte bits p sz) [0..<Suc n] (x, b)) bits (\<lambda>s. le_val (load_bytes (st_mem s) (addr_of s p) (Suc n)))"
  using n
proof (induction n)
  case 0
  then show ?case using load_first_makes [OF rdy] by (simp add: load_bytes_def)
next
  case (Suc n)
  let ?r = "fold (load_byte bits p sz) [0..<Suc n] (x, b)"
  have ih: "makes {p} b ?r bits (\<lambda>s. le_val (load_bytes (st_mem s) (addr_of s p) (Suc n)))" using Suc by simp
  have rdy': "ready {p, fst ?r} (snd ?r)" by (rule makes_ready [OF ih]) auto
  have "makes {p, fst ?r} (snd ?r) (load_byte bits p sz (Suc n) (fst ?r, snd ?r)) bits
      (\<lambda>s. val_of s (fst ?r) OR push_bit (8 * Suc n) (uint (st_mem s (addr_of s p + of_nat (Suc n)))))"
    by (rule load_next_makes [OF rdy']) (use Suc.prems in auto)
  then have "makes {p, fst ?r} (snd ?r) (load_byte bits p sz (Suc n) ?r) bits
      (\<lambda>s. val_of s (fst ?r) OR push_bit (8 * Suc n) (uint (st_mem s (addr_of s p + of_nat (Suc n)))))"
    by (simp only: prod.collapse)
  then have "makes {p} b (load_byte bits p sz (Suc n) ?r) bits (\<lambda>s. le_val (load_bytes (st_mem s) (addr_of s p) (Suc (Suc n))))"
  proof (rule makes_makes [OF ih])
    fix s t
    assume "framed (ir_next b) s t" "st_mem t = st_mem s" "val_of t (fst ?r) = le_val (load_bytes (st_mem s) (addr_of s p) (Suc n))"
    moreover from this(1) have "addr_of t p = addr_of s p" using framed_addr rdy by (simp add: ready_def)
    ultimately show "val_of t (fst ?r) OR push_bit (8 * Suc n) (uint (st_mem t (addr_of t p + of_nat (Suc n)))) =
        le_val (load_bytes (st_mem s) (addr_of s p) (Suc (Suc n)))" by (simp only: le_val_load_Suc [of _ _ "Suc n"])
  qed auto
  then show ?case by (simp del: upt_Suc add: upt_Suc_append)
qed

end
