(* ===== verification/Scalarizer_Correct.thy ===== *)
theory Scalarizer_Correct
  imports Memory_Scalarizer
begin

text \<open>
  \<open>memory_scalarizer\<close> implements the function it is given: one rewritten load or store at a time, with the state of the
  run before and after related by the name that the loaded value has got.
\<close>

section \<open>Well-formed functions\<close>

definition bytes_ok :: "nat \<Rightarrow> bool" where
  "bytes_ok bits \<longleftrightarrow> bits \<le> 8 \<or> bits mod 8 = 0 \<and> bits \<le> 1024"

definition node_ok :: "ir_builder \<Rightarrow> ir_node \<Rightarrow> bool" where
  "node_ok b node \<longleftrightarrow>
     fst node < ir_next b \<and> (\<forall>v \<in> set (operands (snd node)). below (ir_next b) v \<and> v \<noteq> LValue (fst node)) \<and>
     (case snd node of ILoad bits p \<Rightarrow> ir_sizes b (fst node) = bits \<and> bytes_ok bits | IStore v p \<Rightarrow> bytes_ok (primitive_size b v) | _ \<Rightarrow> True)"

text \<open>Instructions have their own numbers, operands that exist, and loads and stores have a whole number of bytes, at most
  128.\<close>

definition wf_fun :: "ir_builder \<Rightarrow> bool" where
  "wf_fun b \<longleftrightarrow> distinct (map fst (concat (ir_blocks b))) \<and> (\<forall>node \<in> set (concat (ir_blocks b)). node_ok b node)"

lemma distinct_concat_nth:
  assumes "distinct (concat xss)" and "k < length xss"
  shows "distinct (xss ! k)" "l < length xss \<Longrightarrow> l \<noteq> k \<Longrightarrow> set (xss ! l) \<inter> set (xss ! k) = {}"
proof -
  have "distinct (concat (take k xss @ xss ! k # drop (Suc k) xss))" using assms by (simp add: Cons_nth_drop_Suc)
  then have d: "distinct (xss ! k)" "(\<Union>ys \<in> set (take k xss). set ys) \<inter> set (xss ! k) = {}" "(\<Union>ys \<in> set (drop (Suc k) xss). set ys) \<inter> set (xss ! k) = {}"
    by auto
  show "distinct (xss ! k)" using d(1) .
  show "set (xss ! l) \<inter> set (xss ! k) = {}" if "l < length xss" "l \<noteq> k"
  proof (cases "l < k")
    case True
    then have "xss ! l \<in> set (take k xss)" using assms(2) by (auto simp: in_set_conv_nth)
    then show ?thesis using d(2) by blast
  next
    case False
    then have "xss ! l \<in> set (drop (Suc k) xss)" using that by (auto simp: in_set_conv_nth intro!: exI [of _ "l - Suc k"])
    then show ?thesis using d(3) by blast
  qed
qed

lemma wf_split:
  assumes "wf_fun b" and "bb < length (ir_blocks b)" and "(i, inst) \<in> set (ir_blocks b ! bb)"
  obtains pre post where "ir_blocks b ! bb = pre @ (i, inst) # post" "i \<notin> fst ` set pre" "i \<notin> fst ` set post"
    "\<And>bb'. bb' < length (ir_blocks b) \<Longrightarrow> bb' \<noteq> bb \<Longrightarrow> i \<notin> fst ` set (ir_blocks b ! bb')"
proof -
  obtain pre post where s: "ir_blocks b ! bb = pre @ (i, inst) # post" using assms(3) split_list by fast
  have d: "distinct (concat (map (map fst) (ir_blocks b)))" using assms(1) by (simp add: wf_fun_def map_concat)
  have "distinct (map fst (ir_blocks b ! bb))" using distinct_concat_nth(1) [OF d, of bb] assms(2) by simp
  then have "i \<notin> fst ` set pre" "i \<notin> fst ` set post" using s by auto
  moreover have "i \<notin> fst ` set (ir_blocks b ! bb')" if "bb' < length (ir_blocks b)" "bb' \<noteq> bb" for bb'
    using distinct_concat_nth(2) [OF d, of bb bb'] assms(2) that s by auto
  ultimately show ?thesis using that s by blast
qed

section \<open>One rewritten instruction\<close>

definition renamed_nodes :: "(llvm_value \<Rightarrow> llvm_value) \<Rightarrow> ir_node list \<Rightarrow> ir_node list" where
  "renamed_nodes f ns = map (\<lambda>(j, x). (j, map_operands f x)) ns"

definition rewritten :: "(llvm_value \<Rightarrow> llvm_value) \<Rightarrow> ir_builder \<Rightarrow> ir_builder \<Rightarrow> block_id \<Rightarrow> nat \<Rightarrow> ir_node list \<Rightarrow> bool" where
  "rewritten f b c bb i es \<longleftrightarrow>
     length (ir_blocks c) = length (ir_blocks b) \<and> to_delete c = to_delete b @ [i] \<and>
     (\<forall>bb' < length (ir_blocks b). ir_blocks c ! bb' = renamed_nodes f (if bb' = bb then put i es (ir_blocks b ! bb) else ir_blocks b ! bb')) \<and>
     renamed_nodes f es = es \<and> renaming f \<and>
     (\<forall>j < ir_next b. j \<noteq> i \<longrightarrow> writes_apart f (ir_next b) j) \<and>
     (\<forall>j < ir_next b. ir_sizes c j = ir_sizes b j) \<and> (\<forall>v. below (ir_next b) v \<longrightarrow> primitive_size c (f v) = primitive_size b v)"

lemma exec_node_renamed:
  assumes "rewritten f b c bb i es" and "node_ok b (j, x)" and "j \<noteq> i" and "renamed f (ir_next b) s s'"
  shows "renamed f (ir_next b) (exec_node h b (j, x) s) (exec_node h c (j, map_operands f x) s')"
proof -
  have "renamed f (ir_next b) (ir_exec h (ir_sizes b) (primitive_size b) (j, x) s) (ir_exec h (ir_sizes c) (primitive_size c) (j, map_operands f x) s')"
    by (rule ir_exec_renamed) (use assms in \<open>auto simp: rewritten_def node_ok_def\<close>)
  then show ?thesis using assms by (auto simp: exec_node_def rewritten_def)
qed

lemma exec_nodes_renamed:
  assumes "rewritten f b c bb i es" and "\<forall>n \<in> set ns. node_ok b n" and "i \<notin> fst ` set ns" and "renamed f (ir_next b) s s'"
  shows "renamed f (ir_next b) (exec_nodes h b ns s) (exec_nodes h c (renamed_nodes f ns) s')"
  using assms(2-)
proof (induction ns arbitrary: s s')
  case (Cons n ns)
  obtain j x where n: "n = (j, x)" by (cases n)
  then have "renamed f (ir_next b) (exec_node h b n s) (exec_node h c (j, map_operands f x) s')"
    using exec_node_renamed [OF assms(1), of j x s s'] Cons.prems by simp
  then show ?case using Cons n by (simp add: renamed_nodes_def)
qed (simp add: renamed_nodes_def)

lemma rewritten_implements:
  assumes rw: "rewritten f b c bb i es" and wf: "wf_fun b" and bb: "bb < length (ir_blocks b)" "(i, inst) \<in> set (ir_blocks b ! bb)"
    and new: "i \<notin> set (to_delete b)"
    and es: "\<And>h s s'. renamed f (ir_next b) s s' \<Longrightarrow>
      renamed f (ir_next b) (ir_exec h (ir_sizes b) (primitive_size b) (i, inst) s) (exec_nodes h c es s')"
    and init: "\<And>s. \<exists>s'. renamed f (ir_next b) s s' \<and> (\<forall>j < ir_next b. st_env s' j = st_env s j)"
  shows "implements b c"
proof -
  obtain pre post where s: "ir_blocks b ! bb = pre @ (i, inst) # post" "i \<notin> fst ` set pre" "i \<notin> fst ` set post"
      "\<And>bb'. bb' < length (ir_blocks b) \<Longrightarrow> bb' \<noteq> bb \<Longrightarrow> i \<notin> fst ` set (ir_blocks b ! bb')"
    using wf_split [OF wf bb] by blast
  have nodes: "\<forall>n \<in> set (ir_blocks b ! bb'). node_ok b n" if "bb' < length (ir_blocks b)" for bb'
    using wf that unfolding wf_fun_def by (metis UN_I nth_mem set_concat)
  have block: "renamed f (ir_next b) (exec_nodes h b (ir_blocks b ! bb') s1) (exec_nodes h c (ir_blocks c ! bb') s')"
    if bb': "bb' < length (ir_blocks b)" and r: "renamed f (ir_next b) s1 s'" for h bb' s1 s'
  proof (cases "bb' = bb")
    case False
    then show ?thesis using exec_nodes_renamed [OF rw nodes [OF bb'] s(4) [OF bb' False] r] rw bb' by (simp add: rewritten_def)
  next
    case True
    have c: "ir_blocks c ! bb = renamed_nodes f pre @ es @ (i, map_operands f inst) # renamed_nodes f post"
      using rw bb(1) s(1) put_split [OF s(2)] by (simp add: rewritten_def renamed_nodes_def)
    have skip: "exec_node h c (i, x) t = t" for x t using rw by (simp add: rewritten_def exec_node_def)
    have "renamed f (ir_next b) (exec_nodes h b pre s1) (exec_nodes h c (renamed_nodes f pre) s')"
      by (rule exec_nodes_renamed [OF rw _ s(2) r]) (use nodes [OF bb(1)] s(1) in auto)
    from es [OF this, of h]
    have "renamed f (ir_next b) (exec_node h b (i, inst) (exec_nodes h b pre s1)) (exec_nodes h c es (exec_nodes h c (renamed_nodes f pre) s'))"
      using new by (simp add: exec_node_def)
    from exec_nodes_renamed [OF rw _ s(3) this]
    show ?thesis using nodes [OF bb(1)] s(1) c skip True by auto
  qed
  have path: "renamed f (ir_next b) (exec_path h b path s1) (exec_path h c path s')"
    if "set path \<subseteq> {..<length (ir_blocks b)}" "renamed f (ir_next b) s1 s'" for h path s1 s'
    using that
  proof (induction path arbitrary: s1 s')
    case (Cons bb' path)
    have "renamed f (ir_next b) (exec_nodes h b (ir_blocks b ! bb') s1) (exec_nodes h c (ir_blocks c ! bb') s')"
      using block Cons.prems by simp
    then show ?case using Cons by (simp add: exec_path_def)
  qed (simp add: exec_path_def)
  show ?thesis unfolding implements_def
  proof (intro allI impI)
    fix h path s1
    assume p: "set path \<subseteq> {..<length (ir_blocks b)}"
    obtain s' where s': "renamed f (ir_next b) s1 s'" "\<forall>j < ir_next b. st_env s' j = st_env s1 j" using init by blast
    show "\<exists>s'. st_mem s' = st_mem s1 \<and> st_trace s' = st_trace s1 \<and> (\<forall>j < ir_next b. st_env s' j = st_env s1 j) \<and>
        st_mem (exec_path h c path s') = st_mem (exec_path h b path s1) \<and> st_trace (exec_path h c path s') = st_trace (exec_path h b path s1)"
      by (rule exI [of _ s']) (use path [OF p s'(1), of h] s' in \<open>simp add: renamed_def\<close>)
  qed
qed

text \<open>What is put in has numbers of its own.\<close>

lemma distinct_put:
  assumes d: "distinct (concat A)" and k: "k < length A" "A ! k = xs @ ys" and es: "distinct es" "set es \<inter> set (concat A) = {}"
  shows "distinct (concat (A[k := xs @ es @ ys]))"
proof -
  have A: "A = take k A @ (xs @ ys) # drop (Suc k) A" using id_take_nth_drop [OF k(1)] k(2) by simp
  have "distinct (concat (take k A @ (xs @ ys) # drop (Suc k) A))" "set es \<inter> set (concat (take k A @ (xs @ ys) # drop (Suc k) A)) = {}"
    unfolding A [symmetric] using d es(2) by blast+
  then show ?thesis unfolding upd_conv_take_nth_drop [OF k(1)] using es(1) by auto
qed

lemma renamed_nodes_append: "set (renamed_nodes f (xs @ ys)) = set (renamed_nodes f xs) \<union> set (renamed_nodes f ys)"
  by (auto simp: renamed_nodes_def)

lemma fst_renamed_nodes [simp]: "map fst (renamed_nodes f ns) = map fst ns"
  by (simp add: renamed_nodes_def case_prod_beta comp_def)

definition new_nodes :: "ir_builder \<Rightarrow> ir_builder \<Rightarrow> ir_node list \<Rightarrow> bool" where
  "new_nodes b c es \<longleftrightarrow> map fst es = [ir_next b..<ir_next c] \<and> ir_next b \<le> ir_next c \<and> (\<forall>n \<in> set es. node_ok c n)"

lemma rewritten_wf:
  assumes rw: "rewritten f b c bb i es" and wf: "wf_fun b" and bb: "bb < length (ir_blocks b)" "(i, inst) \<in> set (ir_blocks b ! bb)"
    and new: "new_nodes b c es"
    and f: "\<And>v. below (ir_next b) v \<Longrightarrow> below (ir_next c) (f v)" "\<And>v. below (ir_next b) v \<Longrightarrow> v \<noteq> LValue i \<Longrightarrow> f v \<noteq> LValue i"
  shows "wf_fun c"
proof -
  obtain pre post where s: "ir_blocks b ! bb = pre @ (i, inst) # post" "i \<notin> fst ` set pre" "i \<notin> fst ` set post"
      "\<And>bb'. bb' < length (ir_blocks b) \<Longrightarrow> bb' \<noteq> bb \<Longrightarrow> i \<notin> fst ` set (ir_blocks b ! bb')"
    using wf_split [OF wf bb] by blast
  have ids: "\<forall>x \<in> set (map fst (concat (ir_blocks b))). x < ir_next b" using wf by (auto simp: wf_fun_def node_ok_def)
  let ?A = "map (map fst) (ir_blocks b)"
  have put: "put i es (ir_blocks b ! bb) = pre @ es @ (i, inst) # post" using put_split [OF s(2)] s(1) by simp
  have "map (map fst) (ir_blocks c) = ?A[bb := map fst pre @ map fst es @ i # map fst post]"
    by (rule nth_equalityI) (use rw put in \<open>auto simp: rewritten_def nth_list_update\<close>)
  moreover have "distinct (concat (?A[bb := map fst pre @ map fst es @ i # map fst post]))"
  proof (rule distinct_put)
    show "distinct (concat ?A)" using wf by (simp add: wf_fun_def map_concat)
    show "distinct (map fst es)" using new by (simp add: new_nodes_def)
    show "set (map fst es) \<inter> set (concat ?A) = {}"
      using ids new by (auto simp: new_nodes_def map_concat simp flip: set_map) (metis atLeastLessThan_iff leD set_map set_upt)
  qed (use bb(1) s(1) in simp_all)
  ultimately have "distinct (map fst (concat (ir_blocks c)))" by (simp add: map_concat)
  moreover have "node_ok c n" if n: "n \<in> set (ir_blocks c ! bb')" and bb': "bb' < length (ir_blocks b)" for n bb'
  proof -
    have "n \<in> set (renamed_nodes f (ir_blocks b ! bb')) \<or> n \<in> set es"
    proof (cases "bb' = bb")
      case True
      have "set (ir_blocks c ! bb) = set (renamed_nodes f (pre @ es @ (i, inst) # post))" using rw bb(1) put by (simp add: rewritten_def)
      moreover have "renamed_nodes f es = es" using rw by (simp add: rewritten_def)
      ultimately show ?thesis using n True s(1) by (auto simp: renamed_nodes_append)
    qed (use n rw bb' in \<open>simp add: rewritten_def\<close>)
    then show ?thesis
    proof
      assume "n \<in> set (renamed_nodes f (ir_blocks b ! bb'))"
      then obtain j x where x: "(j, x) \<in> set (ir_blocks b ! bb')" "n = (j, map_operands f x)" by (auto simp: renamed_nodes_def)
      then have ok: "node_ok b (j, x)" using wf bb' unfolding wf_fun_def by (metis UN_I nth_mem set_concat)
      have "f v \<noteq> LValue j" if "v \<in> set (operands x)" for v
      proof (cases "j = i")
        case True
        then show ?thesis using f(2) ok that by (simp add: node_ok_def)
      next
        case False
        then have "writes_apart f (ir_next b) j" using rw ok by (simp add: rewritten_def node_ok_def)
        moreover have "below (ir_next b) v" "v \<noteq> LValue j" using ok that by (simp_all add: node_ok_def)
        ultimately show ?thesis using rw by (cases v) (simp_all add: writes_apart_def rewritten_def renaming_def)
      qed
      then have "\<forall>v \<in> set (operands (map_operands f x)). below (ir_next c) v \<and> v \<noteq> LValue j"
        using f(1) ok by (auto simp: operands_map node_ok_def)
      then show ?thesis using ok rw new unfolding x(2) by (cases x) (auto simp: node_ok_def rewritten_def new_nodes_def)
    next
      assume "n \<in> set es"
      then show ?thesis using new by (simp add: new_nodes_def)
    qed
  qed
  ultimately show ?thesis using rw unfolding wf_fun_def rewritten_def set_concat by (metis (no_types, lifting) UN_E in_set_conv_nth)
qed

section \<open>Stores and loads\<close>

text \<open>What a step of the pass keeps.\<close>

definition step_ok :: "nat \<Rightarrow> ir_builder \<Rightarrow> ir_builder \<Rightarrow> bool" where
  "step_ok i b c \<longleftrightarrow>
     implements b c \<and> wf_fun c \<and> ir_next b \<le> ir_next c \<and> length (ir_blocks c) = length (ir_blocks b) \<and>
     set (to_delete c) \<subseteq> insert i (set (to_delete b)) \<and>
     (\<forall>bb < length (ir_blocks b). fst ` set (ir_blocks b ! bb) \<subseteq> fst ` set (ir_blocks c ! bb))"

lemma rewritten_step:
  assumes rw: "rewritten f b c bb i es" and wf: "wf_fun b" and bb: "bb < length (ir_blocks b)" "(i, inst) \<in> set (ir_blocks b ! bb)"
    and del: "i \<notin> set (to_delete b)" and new: "new_nodes b c es"
    and f: "\<And>v. below (ir_next b) v \<Longrightarrow> below (ir_next c) (f v)" "\<And>v. below (ir_next b) v \<Longrightarrow> v \<noteq> LValue i \<Longrightarrow> f v \<noteq> LValue i"
    and es: "\<And>h s s'. renamed f (ir_next b) s s' \<Longrightarrow>
      renamed f (ir_next b) (ir_exec h (ir_sizes b) (primitive_size b) (i, inst) s) (exec_nodes h c es s')"
    and init: "\<And>s. \<exists>s'. renamed f (ir_next b) s s' \<and> (\<forall>j < ir_next b. st_env s' j = st_env s j)"
  shows "step_ok i b c"
proof -
  have "implements b c" using rewritten_implements [OF rw wf bb del es init] .
  moreover have "wf_fun c" using rewritten_wf [OF rw wf bb new f] .
  moreover have "fst ` set (ir_blocks b ! bb') \<subseteq> fst ` set (ir_blocks c ! bb')" if "bb' < length (ir_blocks b)" for bb'
  proof -
    have "fst ` set (ir_blocks c ! bb') = set (map fst (if bb' = bb then put i es (ir_blocks b ! bb) else ir_blocks b ! bb'))"
      using rw that unfolding rewritten_def by (metis fst_renamed_nodes set_map)
    moreover have "set (put i es ns) = set ns \<union> set es" for ns :: "ir_node list"
      by (auto simp: put_def dest: set_takeWhileD set_dropWhileD) (metis Un_iff set_append takeWhile_dropWhile_id)
    ultimately show ?thesis by auto
  qed
  ultimately show ?thesis using rw new by (auto simp: step_ok_def rewritten_def new_nodes_def)
qed

lemma emitted_new_nodes:
  assumes "emitted U b b' es" and "ir_next b = ir_next b0" and "ir_next c = ir_next b'" and "ir_sizes c = ir_sizes b'"
  shows "new_nodes b0 c es"
proof -
  have p: "placed b b' es" "ready U b" using assms(1) by (simp_all add: emitted_def)
  have psize: "primitive_size c = primitive_size b'" using assms(4) by (simp add: primitive_size_def fun_eq_iff split: llvm_value.split)
  have "node_ok c (j, x)" if "(j, x) \<in> set es" for j x
  proof -
    have "fst ` set es = {ir_next b..<ir_next b'}" using p(1) unfolding placed_def by (metis set_map set_upt)
    then have j: "ir_next b \<le> j" "j < ir_next b'" using that by force+
    have e: "\<forall>v \<in> set (operands x). allowed U (ir_next b) j v" "byte_access b' (j, x)" using assms(1) that by (auto simp: emitted_def)
    have "below (ir_next c) v \<and> v \<noteq> LValue j" if "v \<in> set (operands x)" for v
    proof -
      have "below j v" using allowed_below [of U "ir_next b" j v j] e(1) that p(2) j(1) by (simp add: ready_def)
      then show ?thesis using j(2) assms(3) by (cases v) auto
    qed
    then show ?thesis using j(2) e(2) assms(3,4) psize by (cases x) (auto simp: node_ok_def byte_access_def bytes_ok_def)
  qed
  then show ?thesis using p(1) assms(2,3) by (auto simp: new_nodes_def placed_def)
qed

lemma renamed_nodes_id: "(\<And>j x v. (j, x) \<in> set ns \<Longrightarrow> v \<in> set (operands x) \<Longrightarrow> f v = v) \<Longrightarrow> renamed_nodes f ns = ns"
proof -
  assume f: "\<And>j x v. (j, x) \<in> set ns \<Longrightarrow> v \<in> set (operands x) \<Longrightarrow> f v = v"
  have "map_operands f x = x" if "(j, x) \<in> set ns" for j x
    using f [OF that] by (rule map_operands_unchanged)
  then show ?thesis by (auto simp: renamed_nodes_def intro!: map_idI)
qed

definition at_inst :: "ir_builder \<Rightarrow> block_id \<Rightarrow> nat \<Rightarrow> ir_inst \<Rightarrow> bool" where
  "at_inst b bb i inst \<longleftrightarrow>
     wf_fun b \<and> bb < length (ir_blocks b) \<and> (i, inst) \<in> set (ir_blocks b ! bb) \<and> i \<notin> set (to_delete b) \<and>
     set (to_delete b) \<subseteq> {..<ir_next b} \<and> ir_ip b = (bb, Some i)"

lemma at_inst_node: "at_inst b bb i inst \<Longrightarrow> node_ok b (i, inst)"
  unfolding at_inst_def wf_fun_def by (metis UN_I nth_mem set_concat)

lemma at_inst_ready: "at_inst b bb i inst \<Longrightarrow> U \<subseteq> set (operands inst) \<Longrightarrow> ready U b"
  using at_inst_node [of b bb i inst] by (auto simp: ready_def at_inst_def node_ok_def)

lemma at_inst_suits:
  assumes "at_inst b bb i inst" and "placed b b' es" and "to_delete c = to_delete b @ [i]" and "ir_sizes c = ir_sizes b'"
  shows "suits b b' c"
  using assms at_inst_node [OF assms(1)] by (auto simp: suits_def at_inst_def node_ok_def)

lemma store_step:
  assumes at: "at_inst b bb i (IStore v p)" and size: "primitive_size b v = sz * 8" "sz \<le> 128"
  shows "step_ok i b (deleteLater i (fold (store_byte v p sz) [0..<sz] b))"
proof -
  let ?b = "fold (store_byte v p sz) [0..<sz] b" let ?c = "deleteLater i ?b" let ?f = "\<lambda>v :: llvm_value. v"
  have rdy: "ready {v, p} b" using at_inst_ready [OF at] by simp
  obtain es where e: "emitted {v, p} b ?b es"
      "effect b ?b es (\<lambda>s s'. st_mem s' = store_bytes (addr_of s p) (le_bytes sz (val_of s v)) (st_mem s))"
    using store_bytes_emits [OF rdy size] unfolding emits_def by blast
  have p: "placed b ?b es" using e(1) by (simp add: emitted_def)
  have id: "renamed_nodes ?f ns = ns" for ns by (rule renamed_nodes_id) simp
  have c: "ir_next ?c = ir_next ?b" "ir_sizes ?c = ir_sizes ?b" "ir_blocks ?c = ir_blocks ?b" "to_delete ?c = to_delete b @ [i]"
    using p by (simp_all add: deleteLater_def placed_def)
  have rw: "rewritten ?f b ?c bb i es"
    using p c at placed_primitive_size [OF p] unfolding rewritten_def id
    by (auto simp: placed_def at_inst_def renaming_def writes_apart_def primitive_size_def split: llvm_value.splits)
  have "suits b ?b ?c" using at_inst_suits [OF at p c(4,2)] .
  then have run: "framed (ir_next b) s (exec_nodes h ?c es s)"
      "st_mem (exec_nodes h ?c es s) = store_bytes (addr_of s p) (le_bytes sz (val_of s v)) (st_mem s)" for h s
    using e(2) unfolding effect_def by blast+
  have bs: "byte_size (primitive_size b v) = sz" using size(1) by (simp add: byte_size_def)
  show ?thesis
  proof (rule rewritten_step [OF rw _ _ _ _ emitted_new_nodes [OF e(1) refl c(1,2)], where inst = "IStore v p"])
    fix h s s'
    assume r: "renamed ?f (ir_next b) s s'"
    then have "val_of s' v = val_of s v" "addr_of s' p = addr_of s p"
      using renamed_val [OF r] at_inst_node [OF at] by (simp_all add: renaming_def addr_of_def node_ok_def)
    then show "renamed ?f (ir_next b) (ir_exec h (ir_sizes b) (primitive_size b) (i, IStore v p) s) (exec_nodes h ?c es s')"
      using run [where h = h and s = s'] r bs by (simp add: renamed_def framed_def val_of_def)
  next
    show "\<exists>s'. renamed ?f (ir_next b) s s' \<and> (\<forall>j < ir_next b. st_env s' j = st_env s j)" for s
      by (rule exI [of _ s]) (simp add: renamed_def val_of_def)
  qed (use at p c in \<open>auto simp: at_inst_def placed_def intro: below_mono\<close>)
qed

lemma load_byte_value: "\<exists>k. fst (load_byte bits p sz n st) = LValue k"
  by (auto simp: load_byte_def ir_insert_def Let_def split: prod.split)

lemma load_step:
  assumes at: "at_inst b bb i (ILoad bits p)" and size: "bits = sz * 8" "0 < sz" "sz \<le> 128"
    and whole: "fold (load_byte bits p sz) [0..<sz] (x, b) = (whole, b')"
  shows "step_ok i b (deleteLater i (replaceAllUsesWith (LValue i) whole b'))"
proof -
  let ?c = "deleteLater i (replaceAllUsesWith (LValue i) whole b')" let ?f = "subst_value (LValue i) whole"
  have ok: "node_ok b (i, ILoad bits p)" using at_inst_node [OF at] .
  have rdy: "ready {p} b" using at_inst_ready [OF at] by simp
  obtain n where n: "sz = Suc n" using size(2) by (cases sz) auto
  have m: "makes {p} b (whole, b') bits (\<lambda>s. le_val (load_bytes (st_mem s) (addr_of s p) sz))"
    using load_bytes_makes [OF rdy, of n bits sz x] whole size unfolding n by simp
  then obtain es where e: "emitted {p} b b' es"
      "effect b b' es (\<lambda>s s'. st_mem s' = st_mem s \<and> val_of s' whole = le_val (load_bytes (st_mem s) (addr_of s p) sz))"
    unfolding makes_def emits_def by auto
  have p: "placed b b' es" using e(1) by (simp add: emitted_def)
  obtain k where k: "whole = LValue k" "ir_next b \<le> k" "k < ir_next b'"
  proof -
    have "fst (fold (load_byte bits p sz) [0..<Suc n] (x, b)) = fst (load_byte bits p sz n (fold (load_byte bits p sz) [0..<n] (x, b)))" by simp
    then obtain k where "whole = LValue k" using load_byte_value whole n by (metis fst_conv)
    then show ?thesis using that m by (simp add: makes_def allowed_def)
  qed
  have c: "ir_next ?c = ir_next b'" "ir_sizes ?c = ir_sizes b'" "to_delete ?c = to_delete b @ [i]"
      "ir_blocks ?c = map (renamed_nodes ?f) (ir_blocks b')"
    using p by (simp_all add: deleteLater_def replaceAllUsesWith_def placed_def renamed_nodes_def)
  have i: "i < ir_next b" using ok by (simp add: node_ok_def)
  have es: "renamed_nodes ?f es = es"
  proof (rule renamed_nodes_id)
    fix j y v assume "(j, y) \<in> set es" "v \<in> set (operands y)"
    then have "allowed {p} (ir_next b) j v" using e(1) by (auto simp: emitted_def)
    then have "v \<noteq> LValue i" using ok i by (auto simp: allowed_def node_ok_def)
    then show "?f v = v" by (simp add: subst_value_def)
  qed
  have wsize: "primitive_size ?c (?f v) = primitive_size b v" if "below (ir_next b) v" for v
  proof (cases "v = LValue i")
    case True
    then show ?thesis using m ok c(2) k(1) by (simp add: subst_value_def makes_def primitive_size_def node_ok_def)
  next
    case False
    then show ?thesis using placed_primitive_size [OF p that] c(2) by (cases v) (simp_all add: subst_value_def primitive_size_def)
  qed
  have rw: "rewritten ?f b ?c bb i es"
    unfolding rewritten_def using p c at es wsize k(2)
    by (auto simp: placed_def at_inst_def renaming_def writes_apart_def subst_value_def k(1) nth_list_update)
  have "suits b b' ?c" using at_inst_suits [OF at p c(3,2)] .
  then have run: "framed (ir_next b) s (exec_nodes h ?c es s)" "st_mem (exec_nodes h ?c es s) = st_mem s"
      "val_of (exec_nodes h ?c es s) whole = le_val (load_bytes (st_mem s) (addr_of s p) sz)" for h s
    using e(2) unfolding effect_def by blast+
  have bs: "byte_size bits = sz" using size(1) by (simp add: byte_size_def)
  show ?thesis
  proof (rule rewritten_step [OF rw _ _ _ _ emitted_new_nodes [OF e(1) refl c(1,2)], where inst = "ILoad bits p"])
    fix h s s'
    assume r: "renamed ?f (ir_next b) s s'"
    have "?f p = p" using ok by (auto simp: node_ok_def subst_value_def)
    then have a: "addr_of s' p = addr_of s p" using renamed_val [OF r, of p] ok by (simp add: renaming_def addr_of_def node_ok_def subst_value_def)
    let ?s = "exec_nodes h ?c es s'" let ?x = "le_val (load_bytes (st_mem s) (addr_of s p) sz)"
    have "val_of ?s (?f (LValue j)) = st_env (set_value i ?x s) j" if "j < ir_next b" for j
    proof (cases "j = i")
      case True
      then show ?thesis using run(3) [where h = h and s = s'] a r by (simp add: subst_value_def set_value_def renamed_def)
    next
      case False
      then have "val_of ?s (?f (LValue j)) = st_env s' j" using run(1) [where h = h and s = s'] that by (simp add: subst_value_def val_of_def framed_def)
      also have "\<dots> = st_env s j" using r that False by (auto simp: renamed_def subst_value_def val_of_def)
      finally show ?thesis using False by (simp add: set_value_def)
    qed
    then show "renamed ?f (ir_next b) (ir_exec h (ir_sizes b) (primitive_size b) (i, ILoad bits p) s) ?s"
      using run(1,2) [where h = h and s = s'] r bs by (simp add: renamed_def framed_def set_value_def)
  next
    show "\<exists>s'. renamed ?f (ir_next b) s s' \<and> (\<forall>j < ir_next b. st_env s' j = st_env s j)" for s
      by (rule exI [of _ "set_value k (st_env s i) s"])
        (use k(2) in \<open>auto simp: renamed_def k(1) subst_value_def val_of_def set_value_def\<close>)
  next
    show "below (ir_next ?c) (?f v)" if "below (ir_next b) v" for v
      using that c(1) k p by (auto simp: subst_value_def placed_def intro: below_mono)
    show "?f v \<noteq> LValue i" if "v \<noteq> LValue i" for v using that by (simp add: subst_value_def)
  qed (use at in \<open>auto simp: at_inst_def\<close>)
qed

section \<open>The whole function\<close>

lemma step_ok_refl: "wf_fun b \<Longrightarrow> step_ok i b b"
  by (auto simp: step_ok_def implements_refl)

lemma set_insert_point_simps [simp]:
  "ir_next (set_insert_point ip b) = ir_next b" "ir_blocks (set_insert_point ip b) = ir_blocks b"
  "to_delete (set_insert_point ip b) = to_delete b" "ir_ip (set_insert_point ip b) = ip" "ir_sizes (set_insert_point ip b) = ir_sizes b"
  "primitive_size (set_insert_point ip b) = primitive_size b"
  by (simp_all add: set_insert_point_def primitive_size_def fun_eq_iff split: llvm_value.split)

lemma exec_path_insert_point [simp]: "exec_path h (set_insert_point ip b) = exec_path h b"
proof -
  have "exec_nodes h (set_insert_point ip b) ns = exec_nodes h b ns" for ns
    unfolding exec_nodes_def by (intro ext fold_cong) (simp_all add: exec_node_def)
  then show ?thesis by (intro ext) (simp add: exec_path_def)
qed

lemma wf_insert_point [simp]: "wf_fun (set_insert_point ip b) = wf_fun b"
proof -
  have "node_ok (set_insert_point ip b) n = node_ok b n" for n by (cases "snd n") (simp_all add: node_ok_def)
  then show ?thesis by (simp add: wf_fun_def)
qed

lemma step_insert_point: "step_ok i (set_insert_point ip b) c \<Longrightarrow> step_ok i b c"
  by (simp add: step_ok_def implements_def)

lemma bytes_ok_size:
  assumes "bytes_ok bits" and "1 < byte_size bits"
  shows "bits = size_in_bytes bits * 8" "size_in_bytes bits \<le> 128" "0 < size_in_bytes bits"
proof -
  have b: "bits mod 8 = 0" "bits \<le> 1024" "8 < bits" using assms by (auto simp: bytes_ok_def byte_size_def)
  then have "byte_size bits = bits div 8" "bits div 8 < 256" by (simp_all add: byte_size_def) presburger+
  then show "bits = size_in_bytes bits * 8" "size_in_bytes bits \<le> 128" "0 < size_in_bytes bits"
    using b by (simp_all add: size_in_bytes_def) presburger+
qed

lemma insts_of_node:
  assumes "wf_fun b" and "bb < length (ir_blocks b)" and "(i, inst) \<in> set (ir_blocks b ! bb)"
  shows "insts_of (ir_blocks b) i = Some inst"
proof -
  have "(i, inst) \<in> set (concat (ir_blocks b))" using assms(2,3) nth_mem by (metis UN_I set_concat)
  then show ?thesis using assms(1) unfolding insts_of_def wf_fun_def by (simp add: map_of_is_SomeI del: set_concat)
qed

lemma scalarize_inst_ok:
  assumes wf: "wf_fun b" and pos: "bb < length (ir_blocks b)" "i \<in> fst ` set (ir_blocks b ! bb)"
    and del: "i \<notin> set (to_delete b)" "set (to_delete b) \<subseteq> {..<ir_next b}"
  shows "\<exists>c. scalarize_inst (bb, i) b = Inr c \<and> step_ok i b c"
proof -
  let ?b = "set_insert_point (bb, Some i) b"
  obtain inst where inst: "(i, inst) \<in> set (ir_blocks b ! bb)" using pos(2) by auto
  have at: "at_inst ?b bb i inst" using wf pos(1) inst del by (simp add: at_inst_def)
  have ok: "node_ok ?b (i, inst)" using at_inst_node [OF at] .
  have here: "insts_of (ir_blocks b) i = Some inst" using insts_of_node [OF wf pos(1) inst] .
  have stay: "step_ok i b ?b" by (rule step_insert_point [OF step_ok_refl]) (use wf in simp)
  show ?thesis
  proof (cases inst)
    case (IStore v p)
    let ?sz = "size_in_bytes (primitive_size b v)"
    have "step_ok i b (deleteLater i (fold (store_byte v p ?sz) [0..<?sz] ?b)) \<and> primitive_size b v = ?sz * 8"
      if "1 < byte_size (primitive_size b v)"
      using store_step [OF at [unfolded IStore], of ?sz] bytes_ok_size [OF _ that] ok IStore step_insert_point
      by (auto simp: node_ok_def)
    then show ?thesis using stay here IStore by (auto simp: scalarize_inst_def scalarize_store_def Let_def)
  next
    case (ILoad bits p)
    let ?sz = "size_in_bytes bits"
    obtain whole b' where w: "fold (load_byte bits p ?sz) [0..<?sz] (LConstantInt bits 0, ?b) = (whole, b')" by fastforce
    have "step_ok i b (deleteLater i (replaceAllUsesWith (LValue i) whole b')) \<and> bits = ?sz * 8" if "1 < byte_size bits"
      using load_step [OF at [unfolded ILoad] _ _ _ w] bytes_ok_size [OF _ that] ok ILoad step_insert_point
      by (auto simp: node_ok_def)
    then show ?thesis using stay here ILoad w by (auto simp: scalarize_inst_def scalarize_load_def Let_def)
  qed (use stay here in \<open>auto simp: scalarize_inst_def Let_def\<close>)
qed

lemma scalarize_all:
  assumes "wf_fun b" and "distinct (map snd ps)" and "set (to_delete b) \<subseteq> {..<ir_next b}"
    and "\<forall>(bb, i) \<in> set ps. bb < length (ir_blocks b) \<and> i \<in> fst ` set (ir_blocks b ! bb) \<and> i \<notin> set (to_delete b)"
  shows "\<exists>c. res_fold scalarize_inst ps b = Inr c \<and> implements b c \<and> length (ir_blocks c) = length (ir_blocks b)"
  using assms
proof (induction ps arbitrary: b)
  case (Cons pos ps)
  obtain bb i where pos: "pos = (bb, i)" by (cases pos)
  have here: "bb < length (ir_blocks b)" "i \<in> fst ` set (ir_blocks b ! bb)" "i \<notin> set (to_delete b)" using Cons.prems(4) pos by auto
  obtain b1 where b1: "scalarize_inst (bb, i) b = Inr b1" "step_ok i b b1"
    using scalarize_inst_ok [OF Cons.prems(1) here Cons.prems(3)] by blast
  have "node_ok b (i, inst)" if "(i, inst) \<in> set (ir_blocks b ! bb)" for inst
    using Cons.prems(1) here(1) that unfolding wf_fun_def by (metis UN_I nth_mem set_concat)
  then have i: "i < ir_next b" using here(2) by (auto simp: node_ok_def)
  have "\<exists>c. res_fold scalarize_inst ps b1 = Inr c \<and> implements b1 c \<and> length (ir_blocks c) = length (ir_blocks b1)"
  proof (rule Cons.IH)
    show "set (to_delete b1) \<subseteq> {..<ir_next b1}" using b1(2) Cons.prems(3) i by (force simp: step_ok_def)
    have "bb' < length (ir_blocks b1) \<and> j \<in> fst ` set (ir_blocks b1 ! bb') \<and> j \<notin> set (to_delete b1)" if j: "(bb', j) \<in> set ps" for bb' j
    proof -
      have "j \<noteq> i" using Cons.prems(2) j pos by (auto simp: image_iff)
      moreover have old: "bb' < length (ir_blocks b)" "j \<in> fst ` set (ir_blocks b ! bb')" "j \<notin> set (to_delete b)" using Cons.prems(4) j by auto
      moreover have "set (to_delete b1) \<subseteq> insert i (set (to_delete b))" "length (ir_blocks b1) = length (ir_blocks b)"
          "fst ` set (ir_blocks b ! bb') \<subseteq> fst ` set (ir_blocks b1 ! bb')" using b1(2) old(1) by (simp_all add: step_ok_def)
      ultimately show ?thesis by (metis insert_iff subsetD)
    qed
    then show "\<forall>(bb, i) \<in> set ps. bb < length (ir_blocks b1) \<and> i \<in> fst ` set (ir_blocks b1 ! bb) \<and> i \<notin> set (to_delete b1)" by blast
  qed (use b1(2) Cons.prems(2) in \<open>auto simp: step_ok_def\<close>)
  then obtain c where c: "res_fold scalarize_inst ps b1 = Inr c" "implements b1 c" "length (ir_blocks c) = length (ir_blocks b1)" by blast
  have "implements b c" using implements_trans [OF _ c(2)] b1(2) by (simp add: step_ok_def)
  then show ?case using b1 c pos by (simp add: step_ok_def)
qed (auto simp: implements_refl)

lemma positions_ids: "map snd (positions B) = map fst (concat B)"
proof -
  have "map snd (positions B) = concat (map (map fst) (map (\<lambda>bb. B ! bb) [0..<length B]))"
    by (simp add: positions_def map_concat comp_def)
  then show ?thesis by (simp add: map_nth map_concat)
qed


text \<open>A variable of two bytes: a store of a number, a load, and a call with what was loaded.\<close>

definition demo_scalar :: ir_builder where
  "demo_scalar =
     \<lparr>ir_next = 14, ir_sizes = (\<lambda>i. if i = 12 then 16 else 64), ir_names = Map.empty,
      ir_blocks = [[(10, IAlloca 16), (11, IStore (LConstantInt 16 258) (LValue 10)), (12, ILoad 16 (LValue 10)), (13, ICall (Unknown_callee ''f'') [LValue 12])]],
      ir_ip = (0, None), insert_points = [], to_delete = []\<rparr>"

lemma demo_scalar_ok: "wf_fun demo_scalar"
  by (simp add: wf_fun_def demo_scalar_def node_ok_def bytes_ok_def primitive_size_def)


end
