(* ===== verification/State2alloca.thy ===== *)
theory State2alloca
  imports Remill Ir_Semantics
begin

text \<open>
  \<open>vexa::passes::state2alloca\<close> (state2alloca.cpp): a new entry block copies every register of the state structure into a
  local variable, the addresses of registers become addresses of the variables, and the variables are copied back
  before every return. The registers of remill are an argument.
\<close>

section \<open>Whole registers\<close>

text \<open>\<open>sub_to_parent\<close> takes the offset as a \<open>uint32_t\<close>; the last register that lies there counts.\<close>

type_synonym u32 = "32 word"

definition sub_to_parent :: "remill_register list \<Rightarrow> u32 \<Rightarrow> remill_register option" where
  "sub_to_parent regs offset = fold (\<lambda>r parent. if ucast offset = rr_offset r then Some (root_of r) else parent) regs None"

section \<open>The entry block\<close>

text \<open>The new block is made at the end of the function and moved to its front. A block is the number of its
  position, so that all the others move up by one.\<close>

definition moved_to :: "block_id \<Rightarrow> block_id \<Rightarrow> block_id" where
  "moved_to bb k = (if k = bb then 0 else if k < bb then Suc k else k)"

definition move_to_front :: "block_id \<Rightarrow> ir_builder \<Rightarrow> ir_builder" where
  "move_to_front bb b =
     b\<lparr>ir_blocks := map (map (\<lambda>(i, inst). (i, retarget (moved_to bb) inst)))
          ((ir_blocks b ! bb) # take bb (ir_blocks b) @ drop (Suc bb) (ir_blocks b)),
       ir_ip := (moved_to bb (fst (ir_ip b)), snd (ir_ip b)),
       insert_points := map (\<lambda>(k, p). (moved_to bb k, p)) (insert_points b)\<rparr>"

text \<open>\<open>offset_to_alloca\<close>: the variable of an offset with the bits of its type. The keys are of type \<open>uint32_t\<close>.\<close>

type_synonym alloca_map = "(u32 \<times> llvm_value \<times> nat) list"

definition create_alloca :: "remill_register \<Rightarrow> alloca_map \<times> ir_builder \<Rightarrow> alloca_map \<times> ir_builder" where
  "create_alloca r st =
     (if rr_parent r = None then
        (case ir_insert (IAlloca (rr_size r)) 0 (snd st) of (a, b) \<Rightarrow>
           (AList.update (ucast (rr_offset r)) (a, rr_size r * 8) (fst st), b))
      else st)"

definition copy_in :: "llvm_value \<Rightarrow> u64 \<Rightarrow> nat \<Rightarrow> llvm_value \<Rightarrow> ir_builder \<Rightarrow> ir_builder" where
  "copy_in state off bits a b =
     (case ir_insert (IGep state (Some off)) 0 b of (addr, b1) \<Rightarrow>
      case ir_insert (ILoad bits addr) bits b1 of (x, b2) \<Rightarrow> snd (ir_insert (IStore x a) 0 b2))"

definition init_alloca :: "llvm_value \<Rightarrow> alloca_map \<Rightarrow> remill_register \<Rightarrow> ir_builder \<Rightarrow> ir_builder res" where
  "init_alloca state m r b =
     (if rr_parent r = None then
        (case map_of m (ucast (rr_offset r)) of None \<Rightarrow> Inl Null_dereference
         | Some (a, bits) \<Rightarrow> Inr (copy_in state (rr_offset r) (rr_size r * 8) a b))
      else Inr b)"

definition slot_offset :: u64 where
  "slot_offset = 2080"

definition entry_block :: "llvm_value \<Rightarrow> remill_register list \<Rightarrow> ir_builder \<Rightarrow> (alloca_map \<times> ir_builder) res" where
  "entry_block state regs b =
     (case basic_block b of (entry_bb, b1) \<Rightarrow>
      case ir_insert (IAlloca 4) 0 (move_to_front entry_bb (set_insert_point (entry_bb, None) b1)) of (slot, b2) \<Rightarrow>
      case fold create_alloca regs ([(ucast slot_offset, slot, 32)], copy_in state slot_offset 32 slot b2) of (m, b3) \<Rightarrow>
      res_bind (res_fold (init_alloca state m) regs b3) (\<lambda>b4. Inr (m, snd (ir_insert (IBr 1) 0 b4))))"

section \<open>Addresses of registers\<close>

definition state_offset :: "llvm_value \<Rightarrow> ir_inst \<Rightarrow> u64 option" where
  "state_offset state inst =
     (case inst of
        IGep p off \<Rightarrow> if p = state then off else None
      | IGepValue p idx \<Rightarrow> if p = state then gep_offset idx else None
      | _ \<Rightarrow> None)"

text \<open>The variable that stands for an offset, and how far into the variable the offset points when it is not the
  beginning of a whole register.\<close>

definition register_variable :: "remill_register list \<Rightarrow> alloca_map \<Rightarrow> u64 \<Rightarrow> (llvm_value \<times> u64 option) option" where
  "register_variable regs m offset =
     (case map_of m (ucast offset) of
        Some (a, bits) \<Rightarrow> Some (a, None)
      | None \<Rightarrow>
          (case sub_to_parent regs (ucast offset) of None \<Rightarrow> None
           | Some parent_r \<Rightarrow>
               (case map_of m (ucast (rr_offset parent_r)) of None \<Rightarrow> None
                | Some (a, bits) \<Rightarrow> Some (a, Some (offset - rr_offset parent_r)))))"

definition replace_gep :: "llvm_value \<Rightarrow> remill_register list \<Rightarrow> alloca_map \<Rightarrow> block_id \<Rightarrow> nat \<Rightarrow> ir_builder \<Rightarrow> ir_builder" where
  "replace_gep state regs m bb i b =
     (case Option.bind (insts_of (ir_blocks b) i) (state_offset state) of None \<Rightarrow> b
      | Some offset \<Rightarrow>
          (case register_variable regs m offset of None \<Rightarrow> b
           | Some (a, None) \<Rightarrow> replace_inst i a b
           | Some (a, Some d) \<Rightarrow>
               (case ir_insert (IGep a (Some d)) 0 (set_insert_point (bb, Some i) b) of (g, b1) \<Rightarrow> replace_inst i g b1)))"

text \<open>The instructions of all blocks but the new one, in their order.\<close>

definition gep_sites :: "ir_builder \<Rightarrow> (block_id \<times> nat) list" where
  "gep_sites b = concat (map (\<lambda>bb. map (\<lambda>node. (bb, fst node)) (ir_blocks b ! bb)) [1..<length (ir_blocks b)])"

definition replace_geps :: "llvm_value \<Rightarrow> remill_register list \<Rightarrow> alloca_map \<Rightarrow> ir_builder \<Rightarrow> ir_builder" where
  "replace_geps state regs m b = fold (\<lambda>(bb, i). replace_gep state regs m bb i) (gep_sites b) b"

section \<open>Copying back\<close>

definition copy_out :: "llvm_value \<Rightarrow> u32 \<times> llvm_value \<times> nat \<Rightarrow> ir_builder \<Rightarrow> ir_builder" where
  "copy_out state e b =
     (case e of (off, a, bits) \<Rightarrow>
      case ir_insert (IGep state (Some (ucast off))) 0 b of (addr, b1) \<Rightarrow>
      case ir_insert (ILoad bits a) bits b1 of (x, b2) \<Rightarrow> snd (ir_insert (IStore x addr) 0 b2))"

definition copy_back :: "llvm_value \<Rightarrow> alloca_map \<Rightarrow> block_id \<Rightarrow> ir_builder \<Rightarrow> ir_builder res" where
  "copy_back state m bb b =
     (let nodes = ir_blocks b ! bb in
      if nodes = [] \<or> \<not> is_terminator (snd (last nodes)) then Inl Null_dereference
      else
        (case snd (last nodes) of
           IRet v \<Rightarrow> Inr (fold (copy_out state) m (set_insert_point (bb, Some (fst (last nodes))) b))
         | _ \<Rightarrow> Inr b))"

text \<open>The order in which the \<open>unordered_map\<close> is walked is an argument.\<close>

definition state2alloca ::
  "(alloca_map \<Rightarrow> alloca_map) \<Rightarrow> llvm_value \<Rightarrow> remill_register list \<Rightarrow> ir_builder \<Rightarrow> (bool \<times> ir_builder) res" where
  "state2alloca order state regs b =
     (if ir_blocks b = [] then Inl Undefined_behaviour
      else
        res_bind (entry_block state regs b) (\<lambda>(m, b1).
        let b2 = replace_geps state regs m b1 in
        res_bind (res_fold (copy_back state (order m)) [0..<length (ir_blocks b2)] b2) (\<lambda>b3. Inr (True, b3))))"

section \<open>No address of a register is left\<close>

definition register_address :: "llvm_value \<Rightarrow> remill_register list \<Rightarrow> ir_inst \<Rightarrow> bool" where
  "register_address state regs inst \<longleftrightarrow>
     (\<exists>off. state_offset state inst = Some off \<and> (off = slot_offset \<or> off \<in> rr_offset ` set regs))"

text \<open>A number belongs to one instruction only and is below the next one, and the state pointer is no instruction.\<close>

definition numbered :: "llvm_value \<Rightarrow> ir_builder \<Rightarrow> bool" where
  "numbered state b \<longleftrightarrow>
     single_valued (nodes_of b) \<and> (\<forall>n \<in> nodes_of b. fst n < ir_next b \<and> LValue (fst n) \<noteq> state) \<and>
     (\<exists>k < ir_next b. state = LValue k)"

text \<open>The second function has of the instructions below \<open>n\<close> those of the first, and no more register addresses.\<close>

definition keeps_code :: "llvm_value \<Rightarrow> remill_register list \<Rightarrow> nat \<Rightarrow> ir_builder \<Rightarrow> ir_builder \<Rightarrow> bool" where
  "keeps_code state regs n b b' \<longleftrightarrow>
     ir_next b \<le> ir_next b' \<and>
     (\<forall>i inst. (i, inst) \<in> nodes_of b' \<longrightarrow> i < n \<longrightarrow>
        (\<exists>inst0. (i, inst0) \<in> nodes_of b \<and> (register_address state regs inst \<longrightarrow> register_address state regs inst0)))"

lemma same_code_refl [simp]: "keeps_code state regs n b b"
  by (auto simp: keeps_code_def)

lemma same_code_trans: "keeps_code state regs n b b1 \<Longrightarrow> keeps_code state regs n b1 b2 \<Longrightarrow> keeps_code state regs n b b2"
  unfolding keeps_code_def by (meson order_trans)

lemma insert_before_set: "set (insert_before pos node xs) = insert node (set xs)"
  by (induction xs) auto

lemma ir_insert_next [simp]: "ir_next (snd (ir_insert inst bits b)) = Suc (ir_next b)"
  by (simp add: ir_insert_def Let_def)

lemma ir_insert_result [simp]: "fst (ir_insert inst bits b) = LValue (ir_next b)"
  by (simp add: ir_insert_def Let_def)

lemma in_concat_update: "x \<in> set (concat (xss[k := ys])) \<Longrightarrow> x \<in> set (concat xss) \<or> (k < length xss \<and> x \<in> set ys)"
  using set_update_subset_insert [of xss k ys] by (cases "k < length xss") (auto simp: list_update_beyond)

lemma nodes_insert: "nodes_of (snd (ir_insert inst bits b)) \<subseteq> insert (ir_next b, inst) (nodes_of b)"
proof
  fix x assume "x \<in> nodes_of (snd (ir_insert inst bits b))"
  then have "x \<in> nodes_of b \<or> (fst (ir_ip b) < length (ir_blocks b) \<and>
      x \<in> set (insert_before (snd (ir_ip b)) (ir_next b, inst) (ir_blocks b ! fst (ir_ip b))))"
    unfolding nodes_of_def ir_insert_def Let_def using in_concat_update by fastforce
  then show "x \<in> insert (ir_next b, inst) (nodes_of b)"
    by (auto simp: insert_before_set nodes_of_def)
qed

lemma nodes_set_insert_point [simp]: "nodes_of (set_insert_point ip b) = nodes_of b"
  by (simp add: nodes_of_def set_insert_point_def)

lemma next_set_insert_point [simp]: "ir_next (set_insert_point ip b) = ir_next b"
  by (simp add: set_insert_point_def)

lemma insert_step:
  assumes "numbered state b" and "n \<le> ir_next b"
  shows "keeps_code state regs n b (snd (ir_insert inst bits b)) \<and> numbered state (snd (ir_insert inst bits b))"
proof -
  have sub: "nodes_of (snd (ir_insert inst bits b)) \<subseteq> insert (ir_next b, inst) (nodes_of b)" by (rule nodes_insert)
  have "single_valued (insert (ir_next b, inst) (nodes_of b))"
    using assms(1) unfolding numbered_def single_valued_def by fastforce
  then have "single_valued (nodes_of (snd (ir_insert inst bits b)))" by (rule single_valued_subset [OF sub])
  with sub assms show ?thesis by (fastforce simp: keeps_code_def numbered_def)
qed

lemma register_address_subst:
  "LValue i \<noteq> state \<Longrightarrow> LValue j \<noteq> state \<Longrightarrow>
    register_address state regs (map_operands (subst_value (LValue i) (LValue j)) inst) \<Longrightarrow> register_address state regs inst"
  by (cases inst)
    (auto simp: register_address_def state_offset_def gep_offset_def subst_value_def split: if_splits llvm_value.splits)

lemma replace_step:
  assumes "numbered state b" and "LValue i \<noteq> state" and "LValue j \<noteq> state"
  shows "keeps_code state regs n b (replace_inst i (LValue j) b) \<and> numbered state (replace_inst i (LValue j) b)"
proof -
  have "single_valued (nodes_of (replace_inst i (LValue j) b))"
    using assms(1) unfolding nodes_replace numbered_def single_valued_def by auto
  then show ?thesis
    using assms register_address_subst [OF assms(2,3)] unfolding keeps_code_def numbered_def nodes_replace by auto
qed

lemma retarget_register_address [simp]: "register_address state regs (retarget f inst) = register_address state regs inst"
  by (cases inst) (simp_all add: register_address_def state_offset_def)

lemma nodes_move:
  assumes "bb < length (ir_blocks b)"
  shows "nodes_of (move_to_front bb b) = (\<lambda>(i, inst). (i, retarget (moved_to bb) inst)) ` nodes_of b"
proof -
  have "set (concat (ir_blocks b ! bb # take bb (ir_blocks b) @ drop (Suc bb) (ir_blocks b))) = nodes_of b"
    unfolding nodes_of_def by (subst (4) id_take_nth_drop [OF assms]) auto
  moreover have "nodes_of (move_to_front bb b) = set (map (\<lambda>(i, inst). (i, retarget (moved_to bb) inst))
      (concat (ir_blocks b ! bb # take bb (ir_blocks b) @ drop (Suc bb) (ir_blocks b))))"
    unfolding map_concat by (simp add: nodes_of_def move_to_front_def)
  ultimately show ?thesis by (simp only: set_map)
qed

lemma move_next [simp]: "ir_next (move_to_front bb b) = ir_next b"
  by (simp add: move_to_front_def)

lemma move_step:
  assumes "numbered state b" and "bb < length (ir_blocks b)"
  shows "keeps_code state regs n b (move_to_front bb b) \<and> numbered state (move_to_front bb b)"
proof -
  have "single_valued (nodes_of (move_to_front bb b))"
    using assms(1) unfolding nodes_move [OF assms(2)] numbered_def single_valued_def by auto
  then show ?thesis using assms(1) unfolding keeps_code_def numbered_def nodes_move [OF assms(2)] by auto
qed

section \<open>The steps of the pass\<close>

text \<open>Instructions that are appended to the first block, which holds new instructions only.\<close>

definition at_entry :: "nat \<Rightarrow> ir_builder \<Rightarrow> bool" where
  "at_entry n b \<longleftrightarrow> ir_blocks b \<noteq> [] \<and> ir_ip b = (0, None) \<and> n \<le> ir_next b \<and> (\<forall>x \<in> set (ir_blocks b ! 0). n \<le> fst x)"

lemma at_entry_insert: "at_entry n b \<Longrightarrow> at_entry n (snd (ir_insert inst bits b))"
  by (cases "ir_blocks b") (auto simp: at_entry_def ir_insert_def Let_def insert_before_set)

definition entry_step :: "llvm_value \<Rightarrow> remill_register list \<Rightarrow> nat \<Rightarrow> ir_builder \<Rightarrow> ir_builder \<Rightarrow> bool" where
  "entry_step state regs n b b' \<longleftrightarrow> keeps_code state regs n b b' \<and> numbered state b' \<and> at_entry n b'"

lemma entry_insert:
  "numbered state b \<Longrightarrow> at_entry n b \<Longrightarrow> entry_step state regs n b (snd (ir_insert inst bits b))"
  unfolding entry_step_def using insert_step at_entry_insert by (auto simp: at_entry_def)

lemma entry_step_trans: "entry_step state regs n b b1 \<Longrightarrow> entry_step state regs n b1 b2 \<Longrightarrow> entry_step state regs n b b2"
  unfolding entry_step_def using same_code_trans by blast

lemma copy_in_step:
  assumes "numbered state b" and "at_entry n b"
  shows "entry_step state regs n b (copy_in state' off bits a b)"
proof -
  show ?thesis using assms unfolding copy_in_def
    by (simp add: case_prod_beta) (meson entry_insert entry_step_trans entry_step_def)
qed

definition fresh_vars :: "nat \<Rightarrow> alloca_map \<Rightarrow> bool" where
  "fresh_vars n m \<longleftrightarrow> (\<forall>e \<in> set m. \<exists>j \<ge> n. fst (snd e) = LValue j)"

definition covers :: "alloca_map \<Rightarrow> u64 \<Rightarrow> bool" where
  "covers m off \<longleftrightarrow> map_of m (ucast off) \<noteq> None"

lemma covers_update: "covers (AList.update (ucast off) v m) off' \<longleftrightarrow> (ucast off :: u32) = ucast off' \<or> covers m off'"
  by (auto simp: covers_def update_conv')

lemma fresh_vars_update: "fresh_vars n m \<Longrightarrow> n \<le> j \<Longrightarrow> fresh_vars n (AList.update k (LValue j, bits) m)"
  by (induction m) (auto simp: fresh_vars_def)

lemma create_alloca_step:
  assumes "numbered state b" and "at_entry n b" and "fresh_vars n m" and "create_alloca r (m, b) = (m', b')"
  shows "entry_step state regs n b b' \<and> fresh_vars n m' \<and> (rr_parent r = None \<longrightarrow> covers m' (rr_offset r)) \<and>
    (\<forall>off. covers m off \<longrightarrow> covers m' off)"
proof (cases "rr_parent r = None")
  case True
  then have "m' = AList.update (ucast (rr_offset r)) (LValue (ir_next b), rr_size r * 8) m"
      "b' = snd (ir_insert (IAlloca (rr_size r)) 0 b)"
    using assms(4) by (auto simp: create_alloca_def case_prod_beta)
  then show ?thesis
    using entry_insert [OF assms(1,2)] fresh_vars_update assms(2,3) by (simp add: covers_update at_entry_def)
next
  case False
  then have "m' = m" "b' = b" using assms(4) by (auto simp: create_alloca_def)
  then show ?thesis using assms False by (auto simp: entry_step_def)
qed

lemma create_allocas:
  assumes "numbered state b" and "at_entry n b" and "fresh_vars n m" and "fold create_alloca rs (m, b) = (m', b')"
  shows "entry_step state regs n b b' \<and> fresh_vars n m' \<and>
    (\<forall>r \<in> set rs. rr_parent r = None \<longrightarrow> covers m' (rr_offset r)) \<and> (\<forall>off. covers m off \<longrightarrow> covers m' off)"
  using assms
proof (induction rs arbitrary: m b)
  case Nil
  then show ?case by (simp add: entry_step_def)
next
  case (Cons r rs)
  obtain m1 b1 where c: "create_alloca r (m, b) = (m1, b1)" by fastforce
  note first = create_alloca_step [OF Cons.prems(1-3) c, of regs]
  have "numbered state b1" "at_entry n b1" "fresh_vars n m1" using first by (simp_all add: entry_step_def)
  from Cons.IH [OF this] Cons.prems(4) c have rest:
    "entry_step state regs n b1 b'" "fresh_vars n m'" "\<forall>r \<in> set rs. rr_parent r = None \<longrightarrow> covers m' (rr_offset r)"
    "\<forall>off. covers m1 off \<longrightarrow> covers m' off" by simp_all
  with first show ?case using entry_step_trans by auto
qed

lemma init_allocas:
  assumes "numbered state b" and "at_entry n b" and "res_fold (init_alloca state' m) rs b = Inr b'"
  shows "entry_step state regs n b b'"
proof -
  have "entry_step state regs n b c'" if step: "entry_step state regs n b c" and init: "init_alloca state' m r c = Inr c'" for r c c'
  proof -
    consider "c' = c" | off bits a where "c' = copy_in state' off bits a c"
      using init unfolding init_alloca_def by (fastforce simp: case_prod_beta split: if_splits option.splits)
    then show ?thesis
    proof cases
      case 2
      then show ?thesis using step copy_in_step entry_step_trans unfolding entry_step_def by blast
    qed (use step in simp)
  qed
  then have step: "\<And>r c c'. r \<in> set rs \<Longrightarrow> entry_step state regs n b c \<Longrightarrow> init_alloca state' m r c = Inr c' \<Longrightarrow> entry_step state regs n b c'"
    by blast
  show ?thesis
    by (rule res_fold_invariant [where I = "entry_step state regs n b", OF step _ assms(3)])
      (use assms in \<open>simp_all add: entry_step_def\<close>)
qed

lemma entry_block_step:
  assumes "numbered state b" and "entry_block state regs b = Inr (m, b')"
  shows "entry_step state regs' (ir_next b) b b' \<and> fresh_vars (ir_next b) m \<and> covers m slot_offset \<and>
    (\<forall>r \<in> set regs. rr_parent r = None \<longrightarrow> covers m (rr_offset r))"
proof -
  let ?n = "ir_next b"
  define b1 where "b1 = move_to_front (length (ir_blocks b)) (set_insert_point (length (ir_blocks b), None) (snd (basic_block b)))"
  define b2 where "b2 = snd (ir_insert (IAlloca 4) 0 b1)"
  have grown: "numbered state (set_insert_point ip (snd (basic_block b)))" "nodes_of (set_insert_point ip (snd (basic_block b))) = nodes_of b" for ip
    using assms(1) by (simp_all add: numbered_def basic_block_def nodes_of_def set_insert_point_def)
  have "keeps_code state regs' ?n b (set_insert_point ip (snd (basic_block b)))" for ip
    using grown(2) by (auto simp: keeps_code_def basic_block_def)
  moreover have "keeps_code state regs' ?n (set_insert_point ip (snd (basic_block b))) b1 \<and> numbered state b1"
    if "ip = (length (ir_blocks b), None)" for ip
    unfolding b1_def that by (rule move_step) (use grown(1) in \<open>simp_all add: basic_block_def set_insert_point_def\<close>)
  ultimately have k1: "keeps_code state regs' ?n b b1" "numbered state b1" using same_code_trans by blast+
  have e1: "at_entry ?n b1" by (simp add: at_entry_def b1_def move_to_front_def basic_block_def set_insert_point_def moved_to_def)
  have s2: "entry_step state regs' ?n b b2"
    using entry_insert [OF k1(2) e1] same_code_trans [OF k1(1)] unfolding b2_def entry_step_def by blast
  define slot where "slot = LValue (ir_next b1)"
  let ?m0 = "[(ucast slot_offset, slot, 32)] :: alloca_map"
  have s3: "entry_step state regs' ?n b (copy_in state slot_offset 32 slot b2)"
    using s2 copy_in_step entry_step_trans unfolding entry_step_def by blast
  have m0: "fresh_vars ?n ?m0" using e1 by (simp add: fresh_vars_def slot_def at_entry_def)
  obtain m' b3 where f: "fold create_alloca regs (?m0, copy_in state slot_offset 32 slot b2) = (m', b3)" by fastforce
  obtain b4 where b4: "res_fold (init_alloca state m) regs b3 = Inr b4" "m' = m" "b' = snd (ir_insert (IBr 1) 0 b4)"
    using assms(2) f unfolding entry_block_def b2_def b1_def slot_def
    by (auto simp: basic_block_def case_prod_beta elim!: res_bindE)
  note s4 = create_allocas [OF _ _ m0 f [unfolded b4(2)], of state regs']
  have s5: "entry_step state regs' ?n b b3" using s3 s4 entry_step_trans unfolding entry_step_def by blast
  then have "entry_step state regs' ?n b b4"
    using init_allocas [OF _ _ b4(1), of state ?n regs'] entry_step_trans unfolding entry_step_def by blast
  then have "entry_step state regs' ?n b b'"
    using entry_insert entry_step_trans unfolding b4(3) entry_step_def by blast
  moreover have "covers ?m0 slot_offset" by (simp add: covers_def)
  ultimately show ?thesis using s3 s4 unfolding entry_step_def by blast
qed

text \<open>The registers lie in the first four gigabytes, and the register that one is a part of is a register too.\<close>

definition regs_ok :: "remill_register list \<Rightarrow> bool" where
  "regs_ok regs \<longleftrightarrow> (\<forall>r \<in> set regs. rr_offset r < 2 ^ 32 \<and> root_of r \<in> set regs)"

lemma sub_to_parent_Some: "sub_to_parent regs off = Some p \<Longrightarrow> \<exists>r \<in> set regs. rr_offset r = ucast off \<and> p = root_of r"
  by (induction regs rule: rev_induct) (auto simp: sub_to_parent_def split: if_splits)

lemma sub_to_parent_found: "r \<in> set regs \<Longrightarrow> rr_offset r = ucast off \<Longrightarrow> sub_to_parent regs off \<noteq> None"
  by (induction regs rule: rev_induct) (auto simp: sub_to_parent_def)

lemma ucast_ucast_u32: "(off::u64) < 2 ^ 32 \<Longrightarrow> ucast (ucast off :: u32) = off"
proof -
  assume "off < 2 ^ 32"
  then have "take_bit 32 (uint off) = uint off" by (simp add: word_less_def take_bit_int_eq_self_iff)
  then show ?thesis by (simp add: word_uint_eq_iff unsigned_ucast_eq unsigned_take_bit_eq)
qed

definition replace_inv :: "llvm_value \<Rightarrow> nat \<Rightarrow> ir_builder \<Rightarrow> bool" where
  "replace_inv state n b \<longleftrightarrow> numbered state b \<and> n \<le> ir_next b \<and> (\<exists>k < n. state = LValue k)"

lemma map_of_fresh: "fresh_vars n m \<Longrightarrow> map_of m k = Some (a, bits) \<Longrightarrow> \<exists>j \<ge> n. a = LValue j"
  by (auto simp: fresh_vars_def dest!: map_of_SomeD)

lemma insts_of_nodes: "single_valued (nodes_of b) \<Longrightarrow> insts_of (ir_blocks b) i = Some inst \<longleftrightarrow> (i, inst) \<in> nodes_of b"
  unfolding insts_of_def nodes_of_def single_valued_def
  by (metis map_of_SomeD weak_map_of_SomeI not_Some_eq option.inject)

lemma register_variable_fresh: "fresh_vars n m \<Longrightarrow> register_variable regs m off = Some (a, d) \<Longrightarrow> \<exists>j \<ge> n. a = LValue j"
  unfolding register_variable_def using map_of_fresh by (fastforce split: option.splits)

lemma register_variable_found:
  assumes "regs_ok regs" and "covers m slot_offset" and "\<forall>r \<in> set regs. rr_parent r = None \<longrightarrow> covers m (rr_offset r)"
    and "off = slot_offset \<or> off \<in> rr_offset ` set regs"
  shows "register_variable regs m off \<noteq> None"
proof (cases "map_of m (ucast off :: u32)")
  case None
  then obtain r where r: "r \<in> set regs" "rr_offset r = off" using assms(2,4) by (auto simp: covers_def)
  then have "rr_offset r = ucast (ucast off :: u32)" using assms(1) ucast_ucast_u32 [of off] by (auto simp: regs_ok_def)
  then obtain p where p: "sub_to_parent regs (ucast off) = Some p" using sub_to_parent_found [OF r(1)] by blast
  then obtain r' where "r' \<in> set regs" "p = root_of r'" using sub_to_parent_Some by blast
  then have "covers m (rr_offset p)" using assms(1,3) unfolding regs_ok_def by (metis root_of_parent)
  then show ?thesis using None p by (auto simp: register_variable_def covers_def)
qed (auto simp: register_variable_def)

lemma replace_gep_step:
  assumes "replace_inv state n b" and "fresh_vars n m"
  shows "keeps_code state regs' n b (replace_gep state regs m bb i b) \<and> replace_inv state n (replace_gep state regs m bb i b)"
proof (cases "Option.bind (insts_of (ir_blocks b) i) (state_offset state)")
  case None
  then show ?thesis using assms by (simp add: replace_gep_def)
next
  case (Some off)
  then obtain inst where "(i, inst) \<in> nodes_of b" using assms(1) insts_of_nodes [of b i]
    by (auto simp: replace_inv_def numbered_def bind_eq_Some_conv)
  then have i: "LValue i \<noteq> state" using assms(1) by (auto simp: replace_inv_def numbered_def)
  show ?thesis
  proof (cases "register_variable regs m off")
    case None
    then show ?thesis using assms Some by (simp add: replace_gep_def)
  next
    case v: (Some v)
    obtain a d where "v = (a, d)" by fastforce
    then obtain j where j: "j \<ge> n" "v = (LValue j, d)" using register_variable_fresh [OF assms(2)] v by blast
    define b1 where "b1 = (case d of None \<Rightarrow> b | Some d \<Rightarrow> snd (ir_insert (IGep a (Some d)) 0 (set_insert_point (bb, Some i) b)))"
    define k where "k = (case d of None \<Rightarrow> j | Some _ \<Rightarrow> ir_next b)"
    have "replace_gep state regs m bb i b = replace_inst i (LValue k) b1"
      using Some v j \<open>v = (a, d)\<close> by (cases d) (simp_all add: replace_gep_def b1_def k_def case_prod_beta)
    moreover have "LValue k \<noteq> state" using assms(1) j by (cases d) (auto simp: k_def replace_inv_def)
    moreover have "keeps_code state regs' n b (set_insert_point (bb, Some i) b) \<and> numbered state (set_insert_point (bb, Some i) b)"
      using assms(1) by (auto simp: replace_inv_def numbered_def keeps_code_def)
    then have "keeps_code state regs' n b b1 \<and> numbered state b1 \<and> n \<le> ir_next b1"
      using insert_step [of state "set_insert_point (bb, Some i) b" n regs'] same_code_trans assms(1)
      by (cases d) (auto simp: b1_def replace_inv_def intro: same_code_trans)
    ultimately show ?thesis using replace_step [of state b1 i k regs' n] i same_code_trans assms(1)
      by (auto simp: replace_inv_def intro: same_code_trans)
  qed
qed

lemma replace_gep_done:
  assumes "replace_inv state n b" and "fresh_vars n m" and "i < n" and "regs_ok regs" and "covers m slot_offset"
    and "\<forall>r \<in> set regs. rr_parent r = None \<longrightarrow> covers m (rr_offset r)"
    and "(i, inst) \<in> nodes_of (replace_gep state regs m bb i b)"
  shows "\<not> register_address state regs inst"
proof
  assume bad: "register_address state regs inst"
  then obtain inst0 where i0: "(i, inst0) \<in> nodes_of b" "register_address state regs inst0"
    using replace_gep_step [OF assms(1,2)] assms(3,7) unfolding keeps_code_def by blast
  then have "insts_of (ir_blocks b) i = Some inst0" using assms(1) insts_of_nodes by (simp add: replace_inv_def numbered_def)
  moreover obtain off where off: "state_offset state inst0 = Some off" "off = slot_offset \<or> off \<in> rr_offset ` set regs"
    using i0(2) by (auto simp: register_address_def)
  moreover obtain a d where "register_variable regs m off = Some (a, d)"
    using register_variable_found [OF assms(4-6) off(2)] by fastforce
  ultimately have "\<exists>v b1. replace_gep state regs m bb i b = replace_inst i v b1"
    by (cases d) (auto simp: replace_gep_def case_prod_beta)
  then show False using assms(7) by (auto simp: nodes_replace)
qed

lemma replace_geps_done:
  assumes "replace_inv state n b" and "fresh_vars n m" and "regs_ok regs" and "covers m slot_offset"
    and "\<forall>r \<in> set regs. rr_parent r = None \<longrightarrow> covers m (rr_offset r)"
    and "b' = fold (\<lambda>(bb, i). replace_gep state regs m bb i) sites b"
  shows "keeps_code state regs n b b' \<and> replace_inv state n b' \<and>
    (\<forall>(bb, i) \<in> set sites. \<forall>inst. i < n \<longrightarrow> (i, inst) \<in> nodes_of b' \<longrightarrow> \<not> register_address state regs inst)"
  using assms(1,6)
proof (induction sites arbitrary: b)
  case Nil
  then show ?case by simp
next
  case (Cons site sites)
  obtain bb i where site: "site = (bb, i)" by fastforce
  let ?b1 = "replace_gep state regs m bb i b"
  note step = replace_gep_step [OF Cons.prems(1) assms(2), of regs regs bb i]
  have rest: "keeps_code state regs n ?b1 b'" "replace_inv state n b'"
      "\<forall>(bb, i) \<in> set sites. \<forall>inst. i < n \<longrightarrow> (i, inst) \<in> nodes_of b' \<longrightarrow> \<not> register_address state regs inst"
    using Cons.IH [of ?b1] step Cons.prems(2) site by simp_all
  have "\<not> register_address state regs inst" if "i < n" "(i, inst) \<in> nodes_of b'" for inst
    using replace_gep_done [OF Cons.prems(1) assms(2) that(1) assms(3-5)] rest(1) that unfolding keeps_code_def by blast
  then show ?case using rest step site same_code_trans by auto
qed

lemma copy_back_step:
  assumes "replace_inv state n b" and "copy_back state' m bb b = Inr b'"
  shows "keeps_code state regs n b b' \<and> replace_inv state n b'"
proof -
  have step: "keeps_code state regs n b (copy_out state' e c) \<and> replace_inv state n (copy_out state' e c)"
    if c: "keeps_code state regs n b c \<and> replace_inv state n c" for e c
  proof -
    obtain off a bits where e: "e = (off, a, bits)" by (metis prod_cases3)
    have one: "keeps_code state regs n b (snd (ir_insert inst w c)) \<and> replace_inv state n (snd (ir_insert inst w c))"
      if "keeps_code state regs n b c \<and> replace_inv state n c" for inst w c
      using insert_step [of state c n regs inst w] that same_code_trans unfolding replace_inv_def by (metis ir_insert_next le_SucI)
    show ?thesis unfolding copy_out_def e by (simp add: case_prod_beta one c)
  qed
  have many: "keeps_code state regs n b (fold (copy_out state') xs c) \<and> replace_inv state n (fold (copy_out state') xs c)"
    if "keeps_code state regs n b c \<and> replace_inv state n c" for xs c
    using that by (induction xs arbitrary: c) (simp_all add: step)
  have "keeps_code state regs n b (set_insert_point ip b) \<and> replace_inv state n (set_insert_point ip b)" for ip
    using assms(1) by (auto simp: keeps_code_def replace_inv_def numbered_def)
  then show ?thesis using assms many [of "set_insert_point _ b" m]
    by (auto simp: copy_back_def Let_def split: if_splits ir_inst.splits)
qed

lemma gep_sites_iff: "(bb, i) \<in> set (gep_sites b) \<longleftrightarrow> 1 \<le> bb \<and> bb < length (ir_blocks b) \<and> i \<in> fst ` set (ir_blocks b ! bb)"
  by (auto simp: gep_sites_def image_iff)

lemma old_nodes_are_sites:
  assumes "at_entry n b" and "(i, inst) \<in> nodes_of b" and "i < n"
  shows "\<exists>bb. (bb, i) \<in> set (gep_sites b)"
proof -
  obtain bb where bb: "bb < length (ir_blocks b)" "(i, inst) \<in> set (ir_blocks b ! bb)"
    using assms(2) by (auto simp: nodes_of_def in_set_conv_nth [of _ "ir_blocks b"])
  have "bb \<noteq> 0" using bb assms(1,3) by (cases bb) (auto simp: at_entry_def)
  moreover have "i \<in> fst ` set (ir_blocks b ! bb)" using bb(2) by force
  ultimately have "(bb, i) \<in> set (gep_sites b)" using bb(1) by (simp add: gep_sites_iff)
  then show ?thesis by blast
qed


text \<open>A function that loads the second byte of a register with two names.\<close>

definition demo_rax :: remill_register where
  "demo_rax = Remill_register ''RAX'' 2216 8 None"

definition demo_registers :: "remill_register list" where
  "demo_registers = [demo_rax, Remill_register ''EAX'' 2216 4 (Some demo_rax), Remill_register ''AH'' 2217 1 (Some demo_rax)]"

definition demo_load_ah :: ir_builder where
  "demo_load_ah =
     \<lparr>ir_next = 20, ir_sizes = (\<lambda>_. 8), ir_names = (\<lambda>_. None),
      ir_blocks = [[(10, IGep (LValue 9) (Some 2217)), (11, ILoad 8 (LValue 10)), (12, IRet (LValue 11))]],
      ir_ip = (0, None), insert_points = [], to_delete = []\<rparr>"

lemmas demo_state2alloca_defs = demo_load_ah_def demo_registers_def demo_rax_def state2alloca_def entry_block_def basic_block_def
  set_insert_point_def move_to_front_def moved_to_def create_alloca_def init_alloca_def copy_in_def ir_insert_def Let_def
  replace_geps_def gep_sites_def replace_gep_def insts_of_def state_offset_def register_variable_def sub_to_parent_def replace_inst_def
  eraseFromParent_def replaceAllUsesWith_def subst_value_def copy_back_def copy_out_def slot_offset_def

definition demo_load_ah_after :: ir_builder where
  "demo_load_ah_after =
     \<lparr>ir_next = 36,
      ir_sizes = (\<lambda>_. 8)(20 := 0, 21 := 0, 22 := 32, 23 := 0, 24 := 0, 25 := 0, 26 := 64, 27 := 0, 28 := 0, 29 := 0,
        30 := 0, 31 := 64, 32 := 0, 33 := 0, 34 := 32, 35 := 0),
      ir_names = (\<lambda>_. None),
      ir_blocks =
        [[(20, IAlloca 4), (21, IGep (LValue 9) (Some 2080)), (22, ILoad 32 (LValue 21)), (23, IStore (LValue 22) (LValue 20)),
          (24, IAlloca 8), (25, IGep (LValue 9) (Some 2216)), (26, ILoad 64 (LValue 25)), (27, IStore (LValue 26) (LValue 24)),
          (28, IBr 1)],
         [(29, IGep (LValue 24) (Some 1)), (11, ILoad 8 (LValue 29)),
          (30, IGep (LValue 9) (Some 2216)), (31, ILoad 64 (LValue 24)), (32, IStore (LValue 31) (LValue 30)),
          (33, IGep (LValue 9) (Some 2080)), (34, ILoad 32 (LValue 20)), (35, IStore (LValue 34) (LValue 33)),
          (12, IRet (LValue 11))]],
      ir_ip = (1, Some 12), insert_points = [], to_delete = []\<rparr>"

lemma demo_state2alloca: "state2alloca rev (LValue 9) demo_registers demo_load_ah = Inr (True, demo_load_ah_after)"
  by (simp add: demo_state2alloca_defs demo_load_ah_after_def upt_rec)

lemma demo_load_ah_numbered: "numbered (LValue 9) demo_load_ah"
  by (auto simp: numbered_def demo_load_ah_def nodes_of_def single_valued_def)

lemma demo_registers_ok: "regs_ok demo_registers"
  by (simp add: regs_ok_def demo_registers_def demo_rax_def)


end
