(* ===== verification/State2alloca_Correct.thy ===== *)
theory State2alloca_Correct
  imports State2alloca
begin

text \<open>
  State2alloca keeps the meaning of a function: what the pass makes of the blocks, as an equation, and a simulation of every
  path of the function by the same path behind the new entry block.
\<close>

section \<open>What replacing register addresses does to the blocks\<close>

text \<open>A replacement gives for an instruction that is erased the value that stands for it and the instructions in its place.\<close>

type_synonym replacement = "nat \<rightharpoonup> llvm_value \<times> ir_node list"

definition repl_value :: "replacement \<Rightarrow> llvm_value \<Rightarrow> llvm_value" where
  "repl_value \<rho> v =
     (case v of LConstantInt w c \<Rightarrow> v | LValue j \<Rightarrow> (case \<rho> j of Some (u, new) \<Rightarrow> u | None \<Rightarrow> v))"

fun repl_node :: "replacement \<Rightarrow> ir_node \<Rightarrow> ir_node list" where
  "repl_node \<rho> (j, inst) = (case \<rho> j of Some (u, new) \<Rightarrow> new | None \<Rightarrow> [(j, map_operands (repl_value \<rho>) inst)])"

definition repl_nodes :: "replacement \<Rightarrow> ir_node list \<Rightarrow> ir_node list" where
  "repl_nodes \<rho> ns = concat (map (repl_node \<rho>) ns)"

lemma repl_nodes_simps [simp]:
  "repl_nodes \<rho> [] = []" "repl_nodes \<rho> (x # xs) = repl_node \<rho> x @ repl_nodes \<rho> xs"
  "repl_nodes \<rho> (xs @ ys) = repl_nodes \<rho> xs @ repl_nodes \<rho> ys"
  by (simp_all add: repl_nodes_def)

text \<open>The new instructions are new: their numbers and operands, and the values, are not below \<open>n\<close>.\<close>

definition new_node :: "nat \<Rightarrow> ir_node \<Rightarrow> bool" where
  "new_node n node \<longleftrightarrow> n \<le> fst node \<and> (\<forall>v \<in> set (operands (snd node)). \<exists>k \<ge> n. v = LValue k)"

definition fresh_repl :: "nat \<Rightarrow> replacement \<Rightarrow> bool" where
  "fresh_repl n \<rho> \<longleftrightarrow>
     (\<forall>j u new. \<rho> j = Some (u, new) \<longrightarrow> j < n \<and> (\<exists>k \<ge> n. u = LValue k) \<and> list_all (new_node n) new)"

lemma repl_value_update:
  assumes "fresh_repl n \<rho>" and "i < n" and "\<rho> i = None"
  shows "subst_value (LValue i) u (repl_value \<rho> v) = repl_value (\<rho>(i \<mapsto> (u, new))) v"
  using assms by (cases v) (fastforce simp: repl_value_def subst_value_def fresh_repl_def split: option.split)+

lemma new_node_subst: "new_node n (j, inst) \<Longrightarrow> i < n \<Longrightarrow> map_operands (subst_value (LValue i) u) inst = inst"
  by (intro map_operands_unchanged) (auto simp: new_node_def subst_value_def)

abbreviation subst_nodes :: "nat \<Rightarrow> llvm_value \<Rightarrow> ir_node list \<Rightarrow> ir_node list" where
  "subst_nodes i u \<equiv> map (\<lambda>(j, inst). (j, map_operands (subst_value (LValue i) u) inst))"

abbreviation without :: "nat \<Rightarrow> ir_node list \<Rightarrow> ir_node list" where
  "without i \<equiv> filter (\<lambda>node. fst node \<noteq> i)"

lemma new_nodes_unchanged: "list_all (new_node n) new \<Longrightarrow> i < n \<Longrightarrow> without i (subst_nodes i u new) = new"
  by (induction new) (auto simp: new_node_subst, auto simp: new_node_def)

lemma repl_nodes_update:
  assumes "fresh_repl n \<rho>" and "i < n" and "\<rho> i = None" and "i \<notin> fst ` set ns"
  shows "without i (subst_nodes i u (repl_nodes \<rho> ns)) = repl_nodes (\<rho>(i \<mapsto> (u, new))) ns"
  using assms(4)
proof (induction ns)
  case (Cons x ns)
  obtain j inst where x: "x = (j, inst)" by fastforce
  have "without i (subst_nodes i u (repl_node \<rho> x)) = repl_node (\<rho>(i \<mapsto> (u, new))) x"
  proof (cases "\<rho> j")
    case None
    then show ?thesis using x Cons.prems
      by (simp add: map_operands_comp repl_value_update [OF assms(1-3), of u _ new])
  next
    case (Some p)
    then show ?thesis using x Cons.prems assms(1,2) new_nodes_unchanged [of n "snd p" i u]
      by (cases p) (auto simp: fresh_repl_def)
  qed
  then show ?case using Cons by (simp add: fun_upd_def)
qed simp

lemma repl_nodes_ids: "fresh_repl n \<rho> \<Longrightarrow> i < n \<Longrightarrow> i \<in> fst ` set (repl_nodes \<rho> ns) \<Longrightarrow> i \<in> fst ` set ns"
proof (induction ns)
  case (Cons x ns)
  then show ?case by (cases x) (fastforce simp: fresh_repl_def list_all_iff new_node_def split: option.splits prod.splits)
qed simp

lemma insert_before_at:
  "i \<notin> fst ` set xs \<Longrightarrow> insert_before (Some i) node (xs @ (i, inst) # ys) = xs @ node # (i, inst) # ys"
  by (induction xs) auto

text \<open>One step of the loop, in the block of the instruction.\<close>

lemma repl_nodes_site:
  assumes "fresh_repl n \<rho>" and "i < n" and "\<rho> i = None" and "ns = xs @ (i, inst) # ys" and "distinct (map fst ns)"
    and "new = [] \<and> ns' = repl_nodes \<rho> ns \<or> (\<exists>x. new = [x] \<and> new_node n x \<and> ns' = insert_before (Some i) x (repl_nodes \<rho> ns))"
  shows "without i (subst_nodes i u ns') = repl_nodes (\<rho>(i \<mapsto> (u, new))) ns"
proof -
  have i: "i \<notin> fst ` set xs" "i \<notin> fst ` set ys" using assms(4,5) by auto
  have "i \<notin> fst ` set (repl_nodes \<rho> xs)" using repl_nodes_ids assms(1,2) i(1) by blast
  then have "ns' = repl_nodes \<rho> xs @ new @ (i, map_operands (repl_value \<rho>) inst) # repl_nodes \<rho> ys"
    using assms(3,4,6) insert_before_at by auto
  moreover have "without i (subst_nodes i u new) = new"
    using assms(2,6) by (intro new_nodes_unchanged) auto
  moreover have "repl_node (\<rho>(i \<mapsto> (u, new))) (i, inst) = new" by simp
  ultimately show ?thesis using repl_nodes_update [OF assms(1-3)] i assms(4) by simp
qed

text \<open>The whole loop. \<open>b1\<close> is the function with its new entry block, \<open>n\<close> the first number that the pass gives.\<close>

definition variable_for :: "llvm_value \<Rightarrow> remill_register list \<Rightarrow> alloca_map \<Rightarrow> ir_inst \<Rightarrow> (llvm_value \<times> u64 option) option" where
  "variable_for state regs m inst = Option.bind (state_offset state inst) (register_variable regs m)"

definition replacement_ok :: "llvm_value \<Rightarrow> remill_register list \<Rightarrow> alloca_map \<Rightarrow> ir_builder \<Rightarrow> ir_builder \<Rightarrow> replacement \<Rightarrow> bool" where
  "replacement_ok state regs m b1 b \<rho> \<longleftrightarrow>
     (\<forall>j u new. \<rho> j = Some (u, new) \<longrightarrow>
        (\<exists>inst a d. (j, inst) \<in> nodes_of b1 \<and> variable_for state regs m inst = Some (a, d) \<and>
           (case d of None \<Rightarrow> u = a \<and> new = []
            | Some d \<Rightarrow> \<exists>g. ir_next b1 \<le> g \<and> g < ir_next b \<and> u = LValue g \<and> new = [(g, IGep a (Some d))])))"

definition new_ids :: "replacement \<Rightarrow> nat \<Rightarrow> nat set" where
  "new_ids \<rho> j = (case \<rho> j of Some (u, new) \<Rightarrow> fst ` set new | None \<Rightarrow> {})"

definition replaced_blocks ::
  "llvm_value \<Rightarrow> remill_register list \<Rightarrow> alloca_map \<Rightarrow> nat \<Rightarrow> ir_builder \<Rightarrow> replacement \<Rightarrow> ir_builder \<Rightarrow> bool" where
  "replaced_blocks state regs m n b1 \<rho> b \<longleftrightarrow>
     length (ir_blocks b) = length (ir_blocks b1) \<and> ir_blocks b ! 0 = ir_blocks b1 ! 0 \<and>
     (\<forall>bb. 0 < bb \<longrightarrow> bb < length (ir_blocks b1) \<longrightarrow> ir_blocks b ! bb = repl_nodes \<rho> (ir_blocks b1 ! bb)) \<and>
     ir_next b1 \<le> ir_next b \<and> (\<forall>j < ir_next b1. ir_sizes b j = ir_sizes b1 j) \<and> to_delete b = to_delete b1 \<and>
     fresh_repl n \<rho> \<and> replacement_ok state regs m b1 b \<rho> \<and> (\<forall>j j'. j \<noteq> j' \<longrightarrow> new_ids \<rho> j \<inter> new_ids \<rho> j' = {}) \<and>
     replace_inv state n b"

text \<open>What the loop relies on in the function it starts from.\<close>

definition entry_ok :: "llvm_value \<Rightarrow> nat \<Rightarrow> ir_builder \<Rightarrow> bool" where
  "entry_ok state n b1 \<longleftrightarrow>
     replace_inv state n b1 \<and> ir_blocks b1 \<noteq> [] \<and> distinct (map fst (concat (tl (ir_blocks b1)))) \<and>
     (\<forall>x \<in> set (concat (tl (ir_blocks b1))). fst x < n) \<and>
     (\<forall>x \<in> set (ir_blocks b1 ! 0). n \<le> fst x \<and> (\<forall>v \<in> set (operands (snd x)). v = state \<or> (\<exists>k \<ge> n. v = LValue k)))"

lemma entry_block_kept:
  assumes "entry_ok state n b1" and "i < n" and "LValue i \<noteq> state"
  shows "without i (subst_nodes i u (ir_blocks b1 ! 0)) = ir_blocks b1 ! 0"
proof -
  have old: "\<forall>x \<in> set ns. n \<le> fst x \<and> (\<forall>v \<in> set (operands (snd x)). v = state \<or> (\<exists>k \<ge> n. v = LValue k)) \<Longrightarrow>
      without i (subst_nodes i u ns) = ns" for ns
  proof (induction ns)
    case (Cons x ns)
    have "map_operands (subst_value (LValue i) u) (snd x) = snd x"
      using Cons.prems assms(2,3) by (intro map_operands_unchanged) (auto simp: subst_value_def)
    then show ?case using Cons assms(2) by (cases x) auto
  qed simp
  show ?thesis using assms(1) by (intro old) (simp add: entry_ok_def)
qed

lemma state_offset_repl:
  assumes "fresh_repl n \<rho>" and "state = LValue k" and "k < n" and "\<rho> k = None"
  shows "state_offset state (map_operands (repl_value \<rho>) inst) = state_offset state inst"
proof -
  have "repl_value \<rho> p = state \<longleftrightarrow> p = state" for p
    using assms by (fastforce simp: repl_value_def fresh_repl_def split: llvm_value.splits option.splits)
  moreover have "gep_offset (repl_value \<rho> p) = gep_offset p" for p
    using assms(1) by (fastforce simp: repl_value_def fresh_repl_def gep_offset_def split: llvm_value.splits option.splits)
  ultimately show ?thesis by (cases inst) (simp_all add: state_offset_def)
qed

lemma replaced_block_nodes:
  assumes "replaced_blocks state regs m n b1 \<rho> b" and "(i, inst) \<in> set (ir_blocks b1 ! bb)" and "0 < bb" and "bb < length (ir_blocks b1)"
    and "\<rho> i = None"
  shows "insts_of (ir_blocks b) i = Some (map_operands (repl_value \<rho>) inst)"
proof -
  have "repl_node \<rho> (i, inst) = [(i, map_operands (repl_value \<rho>) inst)]" using assms(5) by simp
  then have "(i, map_operands (repl_value \<rho>) inst) \<in> set (repl_nodes \<rho> (ir_blocks b1 ! bb))"
    using assms(2) unfolding repl_nodes_def by force
  then have "(i, map_operands (repl_value \<rho>) inst) \<in> nodes_of b"
    using assms(1,3,4) unfolding replaced_blocks_def nodes_of_def by (metis UN_I nth_mem set_concat)
  then show ?thesis using assms(1) insts_of_nodes by (auto simp: replaced_blocks_def replace_inv_def numbered_def)
qed

lemma tl_block: "xss \<noteq> [] \<Longrightarrow> 0 < bb \<Longrightarrow> bb < length xss \<Longrightarrow> xss ! bb \<in> set (tl xss)"
  by (cases xss) (auto simp: nth_Cons split: nat.splits)

lemma site_unique:
  assumes "distinct (map fst (concat xss))" and "(i, inst) \<in> set (xss ! k)" and "k < length xss" and "k' < length xss" and "k \<noteq> k'"
  shows "i \<notin> fst ` set (xss ! k')"
  using assms
proof (induction xss arbitrary: k k')
  case (Cons ns xss)
  have parts: "set (xss ! j) \<subseteq> set (concat xss)" if "j < length xss" for j using nth_mem [OF that] by auto
  have apart: "fst ` set ns \<inter> fst ` set (concat xss) = {}" using Cons.prems(1) by simp
  show ?case
  proof (cases k)
    case 0
    then obtain l where l: "k' = Suc l" "l < length xss" using Cons.prems by (cases k') auto
    have "i \<in> fst ` set ns" using Cons.prems(2) 0 by force
    moreover have "fst ` set (xss ! l) \<subseteq> fst ` set (concat xss)" using parts [OF l(2)] by (rule image_mono)
    ultimately show ?thesis using apart l(1) by auto
  next
    case (Suc j)
    then have j: "j < length xss" "(i, inst) \<in> set (xss ! j)" using Cons.prems by auto
    show ?thesis
    proof (cases k')
      case 0
      have "i \<in> fst ` set (concat xss)" using j parts [OF j(1)] by (metis fst_conv image_eqI subsetD)
      then show ?thesis using apart 0 by auto
    next
      case (Suc l)
      then show ?thesis using Cons.IH [of j l] Cons.prems j \<open>k = Suc j\<close> by simp
    qed
  qed
qed simp

text \<open>What an address is replaced by when the next number is \<open>g\<close>.\<close>

definition new_value :: "nat \<Rightarrow> llvm_value \<Rightarrow> u64 option \<Rightarrow> llvm_value" where
  "new_value g a d = (case d of None \<Rightarrow> a | Some _ \<Rightarrow> LValue g)"

definition replacing_nodes :: "nat \<Rightarrow> llvm_value \<Rightarrow> u64 option \<Rightarrow> ir_node list" where
  "replacing_nodes g a d = (case d of None \<Rightarrow> [] | Some d \<Rightarrow> [(g, IGep a (Some d))])"

lemma replacement_ok_update:
  assumes ok: "replacement_ok state regs m b1 b \<rho>" and node: "(i, inst) \<in> nodes_of b1" "variable_for state regs m inst = Some (a, d)"
    and le: "ir_next b1 \<le> ir_next b" "ir_next b \<le> ir_next b'" "d \<noteq> None \<Longrightarrow> ir_next b < ir_next b'"
  shows "replacement_ok state regs m b1 b' (\<rho>(i \<mapsto> (new_value (ir_next b) a d, replacing_nodes (ir_next b) a d)))"
  unfolding replacement_ok_def
proof (intro allI impI)
  fix j u new assume at: "(\<rho>(i \<mapsto> (new_value (ir_next b) a d, replacing_nodes (ir_next b) a d))) j = Some (u, new)"
  show "\<exists>inst a d. (j, inst) \<in> nodes_of b1 \<and> variable_for state regs m inst = Some (a, d) \<and>
      (case d of None \<Rightarrow> u = a \<and> new = []
       | Some d \<Rightarrow> \<exists>g. ir_next b1 \<le> g \<and> g < ir_next b' \<and> u = LValue g \<and> new = [(g, IGep a (Some d))])"
  proof (cases "j = i")
    case True
    then show ?thesis using at node le
      by (intro exI [of _ inst] exI [of _ a] exI [of _ d]) (auto simp: new_value_def replacing_nodes_def split: option.splits)
  next
    case False
    then have "\<rho> j = Some (u, new)" using at by simp
    then obtain inst2 a2 d2 where "(j, inst2) \<in> nodes_of b1" "variable_for state regs m inst2 = Some (a2, d2)"
        "case d2 of None \<Rightarrow> u = a2 \<and> new = []
         | Some d \<Rightarrow> \<exists>g. ir_next b1 \<le> g \<and> g < ir_next b \<and> u = LValue g \<and> new = [(g, IGep a2 (Some d))]"
      using ok unfolding replacement_ok_def by blast
    then show ?thesis using le(2) by (intro exI [of _ inst2] exI [of _ a2] exI [of _ d2]) (auto split: option.splits)
  qed
qed

lemma replacement_ok_node: "replacement_ok state regs m b1 b \<rho> \<Longrightarrow> \<rho> j \<noteq> None \<Longrightarrow> \<exists>inst. (j, inst) \<in> nodes_of b1"
  unfolding replacement_ok_def by (cases "\<rho> j") fastforce+

lemma new_ids_below:
  assumes "replacement_ok state regs m b1 b \<rho>"
  shows "new_ids \<rho> j \<subseteq> {..<ir_next b}"
proof (cases "\<rho> j")
  case (Some p)
  obtain u new where p: "p = (u, new)" by fastforce
  then obtain d :: "u64 option" and a where "case d of None \<Rightarrow> u = a \<and> new = []
      | Some d \<Rightarrow> \<exists>g. ir_next b1 \<le> g \<and> g < ir_next b \<and> u = LValue g \<and> new = [(g, IGep a (Some d))]"
    using assms Some unfolding replacement_ok_def by blast
  then show ?thesis using Some p by (auto simp: new_ids_def split: option.splits)
qed (simp add: new_ids_def)

lemma new_ids_update:
  assumes "\<forall>j j'. j \<noteq> j' \<longrightarrow> new_ids \<rho> j \<inter> new_ids \<rho> j' = {}" and "\<And>j. new_ids \<rho> j \<subseteq> {..<g}"
  shows "\<forall>j j'. j \<noteq> j' \<longrightarrow> new_ids (\<rho>(i \<mapsto> (u, replacing_nodes g a d))) j \<inter> new_ids (\<rho>(i \<mapsto> (u, replacing_nodes g a d))) j' = {}"
proof (intro allI impI)
  fix j1 j2 :: nat assume "j1 \<noteq> j2"
  moreover have "new_ids (\<rho>(i \<mapsto> (u, replacing_nodes g a d))) i \<subseteq> {g}" by (auto simp: new_ids_def replacing_nodes_def split: option.splits)
  moreover have "new_ids (\<rho>(i \<mapsto> (u, replacing_nodes g a d))) j = new_ids \<rho> j" if "j \<noteq> i" for j using that by (simp add: new_ids_def)
  ultimately show "new_ids (\<rho>(i \<mapsto> (u, replacing_nodes g a d))) j1 \<inter> new_ids (\<rho>(i \<mapsto> (u, replacing_nodes g a d))) j2 = {}"
    using assms(1) assms(2) [of j1] assms(2) [of j2] by (cases "j1 = i"; cases "j2 = i") force+
qed

lemma site_in_other_block:
  assumes entry: "entry_ok state n b1" and bb: "0 < bb" "bb < length (ir_blocks b1)" "(i, inst) \<in> set (ir_blocks b1 ! bb)"
    and bb': "0 < bb'" "bb' < length (ir_blocks b1)" "bb' \<noteq> bb"
  shows "i \<notin> fst ` set (ir_blocks b1 ! bb')"
proof -
  obtain l l' where l: "bb = Suc l" "bb' = Suc l'" using bb(1) bb'(1) by (metis gr0_implies_Suc)
  have "i \<notin> fst ` set (tl (ir_blocks b1) ! l')"
    by (rule site_unique [of "tl (ir_blocks b1)" i inst l]) (use entry bb bb' l in \<open>auto simp: entry_ok_def nth_tl\<close>)
  then show ?thesis using l bb' by (simp add: nth_tl)
qed

text \<open>The blocks after an address was replaced by \<open>u\<close> and the instructions \<open>new\<close>.\<close>

lemma replaced_site_blocks:
  fixes u :: llvm_value
  assumes entry: "entry_ok state n b1" and inv: "replaced_blocks state regs m n b1 \<rho> b"
    and site: "0 < bb" "bb < length (ir_blocks b1)" "(i, inst) \<in> set (ir_blocks b1 ! bb)" and i: "\<rho> i = None" "i < n" "LValue i \<noteq> state"
    and new: "new = [] \<and> ns = ir_blocks b ! bb \<or> (\<exists>x. new = [x] \<and> new_node n x \<and> ns = insert_before (Some i) x (ir_blocks b ! bb))"
  defines "blocks \<equiv> map (\<lambda>ns. without i (subst_nodes i u ns)) ((ir_blocks b)[bb := ns])"
  shows "blocks ! 0 = ir_blocks b1 ! 0"
    and "\<forall>bb'. 0 < bb' \<longrightarrow> bb' < length (ir_blocks b1) \<longrightarrow> blocks ! bb' = repl_nodes (\<rho>(i \<mapsto> (u, new))) (ir_blocks b1 ! bb')"
proof -
  have len: "length (ir_blocks b) = length (ir_blocks b1)" "0 < length (ir_blocks b1)" using inv site(2) by (simp add: replaced_blocks_def, linarith)
  have fresh: "fresh_repl n \<rho>" using inv by (simp add: replaced_blocks_def)
  show "blocks ! 0 = ir_blocks b1 ! 0"
    using entry_block_kept [OF entry i(2,3)] len site(1) inv by (simp add: blocks_def replaced_blocks_def)
  show "\<forall>bb'. 0 < bb' \<longrightarrow> bb' < length (ir_blocks b1) \<longrightarrow> blocks ! bb' = repl_nodes (\<rho>(i \<mapsto> (u, new))) (ir_blocks b1 ! bb')"
  proof (intro allI impI)
    fix bb' assume bb': "0 < bb'" "bb' < length (ir_blocks b1)"
    have old: "ir_blocks b ! bb' = repl_nodes \<rho> (ir_blocks b1 ! bb')" using inv bb' by (simp add: replaced_blocks_def)
    show "blocks ! bb' = repl_nodes (\<rho>(i \<mapsto> (u, new))) (ir_blocks b1 ! bb')"
    proof (cases "bb' = bb")
      case True
      obtain xs ys where split: "ir_blocks b1 ! bb = xs @ (i, inst) # ys" using site(3) by (meson split_list)
      have "ir_blocks b1 ! bb \<in> set (tl (ir_blocks b1))" using len site by (intro tl_block) auto
      then have dis: "distinct (map fst (ir_blocks b1 ! bb))" using entry
        unfolding entry_ok_def map_concat by (metis (no_types, lifting) distinct_concat_iff image_eqI list.set_map)
      have "without i (subst_nodes i u ns) = repl_nodes (\<rho>(i \<mapsto> (u, new))) (ir_blocks b1 ! bb)"
        by (rule repl_nodes_site [OF fresh i(2,1) split dis]) (use new old True in simp)
      then show ?thesis using True bb' len by (simp add: blocks_def)
    next
      case False
      from repl_nodes_update [OF fresh i(2,1) site_in_other_block [OF entry site bb' False], of u new] show ?thesis
        using False bb' len old by (simp add: blocks_def)
    qed
  qed
qed

lemma replace_gep_blocks:
  assumes entry: "entry_ok state n b1" and inv: "replaced_blocks state regs m n b1 \<rho> b" and vars: "fresh_vars n m"
    and site: "0 < bb" "bb < length (ir_blocks b1)" "(i, inst) \<in> set (ir_blocks b1 ! bb)" and undone: "\<rho> i = None"
  obtains \<rho>' where "replaced_blocks state regs m n b1 \<rho>' (replace_gep state regs m bb i b)"
    and "dom \<rho>' = (if variable_for state regs m inst = None then dom \<rho> else insert i (dom \<rho>))"
proof -
  obtain k where k: "state = LValue k" "k < n" using entry by (auto simp: entry_ok_def replace_inv_def)
  have node: "(i, inst) \<in> nodes_of b1" using site unfolding nodes_of_def by (metis UN_I nth_mem set_concat)
  have i: "LValue i \<noteq> state" using node entry by (auto simp: entry_ok_def replace_inv_def numbered_def)
  have tl: "ir_blocks b1 ! bb \<in> set (tl (ir_blocks b1))" using entry site by (intro tl_block) (auto simp: entry_ok_def)
  have lt: "i < n" using entry tl site(3) unfolding entry_ok_def by (metis UN_I fst_conv set_concat)
  have fresh: "fresh_repl n \<rho>" and ok: "replacement_ok state regs m b1 b \<rho>" using inv by (simp_all add: replaced_blocks_def)
  have "\<rho> k = None"
    using replacement_ok_node [OF ok, of k] entry k(1) by (fastforce simp: entry_ok_def replace_inv_def numbered_def)
  note off = state_offset_repl [OF fresh k this]
  note insts = replaced_block_nodes [OF inv site(3,1,2) undone]
  let ?b' = "replace_gep state regs m bb i b" and ?g = "ir_next b"
  show thesis
  proof (cases "variable_for state regs m inst")
    case None
    then have "?b' = b" using insts off by (auto simp: replace_gep_def variable_for_def split: option.splits bind_splits)
    then show thesis using that inv None by simp
  next
    case (Some v)
    then obtain a d o' where v: "v = (a, d)" and o': "state_offset state inst = Some o'" "register_variable regs m o' = Some (a, d)"
      by (cases v) (auto simp: variable_for_def bind_eq_Some_conv)
    obtain j where j: "n \<le> j" "a = LValue j" using register_variable_fresh [OF vars o'(2)] by blast
    let ?u = "new_value ?g a d" and ?new = "replacing_nodes ?g a d"
    define b2 where "b2 = (case d of None \<Rightarrow> b | Some d \<Rightarrow> snd (ir_insert (IGep a (Some d)) 0 (set_insert_point (bb, Some i) b)))"
    have step: "?b' = replace_inst i ?u b2"
      using insts off o' by (cases d) (simp_all add: replace_gep_def b2_def new_value_def case_prod_beta)
    have le: "n \<le> ?g" "ir_next b1 \<le> ?g" "?g \<le> ir_next ?b'" "d \<noteq> None \<Longrightarrow> ?g < ir_next ?b'"
      using entry inv unfolding step b2_def by (cases d; simp add: entry_ok_def replace_inv_def replaced_blocks_def)+
    define ns where "ns = (case d of None \<Rightarrow> ir_blocks b ! bb | Some d \<Rightarrow> insert_before (Some i) (?g, IGep a (Some d)) (ir_blocks b ! bb))"
    have "ir_blocks b2 = (ir_blocks b)[bb := ns]"
      by (cases d) (simp_all add: b2_def ns_def ir_insert_def Let_def set_insert_point_def)
    then have blocks: "ir_blocks ?b' = map (\<lambda>ns. without i (subst_nodes i ?u ns)) ((ir_blocks b)[bb := ns])"
      unfolding step by (simp add: replace_inst_def eraseFromParent_def replaceAllUsesWith_def comp_def)
    have "?new = [] \<and> ns = ir_blocks b ! bb \<or> (\<exists>x. ?new = [x] \<and> new_node n x \<and> ns = insert_before (Some i) x (ir_blocks b ! bb))"
      using j le by (cases d) (simp_all add: replacing_nodes_def ns_def new_node_def)
    note sites = replaced_site_blocks [OF entry inv site undone lt i this, of ?u, folded blocks]
    have "fresh_repl n (\<rho>(i \<mapsto> (?u, ?new)))"
      using fresh lt j le by (auto simp: fresh_repl_def replacing_nodes_def new_value_def new_node_def split: option.splits)
    moreover have "\<forall>j < ir_next b1. ir_sizes ?b' j = ir_sizes b1 j" "to_delete ?b' = to_delete b1"
      using inv le unfolding step b2_def replaced_blocks_def
      by (cases d; simp add: replace_inst_def eraseFromParent_def replaceAllUsesWith_def ir_insert_def set_insert_point_def Let_def)+
    moreover have "replace_inv state n ?b'" using replace_gep_step [OF _ vars] inv by (simp add: replaced_blocks_def)
    moreover have "\<forall>j j'. j \<noteq> j' \<longrightarrow> new_ids \<rho> j \<inter> new_ids \<rho> j' = {}" using inv by (simp add: replaced_blocks_def)
    note new_ids_update [OF this new_ids_below [OF ok], of i ?u a d]
    ultimately have "replaced_blocks state regs m n b1 (\<rho>(i \<mapsto> (?u, ?new))) ?b'"
      using sites replacement_ok_update [OF ok node Some [unfolded v] le(2-4)] le inv blocks unfolding replaced_blocks_def by simp
    then show thesis using that [of "\<rho>(i \<mapsto> (?u, ?new))"] Some by simp
  qed
qed

lemma replace_sites_blocks:
  assumes "entry_ok state n b1" and "fresh_vars n m" and "replaced_blocks state regs m n b1 \<rho> b"
    and "\<forall>(bb, i) \<in> set sites. 0 < bb \<and> bb < length (ir_blocks b1) \<and> i \<in> fst ` set (ir_blocks b1 ! bb) \<and> \<rho> i = None"
    and "distinct (map snd sites)"
  shows "\<exists>\<rho>'. replaced_blocks state regs m n b1 \<rho>' (fold (\<lambda>(bb, i). replace_gep state regs m bb i) sites b) \<and>
    (\<forall>i \<in> dom \<rho>'. i \<in> dom \<rho> \<or> i \<in> snd ` set sites) \<and> dom \<rho> \<subseteq> dom \<rho>' \<and>
    (\<forall>(bb, i) \<in> set sites. \<forall>inst. (i, inst) \<in> set (ir_blocks b1 ! bb) \<longrightarrow> (\<rho>' i = None \<longleftrightarrow> variable_for state regs m inst = None))"
  using assms(3-)
proof (induction sites arbitrary: b \<rho>)
  case Nil
  then show ?case by auto
next
  case (Cons site sites)
  obtain bb i where site: "site = (bb, i)" by fastforce
  then obtain inst where at: "0 < bb" "bb < length (ir_blocks b1)" "(i, inst) \<in> set (ir_blocks b1 ! bb)" "\<rho> i = None"
    using Cons.prems(2) by auto
  obtain \<rho>1 where r1: "replaced_blocks state regs m n b1 \<rho>1 (replace_gep state regs m bb i b)"
      "dom \<rho>1 = (if variable_for state regs m inst = None then dom \<rho> else insert i (dom \<rho>))"
    using replace_gep_blocks [OF assms(1) Cons.prems(1) assms(2) at] by blast
  have fresh: "i \<notin> snd ` set sites" using Cons.prems(3) site by auto
  have "\<rho>1 j = None" if "(bb', j) \<in> set sites" for bb' j
  proof -
    have "j \<noteq> i" "\<rho> j = None" using that fresh Cons.prems(2) by force+
    then have "j \<notin> dom \<rho>1" using r1(2) by auto
    then show ?thesis by (cases "\<rho>1 j") (auto simp: dom_def)
  qed
  then have "\<forall>(bb, i) \<in> set sites. 0 < bb \<and> bb < length (ir_blocks b1) \<and> i \<in> fst ` set (ir_blocks b1 ! bb) \<and> \<rho>1 i = None"
    using Cons.prems(2) by auto
  from Cons.IH [OF r1(1) this] Cons.prems(3) obtain \<rho>' where r:
    "replaced_blocks state regs m n b1 \<rho>' (fold (\<lambda>(bb, i). replace_gep state regs m bb i) (site # sites) b)"
    "\<forall>i \<in> dom \<rho>'. i \<in> dom \<rho>1 \<or> i \<in> snd ` set sites" "dom \<rho>1 \<subseteq> dom \<rho>'"
    "\<forall>(bb, i) \<in> set sites. \<forall>inst. (i, inst) \<in> set (ir_blocks b1 ! bb) \<longrightarrow> (\<rho>' i = None \<longleftrightarrow> variable_for state regs m inst = None)"
    unfolding site by auto
  have "\<rho>' i = None \<longleftrightarrow> i \<notin> dom \<rho>1" using r(2,3) fresh by auto
  then have this_site: "\<rho>' i = None \<longleftrightarrow> variable_for state regs m inst = None" using r1(2) at(4) by auto
  have same: "inst' = inst" if "(i, inst') \<in> set (ir_blocks b1 ! bb)" for inst'
  proof -
    have "(i, inst') \<in> nodes_of b1" "(i, inst) \<in> nodes_of b1" using that at unfolding nodes_of_def by (metis UN_I nth_mem set_concat)+
    then show ?thesis using assms(1) by (auto simp: entry_ok_def replace_inv_def numbered_def single_valued_def)
  qed
  have "dom \<rho> \<subseteq> dom \<rho>'" using r(3) r1(2) by (auto split: if_splits)
  moreover have "\<forall>j \<in> dom \<rho>'. j \<in> dom \<rho> \<or> j \<in> snd ` set (site # sites)" using r(2) r1(2) site by (auto split: if_splits)
  moreover have "\<forall>(bb, i) \<in> set (site # sites). \<forall>inst. (i, inst) \<in> set (ir_blocks b1 ! bb) \<longrightarrow>
      (\<rho>' i = None \<longleftrightarrow> variable_for state regs m inst = None)"
    using r(4) this_site same site by auto
  ultimately show ?case using r(1) by blast
qed

lemma sites_numbers: "map snd (gep_sites b) = map fst (concat (tl (ir_blocks b)))"
proof -
  have "tl (ir_blocks b) = map ((!) (ir_blocks b)) [1..<length (ir_blocks b)]"
    by (rule nth_equalityI) (auto simp: nth_tl)
  then show ?thesis by (simp add: gep_sites_def map_concat comp_def)
qed

lemma replace_geps_blocks:
  assumes "entry_ok state n b1" and "fresh_vars n m"
  obtains \<rho> where "replaced_blocks state regs m n b1 \<rho> (replace_geps state regs m b1)"
    and "\<And>bb i inst. 0 < bb \<Longrightarrow> bb < length (ir_blocks b1) \<Longrightarrow> (i, inst) \<in> set (ir_blocks b1 ! bb) \<Longrightarrow>
      \<rho> i = None \<longleftrightarrow> variable_for state regs m inst = None"
proof -
  have "repl_nodes Map.empty ns = ns" for ns
  proof (induction ns)
    case (Cons x ns)
    have "map_operands (repl_value Map.empty) inst = inst" for inst
      by (intro map_operands_unchanged) (simp add: repl_value_def split: llvm_value.split)
    then show ?case using Cons by (cases x) simp
  qed simp
  then have start: "replaced_blocks state regs m n b1 Map.empty b1"
    using assms(1) by (simp add: replaced_blocks_def fresh_repl_def replacement_ok_def new_ids_def entry_ok_def)
  have sites: "\<forall>(bb, i) \<in> set (gep_sites b1). 0 < bb \<and> bb < length (ir_blocks b1) \<and> i \<in> fst ` set (ir_blocks b1 ! bb) \<and> (Map.empty :: replacement) i = None"
    by (auto simp: gep_sites_iff Suc_le_eq)
  have "distinct (map snd (gep_sites b1))" using assms(1) unfolding sites_numbers entry_ok_def by blast
  from replace_sites_blocks [OF assms start sites this] obtain \<rho> where \<rho>:
    "replaced_blocks state regs m n b1 \<rho> (replace_geps state regs m b1)"
    "\<forall>(bb, i) \<in> set (gep_sites b1). \<forall>inst. (i, inst) \<in> set (ir_blocks b1 ! bb) \<longrightarrow> (\<rho> i = None \<longleftrightarrow> variable_for state regs m inst = None)"
    unfolding replace_geps_def by blast
  have "\<rho> i = None \<longleftrightarrow> variable_for state regs m inst = None"
    if "0 < bb" "bb < length (ir_blocks b1)" "(i, inst) \<in> set (ir_blocks b1 ! bb)" for bb i inst
  proof -
    have "(bb, i) \<in> set (gep_sites b1)" using that unfolding gep_sites_iff by (auto simp: image_iff intro: bexI [of _ "(i, inst)"])
    then show ?thesis using \<rho>(2) that(3) by blast
  qed
  then show thesis using that \<rho>(1) by blast
qed

section \<open>The entry block\<close>

text \<open>The variables of the pass: the number of the \<open>alloca\<close>, the offset in the state structure, and the bytes.\<close>

definition roots :: "remill_register list \<Rightarrow> remill_register list" where
  "roots regs = filter (\<lambda>r. rr_parent r = None) regs"

type_synonym variable = "nat \<times> u64 \<times> nat"

definition register_variables :: "nat \<Rightarrow> remill_register list \<Rightarrow> variable list" where
  "register_variables n regs =
     zip [n + 4..<n + 4 + length (roots regs)] (map (\<lambda>r. (rr_offset r, rr_size r)) (roots regs))"

definition variables :: "nat \<Rightarrow> remill_register list \<Rightarrow> variable list" where
  "variables n regs = (n, slot_offset, 4) # register_variables n regs"

fun copy_ins :: "llvm_value \<Rightarrow> nat \<Rightarrow> variable list \<Rightarrow> ir_node list" where
  "copy_ins state k [] = []"
| "copy_ins state k ((i, off, sz) # vs) =
     (k, IGep state (Some off)) # (Suc k, ILoad (sz * 8) (LValue k)) # (Suc (Suc k), IStore (LValue (Suc k)) (LValue i)) #
     copy_ins state (Suc (Suc (Suc k))) vs"

definition entry_nodes :: "llvm_value \<Rightarrow> nat \<Rightarrow> remill_register list \<Rightarrow> ir_node list" where
  "entry_nodes state n regs =
     (let vs = register_variables n regs; k = n + 4 + length vs in
      (n, IAlloca 4) # copy_ins state (Suc n) [(n, slot_offset, 4)] @ map (\<lambda>(i, off, sz). (i, IAlloca sz)) vs @
      copy_ins state k vs @ [(k + 3 * length vs, IBr 1)])"

definition variable_entry :: "variable \<Rightarrow> u32 \<times> llvm_value \<times> nat" where
  "variable_entry v = (case v of (i, off, sz) \<Rightarrow> (ucast off, LValue i, sz * 8))"

text \<open>A builder that appends to the first block.\<close>

definition growing :: "nat \<Rightarrow> ir_builder \<Rightarrow> ir_node list list \<Rightarrow> nat \<Rightarrow> ir_node list \<Rightarrow> ir_builder \<Rightarrow> bool" where
  "growing n b0 rest k e b \<longleftrightarrow>
     n \<le> k \<and> ir_ip b = (0, None) \<and> ir_next b = k \<and> ir_blocks b = e # rest \<and> (\<forall>j < n. ir_sizes b j = ir_sizes b0 j) \<and>
     to_delete b = to_delete b0 \<and> (\<forall>x \<in> set e. fst x < k) \<and> (\<forall>j bits p. (j, ILoad bits p) \<in> set e \<longrightarrow> ir_sizes b j = bits)"

lemma insert_before_None: "insert_before None node xs = xs @ [node]"
  by (induction xs) auto

lemma growing_insert:
  assumes "growing n b0 rest k e b" and "\<And>w p. inst = ILoad w p \<Longrightarrow> bits = w"
  shows "growing n b0 rest (Suc k) (e @ [(k, inst)]) (snd (ir_insert inst bits b))"
  using assms by (auto simp: growing_def ir_insert_def Let_def insert_before_None)

lemma growing_copy_in:
  assumes "growing n b0 rest k e b"
  shows "growing n b0 rest (Suc (Suc (Suc k))) (e @ copy_ins state k [(i, off, sz)]) (copy_in state off (sz * 8) (LValue i) b)"
proof -
  have k: "ir_next b = k" using assms by (simp add: growing_def)
  have g1: "growing n b0 rest (Suc k) (e @ [(k, IGep state (Some off))]) (snd (ir_insert (IGep state (Some off)) 0 b))"
    by (rule growing_insert [OF assms]) simp
  note g2 = growing_insert [OF g1, of "ILoad (sz * 8) (LValue k)" "sz * 8"]
  note g3 = growing_insert [OF g2, of "IStore (LValue (Suc k)) (LValue i)" 0]
  show ?thesis using g3 k by (simp add: copy_in_def case_prod_beta)
qed

lemma growing_allocas:
  assumes "growing n b0 rest k e b" and "distinct (map (\<lambda>r. ucast (rr_offset r) :: u32) rs)"
    and "\<forall>r \<in> set rs. ucast (rr_offset r) \<notin> fst ` set m" and "\<forall>r \<in> set rs. rr_parent r = None"
  shows "\<exists>b'. fold create_alloca rs (m, b) =
      (m @ map variable_entry (zip [k..<k + length rs] (map (\<lambda>r. (rr_offset r, rr_size r)) rs)), b') \<and>
    growing n b0 rest (k + length rs)
      (e @ map (\<lambda>(i, off, sz). (i, IAlloca sz)) (zip [k..<k + length rs] (map (\<lambda>r. (rr_offset r, rr_size r)) rs))) b'"
  using assms
proof (induction rs arbitrary: k e b m)
  case (Cons r rs)
  let ?key = "ucast (rr_offset r) :: u32"
  have new: "AList.update ?key v m = m @ [(?key, v)]" for v
    using Cons.prems(3) by (induction m) auto
  have k: "ir_next b = k" using Cons.prems(1) by (simp add: growing_def)
  define b1 where "b1 = snd (ir_insert (IAlloca (rr_size r)) 0 b)"
  have g: "growing n b0 rest (Suc k) (e @ [(k, IAlloca (rr_size r))]) b1"
    unfolding b1_def by (rule growing_insert [OF Cons.prems(1)]) simp
  have c: "create_alloca r (m, b) = (m @ [(?key, LValue k, rr_size r * 8)], b1)"
    using Cons.prems(4) by (simp add: create_alloca_def new b1_def case_prod_beta k)
  have "?key \<notin> (\<lambda>r. ucast (rr_offset r)) ` set rs" using Cons.prems(2) by simp
  then have "ucast (rr_offset r') \<noteq> ?key" if "r' \<in> set rs" for r' using that by (metis image_eqI)
  then have "\<forall>r' \<in> set rs. ucast (rr_offset r') \<notin> fst ` set (m @ [(?key, LValue k, rr_size r * 8)])"
    using Cons.prems(3) by simp
  from Cons.IH [OF g _ this] Cons.prems(2,4) obtain b' where b':
    "fold create_alloca rs (m @ [(?key, LValue k, rr_size r * 8)], b1) =
      (m @ [(?key, LValue k, rr_size r * 8)] @ map variable_entry (zip [Suc k..<Suc k + length rs] (map (\<lambda>r. (rr_offset r, rr_size r)) rs)), b')"
    "growing n b0 rest (Suc k + length rs)
      (e @ [(k, IAlloca (rr_size r))] @
       map (\<lambda>(i, off, sz). (i, IAlloca sz)) (zip [Suc k..<Suc k + length rs] (map (\<lambda>r. (rr_offset r, rr_size r)) rs))) b'" by auto
  have "[k..<k + length (r # rs)] = k # [Suc k..<Suc k + length rs]" by (simp add: upt_conv_Cons del: upt_Suc)
  then show ?case using b' c by (simp add: variable_entry_def)
qed simp

lemma fold_roots: "fold create_alloca regs st = fold create_alloca (roots regs) st"
proof (induction regs arbitrary: st)
  case (Cons r regs)
  then show ?case by (cases st) (simp add: roots_def create_alloca_def)
qed (simp add: roots_def)

lemma init_roots: "res_fold (init_alloca state m) regs = res_fold (init_alloca state m) (roots regs)"
proof (induction regs)
  case (Cons r regs)
  have "res_fold (init_alloca state m) (r # regs) b = res_fold (init_alloca state m) (roots (r # regs)) b" for b
  proof (cases "rr_parent r = None")
    case True
    then have "roots (r # regs) = r # roots regs" by (simp add: roots_def)
    then show ?thesis using Cons.IH by simp
  next
    case False
    then have "roots (r # regs) = roots regs" by (simp add: roots_def)
    moreover have "init_alloca state m r b = Inr b" using False unfolding init_alloca_def by (rule if_not_P)
    ultimately have "roots (r # regs) = roots regs" "init_alloca state m r b = Inr b" .
    then show ?thesis using Cons.IH by simp
  qed
  then show ?case by blast
qed (simp add: roots_def)

lemma growing_inits:
  assumes "growing n b0 rest k e b" and "\<forall>r \<in> set rs. rr_parent r = None" and "length is = length rs"
    and "\<forall>(i, r) \<in> set (zip is rs). map_of m (ucast (rr_offset r)) = Some (LValue i, rr_size r * 8)"
  shows "\<exists>b'. res_fold (init_alloca state m) rs b = Inr b' \<and>
    growing n b0 rest (k + 3 * length rs) (e @ copy_ins state k (zip is (map (\<lambda>r. (rr_offset r, rr_size r)) rs))) b'"
  using assms
proof (induction rs arbitrary: k e b "is")
  case (Cons r rs)
  then obtain i is' where is': "is = i # is'" by (cases "is") auto
  have init: "init_alloca state m r b = Inr (copy_in state (rr_offset r) (rr_size r * 8) (LValue i) b)"
    using Cons.prems(2,4) is' by (simp add: init_alloca_def)
  note g = growing_copy_in [OF Cons.prems(1), of state i "rr_offset r" "rr_size r"]
  from Cons.IH [OF g, of is'] Cons.prems(2-4) is' obtain b' where
    "res_fold (init_alloca state m) rs (copy_in state (rr_offset r) (rr_size r * 8) (LValue i) b) = Inr b'"
    "growing n b0 rest (Suc (Suc (Suc k)) + 3 * length rs)
      ((e @ copy_ins state k [(i, rr_offset r, rr_size r)]) @ copy_ins state (Suc (Suc (Suc k))) (zip is' (map (\<lambda>r. (rr_offset r, rr_size r)) rs))) b'"
    by auto
  then show ?case using init is' by (simp add: numeral_3_eq_3)
qed simp

text \<open>No two whole registers, and none and the slot, share a byte. All lie in the first four gigabytes of the state; a register
  that is a part of another one lies in the whole register it belongs to.\<close>

definition bytes_at :: "u64 \<Rightarrow> nat \<Rightarrow> u64 set" where
  "bytes_at a n = (\<lambda>c. a + of_nat c) ` {..<n}"

definition in_register :: "remill_register list \<Rightarrow> u64 \<Rightarrow> nat \<Rightarrow> bool" where
  "in_register regs off n \<longleftrightarrow>
     (\<exists>(o', k) \<in> set ((slot_offset, 4) # map (\<lambda>r. (rr_offset r, rr_size r)) (roots regs)). unat (off - o') + n \<le> k)"

definition layout_ok :: "remill_register list \<Rightarrow> bool" where
  "layout_ok regs \<longleftrightarrow>
     regs_ok regs \<and>
     sorted_wrt (\<lambda>(o1, k1) (o2, k2). bytes_at o1 k1 \<inter> bytes_at o2 k2 = {})
       ((slot_offset, 4) # map (\<lambda>r. (rr_offset r, rr_size r)) (roots regs)) \<and>
     (\<forall>r \<in> set regs. 0 < rr_size (root_of r) \<and> rr_size (root_of r) < 2 ^ 32 \<and>
        unat (rr_offset r - rr_offset (root_of r)) < rr_size (root_of r))"

lemma base_in_bytes: "0 < n \<Longrightarrow> a \<in> bytes_at a n"
  unfolding bytes_at_def by (rule image_eqI [of _ _ 0]) simp_all

lemma root_of_root: "rr_parent r = None \<Longrightarrow> root_of r = r"
  by (cases r) simp

lemma layout_keys:
  assumes "layout_ok regs"
  shows "distinct (map (\<lambda>r. ucast (rr_offset r) :: u32) (roots regs)) \<and>
    (\<forall>r \<in> set (roots regs). (ucast (rr_offset r) :: u32) \<noteq> ucast slot_offset)"
proof -
  have size: "0 < rr_size r" "rr_offset r < 2 ^ 32" if "r \<in> set (roots regs)" for r
    using assms that root_of_root [of r] by (auto simp: layout_ok_def roots_def regs_ok_def)
  have apart: "o1 \<noteq> o2" if "bytes_at o1 k1 \<inter> bytes_at o2 k2 = {}" "0 < k1" "0 < k2" for o1 o2 k1 k2
    using that base_in_bytes [of k1 o1] base_in_bytes [of k2 o2] by blast
  have inj: "(ucast a :: u32) \<noteq> ucast b" if "a \<noteq> b" "(a :: u64) < 2 ^ 32" "b < 2 ^ 32" for a b
    using ucast_ucast_u32 [OF that(2)] ucast_ucast_u32 [OF that(3)] that(1) by metis
  have slot: "slot_offset < 2 ^ 32" by (simp add: slot_offset_def)
  have "sorted_wrt (\<lambda>(o1, k1) (o2, k2). bytes_at o1 k1 \<inter> bytes_at o2 k2 = {}) (map (\<lambda>r. (rr_offset r, rr_size r)) rs) \<Longrightarrow>
      set rs \<subseteq> set (roots regs) \<Longrightarrow> distinct (map (\<lambda>r. ucast (rr_offset r) :: u32) rs)" for rs
  proof (induction rs)
    case (Cons r rs)
    have "(ucast (rr_offset r) :: u32) \<noteq> ucast (rr_offset r')" if r': "r' \<in> set rs" for r'
    proof -
      have "bytes_at (rr_offset r) (rr_size r) \<inter> bytes_at (rr_offset r') (rr_size r') = {}" using Cons.prems(1) r' by auto
      then show ?thesis using inj apart size Cons.prems(2) r' by (meson list.set_intros subsetD)
    qed
    then show ?case using Cons by auto
  qed simp
  moreover have "(ucast (rr_offset r) :: u32) \<noteq> ucast slot_offset" if "r \<in> set (roots regs)" for r
  proof -
    have "bytes_at slot_offset 4 \<inter> bytes_at (rr_offset r) (rr_size r) = {}" using assms that
      unfolding layout_ok_def sorted_wrt.simps(2) by force
    then have "rr_offset r \<noteq> slot_offset" using apart [of slot_offset 4] size(1) [OF that] by fastforce
    then show ?thesis using inj size(2) [OF that] slot by blast
  qed
  moreover have "sorted_wrt (\<lambda>(o1, k1) (o2, k2). bytes_at o1 k1 \<inter> bytes_at o2 k2 = {}) (map (\<lambda>r. (rr_offset r, rr_size r)) (roots regs))"
    using assms unfolding layout_ok_def sorted_wrt.simps(2) by blast
  ultimately show ?thesis by blast
qed

definition shifted :: "ir_builder \<Rightarrow> ir_node list list" where
  "shifted b = map (map (\<lambda>(i, inst). (i, retarget (moved_to (length (ir_blocks b))) inst))) (ir_blocks b)"

lemma roots_parent: "r \<in> set (roots regs) \<Longrightarrow> rr_parent r = None"
  by (simp add: roots_def)

lemma map_of_variables:
  assumes "distinct (map (\<lambda>r. ucast (rr_offset r) :: u32) rs)" and "(i, r) \<in> set (zip is rs)" and "length is = length rs"
  shows "map_of (map variable_entry (zip is (map (\<lambda>r. (rr_offset r, rr_size r)) rs))) (ucast (rr_offset r)) = Some (LValue i, rr_size r * 8)"
proof -
  let ?m = "map variable_entry (zip is (map (\<lambda>r. (rr_offset r, rr_size r)) rs))"
  have "map fst ?m = map (\<lambda>r. ucast (rr_offset r)) rs"
    using assms(3) by (intro nth_equalityI) (simp_all add: variable_entry_def case_prod_beta)
  then have "distinct (map fst ?m)" using assms(1) by simp
  moreover have "(ucast (rr_offset r), LValue i, rr_size r * 8) \<in> set ?m"
    using assms(2) by (auto simp: zip_map2 variable_entry_def image_iff intro!: bexI [of _ "(i, r)"])
  ultimately show ?thesis by (rule map_of_is_SomeI)
qed

lemma entry_block_blocks:
  assumes "entry_block state regs b = Inr (m, b1)" and "layout_ok regs"
  shows "m = map variable_entry (variables (ir_next b) regs) \<and>
    growing (ir_next b) b (shifted b) (Suc (ir_next b + 4 + 4 * length (roots regs))) (entry_nodes state (ir_next b) regs) b1"
proof -
  let ?n = "ir_next b" and ?l = "length (roots regs)" and ?rs = "map (\<lambda>r. (rr_offset r, rr_size r)) (roots regs)"
  let ?m0 = "[(ucast slot_offset, LValue ?n, 32)] :: alloca_map" and ?vs = "register_variables ?n regs"
  let ?allocas = "map (\<lambda>(i, off, sz). (i, IAlloca sz)) ?vs"
  define c1 where "c1 = move_to_front (length (ir_blocks b)) (set_insert_point (length (ir_blocks b), None) (snd (basic_block b)))"
  have "growing ?n b (shifted b) ?n [] c1"
    by (simp add: c1_def growing_def shifted_def move_to_front_def basic_block_def set_insert_point_def moved_to_def)
  then have "growing ?n b (shifted b) (Suc ?n) ([] @ [(?n, IAlloca 4)]) (snd (ir_insert (IAlloca 4) 0 c1))"
    by (rule growing_insert) simp
  then obtain c2 where c2: "ir_insert (IAlloca 4) 0 c1 = (LValue ?n, c2)"
      and g2: "growing ?n b (shifted b) (Suc ?n) ([] @ [(?n, IAlloca 4)]) c2"
    by (cases "ir_insert (IAlloca 4) 0 c1") (auto simp: ir_insert_def Let_def c1_def basic_block_def)
  note keys = layout_keys [OF assms(2)]
  have g3: "growing ?n b (shifted b) (?n + 4) ((?n, IAlloca 4) # copy_ins state (Suc ?n) [(?n, slot_offset, 4)])
      (copy_in state slot_offset 32 (LValue ?n) c2)"
    using growing_copy_in [OF g2, of state ?n slot_offset 4] by (simp add: numeral_eq_Suc)
  from growing_allocas [OF g3, of "roots regs" ?m0] keys roots_parent obtain c4 where
    c4: "fold create_alloca regs (?m0, copy_in state slot_offset 32 (LValue ?n) c2) =
        (?m0 @ map variable_entry ?vs, c4)"
      "growing ?n b (shifted b) (?n + 4 + ?l)
        ((?n, IAlloca 4) # copy_ins state (Suc ?n) [(?n, slot_offset, 4)] @ ?allocas) c4"
    unfolding fold_roots [of regs] register_variables_def by auto
  have m: "?m0 @ map variable_entry ?vs = map variable_entry (variables ?n regs)"
    by (simp add: variables_def variable_entry_def)
  have found: "\<forall>(i, r) \<in> set (zip [?n + 4..<?n + 4 + ?l] (roots regs)).
      map_of (map variable_entry (variables ?n regs)) (ucast (rr_offset r)) = Some (LValue i, rr_size r * 8)"
  proof clarify
    fix i r assume ir: "(i, r) \<in> set (zip [?n + 4..<?n + 4 + ?l] (roots regs))"
    then have "(ucast (rr_offset r) :: u32) \<noteq> ucast slot_offset" using keys by (auto dest: set_zip_rightD)
    moreover have "map_of (map variable_entry ?vs) (ucast (rr_offset r)) = Some (LValue i, rr_size r * 8)"
      unfolding register_variables_def by (rule map_of_variables [OF _ ir]) (use keys in simp_all)
    ultimately show "map_of (map variable_entry (variables ?n regs)) (ucast (rr_offset r)) = Some (LValue i, rr_size r * 8)"
      by (simp add: variables_def variable_entry_def)
  qed
  from growing_inits [OF c4(2) _ _ found, of state] roots_parent obtain c5 where
    c5: "res_fold (init_alloca state (map variable_entry (variables ?n regs))) regs c4 = Inr c5"
      "growing ?n b (shifted b) (?n + 4 + ?l + 3 * ?l)
        (((?n, IAlloca 4) # copy_ins state (Suc ?n) [(?n, slot_offset, 4)] @ ?allocas) @ copy_ins state (?n + 4 + ?l) ?vs) c5"
    unfolding init_roots [of state _ regs] register_variables_def by auto
  have "?l = length ?vs" by (simp add: register_variables_def)
  have "growing ?n b (shifted b) (Suc (?n + 4 + 4 * ?l)) (entry_nodes state ?n regs) (snd (ir_insert (IBr 1) 0 c5))"
    using growing_insert [OF c5(2), of "IBr 1" 0] by (simp add: entry_nodes_def Let_def register_variables_def algebra_simps)
  moreover have "entry_block state regs b = Inr (map variable_entry (variables ?n regs), snd (ir_insert (IBr 1) 0 c5))"
    using c2 c4(1) c5(1) m by (simp add: entry_block_def basic_block_def c1_def)
  ultimately show ?thesis using assms(1) by simp
qed

section \<open>Copying the variables back\<close>

fun copy_outs :: "llvm_value \<Rightarrow> nat \<Rightarrow> alloca_map \<Rightarrow> ir_node list" where
  "copy_outs state k [] = []"
| "copy_outs state k ((off, a, bits) # m) =
     (k, IGep state (Some (ucast off))) # (Suc k, ILoad bits a) # (Suc (Suc k), IStore (LValue (Suc k)) (LValue k)) #
     copy_outs state (Suc (Suc (Suc k))) m"

definition is_return :: "ir_node \<Rightarrow> bool" where
  "is_return node \<longleftrightarrow> (case snd node of IRet v \<Rightarrow> True | _ \<Rightarrow> False)"

definition with_copies :: "llvm_value \<Rightarrow> nat \<Rightarrow> alloca_map \<Rightarrow> ir_node list \<Rightarrow> ir_node list" where
  "with_copies state k m ns = (if is_return (last ns) then butlast ns @ copy_outs state k m @ [last ns] else ns)"

text \<open>The loads that copy a variable have its size.\<close>

definition sized :: "ir_builder \<Rightarrow> ir_node list \<Rightarrow> bool" where
  "sized b ns \<longleftrightarrow> (\<forall>j bits p. (j, ILoad bits p) \<in> set ns \<longrightarrow> ir_sizes b j = bits)"

lemma copy_outs_ids: "x \<in> set (copy_outs state k m) \<Longrightarrow> k \<le> fst x \<and> fst x < k + 3 * length m"
  by (induction state k m rule: copy_outs.induct) fastforce+

definition inserting :: "block_id \<Rightarrow> nat \<Rightarrow> ir_builder \<Rightarrow> nat \<Rightarrow> ir_node list \<Rightarrow> ir_node list \<Rightarrow> ir_builder \<Rightarrow> bool" where
  "inserting bb l b0 k xs ys b \<longleftrightarrow>
     ir_ip b = (bb, Some l) \<and> ir_next b = k \<and> ir_next b0 \<le> k \<and> ir_blocks b = (ir_blocks b0)[bb := xs @ ys] \<and> l \<notin> fst ` set xs \<and> l < k \<and>
     (\<forall>j < ir_next b0. ir_sizes b j = ir_sizes b0 j) \<and> to_delete b = to_delete b0"

lemma inserting_insert:
  assumes "inserting bb l b0 k xs ((l, inst) # ys) b" and "bb < length (ir_blocks b0)"
  shows "inserting bb l b0 (Suc k) (xs @ [(k, new)]) ((l, inst) # ys) (snd (ir_insert new bits b))"
  using assms insert_before_at [of l xs "(k, new)" inst ys] by (auto simp: inserting_def ir_insert_def Let_def)

lemma inserting_copies:
  assumes "inserting bb l b0 k xs ((l, inst) # ys) b" and "bb < length (ir_blocks b0)"
  shows "inserting bb l b0 (k + 3 * length m) (xs @ copy_outs state k m) ((l, inst) # ys) (fold (copy_out state) m b) \<and>
    sized (fold (copy_out state) m b) (copy_outs state k m) \<and>
    (\<forall>j < k. ir_sizes (fold (copy_out state) m b) j = ir_sizes b j)"
  using assms(1)
proof (induction m arbitrary: k xs b)
  case Nil
  then show ?case by (simp add: sized_def)
next
  case (Cons e m)
  obtain off a bits where e: "e = (off, a, bits)" by (metis prod_cases3)
  have k: "ir_next b = k" using Cons.prems by (simp add: inserting_def)
  note i1 = inserting_insert [OF Cons.prems assms(2), of "IGep state (Some (ucast off))" 0]
  note i2 = inserting_insert [OF i1 assms(2), of "ILoad bits a" bits]
  note i3 = inserting_insert [OF i2 assms(2), of "IStore (LValue (Suc k)) (LValue k)" 0]
  let ?b1 = "copy_out state e b"
  have i: "inserting bb l b0 (Suc (Suc (Suc k))) (xs @ [(k, IGep state (Some (ucast off))), (Suc k, ILoad bits a),
      (Suc (Suc k), IStore (LValue (Suc k)) (LValue k))]) ((l, inst) # ys) ?b1"
    using i3 k by (simp add: copy_out_def e case_prod_beta)
  have sizes: "ir_sizes ?b1 (Suc k) = bits" "\<forall>j < k. ir_sizes ?b1 j = ir_sizes b j"
    using k by (simp_all add: copy_out_def e case_prod_beta ir_insert_def Let_def)
  note ih = Cons.IH [OF i]
  have "sized (fold (copy_out state) m ?b1) (copy_outs state k (e # m))"
    using ih sizes(1) by (auto simp: sized_def e)
  then show ?case using ih sizes(2) by (simp add: e numeral_3_eq_3)
qed

lemma copy_back_blocks:
  assumes "copy_back state m bb b = Inr b'" and "bb < length (ir_blocks b)" and "ir_blocks b ! bb = xs @ [(l, inst)]"
    and "l \<notin> fst ` set xs" and "l < ir_next b"
  shows "ir_blocks b' = (ir_blocks b)[bb := with_copies state (ir_next b) m (ir_blocks b ! bb)] \<and> ir_next b \<le> ir_next b' \<and>
    (\<forall>j < ir_next b. ir_sizes b' j = ir_sizes b j) \<and> to_delete b' = to_delete b \<and>
    (is_return (l, inst) \<longrightarrow> sized b' (copy_outs state (ir_next b) m) \<and> ir_next b' = ir_next b + 3 * length m)"
proof (cases "is_return (l, inst)")
  case True
  have start: "inserting bb l b (ir_next b) xs [(l, inst)] (set_insert_point (bb, Some l) b)"
    using assms by (simp add: inserting_def set_insert_point_def) (metis assms(3) list_update_id)
  have "b' = fold (copy_out state) m (set_insert_point (bb, Some l) b)"
    using assms(1,3) True by (auto simp: copy_back_def Let_def is_return_def split: if_splits ir_inst.splits)
  then show ?thesis using inserting_copies [OF start assms(2), of m state] True assms(3)
    by (simp add: inserting_def with_copies_def sized_def set_insert_point_def)
next
  case False
  then have "b' = b"
    using assms(1,3) by (auto simp: copy_back_def Let_def is_return_def split: if_splits ir_inst.splits)
  then show ?thesis using False assms(3) by (simp add: with_copies_def) (metis list_update_id)
qed

definition copied_back :: "llvm_value \<Rightarrow> alloca_map \<Rightarrow> ir_builder \<Rightarrow> (block_id \<Rightarrow> nat) \<Rightarrow> nat \<Rightarrow> ir_builder \<Rightarrow> bool" where
  "copied_back state m b2 K t b \<longleftrightarrow>
     length (ir_blocks b) = length (ir_blocks b2) \<and> ir_next b2 \<le> ir_next b \<and>
     (\<forall>bb < length (ir_blocks b2). ir_blocks b ! bb = (if bb < t then with_copies state (K bb) m (ir_blocks b2 ! bb) else ir_blocks b2 ! bb)) \<and>
     (\<forall>bb < t. ir_next b2 \<le> K bb \<and>
        (is_return (last (ir_blocks b2 ! bb)) \<longrightarrow> K bb + 3 * length m \<le> ir_next b \<and> sized b (copy_outs state (K bb) m))) \<and>
     (\<forall>j < ir_next b2. ir_sizes b j = ir_sizes b2 j) \<and> to_delete b = to_delete b2"

lemma copy_back_all:
  assumes "res_fold (copy_back state m) [0..<t] b2 = Inr b'" and "t \<le> length (ir_blocks b2)"
    and ends: "\<And>bb. bb < t \<Longrightarrow> \<exists>xs l inst. ir_blocks b2 ! bb = xs @ [(l, inst)] \<and> l \<notin> fst ` set xs \<and> l < ir_next b2"
  shows "\<exists>K. copied_back state m b2 K t b'"
  using assms
proof (induction t arbitrary: b')
  case 0
  then show ?case by (simp add: copied_back_def)
next
  case (Suc t)
  obtain b where b: "res_fold (copy_back state m) [0..<t] b2 = Inr b" "copy_back state m t b = Inr b'"
    using Suc.prems(1) by (auto simp: res_fold_append elim!: res_bindE)
  obtain K where K: "copied_back state m b2 K t b" using Suc.IH [OF b(1)] Suc.prems(2,3) by force
  obtain xs l inst where e: "ir_blocks b2 ! t = xs @ [(l, inst)]" "l \<notin> fst ` set xs" "l < ir_next b2" using Suc.prems(3) by blast
  have at: "ir_blocks b ! t = xs @ [(l, inst)]" "t < length (ir_blocks b)" "l < ir_next b"
    using K e Suc.prems(2) by (auto simp: copied_back_def)
  note step = copy_back_blocks [OF b(2) at(2,1) e(2) at(3)]
  have last: "last (ir_blocks b2 ! t) = (l, inst)" using e(1) by simp
  let ?K = "K(t := ir_next b)"
  have old: "ir_next b2 \<le> K bb \<and>
      (is_return (last (ir_blocks b2 ! bb)) \<longrightarrow> K bb + 3 * length m \<le> ir_next b' \<and> sized b' (copy_outs state (K bb) m))" if "bb < t" for bb
  proof -
    have k: "ir_next b2 \<le> K bb" "is_return (last (ir_blocks b2 ! bb)) \<Longrightarrow> K bb + 3 * length m \<le> ir_next b \<and> sized b (copy_outs state (K bb) m)"
      using K that by (simp_all add: copied_back_def)
    have "sized b' ns" if "sized b ns" "\<forall>x \<in> set ns. fst x < ir_next b" for ns
      using that step by (fastforce simp: sized_def)
    then show ?thesis using k step copy_outs_ids by (meson le_trans less_le_trans)
  qed
  have "copied_back state m b2 ?K (Suc t) b'"
    unfolding copied_back_def
  proof (intro conjI allI impI)
    fix bb assume bb: "bb < length (ir_blocks b2)"
    show "ir_blocks b' ! bb = (if bb < Suc t then with_copies state (?K bb) m (ir_blocks b2 ! bb) else ir_blocks b2 ! bb)"
      using K step bb at e(1) by (cases "bb = t") (auto simp: copied_back_def)
  next
    fix bb assume "bb < Suc t"
    then show "ir_next b2 \<le> ?K bb"
      using old K by (cases "bb = t") (auto simp: copied_back_def)
  next
    fix bb assume "bb < Suc t" "is_return (last (ir_blocks b2 ! bb))"
    then show "?K bb + 3 * length m \<le> ir_next b'" "sized b' (copy_outs state (?K bb) m)"
      using old step last by (cases "bb = t"; simp)+
  qed (use K step in \<open>simp_all add: copied_back_def\<close>)
  then show ?case by blast
qed

section \<open>Two states of the two functions\<close>

lemma bytes_at_mem: "unat (x - a) < n \<Longrightarrow> x \<in> bytes_at a n"
  unfolding bytes_at_def by (rule image_eqI [of _ _ "unat (x - a)"]) simp_all

lemma bytes_at_nth: "c < n \<Longrightarrow> a + of_nat c \<in> bytes_at a n"
  by (simp add: bytes_at_def)

lemma bytes_at_part:
  assumes "unat d + n \<le> k"
  shows "bytes_at (a + d) n \<subseteq> bytes_at a k"
proof
  fix x assume "x \<in> bytes_at (a + d) n"
  then obtain c where c: "c < n" "x = a + d + of_nat c" by (auto simp: bytes_at_def)
  have "x = a + of_nat (unat d + c)" using c(2) by (simp add: algebra_simps)
  then show "x \<in> bytes_at a k" using c(1) assms unfolding bytes_at_def by (intro image_eqI [of _ _ "unat d + c"]) auto
qed

lemma store_outside: "x \<notin> bytes_at a (length bs) \<Longrightarrow> store_bytes a bs m x = m x"
  using bytes_at_mem [of x a "length bs"] by (auto simp: store_bytes_def)

lemma load_cong: "(\<And>c. c < n \<Longrightarrow> m (a + of_nat c) = m' (a' + of_nat c)) \<Longrightarrow> load_bytes m a n = load_bytes m' a' n"
  by (simp add: load_bytes_def)

definition old_trace :: "nat \<Rightarrow> (nat \<times> int list) list \<Rightarrow> (nat \<times> int list) list" where
  "old_trace n t = filter (\<lambda>e. fst e < n) t"

definition variable_bytes :: "(nat \<Rightarrow> u64) \<Rightarrow> variable list \<Rightarrow> u64 set" where
  "variable_bytes va vs = (\<Union>(i, off, sz) \<in> set vs. bytes_at (va i) sz)"

definition register_bytes :: "u64 \<Rightarrow> variable list \<Rightarrow> u64 set" where
  "register_bytes base vs = (\<Union>(i, off, sz) \<in> set vs. bytes_at (base + off) sz)"

text \<open>The variables have memory of their own.\<close>

definition variables_apart :: "(nat \<Rightarrow> u64) \<Rightarrow> u64 \<Rightarrow> variable list \<Rightarrow> bool" where
  "variables_apart va base vs \<longleftrightarrow>
     sorted_wrt (\<lambda>(i, o1, k1) (j, o2, k2). bytes_at (va i) k1 \<inter> bytes_at (va j) k2 = {}) vs \<and>
     variable_bytes va vs \<inter> register_bytes base vs = {}"

text \<open>The rest of the program: what an instruction of the function does that is not interpreted does not depend on the numbers
  of the blocks, on the registers in the state, on the variables of the pass, and on its instructions, and it
  leaves the registers and the variables alone. \<open>A\<close> is their memory.\<close>

definition callees_ok :: "ir_host \<Rightarrow> nat \<Rightarrow> (nat \<Rightarrow> u64) \<Rightarrow> u64 set \<Rightarrow> bool" where
  "callees_ok h n va A \<longleftrightarrow>
     (\<forall>i < n. \<forall>sh f. h i (retarget f sh) = h i sh) \<and>
     (\<forall>i < n. \<forall>sh vals t t' m m'. old_trace n t = old_trace n t' \<longrightarrow> (\<forall>a. a \<notin> A \<longrightarrow> m a = m' a) \<longrightarrow>
        fst (h i sh vals t' m') = fst (h i sh vals t m) \<and>
        (\<forall>a. a \<notin> A \<longrightarrow> snd (h i sh vals t' m') a = snd (h i sh vals t m) a)) \<and>
     (\<forall>i < n. \<forall>sh vals t m a. a \<in> A \<longrightarrow> snd (h i sh vals t m) a = m a) \<and>
     (\<forall>i \<ge> n. \<forall>k t m. h i (IAlloca k) [] t m = (uint (va i), m)) \<and>
     (\<forall>i \<ge> n. \<forall>bb t m. snd (h i (IBr bb) [] t m) = m)"

text \<open>\<open>D\<close> holds the instructions that were executed, \<open>loc\<close> gives the register addresses.\<close>

definition related ::
  "nat \<Rightarrow> replacement \<Rightarrow> (nat \<rightharpoonup> u64) \<Rightarrow> u64 \<Rightarrow> (nat \<Rightarrow> u64) \<Rightarrow> variable list \<Rightarrow> nat set \<Rightarrow> ir_state \<Rightarrow> ir_state \<Rightarrow> bool" where
  "related n \<rho> loc base va vs D s s' \<longleftrightarrow>
     (\<forall>j < n. \<rho> j = None \<longrightarrow> st_env s' j = st_env s j) \<and>
     old_trace n (st_trace s') = old_trace n (st_trace s) \<and>
     (\<forall>(i, off, sz) \<in> set vs. st_env s' i = uint (va i) \<and>
        (\<forall>c < sz. st_mem s' (va i + of_nat c) = st_mem s (base + off + of_nat c))) \<and>
     (\<forall>a. a \<notin> variable_bytes va vs \<union> register_bytes base vs \<longrightarrow> st_mem s' a = st_mem s a) \<and>
     (\<forall>j \<in> D. \<forall>off. loc j = Some off \<longrightarrow> addr_of s (LValue j) = base + off \<and>
        (\<exists>(i, o', sz) \<in> set vs. unat (off - o') < sz \<and> addr_of s' (repl_value \<rho> (LValue j)) = va i + (off - o')))"

text \<open>What is known of the replacement of the register addresses.\<close>

definition replacement_for :: "nat \<Rightarrow> nat \<Rightarrow> variable list \<Rightarrow> (nat \<rightharpoonup> u64) \<Rightarrow> replacement \<Rightarrow> bool" where
  "replacement_for n N vs loc \<rho> \<longleftrightarrow>
     (\<forall>(i, off, sz) \<in> set vs. n \<le> i \<and> i < N) \<and> (\<forall>j. loc j = None \<longrightarrow> \<rho> j = None) \<and>
     (\<forall>j off. loc j = Some off \<longrightarrow>
        (\<exists>(i, o', sz) \<in> set vs. unat (off - o') < sz \<and>
           (\<rho> j = Some (LValue i, []) \<and> off = o' \<or>
            (\<exists>g. \<rho> j = Some (LValue g, [(g, IGep (LValue i) (Some (off - o')))]) \<and> n \<le> g \<and> g < N \<and> (\<forall>v \<in> set vs. fst v \<noteq> g))))) \<and>
     (\<forall>j j'. j \<noteq> j' \<longrightarrow> new_ids \<rho> j \<inter> new_ids \<rho> j' = {})"

lemma addr_of_set [simp]: "addr_of (set_value i x s) (LValue j) = (if j = i then word_of_int x else addr_of s (LValue j))"
  by (simp add: addr_of_def val_of_def set_value_def)

lemma set_value_sel [simp]:
  "st_env (set_value i x s) j = (if j = i then x else st_env s j)" "st_mem (set_value i x s) = st_mem s"
  "st_trace (set_value i x s) = st_trace s"
  by (simp_all add: set_value_def)

text \<open>A number that the pass did not give to a variable or a register address may change.\<close>

lemma related_free:
  assumes "related n \<rho> loc base va vs D s s'" and "replacement_for n N vs loc \<rho>" and "N \<le> i" and "n \<le> i"
  shows "related n \<rho> loc base va vs D s (set_value i x s')"
proof -
  have "addr_of (set_value i x s') (repl_value \<rho> (LValue j)) = addr_of s' (repl_value \<rho> (LValue j))" if "loc j = Some off" for j off
    using assms(2,3) that unfolding replacement_for_def by (fastforce simp: repl_value_def)
  moreover have "fst v \<noteq> i" if "v \<in> set vs" for v using that assms(2,3) by (fastforce simp: replacement_for_def)
  ultimately show ?thesis using assms(1,4) unfolding related_def by (fastforce simp: case_prod_beta)
qed

lemma related_value:
  assumes "related n \<rho> loc base va vs D s s'" and "replacement_for n N vs loc \<rho>" and "i < n" and "loc i = None"
  shows "related n \<rho> loc base va vs (insert i D) (set_value i x s) (set_value i x s')"
proof -
  have keep: "addr_of (set_value i x s') (repl_value \<rho> (LValue j)) = addr_of s' (repl_value \<rho> (LValue j))" if "loc j = Some off" for j off
    using assms(2,3) that unfolding replacement_for_def by (fastforce simp: repl_value_def)
  have var: "fst v \<noteq> i" if "v \<in> set vs" for v using that assms(2,3) by (fastforce simp: replacement_for_def)
  have "j \<noteq> i" if "loc j = Some off" for j off using that assms(4) by auto
  then show ?thesis using assms(1,4) keep var unfolding related_def by (fastforce simp: case_prod_beta)
qed

section \<open>Accesses\<close>

definition registers_apart :: "variable list \<Rightarrow> bool" where
  "registers_apart vs \<longleftrightarrow> sorted_wrt (\<lambda>(i, o1, k1) (j, o2, k2). bytes_at o1 k1 \<inter> bytes_at o2 k2 = {}) vs"

lemma sorted_wrt_both: "sorted_wrt P xs \<Longrightarrow> x \<in> set xs \<Longrightarrow> y \<in> set xs \<Longrightarrow> x \<noteq> y \<Longrightarrow> P x y \<or> P y x"
  by (induction xs) auto

lemma registers_disjoint:
  assumes "registers_apart vs" and "(i, o1, k1) \<in> set vs" and "(j, o2, k2) \<in> set vs" and "(i, o1, k1) \<noteq> (j, o2, k2)"
  shows "bytes_at (base + o1) k1 \<inter> bytes_at (base + o2) k2 = {}"
proof -
  have "bytes_at o1 k1 \<inter> bytes_at o2 k2 = {}"
    using sorted_wrt_both [OF _ assms(2-4)] assms(1) unfolding registers_apart_def by blast
  then show ?thesis unfolding bytes_at_def by (fastforce simp: algebra_simps)
qed

lemma variables_disjoint:
  assumes "variables_apart va base vs" and "(i, o1, k1) \<in> set vs" and "(j, o2, k2) \<in> set vs" and "(i, o1, k1) \<noteq> (j, o2, k2)"
  shows "bytes_at (va i) k1 \<inter> bytes_at (va j) k2 = {}"
  using sorted_wrt_both [OF _ assms(2-4)] assms(1) unfolding variables_apart_def by blast

lemma same_register:
  assumes "registers_apart vs" and "(i, o1, k1) \<in> set vs" and "(j, o2, k2) \<in> set vs"
    and "unat (off - o1) < k1" and "unat (off - o2) < k2"
  shows "(i, o1, k1) = (j, o2, k2)"
  using registers_disjoint [OF assms(1-3), of 0] bytes_at_mem [OF assms(4)] bytes_at_mem [OF assms(5)] by auto

text \<open>The address of a register and the one that replaces it, for an access of \<open>n\<close> bytes inside of the register.\<close>

lemma related_register:
  assumes "related n \<rho> loc base va vs D s s'" and "registers_apart vs" and "j \<in> D" and "loc j = Some off"
    and "(i, o', k) \<in> set vs" and "unat (off - o') + w \<le> k" and "0 < w"
  shows "addr_of s (LValue j) = base + off" and "addr_of s' (repl_value \<rho> (LValue j)) = va i + (off - o')"
proof -
  obtain i2 o2 k2 where r: "addr_of s (LValue j) = base + off" "(i2, o2, k2) \<in> set vs" "unat (off - o2) < k2"
      "addr_of s' (repl_value \<rho> (LValue j)) = va i2 + (off - o2)"
    using assms(1,3,4) unfolding related_def by blast
  have "(i2, o2, k2) = (i, o', k)" using same_register [OF assms(2) r(2) assms(5) r(3)] assms(6,7) by simp
  then show "addr_of s (LValue j) = base + off" "addr_of s' (repl_value \<rho> (LValue j)) = va i + (off - o')" using r by auto
qed

lemma register_load:
  assumes "related n \<rho> loc base va vs D s s'" and "(i, o', k) \<in> set vs" and "unat (off - o') + w \<le> k"
  shows "load_bytes (st_mem s') (va i + (off - o')) w = load_bytes (st_mem s) (base + off) w"
proof (rule load_cong)
  fix c assume "c < w"
  then have "unat (off - o') + c < k" using assms(3) by simp
  then have "st_mem s' (va i + of_nat (unat (off - o') + c)) = st_mem s (base + o' + of_nat (unat (off - o') + c))"
    using assms(1,2) unfolding related_def by blast
  then show "st_mem s' (va i + (off - o') + of_nat c) = st_mem s (base + off + of_nat c)" by (simp add: algebra_simps)
qed

lemma register_store:
  assumes rel: "related n \<rho> loc base va vs D s s'" and apart: "registers_apart vs" "variables_apart va base vs"
    and v: "(i, o', k) \<in> set vs" "unat (off - o') + length bs \<le> k"
  shows "related n \<rho> loc base va vs D (s\<lparr>st_mem := store_bytes (base + off) bs (st_mem s)\<rparr>)
    (s'\<lparr>st_mem := store_bytes (va i + (off - o')) bs (st_mem s')\<rparr>)"
proof -
  have sub: "bytes_at (va i + (off - o')) (length bs) \<subseteq> bytes_at (va i) k" "bytes_at (base + off) (length bs) \<subseteq> bytes_at (base + o') k"
    using bytes_at_part [OF v(2), of "va i"] bytes_at_part [OF v(2), of "base + o'"] by (simp_all add: algebra_simps)
  have vars: "store_bytes (va i + (off - o')) bs (st_mem s') (va i2 + of_nat c) = store_bytes (base + off) bs (st_mem s) (base + o2 + of_nat c)"
    if w: "(i2, o2, k2) \<in> set vs" "c < k2" for i2 o2 k2 c
  proof -
    have old: "st_mem s' (va i2 + of_nat c) = st_mem s (base + o2 + of_nat c)" using rel w unfolding related_def by blast
    show ?thesis
    proof (cases "(i, o', k) = (i2, o2, k2)")
      case True
      then show ?thesis using old by (simp add: store_bytes_def algebra_simps)
    next
      case False
      have "va i2 + of_nat c \<notin> bytes_at (va i) k" "base + o2 + of_nat c \<notin> bytes_at (base + o') k"
        using variables_disjoint [OF apart(2) v(1) w(1) False] registers_disjoint [OF apart(1) v(1) w(1) False, of base] bytes_at_nth [OF w(2)]
        by blast+
      then have "va i2 + of_nat c \<notin> bytes_at (va i + (off - o')) (length bs)" "base + o2 + of_nat c \<notin> bytes_at (base + off) (length bs)"
        using sub by blast+
      then show ?thesis using old by (simp add: store_outside)
    qed
  qed
  have "bytes_at (va i) k \<subseteq> variable_bytes va vs" "bytes_at (base + o') k \<subseteq> register_bytes base vs"
    using v(1) by (auto simp: variable_bytes_def register_bytes_def)
  then have outside: "store_bytes (va i + (off - o')) bs (st_mem s') a = store_bytes (base + off) bs (st_mem s) a"
    if "a \<notin> variable_bytes va vs \<union> register_bytes base vs" for a
    using that sub rel by (subst (1 2) store_outside) (auto simp: related_def)
  show ?thesis using rel vars outside unfolding related_def by (auto simp: addr_of_def)
qed

lemma outside_load:
  assumes "related n \<rho> loc base va vs D s s'" and "bytes_at a w \<inter> (variable_bytes va vs \<union> register_bytes base vs) = {}"
  shows "load_bytes (st_mem s') a w = load_bytes (st_mem s) a w"
proof (rule load_cong)
  fix c assume "c < w"
  then have "a + of_nat c \<notin> variable_bytes va vs \<union> register_bytes base vs" using assms(2) bytes_at_nth by blast
  then show "st_mem s' (a + of_nat c) = st_mem s (a + of_nat c)" using assms(1) unfolding related_def by blast
qed

lemma outside_store:
  assumes rel: "related n \<rho> loc base va vs D s s'"
    and "bytes_at a (length bs) \<inter> (variable_bytes va vs \<union> register_bytes base vs) = {}"
  shows "related n \<rho> loc base va vs D (s\<lparr>st_mem := store_bytes a bs (st_mem s)\<rparr>) (s'\<lparr>st_mem := store_bytes a bs (st_mem s')\<rparr>)"
proof -
  have keep: "store_bytes a bs m x = m x" if "x \<in> variable_bytes va vs \<union> register_bytes base vs" for m x
    using that assms(2) by (intro store_outside) blast
  have "store_bytes a bs (st_mem s') (va i + of_nat c) = store_bytes a bs (st_mem s) (base + off + of_nat c)"
    if w: "(i, off, k) \<in> set vs" "c < k" for i off k c
  proof -
    have "va i + of_nat c \<in> variable_bytes va vs" "base + off + of_nat c \<in> register_bytes base vs"
      using w bytes_at_nth by (fastforce simp: variable_bytes_def register_bytes_def)+
    then show ?thesis using rel w by (subst (1 2) keep) (auto simp: related_def)
  qed
  moreover have "store_bytes a bs (st_mem s') x = store_bytes a bs (st_mem s) x" if "x \<notin> variable_bytes va vs \<union> register_bytes base vs" for x
    using rel that unfolding related_def store_bytes_def by simp
  ultimately show ?thesis using rel unfolding related_def by (auto simp: addr_of_def)
qed

section \<open>One instruction\<close>

definition register_pointer :: "(nat \<rightharpoonup> u64) \<Rightarrow> llvm_value \<Rightarrow> u64 option" where
  "register_pointer loc p = (case p of LConstantInt w c \<Rightarrow> None | LValue j \<Rightarrow> loc j)"

text \<open>An access of \<open>w\<close> bytes: to a register through an address that was computed, and inside of it, or to other memory.\<close>

definition access_ok :: "remill_register list \<Rightarrow> (nat \<rightharpoonup> u64) \<Rightarrow> u64 set \<Rightarrow> nat set \<Rightarrow> ir_state \<Rightarrow> llvm_value \<Rightarrow> nat \<Rightarrow> bool" where
  "access_ok regs loc A D s p w \<longleftrightarrow>
     (case register_pointer loc p of
        Some off \<Rightarrow> p \<in> LValue ` D \<and> 0 < w \<and> in_register regs off w
      | None \<Rightarrow> bytes_at (addr_of s p) w \<inter> A = {})"

fun step_fits :: "remill_register list \<Rightarrow> (nat \<rightharpoonup> u64) \<Rightarrow> u64 set \<Rightarrow> (llvm_value \<Rightarrow> nat) \<Rightarrow> nat set \<Rightarrow> ir_inst \<Rightarrow> ir_state \<Rightarrow> bool" where
  "step_fits regs loc A psize D (IStore v p) s \<longleftrightarrow>
     register_pointer loc v = None \<and> access_ok regs loc A D s p (byte_size (psize v))"
| "step_fits regs loc A psize D (ILoad bits p) s \<longleftrightarrow> access_ok regs loc A D s p (byte_size bits)"
| "step_fits regs loc A psize D inst s \<longleftrightarrow> (\<forall>v \<in> set (operands inst). register_pointer loc v = None)"

lemma variables_in_register: "in_register regs off w \<longleftrightarrow> (\<exists>(i, o', k) \<in> set (variables n regs). unat (off - o') + w \<le> k)"
proof -
  let ?rs = "map (\<lambda>r. (rr_offset r, rr_size r)) (roots regs)"
  have "map snd (variables n regs) = (slot_offset, 4) # ?rs"
    by (simp add: variables_def register_variables_def map_snd_zip)
  then have "set ((slot_offset, 4) # ?rs) = snd ` set (variables n regs)" by (metis list.set_map)
  then show ?thesis unfolding in_register_def by (auto simp: case_prod_beta)
qed

lemma plain_value:
  assumes "related n \<rho> loc base va vs D s s'" and "replacement_for n N vs loc \<rho>" and "register_pointer loc v = None" and "below n v"
  shows "val_of s' (repl_value \<rho> v) = val_of s v"
  using assms
  by (cases v) (auto simp: repl_value_def register_pointer_def replacement_for_def below_def val_of_def related_def)

lemma host_same:
  assumes "callees_ok h n va A" and "i < n" and "old_trace n t = old_trace n t'" and "\<forall>a. a \<notin> A \<longrightarrow> m a = m' a"
  shows "fst (h i sh vals t' m') = fst (h i sh vals t m) \<and> (\<forall>a. a \<notin> A \<longrightarrow> snd (h i sh vals t' m') a = snd (h i sh vals t m) a)"
proof -
  from assms(1) have "\<forall>i < n. \<forall>sh vals t t' m m'. old_trace n t = old_trace n t' \<longrightarrow> (\<forall>a. a \<notin> A \<longrightarrow> m a = m' a) \<longrightarrow>
      fst (h i sh vals t' m') = fst (h i sh vals t m) \<and> (\<forall>a. a \<notin> A \<longrightarrow> snd (h i sh vals t' m') a = snd (h i sh vals t m) a)"
    unfolding callees_ok_def by (elim conjE) assumption
  then have "(\<forall>a. a \<notin> A \<longrightarrow> m a = m' a) \<longrightarrow>
      fst (h i sh vals t' m') = fst (h i sh vals t m) \<and> (\<forall>a. a \<notin> A \<longrightarrow> snd (h i sh vals t' m') a = snd (h i sh vals t m) a)"
    using assms(2,3) by blast
  then show ?thesis using assms(4) by (rule mp)
qed

lemma host_leaves: "callees_ok h n va A \<Longrightarrow> i < n \<Longrightarrow> a \<in> A \<Longrightarrow> snd (h i sh vals t m) a = m a"
  by (simp add: callees_ok_def)

lemma related_host:
  assumes rel: "related n \<rho> loc base va vs D s s'" and host: "callees_ok h n va (variable_bytes va vs \<union> register_bytes base vs)"
    and "i < n" and x: "h i sh vals (st_trace s) (st_mem s) = (x, m1)" "h i (retarget f sh) vals (st_trace s') (st_mem s') = (x', m1')"
  shows "x' = x \<and> related n \<rho> loc base va vs D (s\<lparr>st_mem := m1, st_trace := st_trace s @ [(i, vals)]\<rparr>)
    (s'\<lparr>st_mem := m1', st_trace := st_trace s' @ [(i, vals)]\<rparr>)"
proof -
  let ?A = "variable_bytes va vs \<union> register_bytes base vs"
  have blind: "h i (retarget f sh) = h i sh" using host assms(3) by (simp add: callees_ok_def)
  have tr: "old_trace n (st_trace s) = old_trace n (st_trace s')" using rel by (simp add: related_def)
  have out: "\<forall>a. a \<notin> ?A \<longrightarrow> st_mem s a = st_mem s' a" using rel by (simp add: related_def)
  have same: "x' = x" "\<forall>a. a \<notin> ?A \<longrightarrow> m1' a = m1 a"
    using host_same [OF host assms(3) tr out, of sh vals] x blind by simp_all
  have kept: "m1 a = st_mem s a" "m1' a = st_mem s' a" if "a \<in> ?A" for a
    using host_leaves [OF host assms(3) that, of sh vals] x blind by (metis snd_conv)+
  have vars: "va j + of_nat c \<in> ?A" "base + off + of_nat c \<in> ?A" if "(j, off, k) \<in> set vs" "c < k" for j off k c
    using that bytes_at_nth by (fastforce simp: variable_bytes_def register_bytes_def)+
  show ?thesis using rel same kept vars unfolding related_def by (auto simp: addr_of_def old_trace_def)
qed

lemma related_mono: "related n \<rho> loc base va vs D s s' \<Longrightarrow> loc i = None \<Longrightarrow> related n \<rho> loc base va vs (insert i D) s s'"
  by (auto simp: related_def)

lemma access_pointer:
  assumes rel: "related n \<rho> loc base va vs D s s'" and repl: "replacement_for n N vs loc \<rho>" and vs: "vs = variables n regs"
    and apart: "registers_apart vs" and p: "access_ok regs loc (variable_bytes va vs \<union> register_bytes base vs) D s p w" "below n p"
  shows "(\<exists>i o' k off. (i, o', k) \<in> set vs \<and> unat (off - o') + w \<le> k \<and> addr_of s p = base + off \<and>
        addr_of s' (repl_value \<rho> p) = va i + (off - o')) \<or>
      (addr_of s' (repl_value \<rho> p) = addr_of s p \<and> bytes_at (addr_of s p) w \<inter> (variable_bytes va vs \<union> register_bytes base vs) = {})"
proof (cases "register_pointer loc p")
  case None
  then have "val_of s' (repl_value \<rho> p) = val_of s p" using plain_value rel repl p(2) by blast
  then show ?thesis using p(1) None by (simp add: access_ok_def addr_of_def)
next
  case (Some off)
  then obtain j where j: "p = LValue j" "loc j = Some off" "j \<in> D" "0 < w" "in_register regs off w"
    using p(1) by (auto simp: access_ok_def register_pointer_def split: llvm_value.splits)
  obtain i o' k where v: "(i, o', k) \<in> set vs" "unat (off - o') + w \<le> k"
    using j(5) unfolding variables_in_register [of regs off w n] vs by blast
  have "addr_of s p = base + off" "addr_of s' (repl_value \<rho> p) = va i + (off - o')"
    using related_register [OF rel apart j(3,2) v j(4)] j(1) by simp_all
  then show ?thesis using v by blast
qed

lemma kept_node:
  assumes rel: "related n \<rho> loc base va vs D s s'" and repl: "replacement_for n N vs loc \<rho>" and vs: "vs = variables n regs"
    and apart: "registers_apart vs" "variables_apart va base vs"
    and host: "callees_ok h n va (variable_bytes va vs \<union> register_bytes base vs)" and i: "i < n" "loc i = None"
    and ok: "step_fits regs loc (variable_bytes va vs \<union> register_bytes base vs) psize D inst s"
    and ops: "\<forall>v \<in> set (operands inst). below n v"
    and sizes: "sizes' i = sizes i" "\<And>v. below n v \<Longrightarrow> psize' v = psize v"
  shows "related n \<rho> loc base va vs (insert i D) (ir_exec h sizes psize (i, inst) s)
    (ir_exec h sizes' psize' (i, map_operands (repl_value \<rho>) (retarget f inst)) s')"
proof -
  let ?A = "variable_bytes va vs \<union> register_bytes base vs" and ?\<sigma> = "repl_value \<rho>"
  note set = related_value [OF rel repl i]
  have plain: "val_of s' (?\<sigma> v) = val_of s v" if "v \<in> set (operands inst)" "register_pointer loc v = None" for v
    using plain_value [OF rel repl that(2)] ops that(1) by blast
  have const: "?\<sigma> (LConstantInt w c) = LConstantInt w c" for w c by (simp add: repl_value_def)
  let ?inst = "map_operands ?\<sigma> (retarget f inst)"
  have other: "related n \<rho> loc base va vs (insert i D)
      (case h i (shape inst) (map (val_of s) (operands inst)) (st_trace s) (st_mem s) of (x, m) \<Rightarrow>
        set_value i x (s\<lparr>st_mem := m, st_trace := st_trace s @ [(i, map (val_of s) (operands inst))]\<rparr>))
      (case h i (shape ?inst) (map (val_of s') (operands ?inst)) (st_trace s') (st_mem s') of (x, m) \<Rightarrow>
        set_value i x (s'\<lparr>st_mem := m, st_trace := st_trace s' @ [(i, map (val_of s') (operands ?inst))]\<rparr>))"
    if all: "\<forall>v \<in> set (operands inst). register_pointer loc v = None"
  proof -
    let ?vals = "map (val_of s) (operands inst)"
    have vals: "map (val_of s') (operands ?inst) = ?vals" using plain all by (simp add: operands_map)
    obtain x m1 where x: "h i (shape inst) ?vals (st_trace s) (st_mem s) = (x, m1)" by fastforce
    obtain x' m1' where x': "h i (retarget f (shape inst)) ?vals (st_trace s') (st_mem s') = (x', m1')" by fastforce
    from related_host [OF rel host i(1) x x'] show ?thesis
      using related_value [OF _ repl i, of base va D] x x' vals by auto
  qed
  show ?thesis
  proof (cases inst)
    case (IStore v p)
    have v: "val_of s' (?\<sigma> v) = val_of s v" "below n v" "below n p" using ok plain ops IStore by simp_all
    have "psize' (?\<sigma> v) = psize v"
      using sizes(2) v(2) ok IStore repl by (cases v) (auto simp: repl_value_def register_pointer_def replacement_for_def)
    moreover have "access_ok regs loc ?A D s p (byte_size (psize v))" using ok IStore by simp
    from access_pointer [OF rel repl vs apart(1) this v(3)]
    have "related n \<rho> loc base va vs D
        (s\<lparr>st_mem := store_bytes (addr_of s p) (le_bytes (byte_size (psize v)) (val_of s v)) (st_mem s)\<rparr>)
        (s'\<lparr>st_mem := store_bytes (addr_of s' (?\<sigma> p)) (le_bytes (byte_size (psize v)) (val_of s v)) (st_mem s')\<rparr>)"
      using register_store [OF rel apart] outside_store [OF rel] by fastforce
    ultimately show ?thesis using IStore v(1) i(2) by (auto intro: related_mono)
  next
    case (ILoad bits p)
    have "access_ok regs loc ?A D s p (byte_size bits)" "below n p" using ok ops ILoad by simp_all
    from access_pointer [OF rel repl vs apart(1) this]
    have "load_bytes (st_mem s') (addr_of s' (?\<sigma> p)) (byte_size bits) = load_bytes (st_mem s) (addr_of s p) (byte_size bits)"
      using register_load [OF rel] outside_load [OF rel] by fastforce
    then show ?thesis using ILoad set by simp
  next
    case (IBinary op x y)
    then have all: "\<forall>v \<in> set (operands inst). register_pointer loc v = None" using ok by (cases op) simp_all
    then show ?thesis using other [OF all] plain set sizes(1) IBinary by (cases op) simp_all
  next
    case (IGep p off)
    then have all: "\<forall>v \<in> set (operands inst). register_pointer loc v = None" using ok by (cases off) simp_all
    then show ?thesis using other [OF all] plain set IGep by (cases off) (simp_all add: addr_of_def)
  qed (use other plain set ok in simp_all)
qed

lemma exec_no_deletion: "to_delete b = [] \<Longrightarrow> exec_node h b node s = ir_exec h (ir_sizes b) (primitive_size b) node s"
  by (simp add: exec_node_def)

lemma replacement_forE:
  assumes "replacement_for n N vs loc \<rho>" and "loc i = Some off"
  obtains v o' k where "(v, o', k) \<in> set vs" and "unat (off - o') < k" and "n \<le> v" and "v < N"
    and "\<rho> i = Some (LValue v, []) \<and> off = o' \<or>
      (\<exists>g. \<rho> i = Some (LValue g, [(g, IGep (LValue v) (Some (off - o')))]) \<and> n \<le> g \<and> g < N \<and> (\<forall>v \<in> set vs. fst v \<noteq> g))"
proof -
  have "\<exists>x \<in> set vs. case x of (v, o', k) \<Rightarrow> unat (off - o') < k \<and>
      (\<rho> i = Some (LValue v, []) \<and> off = o' \<or>
      (\<exists>g. \<rho> i = Some (LValue g, [(g, IGep (LValue v) (Some (off - o')))]) \<and> n \<le> g \<and> g < N \<and> (\<forall>v \<in> set vs. fst v \<noteq> g)))"
    using assms unfolding replacement_for_def by (elim conjE) blast
  moreover have "n \<le> v \<and> v < N" if "(v, o', k) \<in> set vs" for v o' k
    using assms(1) that unfolding replacement_for_def by (elim conjE) blast
  ultimately show thesis using that by blast
qed

text \<open>The address of a register is computed, in the variable that stands for it.\<close>

lemma replaced_node:
  assumes rel: "related n \<rho> loc base va vs D s s'" and repl: "replacement_for n N vs loc \<rho>" and i: "i < n" "loc i = Some off"
    and del: "to_delete b' = []"
  shows "related n \<rho> loc base va vs (insert i D) (set_value i (uint (base + off)) s) (exec_nodes h b' (repl_node \<rho> (i, inst)) s')"
proof -
  obtain v o' k where v: "(v, o', k) \<in> set vs" "unat (off - o') < k" "n \<le> v" "v < N"
      and new: "\<rho> i = Some (LValue v, []) \<and> off = o' \<or>
        (\<exists>g. \<rho> i = Some (LValue g, [(g, IGep (LValue v) (Some (off - o')))]) \<and> n \<le> g \<and> g < N \<and> (\<forall>v \<in> set vs. fst v \<noteq> g))"
    using replacement_forE [OF repl i(2)] .
  have va: "addr_of s' (LValue v) = va v" using rel v(1) by (fastforce simp: related_def addr_of_def val_of_def)
  have not_i: "j \<noteq> i" if "\<rho> j = None" for j using that new by auto
  let ?s = "set_value i (uint (base + off)) s"
  have step: "related n \<rho> loc base va vs (insert i D) ?s t"
    if t: "\<And>j. j < n \<Longrightarrow> st_env t j = st_env s' j" "st_mem t = st_mem s'" "st_trace t = st_trace s'"
      "\<And>w. w \<in> set vs \<Longrightarrow> st_env t (fst w) = st_env s' (fst w)" "addr_of t (repl_value \<rho> (LValue i)) = va v + (off - o')"
      "\<And>j o2. loc j = Some o2 \<Longrightarrow> j \<noteq> i \<Longrightarrow> addr_of t (repl_value \<rho> (LValue j)) = addr_of s' (repl_value \<rho> (LValue j))" for t
    unfolding related_def
  proof (intro conjI allI impI ballI)
    fix j o2 assume j: "j \<in> insert i D" "loc j = Some o2"
    show "addr_of ?s (LValue j) = base + o2"
      using j i(2) rel by (cases "j = i") (auto simp: related_def)
    show "\<exists>(i, o', sz) \<in> set vs. unat (o2 - o') < sz \<and> addr_of t (repl_value \<rho> (LValue j)) = va i + (o2 - o')"
    proof (cases "j = i")
      case True
      then show ?thesis using j(2) i(2) t(5) v by (intro bexI [of _ "(v, o', k)"]) auto
    next
      case False
      then have "\<exists>(i, o', sz) \<in> set vs. unat (o2 - o') < sz \<and> addr_of s' (repl_value \<rho> (LValue j)) = va i + (o2 - o')"
        using rel j unfolding related_def by blast
      then show ?thesis using t(6) [OF j(2) False] by simp
    qed
  qed (use rel t not_i in \<open>fastforce simp: related_def\<close>)+
  show ?thesis
  proof (cases "\<rho> i = Some (LValue v, []) \<and> off = o'")
    case True
    then show ?thesis using va by (intro step) (simp_all add: repl_value_def)
  next
    case False
    then obtain g where g: "\<rho> i = Some (LValue g, [(g, IGep (LValue v) (Some (off - o')))])" "n \<le> g" "\<forall>v \<in> set vs. fst v \<noteq> g"
      using new by blast
    let ?t = "set_value g (uint (va v + (off - o'))) s'"
    have "exec_nodes h b' (repl_node \<rho> (i, inst)) s' = ?t" using g(1) del va by (simp add: exec_no_deletion)
    moreover have "addr_of ?t (repl_value \<rho> (LValue j)) = addr_of s' (repl_value \<rho> (LValue j))" if j: "loc j = Some o2" "j \<noteq> i" for j o2
    proof -
      obtain v2 o3 k2 where "(v2, o3, k2) \<in> set vs" and "\<rho> j = Some (LValue v2, []) \<or>
          (\<exists>g2. \<rho> j = Some (LValue g2, [(g2, IGep (LValue v2) (Some (o2 - o3)))]))"
        using replacement_forE [OF repl j(1)] by metis
      moreover have "new_ids \<rho> i \<inter> new_ids \<rho> j = {}" using repl j(2) unfolding replacement_for_def by blast
      ultimately show ?thesis using g by (auto simp: repl_value_def new_ids_def)
    qed
    ultimately show ?thesis using g by (simp only: , intro step) (auto simp: repl_value_def)
  qed
qed

section \<open>The copies before a return\<close>

lemma related_registers:
  assumes "related n \<rho> loc base va vs D s s'" and "variables_apart va base vs" and "\<And>a. a \<notin> register_bytes base vs \<Longrightarrow> m a = st_mem s' a"
  shows "related n \<rho> loc base va vs D s (s'\<lparr>st_mem := m\<rparr>)"
proof -
  have "va i + of_nat c \<notin> register_bytes base vs" if "(i, off, k) \<in> set vs" "c < k" for i off k c
  proof -
    have "va i + of_nat c \<in> variable_bytes va vs" using that bytes_at_nth by (fastforce simp: variable_bytes_def)
    then show ?thesis using assms(2) by (auto simp: variables_apart_def)
  qed
  then show ?thesis using assms(1,3) unfolding related_def by (auto simp: addr_of_def)
qed

lemma le_bytes_load: "le_bytes n (le_val (load_bytes m a n)) = load_bytes m a n"
  by (rule le_bytes_le_val) (simp add: load_bytes_def)

text \<open>The memory after a variable is copied to its place in the state.\<close>

lemma copied_memory:
  assumes "related n \<rho> loc base va vs D s s'" and "(i, off, sz) \<in> set vs"
  shows "store_bytes (base + off) (load_bytes (st_mem s') (va i) sz) m a = (if unat (a - (base + off)) < sz then st_mem s a else m a)"
proof -
  have "st_mem s' (va i + of_nat c) = st_mem s (base + off + of_nat c)" if "c < sz" for c
    using assms that unfolding related_def by blast
  from this [of "unat (a - (base + off))"] show ?thesis by (simp add: store_bytes_def load_bytes_def)
qed

lemma exec_copy_out:
  assumes rel: "related n \<rho> loc base va vs D s s'" and repl: "replacement_for n N vs loc \<rho>" and apart: "variables_apart va base vs"
    and v: "(i, off, sz) \<in> set vs" "off < 2 ^ 32" and k: "n \<le> k" "N \<le> k" and del: "to_delete b' = []"
    and size: "ir_sizes b' (Suc k) = sz * 8" and base: "state = LValue k0" "k0 < n" "addr_of s' state = base"
  shows "\<exists>t. exec_nodes h b' (copy_outs state k (variable_entry (i, off, sz) # m)) s' = exec_nodes h b' (copy_outs state (Suc (Suc (Suc k))) m) t \<and>
    related n \<rho> loc base va vs D s t \<and> addr_of t state = base \<and>
    (\<forall>a. st_mem t a = (if unat (a - (base + off)) < sz then st_mem s a else st_mem s' a))"
proof -
  define x where "x = le_val (load_bytes (st_mem s') (va i) sz)"
  define s1 where "s1 = set_value (Suc k) x (set_value k (uint (base + off)) s')"
  have rel1: "related n \<rho> loc base va vs D s s1"
    unfolding s1_def using related_free rel repl k by (metis le_SucI)
  have i: "n \<le> i" "i < N" using repl v(1) unfolding replacement_for_def by blast+
  have off: "ucast (ucast off :: u32) = off" using ucast_ucast_u32 [OF v(2)] .
  have va: "st_env s' i = uint (va i)" using rel v(1) unfolding related_def by blast
  have mem: "store_bytes (base + off) (le_bytes sz x) (st_mem s') a = (if unat (a - (base + off)) < sz then st_mem s a else st_mem s' a)" for a
    unfolding x_def le_bytes_load by (rule copied_memory [OF rel v(1)])
  define t where "t = s1\<lparr>st_mem := store_bytes (base + off) (le_bytes sz x) (st_mem s')\<rparr>"
  have "exec_nodes h b' (copy_outs state k (variable_entry (i, off, sz) # m)) s' = exec_nodes h b' (copy_outs state (Suc (Suc (Suc k))) m) t"
    using del base(3) i k off va size
    by (simp add: variable_entry_def exec_no_deletion t_def s1_def x_def byte_size_def primitive_size_def addr_of_def val_of_def set_value_def)
  moreover have "related n \<rho> loc base va vs D s t"
    unfolding t_def
  proof (rule related_registers [OF rel1 apart])
    fix a assume "a \<notin> register_bytes base vs"
    then have "\<not> unat (a - (base + off)) < sz" using v(1) bytes_at_mem by (fastforce simp: register_bytes_def)
    then show "store_bytes (base + off) (le_bytes sz x) (st_mem s') a = st_mem s1 a" by (simp add: mem s1_def)
  qed
  moreover have "addr_of t state = addr_of s1 state" by (simp add: t_def addr_of_def)
  then have "addr_of t state = base" using base k by (simp add: s1_def)
  moreover have "st_mem t a = (if unat (a - (base + off)) < sz then st_mem s a else st_mem s' a)" for a by (simp add: t_def mem)
  ultimately show ?thesis by blast
qed

lemma exec_copies:
  assumes "related n \<rho> loc base va vs D s s'" and repl: "replacement_for n N vs loc \<rho>" and apart: "variables_apart va base vs"
    and vs: "\<forall>(i, off, sz) \<in> set vs. off < 2 ^ 32" and "n \<le> k" and "N \<le> k" and del: "to_delete b' = []"
    and "sized b' (copy_outs state k m)" and m: "\<forall>e \<in> set m. e \<in> variable_entry ` set vs"
    and base: "state = LValue k0" "k0 < n" and "addr_of s' state = base"
  shows "related n \<rho> loc base va vs D s (exec_nodes h b' (copy_outs state k m) s') \<and>
    addr_of (exec_nodes h b' (copy_outs state k m) s') state = base \<and>
    (\<forall>a. st_mem s' a = st_mem s a \<or> (\<exists>(i, off, sz) \<in> set vs. variable_entry (i, off, sz) \<in> set m \<and> unat (a - (base + off)) < sz) \<longrightarrow>
      st_mem (exec_nodes h b' (copy_outs state k m) s') a = st_mem s a)"
  using assms(1,5,6,8,9,12)
proof (induction m arbitrary: k s')
  case Nil
  then show ?case by simp
next
  case (Cons e m)
  obtain i off sz where v: "(i, off, sz) \<in> set vs" "e = variable_entry (i, off, sz)" using Cons.prems(5) by auto
  have off: "off < 2 ^ 32" using vs v(1) by auto
  have size: "ir_sizes b' (Suc k) = sz * 8" using Cons.prems(4) v(2) by (simp add: sized_def variable_entry_def)
  obtain t where t: "exec_nodes h b' (copy_outs state k (e # m)) s' = exec_nodes h b' (copy_outs state (Suc (Suc (Suc k))) m) t"
      "related n \<rho> loc base va vs D s t" "addr_of t state = base"
      "\<forall>a. st_mem t a = (if unat (a - (base + off)) < sz then st_mem s a else st_mem s' a)"
    using exec_copy_out [OF Cons.prems(1) repl apart v(1) off Cons.prems(2,3) del size base Cons.prems(6)] v(2) by metis
  have "sized b' (copy_outs state (Suc (Suc (Suc k))) m)" using Cons.prems(4) v(2) by (auto simp: sized_def variable_entry_def)
  note ih = Cons.IH [OF t(2) _ _ this _ t(3)]
  have "(i', off', sz') = (i, off, sz)" if "(i', off', sz') \<in> set vs" "variable_entry (i', off', sz') = e" for i' off' sz'
  proof -
    have "off' < 2 ^ 32" using vs that(1) by auto
    then show ?thesis using that(2) v(2) off ucast_ucast_u32 by (simp add: variable_entry_def) metis
  qed
  then have "st_mem t a = st_mem s a" if "(i', off', sz') \<in> set vs" "variable_entry (i', off', sz') = e" "unat (a - (base + off')) < sz'" for i' off' sz' a
    using that t(4) by fastforce
  moreover have "st_mem s' a = st_mem s a \<Longrightarrow> st_mem t a = st_mem s a" for a using t(4) by simp
  ultimately show ?case using ih Cons.prems(2,3,5) unfolding t(1) by (fastforce simp: case_prod_beta)
qed

section \<open>Paths\<close>

definition register_gep :: "llvm_value \<Rightarrow> remill_register list \<Rightarrow> ir_builder \<Rightarrow> nat \<rightharpoonup> u64" where
  "register_gep state regs b i =
     (case insts_of (ir_blocks b) i of None \<Rightarrow> None
      | Some inst \<Rightarrow> (if register_address state regs inst then state_offset state inst else None))"

text \<open>Every instruction of a path accesses registers in the way the pass expects.\<close>

fun run_ok :: "ir_host \<Rightarrow> ir_builder \<Rightarrow> remill_register list \<Rightarrow> (nat \<rightharpoonup> u64) \<Rightarrow> u64 set \<Rightarrow> nat set \<Rightarrow> ir_node list \<Rightarrow> ir_state \<Rightarrow> bool" where
  "run_ok h b regs loc A D [] s \<longleftrightarrow> True"
| "run_ok h b regs loc A D (x # xs) s \<longleftrightarrow>
     step_fits regs loc A (primitive_size b) D (snd x) s \<and> run_ok h b regs loc A (insert (fst x) D) xs (exec_node h b x s)"

lemma run_ok_append:
  "run_ok h b regs loc A D (xs @ ys) s \<longleftrightarrow>
     run_ok h b regs loc A D xs s \<and> run_ok h b regs loc A (D \<union> fst ` set xs) ys (exec_nodes h b xs s)"
  by (induction xs arbitrary: D s) simp_all

text \<open>What the pass relies on in a function, most of it what LLVM's verifier checks.\<close>

definition pass_input :: "llvm_value \<Rightarrow> ir_builder \<Rightarrow> bool" where
  "pass_input state b \<longleftrightarrow>
     numbered state b \<and> distinct (map fst (concat (ir_blocks b))) \<and> to_delete b = [] \<and> ir_blocks b \<noteq> [] \<and>
     (\<forall>ns \<in> set (ir_blocks b). ns \<noteq> [] \<and> is_terminator (snd (last ns))) \<and>
     (\<forall>(i, inst) \<in> nodes_of b. (\<forall>v \<in> set (operands inst). below (ir_next b) v) \<and>
        (case inst of IGepValue p idx \<Rightarrow> p \<noteq> state | _ \<Rightarrow> True) \<and>
        (case state_offset state inst of None \<Rightarrow> True | Some off \<Rightarrow> off < 2 ^ 32))"

lemma ir_exec_env: "j \<noteq> i \<Longrightarrow> st_env (ir_exec h sizes psize (i, inst) s) j = st_env s j"
proof (cases inst)
  case (IBinary op a c)
  assume "j \<noteq> i"
  then show ?thesis using IBinary by (cases op) (simp_all split: prod.split)
next
  case (IGep p off)
  assume "j \<noteq> i"
  then show ?thesis using IGep by (cases off) (simp_all split: prod.split)
qed (simp_all split: prod.split)

lemma exec_keeps_base:
  "LValue (fst x) \<noteq> state \<Longrightarrow> addr_of (exec_node h b x s) state = addr_of s state"
  by (cases x; cases state) (simp_all add: exec_node_def addr_of_def val_of_def ir_exec_env)

text \<open>What holds of every node of the function and of the two functions.\<close>

definition sim_setup ::
  "ir_host \<Rightarrow> ir_builder \<Rightarrow> ir_builder \<Rightarrow> llvm_value \<Rightarrow> remill_register list \<Rightarrow> nat \<Rightarrow> replacement \<Rightarrow> u64 \<Rightarrow> (nat \<Rightarrow> u64) \<Rightarrow> bool" where
  "sim_setup h b b' state regs N \<rho> base va \<longleftrightarrow>
     (let n = ir_next b; vs = variables n regs in
      replacement_for n N vs (register_gep state regs b) \<rho> \<and> registers_apart vs \<and> variables_apart va base vs \<and>
      callees_ok h n va (variable_bytes va vs \<union> register_bytes base vs) \<and> to_delete b = [] \<and> to_delete b' = [] \<and>
      (\<forall>j < n. ir_sizes b' j = ir_sizes b j) \<and> (\<exists>k < n. state = LValue k \<and> \<rho> k = None) \<and> n \<le> N \<and>
      (\<forall>(i, off, sz) \<in> set vs. off < 2 ^ 32))"

definition sim_node :: "llvm_value \<Rightarrow> remill_register list \<Rightarrow> ir_builder \<Rightarrow> ir_node \<Rightarrow> bool" where
  "sim_node state regs b x \<longleftrightarrow>
     fst x < ir_next b \<and> LValue (fst x) \<noteq> state \<and> (\<forall>v \<in> set (operands (snd x)). below (ir_next b) v) \<and>
     (\<forall>off. register_gep state regs b (fst x) = Some off \<longrightarrow> snd x = IGep state (Some off))"

lemma sim_step:
  assumes sim: "sim_setup h b b' state regs N \<rho> base va" and node: "sim_node state regs b x"
    and rel: "related (ir_next b) \<rho> (register_gep state regs b) base va (variables (ir_next b) regs) D s s'"
    and ok: "step_fits regs (register_gep state regs b)
      (variable_bytes va (variables (ir_next b) regs) \<union> register_bytes base (variables (ir_next b) regs)) (primitive_size b) D (snd x) s"
    and base: "addr_of s state = base"
  shows "related (ir_next b) \<rho> (register_gep state regs b) base va (variables (ir_next b) regs) (insert (fst x) D)
    (exec_node h b x s) (exec_nodes h b' (repl_node \<rho> (fst x, retarget f (snd x))) s')"
proof -
  let ?loc = "register_gep state regs b"
  obtain i inst where x: "x = (i, inst)" by fastforce
  have del: "to_delete b = []" "to_delete b' = []" using sim by (simp_all add: sim_setup_def Let_def)
  show ?thesis
  proof (cases "?loc i")
    case None
    have "\<rho> i = None" using sim None unfolding sim_setup_def Let_def replacement_for_def by blast
    moreover have "primitive_size b' v = primitive_size b v" if "below (ir_next b) v" for v
      using sim that by (cases v) (simp_all add: sim_setup_def Let_def primitive_size_def below_def)
    moreover have "related (ir_next b) \<rho> ?loc base va (variables (ir_next b) regs) (insert i D)
        (ir_exec h (ir_sizes b) (primitive_size b) (i, inst) s)
        (ir_exec h (ir_sizes b') (primitive_size b') (i, map_operands (repl_value \<rho>) (retarget f inst)) s')"
      by (rule kept_node [where N = N, OF rel _ refl])
        (use sim node ok None x calculation(2) in \<open>simp_all add: sim_setup_def sim_node_def Let_def\<close>)
    ultimately show ?thesis using x del by (simp add: exec_no_deletion)
  next
    case (Some off)
    then have "inst = IGep state (Some off)" "i < ir_next b" using node x by (simp_all add: sim_node_def)
    moreover have "replacement_for (ir_next b) N (variables (ir_next b) regs) ?loc \<rho>" using sim by (simp add: sim_setup_def Let_def)
    ultimately show ?thesis using replaced_node [OF rel _ _ Some del(2), of N h "retarget f inst"] x del base
      by (simp add: exec_no_deletion)
  qed
qed

lemma sim_nodes:
  assumes sim: "sim_setup h b b' state regs N \<rho> base va" and "\<forall>x \<in> set ns. sim_node state regs b x"
    and "related (ir_next b) \<rho> (register_gep state regs b) base va (variables (ir_next b) regs) D s s'"
    and "run_ok h b regs (register_gep state regs b)
      (variable_bytes va (variables (ir_next b) regs) \<union> register_bytes base (variables (ir_next b) regs)) D ns s"
    and "addr_of s state = base"
  shows "related (ir_next b) \<rho> (register_gep state regs b) base va (variables (ir_next b) regs) (D \<union> fst ` set ns)
    (exec_nodes h b ns s) (exec_nodes h b' (repl_nodes \<rho> (map (\<lambda>(i, inst). (i, retarget f inst)) ns)) s') \<and>
    addr_of (exec_nodes h b ns s) state = base"
  using assms(2-)
proof (induction ns arbitrary: D s s')
  case (Cons x ns)
  have node: "sim_node state regs b x" using Cons.prems(1) by simp
  note step = sim_step [OF sim node Cons.prems(2) _ Cons.prems(4), of f]
  have "addr_of (exec_node h b x s) state = base" using exec_keeps_base node Cons.prems(4) by (simp add: sim_node_def)
  then show ?case
    using Cons.IH [of "insert (fst x) D" "exec_node h b x s" "exec_nodes h b' (repl_node \<rho> (fst x, retarget f (snd x))) s'"]
      step Cons.prems by (simp add: case_prod_beta)
qed simp

text \<open>A block, with the copies when it returns.\<close>

abbreviation shift_nodes :: "(block_id \<Rightarrow> block_id) \<Rightarrow> ir_node list \<Rightarrow> ir_node list" where
  "shift_nodes f \<equiv> map (\<lambda>(i, inst). (i, retarget f inst))"

definition synced :: "u64 \<Rightarrow> variable list \<Rightarrow> ir_state \<Rightarrow> ir_state \<Rightarrow> bool" where
  "synced base vs s s' \<longleftrightarrow> (\<forall>a \<in> register_bytes base vs. st_mem s' a = st_mem s a)"

lemma is_terminator_retarget [simp]: "is_terminator (retarget f inst) = is_terminator inst"
  by (cases inst) simp_all

lemma is_return_kept [simp]: "is_return (l, map_operands g (retarget f inst)) = is_return (l, inst)"
  by (cases inst) (simp_all add: is_return_def)

lemma no_terminator_replaced:
  assumes "sim_setup h b b' state regs N \<rho> base va" and "sim_node state regs b x" and "is_terminator (snd x)"
  shows "\<rho> (fst x) = None"
proof -
  have "register_gep state regs b (fst x) = None"
  proof (rule ccontr)
    assume "register_gep state regs b (fst x) \<noteq> None"
    then obtain off where "snd x = IGep state (Some off)" using assms(2) by (auto simp: sim_node_def)
    then show False using assms(3) by simp
  qed
  then show ?thesis using assms(1) unfolding sim_setup_def Let_def replacement_for_def by blast
qed

lemma state_same:
  assumes "sim_setup h b b' state regs N \<rho> base va"
    and "related (ir_next b) \<rho> loc base va vs D s s'" and "addr_of s state = base"
  shows "addr_of s' state = base"
  using assms by (auto simp: sim_setup_def Let_def related_def addr_of_def val_of_def)

lemma copies_sync:
  assumes sim: "sim_setup h b b' state regs N \<rho> base va" and vs: "vs = variables (ir_next b) regs"
    and rel: "related (ir_next b) \<rho> (register_gep state regs b) base va vs D s s'" and base: "addr_of s state = base"
    and k: "N \<le> k" and sized: "sized b' (copy_outs state k m)" and m: "set m = variable_entry ` set vs"
  shows "related (ir_next b) \<rho> (register_gep state regs b) base va vs D s (exec_nodes h b' (copy_outs state k m) s') \<and>
    synced base vs s (exec_nodes h b' (copy_outs state k m) s')"
proof -
  obtain k0 where k0: "state = LValue k0" "k0 < ir_next b" using sim by (auto simp: sim_setup_def Let_def)
  have "related (ir_next b) \<rho> (register_gep state regs b) base va vs D s (exec_nodes h b' (copy_outs state k m) s') \<and>
    addr_of (exec_nodes h b' (copy_outs state k m) s') state = base \<and>
    (\<forall>a. st_mem s' a = st_mem s a \<or> (\<exists>(i, off, sz) \<in> set vs. variable_entry (i, off, sz) \<in> set m \<and> unat (a - (base + off)) < sz) \<longrightarrow>
      st_mem (exec_nodes h b' (copy_outs state k m) s') a = st_mem s a)"
    by (rule exec_copies [OF rel, where N = N, OF _ _ _ _ _ _ sized _ k0])
      (use sim k m vs state_same [OF sim rel base] in \<open>simp_all add: sim_setup_def Let_def\<close>)
  moreover have "\<exists>(i, off, sz) \<in> set vs. variable_entry (i, off, sz) \<in> set m \<and> unat (a - (base + off)) < sz"
    if a: "a \<in> register_bytes base vs" for a
  proof -
    obtain i off sz where v: "(i, off, sz) \<in> set vs" "a \<in> bytes_at (base + off) sz" using a unfolding register_bytes_def by blast
    have "sz \<le> 2 ^ 64 \<or> 2 ^ 64 < sz" by linarith
    then have "unat (a - (base + off)) < sz"
    proof
      assume "2 ^ 64 < sz"
      then show ?thesis using unat_bound [of "a - (base + off)"] by simp
    next
      assume "sz \<le> 2 ^ 64"
      moreover obtain c where c: "c < sz" "a = base + off + of_nat c" using v(2) by (auto simp: bytes_at_def)
      ultimately have "unat (of_nat c :: u64) = c" by (simp add: unat_of_nat)
      then show ?thesis using c by simp
    qed
    then show ?thesis using v(1) m by (intro bexI [of _ "(i, off, sz)"]) auto
  qed
  ultimately show ?thesis unfolding synced_def by blast
qed

lemma return_keeps_registers:
  assumes "synced base vs s s'" and host: "callees_ok h n va (variable_bytes va vs \<union> register_bytes base vs)" and "l < n"
    and "to_delete b = []" and "to_delete b' = []" and ret: "is_return (l, inst)"
  shows "synced base vs (exec_node h b (l, inst) s) (exec_node h b' (l, map_operands g (retarget f inst)) s')"
proof -
  obtain v where inst: "inst = IRet v" using ret by (cases inst) (simp_all add: is_return_def)
  have "st_mem (exec_node h c (l, IRet u) t) a = st_mem t a" if "to_delete c = []" "a \<in> register_bytes base vs" for c u t a
    using host_leaves [OF host assms(3), of a "shape (IRet u)" "[val_of t u]" "st_trace t" "st_mem t"] that
    by (simp add: exec_no_deletion case_prod_beta)
  then show ?thesis using assms(1,4,5) inst by (simp add: synced_def)
qed

lemma sim_block:
  fixes f :: "block_id \<Rightarrow> block_id"
  assumes sim: "sim_setup h b b' state regs N \<rho> base va" and vs: "vs = variables (ir_next b) regs"
    and nodes: "ns \<noteq> []" "is_terminator (snd (last ns))" "\<forall>x \<in> set ns. sim_node state regs b x"
    and rel: "related (ir_next b) \<rho> (register_gep state regs b) base va vs D s s'" and base: "addr_of s state = base"
    and run: "run_ok h b regs (register_gep state regs b) (variable_bytes va vs \<union> register_bytes base vs) D ns s"
    and k: "N \<le> k" "is_return (last ns) \<Longrightarrow> sized b' (copy_outs state k m)" "set m = variable_entry ` set vs"
  defines "t \<equiv> exec_nodes h b ns s" and "t' \<equiv> exec_nodes h b' (with_copies state k m (repl_nodes \<rho> (shift_nodes f ns))) s'"
  shows "related (ir_next b) \<rho> (register_gep state regs b) base va vs (D \<union> fst ` set ns) t t'" and "addr_of t state = base"
    and "is_return (last ns) \<Longrightarrow> synced base vs t t'"
proof -
  let ?loc = "register_gep state regs b" and ?n = "ir_next b"
  obtain xs l inst where ns: "ns = xs @ [(l, inst)]" by (metis nodes(1) rev_exhaust surj_pair)
  have "\<rho> l = None" using no_terminator_replaced [OF sim, of "(l, inst)"] nodes ns by simp
  then have last: "repl_nodes \<rho> (shift_nodes f ns) = repl_nodes \<rho> (shift_nodes f xs) @ [(l, map_operands (repl_value \<rho>) (retarget f inst))]"
    using ns by simp
  have both: "related ?n \<rho> ?loc base va vs (D \<union> fst ` set ns) t t' \<and> addr_of t state = base \<and> (is_return (last ns) \<longrightarrow> synced base vs t t')"
  proof (cases "is_return (l, inst)")
    case False
    then have "with_copies state k m (repl_nodes \<rho> (shift_nodes f ns)) = repl_nodes \<rho> (shift_nodes f ns)"
      by (simp add: with_copies_def last)
    then show ?thesis using sim_nodes [OF sim nodes(3) rel [unfolded vs] run [unfolded vs] base, of f] False ns
      by (simp add: t_def t'_def vs)
  next
    case True
    let ?s = "exec_nodes h b xs s" and ?s' = "exec_nodes h b' (repl_nodes \<rho> (shift_nodes f xs)) s'"
    let ?c = "exec_nodes h b' (copy_outs state k m) ?s'"
    have run1: "run_ok h b regs ?loc (variable_bytes va vs \<union> register_bytes base vs) D xs s"
      and run2: "step_fits regs ?loc (variable_bytes va vs \<union> register_bytes base vs) (primitive_size b) (D \<union> fst ` set xs) inst ?s"
      using run unfolding ns run_ok_append by simp_all
    have xs: "\<forall>x \<in> set xs. sim_node state regs b x" and node: "sim_node state regs b (l, inst)" using nodes(3) ns by simp_all
    have first: "related ?n \<rho> ?loc base va vs (D \<union> fst ` set xs) ?s ?s' \<and> addr_of ?s state = base"
      using sim_nodes [OF sim xs rel [unfolded vs] run1 [unfolded vs] base, of f] by (simp add: vs)
    have sized: "sized b' (copy_outs state k m)" using k(2) True ns by simp
    have copies: "related ?n \<rho> ?loc base va vs (D \<union> fst ` set xs) ?s ?c \<and> synced base vs ?s ?c"
      using copies_sync [OF sim vs _ _ k(1) sized k(3)] first by blast
    have t': "t' = exec_node h b' (l, map_operands (repl_value \<rho>) (retarget f inst)) ?c"
      using True by (simp add: t'_def with_copies_def last)
    have t: "t = exec_node h b (l, inst) ?s" by (simp add: t_def ns)
    have "related ?n \<rho> ?loc base va vs (insert l (D \<union> fst ` set xs)) t t'"
      using sim_step [OF sim node, of "D \<union> fst ` set xs" ?s ?c f] copies run2 first \<open>\<rho> l = None\<close>
      by (simp add: vs t t')
    moreover have "synced base vs t t'"
      unfolding t t' by (rule return_keeps_registers [where n = ?n and va = va])
        (use copies sim vs node True in \<open>simp_all add: sim_setup_def sim_node_def Let_def\<close>)
    moreover have "addr_of t state = base" using exec_keeps_base [of "(l, inst)"] first node by (simp add: t sim_node_def)
    ultimately show ?thesis by (simp add: ns insert_commute)
  qed
  then show "related ?n \<rho> ?loc base va vs (D \<union> fst ` set ns) t t'" "addr_of t state = base"
    "is_return (last ns) \<Longrightarrow> synced base vs t t'" by simp_all
qed

section \<open>The entry block runs\<close>

definition entered ::
  "nat \<Rightarrow> (nat \<Rightarrow> u64) \<Rightarrow> u64 \<Rightarrow> variable list \<Rightarrow> variable set \<Rightarrow> variable set \<Rightarrow> ir_state \<Rightarrow> ir_state \<Rightarrow> bool" where
  "entered n va base vs made filled s t \<longleftrightarrow>
     (\<forall>j < n. st_env t j = st_env s j) \<and> old_trace n (st_trace t) = old_trace n (st_trace s) \<and>
     (\<forall>a. a \<notin> variable_bytes va vs \<longrightarrow> st_mem t a = st_mem s a) \<and> (\<forall>(i, off, sz) \<in> made. st_env t i = uint (va i)) \<and>
     (\<forall>(i, off, sz) \<in> filled. \<forall>c < sz. st_mem t (va i + of_nat c) = st_mem s (base + off + of_nat c))"

lemma enter_alloca:
  assumes "entered n va base vs made filled s t" and "callees_ok h n va A" and "n \<le> i" and "to_delete b' = []"
  shows "entered n va base vs (insert (i, off, sz) made) filled s (exec_node h b' (i, IAlloca sz) t)"
proof -
  have "h i (IAlloca sz) [] (st_trace t) (st_mem t) = (uint (va i), st_mem t)" using assms(2,3) by (simp add: callees_ok_def)
  then show ?thesis using assms(1,3,4)
    by (auto simp: entered_def exec_no_deletion shape_def old_trace_def case_prod_beta)
qed

lemma enter_allocas:
  assumes "entered n va base vs made filled s t" and "callees_ok h n va A" and "\<forall>(i, off, sz) \<in> set ws. n \<le> i" and "to_delete b' = []"
  shows "entered n va base vs (made \<union> set ws) filled s (exec_nodes h b' (map (\<lambda>(i, off, sz). (i, IAlloca sz)) ws) t)"
  using assms(1,3)
proof (induction ws arbitrary: made t)
  case (Cons w ws)
  obtain i off sz where w: "w = (i, off, sz)" by (metis prod_cases3)
  have "entered n va base vs (insert w made) filled s (exec_node h b' (i, IAlloca sz) t)"
    using enter_alloca [OF Cons.prems(1) assms(2) _ assms(4)] Cons.prems(2) w by simp
  from Cons.IH [OF this] Cons.prems(2) show ?case by (simp add: w)
qed simp

lemma enter_copy:
  assumes ent: "entered n va base vs made filled s t" and apart: "variables_apart va base vs"
    and v: "(i, off, sz) \<in> set vs" "(i, off, sz) \<in> made" and filled: "filled \<subseteq> set vs" and k: "n \<le> k" "\<forall>w \<in> made. fst w < k"
    and del: "to_delete b' = []" and size: "ir_sizes b' (Suc k) = sz * 8" and base: "state = LValue k0" "k0 < n" "addr_of s state = base"
  shows "entered n va base vs made (insert (i, off, sz) filled) s (exec_nodes h b' (copy_ins state k [(i, off, sz)]) t)"
proof -
  define x where "x = le_val (load_bytes (st_mem t) (base + off) sz)"
  define t1 where "t1 = set_value (Suc k) x (set_value k (uint (base + off)) t)"
  let ?m = "store_bytes (va i) (le_bytes sz x) (st_mem t)"
  have "i < k" using v(2) k(2) by fastforce
  moreover have "st_env t i = uint (va i)" "st_env t k0 = st_env s k0" using ent v(2) base(2) by (auto simp: entered_def)
  ultimately have run: "exec_nodes h b' (copy_ins state k [(i, off, sz)]) t = t1\<lparr>st_mem := ?m\<rparr>"
    using del base size
    by (simp add: exec_no_deletion t1_def x_def byte_size_def primitive_size_def addr_of_def val_of_def set_value_def)
  have sub: "bytes_at (va i) sz \<subseteq> variable_bytes va vs" using v(1) by (auto simp: variable_bytes_def)
  have outside: "?m a = st_mem t a" if "a \<notin> bytes_at (va i) sz" for a using that by (simp add: store_outside)
  have own: "?m (va i + of_nat c) = st_mem s (base + off + of_nat c)" if "c < sz" for c
  proof -
    have "base + off + of_nat c \<in> register_bytes base vs" using v(1) that bytes_at_nth by (fastforce simp: register_bytes_def)
    then have "base + off + of_nat c \<notin> variable_bytes va vs" using apart by (auto simp: variables_apart_def)
    then have "st_mem t (base + off + of_nat c) = st_mem s (base + off + of_nat c)" using ent by (simp add: entered_def)
    moreover have "unat (of_nat c :: u64) < sz" using that unfolding unat_of_nat by (meson le_less_trans mod_less_eq_dividend)
    moreover have "(of_nat (unat (of_nat c :: u64)) :: u64) = of_nat c" by simp
    ultimately show ?thesis unfolding x_def le_bytes_load by (simp add: store_bytes_def load_bytes_def)
  qed
  have other: "?m (va j + of_nat c) = st_mem s (base + o2 + of_nat c)" if w: "(j, o2, k2) \<in> filled" "c < k2" "(j, o2, k2) \<noteq> (i, off, sz)" for j o2 k2 c
  proof -
    have "(j, o2, k2) \<in> set vs" using w(1) filled by blast
    from variables_disjoint [OF apart v(1) this] w(3) bytes_at_nth [OF w(2)] have "va j + of_nat c \<notin> bytes_at (va i) sz" by blast
    then show ?thesis using outside ent w(1,2) unfolding entered_def by fastforce
  qed
  have "st_env t1 (fst w) = st_env t (fst w)" if "w \<in> made" for w using that k(2) by (fastforce simp: t1_def)
  then have made: "\<forall>(i, off, sz) \<in> made. st_env t1 i = uint (va i)" using ent by (fastforce simp: entered_def)
  have env: "\<forall>j < n. st_env t1 j = st_env s j" "st_trace t1 = st_trace t" using ent k(1) by (simp_all add: t1_def entered_def)
  have mem: "\<forall>a. a \<notin> variable_bytes va vs \<longrightarrow> ?m a = st_mem s a"
    using ent outside sub unfolding entered_def by (metis subsetD)
  have filled': "\<forall>(j, o2, k2) \<in> insert (i, off, sz) filled. \<forall>c < k2. ?m (va j + of_nat c) = st_mem s (base + o2 + of_nat c)"
  proof clarify
    fix j o2 k2 c assume "(j, o2, k2) \<in> insert (i, off, sz) filled" "c < k2"
    then show "?m (va j + of_nat c) = st_mem s (base + o2 + of_nat c)"
      using own other by (cases "(j, o2, k2) = (i, off, sz)") blast+
  qed
  have "old_trace n (st_trace t) = old_trace n (st_trace s)" using ent by (simp add: entered_def)
  then show ?thesis unfolding run entered_def using made env mem filled' by simp
qed

lemma enter_copies:
  assumes "entered n va base vs made filled s t" and apart: "variables_apart va base vs" and "set ws \<subseteq> set vs" and "set ws \<subseteq> made"
    and "filled \<subseteq> set vs" and "n \<le> k" and "\<forall>w \<in> made. fst w < k" and del: "to_delete b' = []" and "sized b' (copy_ins state k ws)"
    and base: "state = LValue k0" "k0 < n" "addr_of s state = base"
  shows "entered n va base vs made (filled \<union> set ws) s (exec_nodes h b' (copy_ins state k ws) t)"
  using assms(1,3-7,9)
proof (induction ws arbitrary: filled k t)
  case (Cons w ws)
  obtain i off sz where w: "w = (i, off, sz)" by (metis prod_cases3)
  have size: "ir_sizes b' (Suc k) = sz * 8" "sized b' (copy_ins state (Suc (Suc (Suc k))) ws)"
    using Cons.prems(7) by (auto simp: sized_def w)
  have step: "entered n va base vs made (insert w filled) s (exec_nodes h b' (copy_ins state k [w]) t)"
    unfolding w by (rule enter_copy [OF Cons.prems(1) apart _ _ Cons.prems(4,5,6) del size(1) base]) (use Cons.prems(2,3) w in auto)
  have "entered n va base vs made (insert w filled \<union> set ws) s
      (exec_nodes h b' (copy_ins state (Suc (Suc (Suc k))) ws) (exec_nodes h b' (copy_ins state k [w]) t))"
    by (rule Cons.IH [OF step]) (use Cons.prems size(2) in \<open>auto simp: less_SucI\<close>)
  then show ?case by (simp add: w)
qed simp

lemma register_variable_ids: "v \<in> set (register_variables n regs) \<Longrightarrow> n + 4 \<le> fst v \<and> fst v < n + 4 + length (roots regs)"
  by (cases v) (auto simp: register_variables_def dest: set_zip_leftD)

lemma variable_ids: "v \<in> set (variables n regs) \<Longrightarrow> n \<le> fst v \<and> fst v < n + 4 + length (roots regs)"
  using register_variable_ids [of v n regs] by (auto simp: variables_def)

lemma length_register_variables [simp]: "length (register_variables n regs) = length (roots regs)"
  by (simp add: register_variables_def)

lemma copy_ins_ids: "x \<in> set (copy_ins state k vs) \<Longrightarrow> k \<le> fst x \<and> fst x < k + 3 * length vs"
  by (induction state k vs rule: copy_ins.induct) fastforce+

lemma copy_ins_operands:
  "\<forall>v \<in> set vs. n \<le> fst v \<Longrightarrow> n \<le> k \<Longrightarrow> x \<in> set (copy_ins state k vs) \<Longrightarrow> v \<in> set (operands (snd x)) \<Longrightarrow>
    v = state \<or> (\<exists>j \<ge> n. v = LValue j)"
  by (induction state k vs rule: copy_ins.induct) fastforce+

text \<open>The entry block without its branch.\<close>

definition entry_body :: "llvm_value \<Rightarrow> nat \<Rightarrow> remill_register list \<Rightarrow> ir_node list" where
  "entry_body state n regs =
     (n, IAlloca 4) # copy_ins state (Suc n) [(n, slot_offset, 4)] @
     map (\<lambda>(i, off, sz). (i, IAlloca sz)) (register_variables n regs) @
     copy_ins state (n + 4 + length (roots regs)) (register_variables n regs)"

lemma entry_nodes_body: "entry_nodes state n regs = entry_body state n regs @ [(n + 4 + 4 * length (roots regs), IBr 1)]"
  by (simp add: entry_nodes_def entry_body_def Let_def)

lemma entry_body_cases:
  assumes "x \<in> set (entry_body state n regs)"
  obtains "x = (n, IAlloca 4)" | "x \<in> set (copy_ins state (Suc n) [(n, slot_offset, 4)])"
    | i off sz where "x = (i, IAlloca sz)" "(i, off, sz) \<in> set (register_variables n regs)"
    | "x \<in> set (copy_ins state (n + 4 + length (roots regs)) (register_variables n regs))"
  using assms unfolding entry_body_def set_append list.set set_map by (elim insertE UnE imageE) (auto split: prod.splits)

lemma entry_body_ids:
  assumes "x \<in> set (entry_body state n regs)"
  shows "n \<le> fst x \<and> fst x < n + 4 + 4 * length (roots regs)"
  using assms
proof (cases rule: entry_body_cases)
  case (3 i off sz)
  then show ?thesis using register_variable_ids [OF 3(2)] by simp
qed (auto dest: copy_ins_ids)

lemma entry_body_operands:
  assumes "x \<in> set (entry_body state n regs)" and "v \<in> set (operands (snd x))"
  shows "v = state \<or> (\<exists>j \<ge> n. v = LValue j)"
proof -
  have "\<forall>v \<in> set (register_variables n regs). n \<le> fst v" using register_variable_ids by fastforce
  note in_regs = copy_ins_operands [OF this _ _ assms(2), of "n + 4 + length (roots regs)" state]
  from assms(1) show ?thesis
  proof (cases rule: entry_body_cases)
    case 2
    then show ?thesis using copy_ins_operands [OF _ _ 2 assms(2), of n] by simp
  qed (use in_regs assms(2) in simp_all)
qed

lemma exec_entry:
  assumes host: "callees_ok h n va A" and apart: "variables_apart va base (variables n regs)" and del: "to_delete b' = []"
    and sized: "sized b' (entry_nodes state n regs)" and base: "state = LValue k0" "k0 < n" "addr_of s state = base"
  shows "related n \<rho> loc base va (variables n regs) {} s (exec_nodes h b' (entry_nodes state n regs) s)"
proof -
  let ?vs = "variables n regs" and ?rs = "register_variables n regs" and ?k = "n + 4 + length (roots regs)"
  let ?slot = "(n, slot_offset, 4) :: variable"
  have vs: "set ?vs = insert ?slot (set ?rs)" by (simp add: variables_def)
  define s1 where "s1 = exec_node h b' (n, IAlloca 4) s"
  define s2 where "s2 = exec_nodes h b' (copy_ins state (Suc n) [?slot]) s1"
  define s3 where "s3 = exec_nodes h b' (map (\<lambda>(i, off, sz). (i, IAlloca sz)) ?rs) s2"
  define s4 where "s4 = exec_nodes h b' (copy_ins state ?k ?rs) s3"
  have sizes: "sized b' (copy_ins state (Suc n) [?slot])" "sized b' (copy_ins state ?k ?rs)"
    using sized unfolding entry_nodes_body entry_body_def sized_def by auto
  have "entered n va base ?vs {} {} s s" by (simp add: entered_def)
  then have "entered n va base ?vs {?slot} {} s s1"
    unfolding s1_def by (rule enter_alloca [OF _ host _ del]) simp
  then have "entered n va base ?vs {?slot} ({} \<union> set [?slot]) s s2"
    unfolding s2_def by (rule enter_copies [OF _ apart _ _ _ _ _ del sizes(1) base]) (simp_all add: vs)
  then have "entered n va base ?vs ({?slot} \<union> set ?rs) {?slot} s s3"
    unfolding s3_def by (intro enter_allocas [OF _ host _ del]) (use register_variable_ids in fastforce)+
  then have "entered n va base ?vs ({?slot} \<union> set ?rs) ({?slot} \<union> set ?rs) s s4"
    unfolding s4_def by (rule enter_copies [OF _ apart _ _ _ _ _ del sizes(2) base]) (use register_variable_ids in \<open>fastforce simp: vs\<close>)+
  then have ent: "entered n va base ?vs (set ?vs) (set ?vs) s s4" by (simp add: vs)
  let ?b = "n + 4 + 4 * length (roots regs)"
  define s5 where "s5 = exec_node h b' (?b, IBr 1) s4"
  have "exec_nodes h b' (entry_nodes state n regs) s = s5"
    by (simp add: entry_nodes_body entry_body_def s1_def s2_def s3_def s4_def s5_def)
  moreover have "snd (h ?b (IBr 1) [] (st_trace s4) (st_mem s4)) = st_mem s4" using host by (simp add: callees_ok_def)
  then have s5: "st_mem s5 = st_mem s4" "old_trace n (st_trace s5) = old_trace n (st_trace s4)" "\<And>j. j \<noteq> ?b \<Longrightarrow> st_env s5 j = st_env s4 j"
    using del by (auto simp: s5_def exec_no_deletion shape_def old_trace_def case_prod_beta)
  have "fst v \<noteq> ?b" if "v \<in> set ?vs" for v using variable_ids [OF that] by simp
  then have "st_env s5 (fst v) = st_env s4 (fst v)" if "v \<in> set ?vs" for v using s5(3) that by blast
  ultimately show ?thesis using ent s5 unfolding related_def entered_def by (simp add: case_prod_beta)
qed

section \<open>The pass as a whole\<close>

lemma variables_layout: "map snd (variables n regs) = (slot_offset, 4) # map (\<lambda>r. (rr_offset r, rr_size r)) (roots regs)"
  by (simp add: variables_def register_variables_def map_snd_zip)

lemma layout_apart: "layout_ok regs \<Longrightarrow> registers_apart (variables n regs)"
proof -
  assume "layout_ok regs"
  then have "sorted_wrt (\<lambda>(o1, k1) (o2, k2). bytes_at o1 k1 \<inter> bytes_at o2 k2 = {}) (map snd (variables n regs))"
    by (simp add: layout_ok_def variables_layout)
  then show ?thesis unfolding registers_apart_def sorted_wrt_map by (rule sorted_wrt_mono_rel [rotated]) auto
qed

lemma variable_root: "(i, off, sz) \<in> set (variables n regs) \<Longrightarrow>
    (off, sz) = (slot_offset, 4) \<or> (\<exists>r \<in> set (roots regs). (off, sz) = (rr_offset r, rr_size r))"
proof -
  assume "(i, off, sz) \<in> set (variables n regs)"
  then have "(off, sz) \<in> set (map snd (variables n regs))" by force
  then show ?thesis unfolding variables_layout by auto
qed

lemma root_size: "layout_ok regs \<Longrightarrow> r \<in> set (roots regs) \<Longrightarrow> 0 < rr_size r \<and> rr_offset r < 2 ^ 32"
  using root_of_root [of r] by (auto simp: layout_ok_def roots_def regs_ok_def)

lemma variable_size: "layout_ok regs \<Longrightarrow> (i, off, sz) \<in> set (variables n regs) \<Longrightarrow> 0 < sz \<and> off < 2 ^ 32"
  using variable_root [of i off sz n regs] root_size by (auto simp: slot_offset_def)

lemma variable_found:
  assumes "layout_ok regs" and "(i, off, sz) \<in> set (variables n regs)"
  shows "map_of (map variable_entry (variables n regs)) (ucast off) = Some (LValue i, sz * 8)"
proof -
  have "map fst (map variable_entry (variables n regs)) = map (ucast \<circ> fst) (map snd (variables n regs))"
    by (simp add: variable_entry_def case_prod_beta comp_def)
  also have "\<dots> = ucast slot_offset # map (\<lambda>r. ucast (rr_offset r)) (roots regs)" by (simp add: variables_layout comp_def)
  finally have "distinct (map fst (map variable_entry (variables n regs)))" using layout_keys [OF assms(1)] by auto
  moreover have "(ucast off, LValue i, sz * 8) \<in> set (map variable_entry (variables n regs))"
    using assms(2) by (force simp: variable_entry_def)
  ultimately show ?thesis by (rule map_of_is_SomeI)
qed

lemma variable_of_key:
  assumes "layout_ok regs" and "map_of (map variable_entry (variables n regs)) (ucast off) = Some (a, bits)" and "off < 2 ^ 32"
  obtains i sz where "(i, off, sz) \<in> set (variables n regs)" and "a = LValue i" and "bits = sz * 8"
proof -
  obtain i o' sz where v: "(i, o', sz) \<in> set (variables n regs)" "variable_entry (i, o', sz) = (ucast off, a, bits)"
    using map_of_SomeD [OF assms(2)] by auto
  then have "o' = off" using ucast_ucast_u32 [OF assms(3)] ucast_ucast_u32 [of o'] variable_size [OF assms(1) v(1)]
    by (simp add: variable_entry_def)
  then show thesis using that v by (simp add: variable_entry_def)
qed

text \<open>The variable of a register address holds the byte at that address.\<close>

lemma register_variable_place:
  assumes layout: "layout_ok regs" and off: "off < 2 ^ 32"
    and v: "register_variable regs (map variable_entry (variables n regs)) off = Some (a, d)"
  obtains i o' sz where "(i, o', sz) \<in> set (variables n regs)" and "unat (off - o') < sz" and "a = LValue i"
    and "d = None \<and> off = o' \<or> d = Some (off - o')" and "off = slot_offset \<or> off \<in> rr_offset ` set regs"
proof (cases "map_of (map variable_entry (variables n regs)) (ucast off)")
  case (Some e)
  then have "map_of (map variable_entry (variables n regs)) (ucast off) = Some (a, snd e)" "d = None"
    using v by (auto simp: register_variable_def split: prod.splits)
  then obtain i sz where i: "(i, off, sz) \<in> set (variables n regs)" "a = LValue i" using variable_of_key [OF layout _ off] by metis
  have "off = slot_offset \<or> off \<in> rr_offset ` set regs" using variable_root [OF i(1)] by (auto simp: roots_def)
  then show thesis using that [OF i(1)] i(2) \<open>d = None\<close> variable_size [OF layout i(1)] by simp
next
  case None
  then obtain p e where p: "sub_to_parent regs (ucast off) = Some p"
      "map_of (map variable_entry (variables n regs)) (ucast (rr_offset p)) = Some (a, e)" "d = Some (off - rr_offset p)"
    using v by (auto simp: register_variable_def split: option.splits prod.splits)
  obtain r where r: "r \<in> set regs" "rr_offset r = off" "p = root_of r"
    using sub_to_parent_Some [OF p(1)] ucast_ucast_u32 [OF off] by auto
  have root: "p \<in> set (roots regs)" using layout r(1,3) root_of_parent [of r] by (auto simp: layout_ok_def regs_ok_def roots_def)
  then have "(rr_offset p, rr_size p) \<in> set (map snd (variables n regs))" unfolding variables_layout by auto
  then obtain i where i: "(i, rr_offset p, rr_size p) \<in> set (variables n regs)" by auto
  have "a = LValue i" using variable_found [OF layout i] p(2) by simp
  moreover have "unat (off - rr_offset p) < rr_size p" using layout r by (auto simp: layout_ok_def)
  ultimately show thesis using that [OF i] p(3) r(1,2) by blast
qed

lemma state_offset_retarget [simp]: "state_offset state (retarget f inst) = state_offset state inst"
  by (cases inst) (simp_all add: state_offset_def)

lemma shifted_nodes:
  assumes "ir_blocks b1 = e # shifted b" and "\<forall>x \<in> set e. ir_next b \<le> fst x" and "(j, inst1) \<in> nodes_of b1" and "j < ir_next b"
  obtains inst where "(j, inst) \<in> nodes_of b" and "inst1 = retarget (moved_to (length (ir_blocks b))) inst"
proof -
  have "(j, inst1) \<in> set (concat (shifted b))" using assms by (fastforce simp: nodes_of_def)
  then show thesis using that unfolding shifted_def nodes_of_def by fastforce
qed

lemma register_gep_node:
  assumes "numbered state b" and "(j, inst) \<in> nodes_of b"
  shows "register_gep state regs b j = (if register_address state regs inst then state_offset state inst else None)"
proof -
  have "insts_of (ir_blocks b) j = Some inst" using assms insts_of_nodes by (simp add: numbered_def)
  then show ?thesis by (simp add: register_gep_def)
qed

lemma register_gep_Some:
  assumes "register_gep state regs b j = Some off"
  obtains inst where "(j, inst) \<in> nodes_of b" and "state_offset state inst = Some off" and "register_address state regs inst"
  using assms that unfolding register_gep_def nodes_of_def insts_of_def
  by (auto split: option.splits if_splits dest!: map_of_SomeD)

text \<open>The function with its entry block, before and after the loop over the addresses.\<close>

definition entered_function ::
  "llvm_value \<Rightarrow> remill_register list \<Rightarrow> ir_builder \<Rightarrow> ir_builder \<Rightarrow> replacement \<Rightarrow> ir_builder \<Rightarrow> bool" where
  "entered_function state regs b b1 \<rho> b2 \<longleftrightarrow>
     growing (ir_next b) b (shifted b) (Suc (ir_next b + 4 + 4 * length (roots regs))) (entry_nodes state (ir_next b) regs) b1 \<and>
     replaced_blocks state regs (map variable_entry (variables (ir_next b) regs)) (ir_next b) b1 \<rho> b2 \<and>
     (\<forall>bb i inst. 0 < bb \<longrightarrow> bb < length (ir_blocks b1) \<longrightarrow> (i, inst) \<in> set (ir_blocks b1 ! bb) \<longrightarrow>
        (\<rho> i = None \<longleftrightarrow> variable_for state regs (map variable_entry (variables (ir_next b) regs)) inst = None)) \<and>
     replace_inv state (ir_next b) b1"

lemma entry_nodes_ids: "x \<in> set (entry_nodes state n regs) \<Longrightarrow> n \<le> fst x"
  using entry_body_ids [of x state n regs] by (auto simp: entry_nodes_body)

lemma node_in_later_block:
  assumes "ir_blocks b1 = e # shifted b" and "(j, inst) \<in> nodes_of b"
  obtains bb where "bb < length (ir_blocks b)" and "(j, inst) \<in> set (ir_blocks b ! bb)"
    and "(j, retarget (moved_to (length (ir_blocks b))) inst) \<in> set (ir_blocks b1 ! Suc bb)" and "Suc bb < length (ir_blocks b1)"
proof -
  obtain ns where "ns \<in> set (ir_blocks b)" "(j, inst) \<in> set ns" using assms(2) by (auto simp: nodes_of_def)
  then obtain bb where bb: "bb < length (ir_blocks b)" "(j, inst) \<in> set (ir_blocks b ! bb)" by (metis in_set_conv_nth)
  moreover have "(j, retarget (moved_to (length (ir_blocks b))) inst) \<in> set (shifted b ! bb)"
    using bb by (force simp: shifted_def)
  ultimately show thesis using that assms(1) by (simp add: shifted_def)
qed

abbreviation entered_vars :: "remill_register list \<Rightarrow> ir_builder \<Rightarrow> variable list" where
  "entered_vars regs b \<equiv> variables (ir_next b) regs"

text \<open>Every value that was replaced was the address of a register; its variable, with a distance or without, stands for it.\<close>

definition replaced_gep ::
  "llvm_value \<Rightarrow> remill_register list \<Rightarrow> ir_builder \<Rightarrow> ir_builder \<Rightarrow> ir_builder \<Rightarrow> nat \<Rightarrow> llvm_value \<Rightarrow> ir_node list \<Rightarrow>
   ir_inst \<Rightarrow> llvm_value \<Rightarrow> u64 option \<Rightarrow> u64 \<Rightarrow> bool" where
  "replaced_gep state regs b b1 b2 j u new inst a d off \<longleftrightarrow>
     (j, inst) \<in> nodes_of b \<and> state_offset state inst = Some off \<and>
     register_variable regs (map variable_entry (entered_vars regs b)) off = Some (a, d) \<and>
     (case d of None \<Rightarrow> u = a \<and> new = []
      | Some d \<Rightarrow> \<exists>g. ir_next b1 \<le> g \<and> g < ir_next b2 \<and> u = LValue g \<and> new = [(g, IGep a (Some d))])"

lemma entered_function_parts:
  assumes "entered_function state regs b b1 \<rho> b2"
  shows "ir_blocks b1 = entry_nodes state (ir_next b) regs # shifted b"
    and "ir_next b1 = Suc (ir_next b + 4 + 4 * length (roots regs))" and "ir_next b1 \<le> ir_next b2"
    and "replacement_ok state regs (map variable_entry (entered_vars regs b)) b1 b2 \<rho>" and "fresh_repl (ir_next b) \<rho>"
    and "\<forall>j j'. j \<noteq> j' \<longrightarrow> new_ids \<rho> j \<inter> new_ids \<rho> j' = {}"
  using assms by (simp_all add: entered_function_def growing_def replaced_blocks_def)

lemma entered_function_cover:
  assumes "entered_function state regs b b1 \<rho> b2"
    and "0 < bb" and "bb < length (ir_blocks b1)" and "(i, inst) \<in> set (ir_blocks b1 ! bb)"
  shows "\<rho> i = None \<longleftrightarrow> variable_for state regs (map variable_entry (entered_vars regs b)) inst = None"
  using assms(1) [unfolded entered_function_def] assms(2-4) by blast

lemma replaced_gep_of:
  assumes fn: "entered_function state regs b b1 \<rho> b2" and j: "\<rho> j = Some (u, new)"
  obtains inst a d off where "replaced_gep state regs b b1 b2 j u new inst a d off"
proof -
  note parts = entered_function_parts [OF fn]
  obtain inst1 a d where i1: "(j, inst1) \<in> nodes_of b1"
      "variable_for state regs (map variable_entry (entered_vars regs b)) inst1 = Some (a, d)"
      "case d of None \<Rightarrow> u = a \<and> new = []
       | Some d \<Rightarrow> \<exists>g. ir_next b1 \<le> g \<and> g < ir_next b2 \<and> u = LValue g \<and> new = [(g, IGep a (Some d))]"
    using parts(4) j unfolding replacement_ok_def by blast
  have "j < ir_next b" using parts(5) j by (simp add: fresh_repl_def)
  then obtain inst where "(j, inst) \<in> nodes_of b" "inst1 = retarget (moved_to (length (ir_blocks b))) inst"
    using shifted_nodes [OF parts(1) _ i1(1)] entry_nodes_ids by metis
  then show thesis using i1(2,3) that unfolding replaced_gep_def by (auto simp: variable_for_def bind_eq_Some_conv)
qed

lemma pass_offset_small:
  assumes "pass_input state b" and "(j, inst) \<in> nodes_of b" and "state_offset state inst = Some off"
  shows "off < 2 ^ 32"
  using assms by (fastforce simp: pass_input_def)

lemma other_not_replaced:
  assumes input: "pass_input state b" and layout: "layout_ok regs" and fn: "entered_function state regs b b1 \<rho> b2"
    and none: "register_gep state regs b j = None"
  shows "\<rho> j = None"
proof (rule ccontr)
  assume "\<rho> j \<noteq> None"
  then obtain u new where "\<rho> j = Some (u, new)" by fastforce
  then obtain inst a d off where g: "replaced_gep state regs b b1 b2 j u new inst a d off" using replaced_gep_of [OF fn] by metis
  then have j: "(j, inst) \<in> nodes_of b" "state_offset state inst = Some off"
    and var: "register_variable regs (map variable_entry (entered_vars regs b)) off = Some (a, d)"
    by (simp_all add: replaced_gep_def)
  have "register_address state regs inst"
    using register_variable_place [OF layout pass_offset_small [OF input j] var] j(2) unfolding register_address_def by metis
  moreover have "numbered state b" using input by (simp add: pass_input_def)
  ultimately show False using none register_gep_node [OF _ j(1)] j(2) by simp
qed

lemma registers_covered:
  assumes "layout_ok regs"
  shows "covers (map variable_entry (variables n regs)) slot_offset"
    and "\<forall>r \<in> set regs. rr_parent r = None \<longrightarrow> covers (map variable_entry (variables n regs)) (rr_offset r)"
proof -
  show "covers (map variable_entry (variables n regs)) slot_offset" by (simp add: covers_def variables_def variable_entry_def)
  show "\<forall>r \<in> set regs. rr_parent r = None \<longrightarrow> covers (map variable_entry (variables n regs)) (rr_offset r)"
  proof (intro ballI impI)
    fix r assume "r \<in> set regs" "rr_parent r = None"
    then have "(rr_offset r, rr_size r) \<in> set (map snd (variables n regs))" unfolding variables_layout by (auto simp: roots_def)
    then obtain i where "(i, rr_offset r, rr_size r) \<in> set (variables n regs)" by auto
    then show "covers (map variable_entry (variables n regs)) (rr_offset r)"
      using variable_found [OF assms] by (simp add: covers_def)
  qed
qed

lemma register_replaced:
  assumes input: "pass_input state b" and layout: "layout_ok regs" and fn: "entered_function state regs b b1 \<rho> b2"
    and j: "register_gep state regs b j = Some off"
  obtains u new inst a d where "\<rho> j = Some (u, new)" and "replaced_gep state regs b b1 b2 j u new inst a d off"
proof -
  let ?m = "map variable_entry (entered_vars regs b)"
  obtain inst where inst: "(j, inst) \<in> nodes_of b" "state_offset state inst = Some off" "register_address state regs inst"
    using register_gep_Some [OF j] by blast
  have "register_variable regs ?m off \<noteq> None"
    using register_variable_found registers_covered [OF layout] layout inst(2,3)
    by (auto simp: layout_ok_def register_address_def)
  then have "variable_for state regs ?m (retarget (moved_to (length (ir_blocks b))) inst) \<noteq> None"
    using inst(2) by (simp add: variable_for_def)
  moreover obtain bb where "(j, retarget (moved_to (length (ir_blocks b))) inst) \<in> set (ir_blocks b1 ! Suc bb)"
      "Suc bb < length (ir_blocks b1)"
    using node_in_later_block [OF entered_function_parts(1) [OF fn] inst(1)] by blast
  ultimately have "\<rho> j \<noteq> None" using entered_function_cover [OF fn, of "Suc bb" j] by simp
  then obtain u new where u: "\<rho> j = Some (u, new)" by fastforce
  obtain inst' a d off' where r: "replaced_gep state regs b b1 b2 j u new inst' a d off'" using replaced_gep_of [OF fn u] by blast
  have "inst' = inst" using input r inst(1) by (auto simp: replaced_gep_def pass_input_def numbered_def single_valued_def)
  then have "off' = off" using r inst(2) by (simp add: replaced_gep_def)
  then show thesis using that [OF u] r by blast
qed

lemma entered_var_ids:
  assumes "entered_function state regs b b1 \<rho> b2" and "(i, off, sz) \<in> set (entered_vars regs b)"
  shows "ir_next b \<le> i" and "i < ir_next b1" and "i < ir_next b2"
  using variable_ids [OF assms(2)] entered_function_parts(2,3) [OF assms(1)] by simp_all

lemma replacement_at_register:
  assumes input: "pass_input state b" and layout: "layout_ok regs" and fn: "entered_function state regs b b1 \<rho> b2"
    and j: "register_gep state regs b j = Some off"
  shows "\<exists>(i, o', sz) \<in> set (entered_vars regs b). unat (off - o') < sz \<and>
      (\<rho> j = Some (LValue i, []) \<and> off = o' \<or>
       (\<exists>g. \<rho> j = Some (LValue g, [(g, IGep (LValue i) (Some (off - o')))]) \<and> ir_next b \<le> g \<and> g < ir_next b2 \<and>
          (\<forall>v \<in> set (entered_vars regs b). fst v \<noteq> g)))"
proof -
  let ?vs = "entered_vars regs b"
  obtain u new inst a d where u: "\<rho> j = Some (u, new)" and r: "replaced_gep state regs b b1 b2 j u new inst a d off"
    using register_replaced [OF input layout fn j] by blast
  then have node: "(j, inst) \<in> nodes_of b" "state_offset state inst = Some off"
    and var: "register_variable regs (map variable_entry ?vs) off = Some (a, d)"
    and new: "case d of None \<Rightarrow> u = a \<and> new = []
         | Some d \<Rightarrow> \<exists>g. ir_next b1 \<le> g \<and> g < ir_next b2 \<and> u = LValue g \<and> new = [(g, IGep a (Some d))]"
    by (simp_all add: replaced_gep_def)
  obtain i o' sz where v: "(i, o', sz) \<in> set ?vs" "unat (off - o') < sz" "a = LValue i" "d = None \<and> off = o' \<or> d = Some (off - o')"
    using register_variable_place [OF layout pass_offset_small [OF input node] var] by metis
  from v(4) have "\<rho> j = Some (LValue i, []) \<and> off = o' \<or>
     (\<exists>g. \<rho> j = Some (LValue g, [(g, IGep (LValue i) (Some (off - o')))]) \<and> ir_next b \<le> g \<and> g < ir_next b2 \<and> (\<forall>v \<in> set ?vs. fst v \<noteq> g))"
  proof
    assume "d = None \<and> off = o'"
    then show ?thesis using u new v(3) by simp
  next
    assume "d = Some (off - o')"
    then obtain g where g: "ir_next b1 \<le> g" "g < ir_next b2" "u = LValue g" "new = [(g, IGep (LValue i) (Some (off - o')))]"
      using new v(3) by auto
    have "\<forall>v \<in> set ?vs. fst v \<noteq> g" using entered_var_ids(2) [OF fn] g(1) by fastforce
    then show ?thesis by (intro disjI2 exI [of _ g] conjI) (use g u entered_function_parts(2) [OF fn] in simp_all)
  qed
  with v(1,2) show ?thesis by blast
qed

lemma replacement_for_pass:
  assumes input: "pass_input state b" and layout: "layout_ok regs" and fn: "entered_function state regs b b1 \<rho> b2"
  shows "replacement_for (ir_next b) (ir_next b2) (variables (ir_next b) regs) (register_gep state regs b) \<rho>"
proof -
  let ?n = "ir_next b" and ?vs = "variables (ir_next b) regs" and ?loc = "register_gep state regs b"
  note none = other_not_replaced [OF input layout fn] and some = replacement_at_register [OF input layout fn]
  have vars: "\<forall>(i, off, sz) \<in> set ?vs. ?n \<le> i \<and> i < ir_next b2" using entered_var_ids [OF fn] by auto
  have unique: "\<forall>j j'. j \<noteq> j' \<longrightarrow> new_ids \<rho> j \<inter> new_ids \<rho> j' = {}" by (rule entered_function_parts(6) [OF fn])
  show ?thesis
    unfolding replacement_for_def
    by (rule conjI [OF vars], rule conjI, rule allI, rule impI, erule none, rule conjI [OF _ unique],
      rule allI, rule allI, rule impI, erule some)
qed

lemma shifted_nth: "bb < length (ir_blocks b) \<Longrightarrow> shifted b ! bb = shift_nodes (moved_to (length (ir_blocks b))) (ir_blocks b ! bb)"
  by (simp add: shifted_def)

lemma map_fst_shift [simp]: "map fst (shift_nodes f ns) = map fst ns"
  by (simp add: case_prod_beta comp_def)

lemma shifted_numbers: "map fst (concat (shifted b)) = map fst (concat (ir_blocks b))"
  unfolding shifted_def map_concat by (simp add: case_prod_beta comp_def)

lemma entry_nodes_operands:
  assumes "x \<in> set (entry_nodes state n regs)" and "v \<in> set (operands (snd x))"
  shows "v = state \<or> (\<exists>k \<ge> n. v = LValue k)"
proof (cases "x \<in> set (entry_body state n regs)")
  case False
  then have "snd x = IBr 1" using assms(1) by (simp add: entry_nodes_body)
  then show ?thesis using assms(2) by simp
qed (use entry_body_operands assms(2) in blast)

lemma entered_ok:
  assumes input: "pass_input state b" and fn: "growing (ir_next b) b (shifted b) k (entry_nodes state (ir_next b) regs) b1"
    and inv: "replace_inv state (ir_next b) b1"
  shows "entry_ok state (ir_next b) b1"
proof -
  have blocks: "ir_blocks b1 = entry_nodes state (ir_next b) regs # shifted b" using fn by (simp add: growing_def)
  have "distinct (map fst (concat (tl (ir_blocks b1))))" using input by (simp add: blocks shifted_numbers pass_input_def)
  moreover have "\<forall>x \<in> set (concat (tl (ir_blocks b1))). fst x < ir_next b"
  proof
    fix x assume "x \<in> set (concat (tl (ir_blocks b1)))"
    then have "fst x \<in> set (map fst (concat (ir_blocks b)))" unfolding blocks list.sel shifted_numbers [symmetric] by simp
    then obtain y where "y \<in> nodes_of b" "fst y = fst x" unfolding nodes_of_def by (metis (no_types, opaque_lifting) imageE list.set_map)
    then have "(fst x, snd y) \<in> nodes_of b" by (metis prod.collapse)
    then show "fst x < ir_next b" using input unfolding pass_input_def numbered_def by fastforce
  qed
  moreover have "\<forall>x \<in> set (ir_blocks b1 ! 0). ir_next b \<le> fst x \<and> (\<forall>v \<in> set (operands (snd x)). v = state \<or> (\<exists>k \<ge> ir_next b. v = LValue k))"
    using entry_nodes_operands entry_nodes_ids unfolding blocks nth_Cons_0 by blast
  ultimately show ?thesis using inv blocks by (simp add: entry_ok_def)
qed

lemma terminator_not_replaced:
  assumes "pass_input state b" and "replacement_for n N vs (register_gep state regs b) \<rho>" and "(l, inst) \<in> nodes_of b" and "is_terminator inst"
  shows "\<rho> l = None"
proof -
  have "state_offset state inst = None" using assms(4) by (cases inst) (simp_all add: state_offset_def)
  then have "register_gep state regs b l = None" using register_gep_node assms(1,3) by (simp add: pass_input_def)
  then show ?thesis using assms(2) by (simp add: replacement_for_def)
qed

lemma later_block:
  assumes "entered_function state regs b b1 \<rho> b2" and "bb < length (ir_blocks b)"
  shows "ir_blocks b2 ! Suc bb = repl_nodes \<rho> (shift_nodes (moved_to (length (ir_blocks b))) (ir_blocks b ! bb))"
  using assms shifted_nth [OF assms(2)] by (auto simp: entered_function_def replaced_blocks_def growing_def shifted_def)

lemma block_ends:
  assumes input: "pass_input state b" and layout: "layout_ok regs" and fn: "entered_function state regs b b1 \<rho> b2"
    and bb: "bb < Suc (length (ir_blocks b))"
  shows "\<exists>xs l inst. ir_blocks b2 ! bb = xs @ [(l, inst)] \<and> l \<notin> fst ` set xs \<and> l < ir_next b2"
proof (cases bb)
  case 0
  have "ir_blocks b2 ! 0 = entry_body state (ir_next b) regs @ [(ir_next b + 4 + 4 * length (roots regs), IBr 1)]"
    "ir_next b + 4 + 4 * length (roots regs) < ir_next b2"
    using fn by (auto simp: entered_function_def replaced_blocks_def growing_def entry_nodes_body)
  moreover have "ir_next b + 4 + 4 * length (roots regs) \<notin> fst ` set (entry_body state (ir_next b) regs)"
    using entry_body_ids [of _ state "ir_next b" regs] by fastforce
  ultimately show ?thesis using 0 by blast
next
  case (Suc c)
  let ?f = "moved_to (length (ir_blocks b))" and ?ns = "ir_blocks b ! c"
  have c: "c < length (ir_blocks b)" using bb Suc by simp
  then have ns: "?ns \<noteq> []" "is_terminator (snd (last ?ns))" using input by (simp_all add: pass_input_def)
  obtain xs l inst where split: "?ns = xs @ [(l, inst)]" by (metis ns(1) rev_exhaust surj_pair)
  have node: "(l, inst) \<in> nodes_of b" using split nth_mem [OF c] unfolding nodes_of_def by (metis UN_I in_set_conv_decomp set_concat)
  have "\<rho> l = None" using terminator_not_replaced [OF input replacement_for_pass [OF input layout fn] node] ns split by simp
  then have "ir_blocks b2 ! bb = repl_nodes \<rho> (shift_nodes ?f xs) @ [(l, map_operands (repl_value \<rho>) (retarget ?f inst))]"
    using later_block [OF fn c] Suc split by simp
  moreover have lt: "l < ir_next b" using node input by (auto simp: pass_input_def numbered_def)
  moreover have "l \<notin> fst ` set (repl_nodes \<rho> (shift_nodes ?f xs))"
  proof
    assume "l \<in> fst ` set (repl_nodes \<rho> (shift_nodes ?f xs))"
    moreover have "fresh_repl (ir_next b) \<rho>" using fn by (simp add: entered_function_def replaced_blocks_def)
    ultimately have "l \<in> fst ` set (shift_nodes ?f xs)" using repl_nodes_ids lt by blast
    then have "l \<in> set (map fst xs)" by (metis list.set_map map_fst_shift)
    moreover have "distinct (map fst ?ns)" using input c by (auto simp: pass_input_def map_concat distinct_concat_iff)
    ultimately show False using split by simp
  qed
  moreover have "ir_next b < ir_next b2" using fn by (auto simp: entered_function_def replaced_blocks_def growing_def)
  ultimately show ?thesis by (meson less_trans)
qed

text \<open>The result of the pass in terms of its input.\<close>

lemma pass_parts:
  assumes run: "state2alloca order state regs b = Inr (changed, b')" and input: "pass_input state b" and layout: "layout_ok regs"
  obtains b1 \<rho> b2 K where "entered_function state regs b b1 \<rho> b2"
    and "copied_back state (order (map variable_entry (variables (ir_next b) regs))) b2 K (Suc (length (ir_blocks b))) b'"
    and "length (ir_blocks b2) = Suc (length (ir_blocks b))"
proof -
  let ?m = "map variable_entry (variables (ir_next b) regs)"
  obtain m b1 where e: "entry_block state regs b = Inr (m, b1)"
      "res_fold (copy_back state (order m)) [0..<length (ir_blocks (replace_geps state regs m b1))] (replace_geps state regs m b1) = Inr b'"
    using run by (auto simp: state2alloca_def Let_def split: if_splits elim!: res_bindE)
  have m: "m = ?m" and grow: "growing (ir_next b) b (shifted b) (Suc (ir_next b + 4 + 4 * length (roots regs))) (entry_nodes state (ir_next b) regs) b1"
    using entry_block_blocks [OF e(1) layout] by blast+
  have numb: "numbered state b" using input by (simp add: pass_input_def)
  have inv: "replace_inv state (ir_next b) b1" and fresh: "fresh_vars (ir_next b) m"
    using entry_block_step [OF numb e(1), of regs] numb by (auto simp: entry_step_def replace_inv_def at_entry_def numbered_def)
  obtain \<rho> where \<rho>: "replaced_blocks state regs m (ir_next b) b1 \<rho> (replace_geps state regs m b1)"
      "\<And>bb i inst. 0 < bb \<Longrightarrow> bb < length (ir_blocks b1) \<Longrightarrow> (i, inst) \<in> set (ir_blocks b1 ! bb) \<Longrightarrow>
        \<rho> i = None \<longleftrightarrow> variable_for state regs m inst = None"
    using replace_geps_blocks [OF entered_ok [OF input grow inv] fresh] by blast
  let ?b2 = "replace_geps state regs m b1"
  have fn: "entered_function state regs b b1 \<rho> ?b2"
    unfolding entered_function_def using grow \<rho> inv unfolding m by blast
  have len: "length (ir_blocks ?b2) = Suc (length (ir_blocks b))"
    using grow \<rho>(1) by (simp add: growing_def replaced_blocks_def shifted_def)
  obtain K where "copied_back state (order m) ?b2 K (Suc (length (ir_blocks b))) b'"
    using copy_back_all [OF e(2) [unfolded len]] len block_ends [OF input layout fn] by auto
  then show thesis using that fn len m by blast
qed

lemma pass_sim_nodes:
  assumes "pass_input state b" and "ns \<in> set (ir_blocks b)" and "x \<in> set ns"
  shows "sim_node state regs b x"
proof -
  have node: "(fst x, snd x) \<in> nodes_of b" using assms(2,3) by (auto simp: nodes_of_def)
  have "snd x = IGep state (Some off)" if "register_gep state regs b (fst x) = Some off" for off
  proof -
    have "register_gep state regs b (fst x) = (if register_address state regs (snd x) then state_offset state (snd x) else None)"
      using register_gep_node node assms(1) by (simp add: pass_input_def)
    then have "state_offset state (snd x) = Some off" using that by (simp split: if_splits)
    moreover have "case snd x of IGepValue p idx \<Rightarrow> p \<noteq> state | _ \<Rightarrow> True" using assms(1) node by (fastforce simp: pass_input_def)
    ultimately show ?thesis by (auto simp: state_offset_def split: ir_inst.splits if_splits)
  qed
  then show ?thesis using assms(1) node unfolding sim_node_def by (auto simp: pass_input_def numbered_def)
qed

text \<open>A path, block by block; the new function has every block one place later.\<close>

lemma sim_path:
  assumes sim: "sim_setup h b b' state regs N \<rho> base va" and input: "pass_input state b" and vs: "vs = variables (ir_next b) regs"
    and blocks: "\<And>bb. bb < length (ir_blocks b) \<Longrightarrow>
      ir_blocks b' ! Suc bb = with_copies state (K bb) m (repl_nodes \<rho> (shift_nodes f (ir_blocks b ! bb))) \<and> N \<le> K bb \<and>
      (is_return (last (ir_blocks b ! bb)) \<longrightarrow> sized b' (copy_outs state (K bb) m))"
    and m: "set m = variable_entry ` set vs"
    and rel: "related (ir_next b) \<rho> (register_gep state regs b) base va vs D s s'" and base: "addr_of s state = base"
    and path: "set path \<subseteq> {..<length (ir_blocks b)}"
    and run: "run_ok h b regs (register_gep state regs b) (variable_bytes va vs \<union> register_bytes base vs) D
      (concat (map ((!) (ir_blocks b)) path)) s"
  shows "(\<exists>D'. related (ir_next b) \<rho> (register_gep state regs b) base va vs D' (exec_path h b path s) (exec_path h b' (map Suc path) s')) \<and>
    (path \<noteq> [] \<and> is_return (last (ir_blocks b ! last path)) \<longrightarrow> synced base vs (exec_path h b path s) (exec_path h b' (map Suc path) s'))"
  using rel base path run
proof (induction path arbitrary: D s s')
  case Nil
  then show ?case by (auto simp: exec_path_def)
next
  case (Cons bb path)
  let ?ns = "ir_blocks b ! bb"
  have bb: "bb < length (ir_blocks b)" using Cons.prems(3) by simp
  then have ns: "?ns \<in> set (ir_blocks b)" by simp
  then have shape: "?ns \<noteq> []" "is_terminator (snd (last ?ns))" using input by (auto simp: pass_input_def)
  have nodes: "\<forall>x \<in> set ?ns. sim_node state regs b x" using pass_sim_nodes [OF input ns] by blast
  have run1: "run_ok h b regs (register_gep state regs b) (variable_bytes va vs \<union> register_bytes base vs) D ?ns s"
    and run2: "run_ok h b regs (register_gep state regs b) (variable_bytes va vs \<union> register_bytes base vs) (D \<union> fst ` set ?ns)
      (concat (map ((!) (ir_blocks b)) path)) (exec_nodes h b ?ns s)"
    using Cons.prems(4) by (simp_all add: run_ok_append)
  have b: "N \<le> K bb" "is_return (last ?ns) \<Longrightarrow> sized b' (copy_outs state (K bb) m)"
      "ir_blocks b' ! Suc bb = with_copies state (K bb) m (repl_nodes \<rho> (shift_nodes f ?ns))" using blocks [OF bb] by blast+
  note block = sim_block(1) [OF sim vs shape nodes Cons.prems(1,2) run1 b(1,2) m, of f]
    sim_block(2) [OF sim vs shape nodes Cons.prems(1,2) run1 b(1,2) m]
    sim_block(3) [OF sim vs shape nodes Cons.prems(1,2) run1 b(1,2) m, of f]
  note rest = Cons.IH [OF block(1,2) _ run2]
  have paths: "exec_path h b (bb # path) s = exec_path h b path (exec_nodes h b ?ns s)"
    "exec_path h b' (map Suc (bb # path)) s' = exec_path h b' (map Suc path) (exec_nodes h b' (ir_blocks b' ! Suc bb) s')"
    by (simp_all add: exec_path_def)
  show ?case
  proof (cases "path = []")
    case True
    then show ?thesis using block unfolding paths b(3) by (auto simp: exec_path_def)
  next
    case False
    then show ?thesis using rest Cons.prems(3) unfolding paths b(3) by simp
  qed
qed

lemma pass_sim_setup:
  assumes input: "pass_input state b" and layout: "layout_ok regs" and fn: "entered_function state regs b b1 \<rho> b2"
    and copied: "copied_back state m b2 K t b'" and apart: "variables_apart va base (variables (ir_next b) regs)"
    and host: "callees_ok h (ir_next b) va (variable_bytes va (variables (ir_next b) regs) \<union> register_bytes base (variables (ir_next b) regs))"
  shows "sim_setup h b b' state regs (ir_next b2) \<rho> base va"
proof -
  note repl = replacement_for_pass [OF input layout fn]
  have facts: "to_delete b' = to_delete b" "\<forall>j < ir_next b. ir_sizes b' j = ir_sizes b j" "ir_next b \<le> ir_next b2"
    using fn copied by (auto simp: entered_function_def replaced_blocks_def growing_def copied_back_def)
  obtain k where k: "state = LValue k" "k < ir_next b" using input by (auto simp: pass_input_def numbered_def)
  have "register_gep state regs b k = None"
  proof (rule ccontr)
    assume "register_gep state regs b k \<noteq> None"
    then obtain inst where "(k, inst) \<in> nodes_of b" using register_gep_Some by (metis option.exhaust)
    then show False using input k(1) by (fastforce simp: pass_input_def numbered_def)
  qed
  then have "\<rho> k = None" using repl by (simp add: replacement_for_def)
  moreover have "\<forall>(i, off, sz) \<in> set (variables (ir_next b) regs). off < 2 ^ 32" using variable_size [OF layout] by blast
  ultimately show ?thesis
    using repl layout_apart [OF layout] apart host facts k input unfolding sim_setup_def Let_def pass_input_def by auto
qed

lemma pass_blocks:
  assumes input: "pass_input state b" and layout: "layout_ok regs" and fn: "entered_function state regs b b1 \<rho> b2"
    and copied: "copied_back state m b2 K (Suc (length (ir_blocks b))) b'" and len: "length (ir_blocks b2) = Suc (length (ir_blocks b))"
    and bb: "bb < length (ir_blocks b)"
  shows "ir_blocks b' ! Suc bb =
      with_copies state (K (Suc bb)) m (repl_nodes \<rho> (shift_nodes (moved_to (length (ir_blocks b))) (ir_blocks b ! bb))) \<and>
    ir_next b2 \<le> K (Suc bb) \<and> (is_return (last (ir_blocks b ! bb)) \<longrightarrow> sized b' (copy_outs state (K (Suc bb)) m))"
proof -
  let ?f = "moved_to (length (ir_blocks b))" and ?ns = "ir_blocks b ! bb"
  have "?ns \<noteq> []" "is_terminator (snd (last ?ns))" using input bb by (simp_all add: pass_input_def)
  then obtain xs l inst where split: "?ns = xs @ [(l, inst)]" "is_terminator inst" by (metis last_snoc rev_exhaust snd_conv surj_pair)
  have "(l, inst) \<in> nodes_of b" using split(1) nth_mem [OF bb] unfolding nodes_of_def by (metis UN_I in_set_conv_decomp set_concat)
  then have "\<rho> l = None" using terminator_not_replaced [OF input replacement_for_pass [OF input layout fn]] split(2) by blast
  then have "is_return (last (repl_nodes \<rho> (shift_nodes ?f ?ns))) = is_return (last ?ns)" using split by simp
  then show ?thesis using copied bb len later_block [OF fn bb] by (simp add: copied_back_def)
qed

lemma pass_entry:
  assumes fn: "entered_function state regs b b1 \<rho> b2" and copied: "copied_back state m b2 K (Suc t) b'" and "ir_blocks b2 \<noteq> []"
  shows "ir_blocks b' ! 0 = entry_nodes state (ir_next b) regs \<and> sized b' (entry_nodes state (ir_next b) regs)"
proof -
  have b2: "ir_blocks b2 ! 0 = entry_nodes state (ir_next b) regs" "ir_next b1 \<le> ir_next b2"
      "\<forall>j < ir_next b1. ir_sizes b2 j = ir_sizes b1 j" "\<forall>x \<in> set (entry_nodes state (ir_next b) regs). fst x < ir_next b1"
      "\<forall>j bits p. (j, ILoad bits p) \<in> set (entry_nodes state (ir_next b) regs) \<longrightarrow> ir_sizes b1 j = bits"
    using fn by (auto simp: entered_function_def replaced_blocks_def growing_def)
  have "\<not> is_return (last (entry_nodes state (ir_next b) regs))" by (simp add: entry_nodes_body is_return_def)
  then have "ir_blocks b' ! 0 = entry_nodes state (ir_next b) regs"
    using copied assms(3) b2(1) by (simp add: copied_back_def with_copies_def)
  moreover have "\<forall>j < ir_next b2. ir_sizes b' j = ir_sizes b2 j" using copied by (simp add: copied_back_def)
  ultimately show ?thesis using b2 unfolding sized_def by fastforce
qed

text \<open>C16: State2alloca keeps the meaning of a function. From every state, along every path on which the function uses the
  addresses of registers only to load and store inside of the register, the new function, which enters through its new
  block, makes the same calls, takes the same branches and returns the same value, and it leaves the same memory
  outside of its variables and of the registers; when the path ends with a return, the registers in the state are
  the same too. The host stands for all other instructions; it does not touch the registers in the state, and the variables have
  memory of their own.\<close>

theorem state2alloca_keeps_meaning:
  assumes run: "state2alloca order state regs b = Inr (changed, b')" and order: "\<forall>m. set (order m) = set m"
    and input: "pass_input state b" and layout: "layout_ok regs"
    and vs: "vs = variables (ir_next b) regs" and base: "base = addr_of s state" and apart: "variables_apart va base vs"
    and host: "callees_ok h (ir_next b) va (variable_bytes va vs \<union> register_bytes base vs)"
    and path: "set path \<subseteq> {..<length (ir_blocks b)}"
    and ok: "run_ok h b regs (register_gep state regs b) (variable_bytes va vs \<union> register_bytes base vs) {}
      (concat (map ((!) (ir_blocks b)) path)) s"
    and t: "t = exec_path h b path s" and t': "t' = exec_path h b' (0 # map Suc path) s"
  shows "old_trace (ir_next b) (st_trace t') = old_trace (ir_next b) (st_trace t) \<and>
    (\<forall>a. a \<notin> variable_bytes va vs \<and>
       (a \<notin> register_bytes base vs \<or> path \<noteq> [] \<and> is_return (last (ir_blocks b ! last path))) \<longrightarrow> st_mem t' a = st_mem t a)"
proof -
  let ?m = "order (map variable_entry vs)" and ?loc = "register_gep state regs b" and ?n = "ir_next b"
  obtain b1 \<rho> b2 K where fn: "entered_function state regs b b1 \<rho> b2"
      and copied: "copied_back state ?m b2 K (Suc (length (ir_blocks b))) b'" and len: "length (ir_blocks b2) = Suc (length (ir_blocks b))"
    using pass_parts [OF run input layout] unfolding vs by blast
  have sim: "sim_setup h b b' state regs (ir_next b2) \<rho> base va"
    using pass_sim_setup [OF input layout fn copied] apart host unfolding vs by blast
  have entry: "ir_blocks b' ! 0 = entry_nodes state ?n regs" "sized b' (entry_nodes state ?n regs)"
    using pass_entry [OF fn copied] len by fastforce+
  obtain k where k: "state = LValue k" "k < ?n" using input by (auto simp: pass_input_def numbered_def)
  have "to_delete b' = []" using sim by (simp add: sim_setup_def Let_def)
  then have start: "related ?n \<rho> ?loc base va vs {} s (exec_nodes h b' (entry_nodes state ?n regs) s)"
    unfolding vs using exec_entry [OF host apart [unfolded vs] _ entry(2) k base [symmetric]] by blast
  have m: "set ?m = variable_entry ` set vs" using order by simp
  have "(\<exists>D'. related ?n \<rho> ?loc base va vs D' t t') \<and> (path \<noteq> [] \<and> is_return (last (ir_blocks b ! last path)) \<longrightarrow> synced base vs t t')"
    using sim_path [OF sim input vs pass_blocks [OF input layout fn copied len] m start base [symmetric] path ok] entry(1)
    by (simp add: t t' exec_path_def)
  then show ?thesis unfolding related_def synced_def by blast
qed

text \<open>The function that returns the second byte of RAX, in a state at the address 4096 in which that byte is 42.\<close>

definition demo_place :: "nat \<Rightarrow> u64" where
  "demo_place i = 65536 * of_nat i"

definition demo_calls :: ir_host where
  "demo_calls i sh vals t m = (case sh of IAlloca k \<Rightarrow> (uint (demo_place i), m) | _ \<Rightarrow> (0, m))"

definition demo_start :: ir_state where
  "demo_start = \<lparr>st_env = (\<lambda>_. 0)(9 := 4096), st_mem = (\<lambda>_. 0)(6313 := 42), st_trace = []\<rparr>"

definition demo_variables :: "variable list" where
  "demo_variables = [(20, 2080, 4), (24, 2216, 8)]"

lemma demo_variables_eq: "variables 20 demo_registers = demo_variables"
  by (simp add: variables_def register_variables_def roots_def demo_registers_def demo_rax_def slot_offset_def demo_variables_def upt_rec)

lemma demo_bytes:
  "variable_bytes demo_place demo_variables = {1310720, 1310721, 1310722, 1310723, 1572864, 1572865, 1572866, 1572867, 1572868, 1572869, 1572870, 1572871}"
  "register_bytes 4096 demo_variables = {6176, 6177, 6178, 6179, 6312, 6313, 6314, 6315, 6316, 6317, 6318, 6319}"
  by (simp_all add: variable_bytes_def register_bytes_def demo_variables_def bytes_at_def demo_place_def lessThan_nat_numeral lessThan_Suc)
    (auto)

lemma demo_apart: "variables_apart demo_place 4096 demo_variables"
  unfolding variables_apart_def demo_bytes
  by (simp add: demo_variables_def bytes_at_def demo_place_def lessThan_nat_numeral lessThan_Suc)

lemma demo_registers_layout: "layout_ok demo_registers"
  using demo_registers_ok
  by (simp add: layout_ok_def demo_registers_def demo_rax_def roots_def slot_offset_def bytes_at_def lessThan_nat_numeral lessThan_Suc)

lemma demo_calls_ok: "callees_ok demo_calls 20 demo_place A"
proof -
  have "demo_calls i (retarget f sh) = demo_calls i sh" for i f sh by (cases sh) (simp_all add: demo_calls_def fun_eq_iff)
  moreover have "snd (demo_calls i sh vals t m) = m" "fst (demo_calls i sh vals t m) = fst (demo_calls i sh vals t' m')" for i sh vals t t' m m'
    by (cases sh; simp add: demo_calls_def)+
  ultimately show ?thesis unfolding callees_ok_def by (simp add: demo_calls_def)
qed

lemma demo_input: "pass_input (LValue 9) demo_load_ah"
  using demo_load_ah_numbered by (simp add: pass_input_def demo_load_ah_def nodes_of_def below_def state_offset_def)

lemma demo_geps: "register_gep (LValue 9) demo_registers demo_load_ah = [10 \<mapsto> 2217]"
  by (rule ext) (simp add: register_gep_def demo_load_ah_def insts_of_def register_address_def state_offset_def demo_registers_def demo_rax_def)

theorem state2alloca_keeps_meaning_witness:
  "old_trace 20 (st_trace (exec_path demo_calls demo_load_ah_after [0, 1] demo_start)) = [(12, [42])] \<and>
   st_mem (exec_path demo_calls demo_load_ah_after [0, 1] demo_start) 6313 = 42"
proof -
  have n: "ir_next demo_load_ah = 20" by (simp add: demo_load_ah_def)
  let ?t = "exec_path demo_calls demo_load_ah [0] demo_start"
  have path: "exec_path demo_calls demo_load_ah_after [0, 1] demo_start = exec_path demo_calls demo_load_ah_after (0 # map Suc [0]) demo_start" by simp
  have t: "old_trace 20 (st_trace ?t) = [(12, [42])]" "st_mem ?t 6313 = 42"
    by (simp_all add: exec_path_def exec_no_deletion demo_load_ah_def demo_start_def old_trace_def addr_of_def val_of_def set_value_def
        load_bytes_def byte_size_def demo_calls_def shape_def)
  have base: "4096 = addr_of demo_start (LValue 9)" by (simp add: addr_of_def val_of_def demo_start_def)
  have run: "run_ok demo_calls demo_load_ah demo_registers (register_gep (LValue 9) demo_registers demo_load_ah)
      (variable_bytes demo_place demo_variables \<union> register_bytes 4096 demo_variables) {} (concat (map ((!) (ir_blocks demo_load_ah)) [0])) demo_start"
    unfolding demo_geps
    by (simp add: demo_load_ah_def register_pointer_def access_ok_def in_register_def roots_def demo_registers_def demo_rax_def slot_offset_def byte_size_def)
  from state2alloca_keeps_meaning [OF demo_state2alloca _ demo_input demo_registers_layout _ base demo_apart _ _ run refl path] t
  show ?thesis by (simp add: n demo_variables_eq demo_calls_ok demo_bytes demo_load_ah_def is_return_def)
qed

end
