(* ===== verification/Loop_Reroll.thy ===== *)
theory Loop_Reroll
  imports Ir_Graph
begin

text \<open>
  \<open>vexa::passes::loop_reroll\<close> (loop_reroll.cpp): the search for an unrolled loop. From a call of the marker function the
  instructions of the block are read backwards, a pattern grows until the next instructions repeat it, and every
  repetition counts as one iteration. A loop that was found is rewritten: a header with phi nodes and a counter, a body
  that is a copy of the earliest iteration, and the uses behind the loop redirected to the copy. LLVM's value map leaves an
  operand that has no entry as it is; a build of LLVM with assertions stops there.
\<close>

section \<open>Comparing instructions\<close>

text \<open>What the pass asks of LLVM: \<open>hash_combine\<close>, the number of the opcode, the type of an instruction, all operands of an
  instruction (with callees and indices), whether a value is a constant, the marker function (which the context never sets), and the undefined value of the type of an
  instruction.\<close>

record reroll_env =
  re_combine :: "u64 \<Rightarrow> u64 \<Rightarrow> u64"
  re_opcode :: "ir_inst \<Rightarrow> u64"
  re_type :: "nat \<Rightarrow> u64"
  re_operands :: "ir_inst \<Rightarrow> llvm_value list"
  re_constant :: "llvm_value \<Rightarrow> bool"
  re_marker :: string
  re_undef :: "nat \<Rightarrow> llvm_value"

record instruction_t =
  in_value :: ir_node
  in_hash :: u64

definition operand_hash :: "llvm_value \<Rightarrow> u64" where
  "operand_hash op = (case op of LConstantInt w n \<Rightarrow> word_of_int n | LValue i \<Rightarrow> 0xDEADC0DE)"

definition hash_instruction :: "reroll_env \<Rightarrow> ir_node \<Rightarrow> instruction_t" where
  "hash_instruction R node =
     \<lparr>in_value = node,
      in_hash = fold (\<lambda>op h. re_combine R h (operand_hash op)) (re_operands R (snd node))
        (re_combine R (re_combine R 0 (re_opcode R (snd node))) (re_type R (fst node)))\<rparr>"

definition hash_instructions :: "reroll_env \<Rightarrow> instruction_t list \<Rightarrow> u64" where
  "hash_instructions R instructions =
     fold (\<lambda>(i, x) h. re_combine R (re_combine R h (in_hash x)) (of_nat i)) (enumerate 0 instructions) 0"

section \<open>Dataflow\<close>

record dependency_t =
  dp_dependency :: llvm_value
  dp_access_instr :: ir_node
  dp_accessed_by_index :: "32 word"

definition hash_dependency :: "reroll_env \<Rightarrow> dependency_t \<Rightarrow> u64" where
  "hash_dependency R d =
     re_combine R (re_combine R 0 (in_hash (hash_instruction R (dp_access_instr d)))) (ucast (dp_accessed_by_index d))"

definition same_dependency :: "reroll_env \<Rightarrow> dependency_t \<Rightarrow> dependency_t \<Rightarrow> bool" where
  "same_dependency R a b \<longleftrightarrow> hash_dependency R a = hash_dependency R b"

definition same_dataflow :: "reroll_env \<Rightarrow> dependency_t list \<Rightarrow> dependency_t list \<Rightarrow> bool" where
  "same_dataflow R xs ys \<longleftrightarrow> length xs = length ys \<and> list_all (\<lambda>(a, b). same_dependency R a b) (zip xs ys)"

definition defined_in :: "instruction_t list \<Rightarrow> llvm_value \<Rightarrow> bool" where
  "defined_in block op \<longleftrightarrow> list_ex (\<lambda>x. LValue (fst (in_value x)) = op) block"

definition add_dependency ::
  "reroll_env \<Rightarrow> instruction_t list \<Rightarrow> nat \<Rightarrow> ir_node \<Rightarrow> llvm_value \<Rightarrow> dependency_t list \<Rightarrow> dependency_t list" where
  "add_dependency R block index node op dependencies =
     (if re_constant R op \<or> defined_in block op \<or> list_ex (\<lambda>d. dp_dependency d = op) dependencies then dependencies
      else dependencies @ [\<lparr>dp_dependency = op, dp_access_instr = node, dp_accessed_by_index = of_nat index\<rparr>])"

definition dataflow_analysis :: "reroll_env \<Rightarrow> instruction_t list \<Rightarrow> dependency_t list" where
  "dataflow_analysis R block =
     fold (\<lambda>(index, x). fold (add_dependency R block index (in_value x)) (re_operands R (snd (in_value x))))
       (enumerate 0 block) []"

definition dependency_analysis :: "dependency_t list \<Rightarrow> instruction_t list \<Rightarrow> dependency_t list" where
  "dependency_analysis dataflow block = filter (\<lambda>d. defined_in block (dp_dependency d)) dataflow"

definition phi_analysis :: "dependency_t list \<Rightarrow> dependency_t list \<Rightarrow> dependency_t list" where
  "phi_analysis flow_1 flow_2 =
     filter (\<lambda>d. list_ex (\<lambda>e. dp_accessed_by_index e = dp_accessed_by_index d) flow_2) flow_1"

section \<open>The search\<close>

record block_t =
  bl_instructions :: "instruction_t list"
  bl_dataflow :: "dependency_t list"

record unrolled_loop_t =
  iteration_count :: nat
  loop_body :: "instruction_t list"
  loop_entry :: "instruction_t list"
  loop_blocks :: "block_t list"

text \<open>The instructions before the first one that differs from the pattern.\<close>

fun matching_prefix :: "instruction_t list \<Rightarrow> instruction_t list \<Rightarrow> instruction_t list" where
  "matching_prefix (x # xs) (y # ys) = (if in_hash x \<noteq> in_hash y then [] else x # matching_prefix xs ys)"
| "matching_prefix xs ys = xs"

definition matches_pattern :: "reroll_env \<Rightarrow> instruction_t list \<Rightarrow> instruction_t list \<Rightarrow> bool" where
  "matches_pattern R search_for instructions \<longleftrightarrow>
     hash_instructions R search_for = hash_instructions R instructions \<and>
     same_dataflow R (dataflow_analysis R search_for) (dataflow_analysis R instructions)"

text \<open>What one more iteration adds to the loop.\<close>

definition found_iteration :: "reroll_env \<Rightarrow> instruction_t list \<Rightarrow> unrolled_loop_t \<Rightarrow> unrolled_loop_t" where
  "found_iteration R instructions loop =
     (let search_for = loop_body loop;
          first = (if loop_blocks loop = [] then [\<lparr>bl_instructions = search_for, bl_dataflow = dataflow_analysis R search_for\<rparr>]
                   else loop_blocks loop)
      in loop\<lparr>iteration_count := Suc (iteration_count loop), loop_body := instructions,
           loop_blocks := first @ [\<lparr>bl_instructions = instructions, bl_dataflow = dataflow_analysis R instructions\<rparr>]\<rparr>)"

text \<open>The list is what is left of the block, backwards. The pattern is never empty.\<close>

function search_loop :: "reroll_env \<Rightarrow> ir_node list \<Rightarrow> unrolled_loop_t \<Rightarrow> unrolled_loop_t" where
  "search_loop R rest loop =
     (case rest of [] \<Rightarrow> loop
      | node # rest1 \<Rightarrow>
          if length (loop_body loop) > 512 \<or> loop_body loop = [] then loop
          else
            let instructions = map (hash_instruction R) (take (length (loop_body loop)) rest) in
            if matches_pattern R (loop_body loop) instructions then
              search_loop R (drop (length (loop_body loop)) rest) (found_iteration R instructions loop)
            else if iteration_count loop > 3 then loop\<lparr>loop_entry := matching_prefix instructions (loop_body loop)\<rparr>
            else search_loop R rest1 (loop\<lparr>loop_body := loop_body loop @ [hash_instruction R node]\<rparr>))"
  by pat_completeness auto
termination
  by (relation "measure (\<lambda>(R, rest, loop). length rest)") auto

declare search_loop.simps [simp del]

definition start_loop :: "reroll_env \<Rightarrow> ir_node \<Rightarrow> unrolled_loop_t" where
  "start_loop R call = \<lparr>iteration_count = 1, loop_body = [hash_instruction R call], loop_entry = [], loop_blocks = []\<rparr>"

definition calls_marker :: "reroll_env \<Rightarrow> ir_node \<Rightarrow> bool" where
  "calls_marker R node \<longleftrightarrow> (case snd node of ICall (Unknown_callee f) args \<Rightarrow> f = re_marker R | _ \<Rightarrow> False)"

text \<open>The instructions of a block from the last one backwards; a marker that comes first in its block has no previous
  instruction, and the cast of the null pointer fails.\<close>

fun find_in_block :: "reroll_env \<Rightarrow> bool \<Rightarrow> ir_node list \<Rightarrow> unrolled_loop_t option res" where
  "find_in_block R first [] = Inr None"
| "find_in_block R first (node # rest) =
     (if is_terminator (snd node) \<or> first \<or> \<not> calls_marker R node then find_in_block R False rest
      else
        (case rest of [] \<Rightarrow> Inl Null_dereference
         | prev # rest1 \<Rightarrow>
             if calls_marker R prev then find_in_block R False rest
             else
               let loop = search_loop R rest (start_loop R node) in
               if iteration_count loop > 3 then Inr (Some loop) else find_in_block R False rest))"

definition find_loop :: "reroll_env \<Rightarrow> ir_blocks \<Rightarrow> unrolled_loop_t option res" where
  "find_loop R blocks =
     res_fold (\<lambda>nodes r. case r of Some loop \<Rightarrow> Inr (Some loop) | None \<Rightarrow> find_in_block R True (rev nodes)) blocks None"

text \<open>What the rewriting starts from: the values that become phi nodes.\<close>

definition loop_phis :: "unrolled_loop_t \<Rightarrow> dependency_t list" where
  "loop_phis loop =
     (let blocks = loop_blocks loop; last_block = last blocks in
      phi_analysis (bl_dataflow last_block)
        (dependency_analysis (bl_dataflow (blocks ! (length blocks - 2))) (bl_instructions last_block)))"

section \<open>Rewriting a loop\<close>

text \<open>\<open>splitBasicBlock\<close>: the block from an instruction on becomes the next block, which the first part branches to. The
  later blocks move up by one, and a phi node that named the block names its second part.\<close>

definition before_inst :: "nat \<Rightarrow> ir_node list \<Rightarrow> ir_node list" where
  "before_inst i nodes = takeWhile (\<lambda>node. fst node \<noteq> i) nodes"

definition from_inst :: "nat \<Rightarrow> ir_node list \<Rightarrow> ir_node list" where
  "from_inst i nodes = dropWhile (\<lambda>node. fst node \<noteq> i) nodes"

definition moved_up :: "block_id \<Rightarrow> block_id \<Rightarrow> block_id" where
  "moved_up bb k = (if bb < k then Suc k else k)"

fun split_targets :: "block_id \<Rightarrow> ir_inst \<Rightarrow> ir_inst" where
  "split_targets bb (IPhi w incoming) = IPhi w (map (\<lambda>e. (fst e, if snd e = bb then Suc bb else moved_up bb (snd e))) incoming)"
| "split_targets bb inst = retarget (moved_up bb) inst"

definition splitBasicBlock :: "block_id \<Rightarrow> nat \<Rightarrow> ir_builder \<Rightarrow> ir_builder" where
  "splitBasicBlock bb i b =
     (let blocks = map (map (\<lambda>(j, inst). (j, split_targets bb inst))) (ir_blocks b) in
      b\<lparr>ir_next := Suc (ir_next b),
        ir_blocks := take bb blocks @ (before_inst i (blocks ! bb) @ [(ir_next b, IBr (Suc bb))]) #
          from_inst i (blocks ! bb) # drop (Suc bb) blocks,
        ir_ip := (moved_up bb (fst (ir_ip b)), snd (ir_ip b)),
        insert_points := map (\<lambda>(k, p). (moved_up bb k, p)) (insert_points b)\<rparr>)"

text \<open>\<open>moveAfter\<close> the last block.\<close>

definition moved_down :: "block_id \<Rightarrow> nat \<Rightarrow> block_id \<Rightarrow> block_id" where
  "moved_down bb n k = (if k = bb then n - 1 else if bb < k then k - 1 else k)"

definition move_to_end :: "block_id \<Rightarrow> ir_builder \<Rightarrow> ir_builder" where
  "move_to_end bb b =
     (let f = moved_down bb (length (ir_blocks b)); blocks = map (map (\<lambda>(j, inst). (j, retarget f inst))) (ir_blocks b) in
      b\<lparr>ir_blocks := take bb blocks @ drop (Suc bb) blocks @ [blocks ! bb],
        ir_ip := (f (fst (ir_ip b)), snd (ir_ip b)), insert_points := map (\<lambda>(k, p). (f k, p)) (insert_points b)\<rparr>)"

definition erase_terminator :: "block_id \<Rightarrow> ir_builder \<Rightarrow> ir_builder" where
  "erase_terminator bb b = b\<lparr>ir_blocks := (ir_blocks b)[bb := butlast (ir_blocks b ! bb)]\<rparr>"

definition update_inst :: "nat \<Rightarrow> (ir_inst \<Rightarrow> ir_inst) \<Rightarrow> ir_builder \<Rightarrow> ir_builder" where
  "update_inst i f b = b\<lparr>ir_blocks := map (map (\<lambda>(j, inst). (j, if j = i then f inst else inst))) (ir_blocks b)\<rparr>"

fun phi_with :: "llvm_value \<Rightarrow> block_id \<Rightarrow> ir_inst \<Rightarrow> ir_inst" where
  "phi_with v bb (IPhi w incoming) = IPhi w (incoming @ [(v, bb)])"
| "phi_with v bb inst = inst"

definition addIncoming :: "nat \<Rightarrow> llvm_value \<Rightarrow> block_id \<Rightarrow> ir_builder \<Rightarrow> ir_builder" where
  "addIncoming phi v bb b = update_inst phi (phi_with v bb) b"

text \<open>The blocks of the new loop.\<close>

record loop_blocks_t =
  pre_header :: block_id
  loop_header :: block_id
  new_loop_body :: block_id
  loop_exit :: block_id

definition make_blocks :: "unrolled_loop_t \<Rightarrow> ir_builder \<Rightarrow> (loop_blocks_t \<times> ir_builder) res" where
  "make_blocks loop b =
     (let first_inst = fst (in_value (last (bl_instructions (last (loop_blocks loop)))));
          last_inst = fst (in_value (hd (bl_instructions (hd (loop_blocks loop))))) in
      case block_of (ir_blocks b) first_inst of None \<Rightarrow> Inl Null_dereference
      | Some pre \<Rightarrow>
          let b1 = splitBasicBlock (Suc pre) last_inst (splitBasicBlock pre first_inst b) in
          case basic_block b1 of (header, b2) \<Rightarrow>
          let b3 = snd (ir_insert (IBr header) 0 (set_insert_point (pre, None) (erase_terminator pre b2))) in
          case basic_block b3 of (body, b4) \<Rightarrow>
          let f = moved_down (Suc (Suc pre)) (length (ir_blocks b4)) in
          Inr (\<lparr>pre_header = pre, loop_header = f header, new_loop_body = f body, loop_exit = f (Suc (Suc pre))\<rparr>,
               move_to_end (Suc (Suc pre)) b4))"

text \<open>The value map, and the phi node that waits for the value of an instruction of the body.\<close>

type_synonym value_map = "llvm_value \<rightharpoonup> llvm_value"

definition add_phi :: "loop_blocks_t \<Rightarrow> dependency_t \<Rightarrow> value_map \<times> (nat \<rightharpoonup> nat) \<times> ir_builder \<Rightarrow> value_map \<times> (nat \<rightharpoonup> nat) \<times> ir_builder" where
  "add_phi L d st =
     (case st of (VMap, backedge_map, b) \<Rightarrow>
      let w = primitive_size b (dp_dependency d); phi = ir_next b in
      (VMap(dp_dependency d \<mapsto> LValue phi), backedge_map(fst (dp_access_instr d) \<mapsto> phi),
       snd (ir_insert (IPhi w [(dp_dependency d, pre_header L)]) w b)))"

definition make_header :: "loop_blocks_t \<Rightarrow> dependency_t list \<Rightarrow> ir_builder \<Rightarrow> value_map \<times> (nat \<rightharpoonup> nat) \<times> nat \<times> ir_builder" where
  "make_header L phis b =
     (case fold (add_phi L) phis (Map.empty, Map.empty, set_insert_point (loop_header L, None) b) of (VMap, backedge_map, b1) \<Rightarrow>
      let counter = ir_next b1; b2 = snd (ir_insert (IPhi 64 []) 64 b1) in
      (VMap, backedge_map, counter, snd (ir_insert (IBr (new_loop_body L)) 0 b2)))"

definition remapped :: "value_map \<Rightarrow> llvm_value \<Rightarrow> llvm_value" where
  "remapped VMap v = (case VMap v of Some v' \<Rightarrow> v' | None \<Rightarrow> v)"

text \<open>The copy of one instruction; a value that has no entry in the map stays (LLVM with assertions would stop).\<close>

definition copy_inst ::
  "reroll_env \<Rightarrow> loop_blocks_t \<Rightarrow> (nat \<rightharpoonup> nat) \<Rightarrow> instruction_t \<Rightarrow> value_map \<times> ir_builder \<Rightarrow> value_map \<times> ir_builder" where
  "copy_inst R L backedge_map x st =
     (case st of (VMap, b) \<Rightarrow>
      if calls_marker R (in_value x) then (VMap, b)
      else
        let i = fst (in_value x); copy = LValue (ir_next b);
            inst = (case insts_of (ir_blocks b) i of Some inst \<Rightarrow> inst | None \<Rightarrow> snd (in_value x));
            b1 = (case backedge_map i of Some phi \<Rightarrow> addIncoming phi copy (new_loop_body L) b | None \<Rightarrow> b) in
        (VMap(LValue i \<mapsto> copy), snd (ir_insert (map_operands (remapped VMap) inst) (ir_sizes b i) b1)))"

definition make_body ::
  "reroll_env \<Rightarrow> loop_blocks_t \<Rightarrow> (nat \<rightharpoonup> nat) \<Rightarrow> nat \<Rightarrow> unrolled_loop_t \<Rightarrow> value_map \<times> ir_builder \<Rightarrow> value_map \<times> ir_builder" where
  "make_body R L backedge_map counter loop st =
     (case fold (copy_inst R L backedge_map) (rev (bl_instructions (last (loop_blocks loop))))
         (fst st, set_insert_point (new_loop_body L, None) (snd st)) of (VMap, b) \<Rightarrow>
      case ir_insert (IBinary Add (LValue counter) (LConstantInt 64 1)) 64 b of (next_counter, b1) \<Rightarrow>
      let b2 = addIncoming counter next_counter (new_loop_body L) (addIncoming counter (LConstantInt 64 0) (pre_header L) b1) in
      case ir_insert (IICmp ICMP_SLT next_counter (LConstantInt 64 (int (iteration_count loop)))) 1 b2 of (cond, b3) \<Rightarrow>
      (VMap, snd (ir_insert (ICondBr cond (loop_header L) (loop_exit L)) 0 b3)))"

text \<open>The instructions of the unrolled loop, with the last block as the pass leaves it: the copy of the body was made from
  it, and it was turned around for that.\<close>

definition erased_blocks :: "unrolled_loop_t \<Rightarrow> instruction_t list list" where
  "erased_blocks loop = map bl_instructions (butlast (loop_blocks loop)) @ [rev (bl_instructions (last (loop_blocks loop)))]"

definition loop_values :: "unrolled_loop_t \<Rightarrow> nat list" where
  "loop_values loop = map (fst \<circ> in_value) (concat (erased_blocks loop))"

definition structural_exit_map :: "unrolled_loop_t \<Rightarrow> value_map \<Rightarrow> value_map" where
  "structural_exit_map loop VMap =
     (let back_original = bl_instructions (last (loop_blocks loop)) in
      fold (\<lambda>block m. fold (\<lambda>(x, canonical) m.
            case VMap (LValue (fst (in_value canonical))) of Some v \<Rightarrow> m(LValue (fst (in_value x)) \<mapsto> v) | None \<Rightarrow> m)
          (zip block back_original) m)
        (erased_blocks loop) Map.empty)"

definition redirect_uses :: "nat set \<Rightarrow> llvm_value \<Rightarrow> llvm_value \<Rightarrow> ir_builder \<Rightarrow> ir_builder" where
  "redirect_uses inside old new b =
     b\<lparr>ir_blocks := map (map (\<lambda>(j, inst). (j, if j \<in> inside then inst else map_operands (subst_value old new) inst))) (ir_blocks b)\<rparr>"

definition erase_inst :: "reroll_env \<Rightarrow> nat set \<Rightarrow> value_map \<Rightarrow> nat \<Rightarrow> ir_builder \<Rightarrow> ir_builder" where
  "erase_inst R inside exit_map i b =
     replace_inst i (re_undef R i)
       (case exit_map (LValue i) of Some rerolled \<Rightarrow> redirect_uses inside (LValue i) rerolled b | None \<Rightarrow> b)"

definition erase_unrolled :: "reroll_env \<Rightarrow> unrolled_loop_t \<Rightarrow> value_map \<Rightarrow> ir_builder \<Rightarrow> ir_builder" where
  "erase_unrolled R loop VMap b =
     fold (erase_inst R (set (loop_values loop)) (structural_exit_map loop VMap)) (loop_values loop) b"

definition reroll :: "reroll_env \<Rightarrow> unrolled_loop_t \<Rightarrow> ir_builder \<Rightarrow> ir_builder res" where
  "reroll R loop b =
     res_bind (make_blocks loop b) (\<lambda>(L, b1).
     case make_header L (loop_phis loop) b1 of (VMap, backedge_map, counter, b2) \<Rightarrow>
     case make_body R L backedge_map counter loop (VMap, b2) of (VMap1, b3) \<Rightarrow>
     Inr (erase_unrolled R loop VMap1 b3))"

text \<open>When no loop is found, the markers that are left are removed.\<close>

definition remove_markers :: "reroll_env \<Rightarrow> ir_builder \<Rightarrow> ir_builder" where
  "remove_markers R b = b\<lparr>ir_blocks := map (filter (\<lambda>node. \<not> calls_marker R node)) (ir_blocks b)\<rparr>"

definition loop_reroll :: "reroll_env \<Rightarrow> ir_builder \<Rightarrow> (bool \<times> ir_builder) res" where
  "loop_reroll R b =
     res_bind (find_loop R (ir_blocks b)) (\<lambda>r.
       case r of Some loop \<Rightarrow> res_bind (reroll R loop b) (\<lambda>b1. Inr (True, b1)) | None \<Rightarrow> Inr (False, remove_markers R b))"

section \<open>The iterations that are found\<close>

text \<open>The blocks of a loop are pieces of a list of instructions, one behind the other, with gaps.\<close>

inductive tiles :: "reroll_env \<Rightarrow> block_t list \<Rightarrow> ir_node list \<Rightarrow> bool" for R where
  none: "tiles R [] []"
| gap: "tiles R bs used \<Longrightarrow> tiles R bs (used @ [node])"
| piece: "tiles R bs used \<Longrightarrow> seg \<noteq> [] \<Longrightarrow> bl_instructions b = map (hash_instruction R) seg \<Longrightarrow>
    bl_dataflow b = dataflow_analysis R (bl_instructions b) \<Longrightarrow> tiles R (bs @ [b]) (used @ seg)"

text \<open>An iteration repeats the one before it, which may have grown in between.\<close>

definition repeats :: "reroll_env \<Rightarrow> block_t \<Rightarrow> block_t \<Rightarrow> bool" where
  "repeats R a b \<longleftrightarrow> (\<exists>ext. matches_pattern R (bl_instructions a @ ext) (bl_instructions b))"

definition search_inv :: "reroll_env \<Rightarrow> ir_node list \<Rightarrow> unrolled_loop_t \<Rightarrow> bool" where
  "search_inv R used loop \<longleftrightarrow>
     tiles R (loop_blocks loop) used \<and> successively (repeats R) (loop_blocks loop) \<and> loop_body loop \<noteq> [] \<and>
     (if loop_blocks loop = [] then iteration_count loop = 1 \<and> loop_body loop = map (hash_instruction R) used
      else iteration_count loop = length (loop_blocks loop) \<and> (\<exists>ext. loop_body loop = bl_instructions (last (loop_blocks loop)) @ ext))"

lemma tiles_gaps: "tiles R bs used \<Longrightarrow> tiles R bs (used @ seg)"
proof (induction seg rule: rev_induct)
  case (snoc x xs)
  then show ?case using tiles.gap [of R bs "used @ xs" x] by simp
qed simp

lemma tiles_Nil: "tiles R [] used"
  using tiles_gaps [OF tiles.none, of R used] by simp

lemma found_iteration_inv:
  assumes inv: "search_inv R used loop" and seg: "seg \<noteq> []"
    and m: "matches_pattern R (loop_body loop) (map (hash_instruction R) seg)"
  shows "search_inv R (used @ seg) (found_iteration R (map (hash_instruction R) seg) loop)"
proof -
  let ?b = "\<lparr>bl_instructions = map (hash_instruction R) seg, bl_dataflow = dataflow_analysis R (map (hash_instruction R) seg)\<rparr>"
  let ?f = "\<lparr>bl_instructions = loop_body loop, bl_dataflow = dataflow_analysis R (loop_body loop)\<rparr>"
  show ?thesis
  proof (cases "loop_blocks loop = []")
    case True
    then have body: "loop_body loop = map (hash_instruction R) used" "used \<noteq> []" "iteration_count loop = 1"
      using inv by (auto simp: search_inv_def)
    then have "tiles R [?f] used" using tiles.piece [of R "[]" "[]" used ?f] tiles.none by simp
    then have "tiles R [?f, ?b] (used @ seg)" using tiles.piece [of R "[?f]" used seg ?b] seg by simp
    moreover have "repeats R ?f ?b" using m by (auto simp: repeats_def intro: exI [of _ "[]"])
    ultimately show ?thesis using True seg body by (simp add: search_inv_def found_iteration_def Let_def)
  next
    case False
    then have "tiles R (loop_blocks loop @ [?b]) (used @ seg)"
      using inv seg tiles.piece [of R "loop_blocks loop" used seg ?b] by (simp add: search_inv_def)
    moreover have "repeats R (last (loop_blocks loop)) ?b" using inv m False by (auto simp: search_inv_def repeats_def)
    ultimately show ?thesis using False inv seg
      by (simp add: search_inv_def found_iteration_def Let_def successively_append_iff)
  qed
qed

lemma search_loop_inv:
  "search_inv R used loop \<Longrightarrow> \<exists>k. tiles R (loop_blocks (search_loop R rest loop)) (used @ take k rest) \<and>
     successively (repeats R) (loop_blocks (search_loop R rest loop)) \<and>
     (iteration_count (search_loop R rest loop) = 1 \<or>
      iteration_count (search_loop R rest loop) = length (loop_blocks (search_loop R rest loop)))"
proof (induction R rest loop arbitrary: used rule: search_loop.induct)
  case (1 R rest loop)
  let ?n = "length (loop_body loop)"
  let ?is = "map (hash_instruction R) (take ?n rest)"
  have stop: "tiles R (loop_blocks loop) (used @ take 0 rest)" "successively (repeats R) (loop_blocks loop)"
      "iteration_count loop = 1 \<or> iteration_count loop = length (loop_blocks loop)"
    using "1.prems" by (auto simp: search_inv_def split: if_splits)
  show ?case
  proof (cases "rest = [] \<or> ?n > 512 \<or> loop_body loop = []")
    case True
    then have "search_loop R rest loop = loop" by (cases rest) (simp_all add: search_loop.simps)
    then show ?thesis using stop by metis
  next
    case False
    then obtain node rest1 where rest: "rest = node # rest1" by (cases rest) auto
    show ?thesis
    proof (cases "matches_pattern R (loop_body loop) ?is")
      case True
      have step: "search_loop R rest loop = search_loop R (drop ?n rest) (found_iteration R ?is loop)"
        using False True rest by (subst search_loop.simps) simp
      have "take ?n rest \<noteq> []" using False rest by (cases "loop_body loop") auto
      from "1.IH"(1) [OF rest _ refl True found_iteration_inv [OF "1.prems" this True]] False
      obtain k where k: "tiles R (loop_blocks (search_loop R rest loop)) ((used @ take ?n rest) @ take k (drop ?n rest))"
          "successively (repeats R) (loop_blocks (search_loop R rest loop))"
          "iteration_count (search_loop R rest loop) = 1 \<or> iteration_count (search_loop R rest loop) = length (loop_blocks (search_loop R rest loop))"
        unfolding step by auto
      then show ?thesis by (intro exI [of _ "?n + k"]) (simp add: take_add)
    next
      case no: False
      show ?thesis
      proof (cases "iteration_count loop > 3")
        case True
        then have "search_loop R rest loop = loop\<lparr>loop_entry := matching_prefix ?is (loop_body loop)\<rparr>"
          using False no rest by (subst search_loop.simps) simp
        then show ?thesis using stop by (intro exI [of _ 0]) simp
      next
        case few: False
        have step: "search_loop R rest loop = search_loop R rest1 (loop\<lparr>loop_body := loop_body loop @ [hash_instruction R node]\<rparr>)"
          using False no few rest by (subst search_loop.simps) simp
        have "search_inv R (used @ [node]) (loop\<lparr>loop_body := loop_body loop @ [hash_instruction R node]\<rparr>)"
          using "1.prems" by (auto simp: search_inv_def tiles_gaps split: if_splits)
        from "1.IH"(2) [OF rest _ refl no few this] False
        obtain k where "tiles R (loop_blocks (search_loop R rest loop)) ((used @ [node]) @ take k rest1)"
          "successively (repeats R) (loop_blocks (search_loop R rest loop))"
          "iteration_count (search_loop R rest loop) = 1 \<or> iteration_count (search_loop R rest loop) = length (loop_blocks (search_loop R rest loop))"
          unfolding step by auto
        then show ?thesis using rest by (intro exI [of _ "Suc k"]) simp
      qed
    qed
  qed
qed

lemma find_in_block_found:
  "find_in_block R first nodes = Inr (Some loop) \<Longrightarrow>
     \<exists>before node rest. nodes = before @ node # rest \<and> calls_marker R node \<and>
       loop = search_loop R rest (start_loop R node) \<and> iteration_count loop > 3"
proof (induction nodes arbitrary: first)
  case (Cons node rest)
  have "find_in_block R False rest = Inr (Some loop) \<or>
      calls_marker R node \<and> loop = search_loop R rest (start_loop R node) \<and> iteration_count loop > 3"
    using Cons.prems by (cases rest) (auto simp: Let_def split: if_split_asm)
  then show ?case
  proof
    assume "find_in_block R False rest = Inr (Some loop)"
    from Cons.IH [OF this] obtain before n r where "rest = before @ n # r" "calls_marker R n"
      "loop = search_loop R r (start_loop R n)" "iteration_count loop > 3" by blast
    then show ?thesis by (intro exI [of _ "node # before"] exI [of _ n] exI [of _ r]) simp
  next
    assume "calls_marker R node \<and> loop = search_loop R rest (start_loop R node) \<and> iteration_count loop > 3"
    then show ?thesis by (metis append_Nil)
  qed
qed simp

lemma start_loop_inv: "search_inv R [node] (start_loop R node)"
  by (simp add: search_inv_def start_loop_def tiles_Nil)

text \<open>What the search reports is in the block.\<close>

lemma detected_iterations_are_in_the_block:
  assumes "find_in_block R first nodes = Inr (Some loop)"
  shows "\<exists>before marker used after. nodes = before @ (marker # used) @ after \<and> calls_marker R marker \<and>
    tiles R (loop_blocks loop) (marker # used) \<and> successively (repeats R) (loop_blocks loop) \<and>
    iteration_count loop = length (loop_blocks loop) \<and> length (loop_blocks loop) > 3"
proof -
  from find_in_block_found [OF assms] obtain before marker rest where
    f: "nodes = before @ marker # rest" "calls_marker R marker" "loop = search_loop R rest (start_loop R marker)"
      "iteration_count loop > 3" by metis
  from search_loop_inv [OF start_loop_inv, of R rest marker] obtain k where
    k: "tiles R (loop_blocks loop) ([marker] @ take k rest)" "successively (repeats R) (loop_blocks loop)"
      "iteration_count loop = length (loop_blocks loop)" using f by fastforce
  have "nodes = before @ (marker # take k rest) @ drop k rest" using f by simp
  then show ?thesis using f(2,4) k
    by (intro exI [of _ before] exI [of _ marker] exI [of _ "take k rest"] exI [of _ "drop k rest"] conjI) simp_all
qed

lemma find_loop_found:
  "find_loop R blocks = Inr (Some loop) \<Longrightarrow> \<exists>nodes \<in> set blocks. find_in_block R True (rev nodes) = Inr (Some loop)"
proof -
  let ?f = "\<lambda>nodes r. case r of Some loop \<Rightarrow> Inr (Some loop) | None \<Rightarrow> find_in_block R True (rev nodes)"
  have found: "res_fold ?f xs (Some l) = Inr (Some l)" for xs l by (induction xs) simp_all
  have "res_fold ?f xs None = Inr (Some loop) \<Longrightarrow> \<exists>nodes \<in> set xs. find_in_block R True (rev nodes) = Inr (Some loop)" for xs
  proof (induction xs)
    case (Cons nodes xs)
    then obtain r where r: "find_in_block R True (rev nodes) = Inr r" "res_fold ?f xs r = Inr (Some loop)" by (auto elim!: res_bindE)
    then show ?case using Cons.IH found by (cases r) auto
  qed simp
  then show "find_loop R blocks = Inr (Some loop) \<Longrightarrow> ?thesis" by (simp add: find_loop_def)
qed

section \<open>The unrolled instructions are erased\<close>

definition ids_of :: "ir_builder \<Rightarrow> nat set" where
  "ids_of b = fst ` nodes_of b"

lemma ids_replace: "ids_of (replace_inst i v b) = ids_of b - {i}"
  unfolding ids_of_def nodes_replace by (auto simp: image_iff split: prod.splits) force

lemma ids_redirect: "ids_of (redirect_uses inside old new b) = ids_of b"
  by (auto simp: ids_of_def nodes_of_def redirect_uses_def image_iff split: prod.splits) force+

lemma ids_erase_inst: "ids_of (erase_inst R inside exit_map i b) = ids_of b - {i}"
  by (simp add: erase_inst_def ids_replace ids_redirect split: option.split)

lemma erase_unrolled_ids: "ids_of (erase_unrolled R loop VMap b) = ids_of b - set (loop_values loop)"
proof -
  have "ids_of (fold (erase_inst R inside m) xs b) = ids_of b - set xs" for inside m xs b
    by (induction xs arbitrary: b) (auto simp: ids_erase_inst)
  then show ?thesis unfolding erase_unrolled_def .
qed

lemma loop_values_set:
  "loop_blocks loop \<noteq> [] \<Longrightarrow> set (loop_values loop) = (\<Union>blk \<in> set (loop_blocks loop). fst ` in_value ` set (bl_instructions blk))"
proof -
  assume "loop_blocks loop \<noteq> []"
  then have "set (loop_blocks loop) = insert (last (loop_blocks loop)) (set (butlast (loop_blocks loop)))"
    by (metis append_butlast_last_id list.set(2) rotate1.simps(2) set_rotate1)
  then show ?thesis by (auto simp: loop_values_def erased_blocks_def)
qed

text \<open>C32: what is re-rolled was unrolled, and it is gone. When the pass changes a function, it has found a loop that starts at
  a call of the marker, has more than three iterations and as many blocks as iterations; its blocks are non-empty runs of
  consecutive instructions of one basic block that do not overlap and come one after the other (backwards), each with the
  dataflow analysis of its own instructions, and every block repeats the one before it, which the search may have
  extended in between. No instruction of these blocks is in the new function.\<close>

theorem rerolled_iterations_are_erased:
  assumes "loop_reroll R b = Inr (True, b')"
  shows "\<exists>(loop :: unrolled_loop_t) nodes before marker used after. nodes \<in> set (ir_blocks b) \<and> rev nodes = before @ (marker # used) @ after \<and>
    calls_marker R marker \<and> tiles R (loop_blocks loop) (marker # used) \<and> successively (repeats R) (loop_blocks loop) \<and>
    iteration_count loop = length (loop_blocks loop) \<and> length (loop_blocks loop) > 3 \<and>
    (\<forall>blk \<in> set (loop_blocks loop). \<forall>x \<in> set (bl_instructions blk). fst (in_value x) \<notin> ids_of b')"
proof -
  from assms obtain loop where loop: "find_loop R (ir_blocks b) = Inr (Some loop)" "reroll R loop b = Inr b'"
    by (auto simp: loop_reroll_def elim!: res_bindE split: option.splits)
  obtain nodes where nodes: "nodes \<in> set (ir_blocks b)" "find_in_block R True (rev nodes) = Inr (Some loop)"
    using find_loop_found [OF loop(1)] by blast
  obtain before marker used after where d: "rev nodes = before @ (marker # used) @ after" "calls_marker R marker"
      "tiles R (loop_blocks loop) (marker # used)" "successively (repeats R) (loop_blocks loop)"
      "iteration_count loop = length (loop_blocks loop)" "length (loop_blocks loop) > 3"
    using detected_iterations_are_in_the_block [OF nodes(2)] by (elim exE conjE) (rule that)
  obtain VMap b3 where "b' = erase_unrolled R loop VMap b3"
    using loop(2) by (auto simp: reroll_def elim!: res_bindE split: prod.splits)
  moreover have "loop_blocks loop \<noteq> []" using d(6) by auto
  ultimately have "\<forall>blk \<in> set (loop_blocks loop). \<forall>x \<in> set (bl_instructions blk). fst (in_value x) \<notin> ids_of b'"
    by (auto simp: erase_unrolled_ids loop_values_set)
  then show ?thesis using nodes(1) d
    by - (rule exI [of _ loop], rule exI [of _ nodes], rule exI [of _ before], rule exI [of _ marker], rule exI [of _ used],
      rule exI [of _ after], intro conjI, assumption+)
qed

text \<open>A block, backwards from its last instruction, in which three pairs of a marker and a call with the argument 1 are followed
  by two groups of four instructions. The search counts the three pairs, extends the pattern, and goes on counting with
  blocks of another length.\<close>

definition demo_reroll :: reroll_env where
  "demo_reroll = \<lparr>re_combine = \<lambda>h x. 31 * h + x, re_opcode = \<lambda>i. 56, re_type = \<lambda>i. 7,
     re_operands = \<lambda>i. (case i of ICall f args \<Rightarrow> args | _ \<Rightarrow> []), re_constant = (\<lambda>v. case v of LConstantInt w n \<Rightarrow> True | LValue i \<Rightarrow> False), re_marker = ''marker'', re_undef = (\<lambda>i. LValue 9)\<rparr>"

definition demo_stream :: "ir_node list" where
  "demo_stream = (let m = (\<lambda>i. (i, ICall (Unknown_callee ''marker'') []));
       a = (\<lambda>i. (i, ICall (Unknown_callee ''f'') [LConstantInt 8 1])); b = (\<lambda>i. (i, ICall (Unknown_callee ''f'') [LConstantInt 8 2])) in
     [(40, IRet (LConstantInt 8 0)), m 39, a 38, m 37, a 36, m 35, a 34, m 33, b 32, m 31, a 30, m 29, b 28])"

definition demo_unrolled :: ir_builder where
  "demo_unrolled = \<lparr>ir_next = 50, ir_sizes = (\<lambda>_. 8), ir_names = Map.empty, ir_blocks = [rev demo_stream], ir_ip = (0, None),
     insert_points = [], to_delete = []\<rparr>"

text \<open>The six calls of the block become four rounds of two calls.\<close>

definition demo_rerolled_blocks :: ir_blocks where
  "demo_rerolled_blocks =
     [[(52, IBr 2)],
      [(32, ICall (Unknown_callee ''f'') [LConstantInt 8 2]), (33, ICall (Unknown_callee ''marker'') []), (51, IBr 4)],
      [(53, IPhi 64 [(LConstantInt 64 0, 0), (LValue 57, 3)]), (54, IBr 3)],
      [(55, ICall (Unknown_callee ''f'') [LConstantInt 8 2]), (56, ICall (Unknown_callee ''f'') [LConstantInt 8 1]),
       (57, IBinary Add (LValue 53) (LConstantInt 64 1)), (58, IICmp ICMP_SLT (LValue 57) (LConstantInt 64 4)),
       (59, ICondBr (LValue 58) 2 4)],
      [(40, IRet (LConstantInt 8 0))]]"

definition demo_loop :: unrolled_loop_t where
  "demo_loop = (let xs = (\<lambda>m n. map (hash_instruction demo_reroll) (take n (drop m demo_stream)));
       blk = (\<lambda>m n. \<lparr>bl_instructions = xs m n, bl_dataflow = []\<rparr>) in
     \<lparr>iteration_count = 4, loop_body = xs 9 4, loop_entry = [], loop_blocks = [blk 1 2, blk 3 2, blk 5 2, blk 9 4]\<rparr>)"

lemma demo_find: "find_loop demo_reroll [rev demo_stream] = Inr (Some demo_loop)"
  by (simp add: find_loop_def demo_loop_def demo_stream_def demo_reroll_def calls_marker_def search_loop.simps start_loop_def
      hash_instruction_def operand_hash_def matches_pattern_def hash_instructions_def same_dataflow_def dataflow_analysis_def
      add_dependency_def found_iteration_def Let_def)

lemma in_value_hash: "in_value (hash_instruction R node) = node"
  by (simp add: hash_instruction_def)

lemma demo_phis: "loop_phis demo_loop = []"
  by (simp add: loop_phis_def demo_loop_def Let_def dependency_analysis_def phi_analysis_def)

definition demo_split :: ir_builder where
  "demo_split = demo_unrolled\<lparr>ir_next := 53, ir_sizes := (\<lambda>_. 8)(52 := 0),
     ir_blocks := [[(52, IBr 2)], take 11 (rev demo_stream) @ [(51, IBr 4)], [], [], drop 11 (rev demo_stream)]\<rparr>"

definition demo_places :: loop_blocks_t where
  "demo_places = \<lparr>pre_header = 0, loop_header = 2, new_loop_body = 3, loop_exit = 4\<rparr>"

lemmas builder_steps = set_insert_point_def ir_insert_def insert_before.simps

lemma demo_make_blocks: "make_blocks demo_loop demo_unrolled = Inr (demo_places, demo_split)"
  by (simp add: make_blocks_def demo_loop_def demo_unrolled_def demo_stream_def demo_split_def demo_places_def Let_def
      in_value_hash splitBasicBlock_def before_inst_def from_inst_def moved_up_def moved_down_def move_to_end_def
      erase_terminator_def basic_block_def builder_steps block_of_def upt_rec)

definition demo_headed :: ir_builder where
  "demo_headed = demo_split\<lparr>ir_next := 55, ir_sizes := (\<lambda>_. 8)(52 := 0, 53 := 64, 54 := 0),
     ir_blocks := (ir_blocks demo_split)[2 := [(53, IPhi 64 []), (54, IBr 3)]], ir_ip := (2, None)\<rparr>"

lemma demo_make_header: "make_header demo_places [] demo_split = (Map.empty, Map.empty, 53, demo_headed)"
  by (simp add: make_header_def demo_places_def demo_headed_def demo_split_def demo_unrolled_def builder_steps Let_def)

definition demo_copied :: "value_map \<times> ir_builder" where
  "demo_copied =
     (Map.empty(LValue 28 \<mapsto> LValue 55, LValue 30 \<mapsto> LValue 56),
      demo_headed\<lparr>ir_next := 60, ir_sizes := (\<lambda>_. 8)(52 := 0, 53 := 64, 54 := 0, 55 := 8, 56 := 8, 57 := 64, 58 := 1, 59 := 0),
        ir_blocks := [[(52, IBr 2)], take 11 (rev demo_stream) @ [(51, IBr 4)],
          [(53, IPhi 64 [(LConstantInt 64 0, 0), (LValue 57, 3)]), (54, IBr 3)],
          [(55, ICall (Unknown_callee ''f'') [LConstantInt 8 2]), (56, ICall (Unknown_callee ''f'') [LConstantInt 8 1]),
           (57, IBinary Add (LValue 53) (LConstantInt 64 1)), (58, IICmp ICMP_SLT (LValue 57) (LConstantInt 64 4)),
           (59, ICondBr (LValue 58) 2 4)], drop 11 (rev demo_stream)], ir_ip := (3, None)\<rparr>)"

lemma demo_last: "rev (bl_instructions (last (loop_blocks demo_loop))) = map (hash_instruction demo_reroll) (take 4 (rev demo_stream))"
  by (simp add: demo_loop_def demo_stream_def Let_def)

lemma demo_marker: "re_marker demo_reroll = ''marker''" "iteration_count demo_loop = 4"
  by (simp_all add: demo_reroll_def demo_loop_def Let_def)

lemma demo_make_body: "make_body demo_reroll demo_places Map.empty 53 demo_loop (Map.empty, demo_headed) = demo_copied"
  by (simp add: make_body_def demo_last demo_marker copy_inst_def in_value_hash demo_stream_def calls_marker_def demo_places_def
      demo_headed_def demo_copied_def demo_split_def demo_unrolled_def builder_steps insts_of_def addIncoming_def update_inst_def
      remapped_def Let_def)

lemma demo_loop_values: "loop_values demo_loop = [39, 38, 37, 36, 35, 34, 28, 29, 30, 31]"
  by (simp add: loop_values_def erased_blocks_def demo_loop_def demo_stream_def Let_def in_value_hash)

text \<open>No instruction uses what is erased, so the blocks lose the erased instructions and change in nothing else.\<close>

lemma erase_unused:
  assumes "\<forall>(j, inst) \<in> nodes_of b. LValue i \<notin> set (operands inst)"
  shows "ir_blocks (erase_inst R inside m i b) = map (filter (\<lambda>node. fst node \<noteq> i)) (ir_blocks b)"
proof -
  have same: "map_operands (subst_value (LValue i) v) inst = inst" if "nodes \<in> set (ir_blocks b)" "(j, inst) \<in> set nodes" for v j inst nodes
    using assms that by (intro map_operands_unchanged) (auto simp: subst_value_def nodes_of_def)
  have "ir_blocks (replace_inst i v (redirect_uses inside (LValue i) w b)) = map (filter (\<lambda>node. fst node \<noteq> i)) (ir_blocks b)"
    "ir_blocks (replace_inst i v b) = map (filter (\<lambda>node. fst node \<noteq> i)) (ir_blocks b)" for v w
    by (auto simp: replace_inst_def eraseFromParent_def replaceAllUsesWith_def redirect_uses_def same intro!: map_idI arg_cong [where f = "filter _"] split: prod.splits)
  then show ?thesis by (simp add: erase_inst_def split: option.split)
qed

lemma erase_all_unused:
  assumes "\<forall>i \<in> set xs. \<forall>(j, inst) \<in> nodes_of b. LValue i \<notin> set (operands inst)"
  shows "ir_blocks (fold (erase_inst R inside m) xs b) = map (filter (\<lambda>node. fst node \<notin> set xs)) (ir_blocks b)"
  using assms
proof (induction xs arbitrary: b)
  case (Cons i xs)
  have step: "ir_blocks (erase_inst R inside m i b) = map (filter (\<lambda>node. fst node \<noteq> i)) (ir_blocks b)"
    using Cons.prems by (intro erase_unused) simp
  have "nodes_of (erase_inst R inside m i b) \<subseteq> nodes_of b" by (auto simp: nodes_of_def step)
  then have "\<forall>k \<in> set xs. \<forall>(j, inst) \<in> nodes_of (erase_inst R inside m i b). LValue k \<notin> set (operands inst)"
    using Cons.prems by fastforce
  from Cons.IH [OF this] show ?case by (simp add: step conj_commute)
qed (simp add: map_idI)

lemma demo_erased: "ir_blocks (erase_unrolled demo_reroll demo_loop (fst demo_copied) (snd demo_copied)) = demo_rerolled_blocks"
proof -
  have "\<forall>i \<in> set (loop_values demo_loop). \<forall>(j, inst) \<in> nodes_of (snd demo_copied). LValue i \<notin> set (operands inst)"
    by (simp add: demo_loop_values nodes_of_def demo_copied_def demo_stream_def Let_def)
  from erase_all_unused [OF this] show ?thesis
    by (simp add: erase_unrolled_def demo_loop_values demo_copied_def demo_stream_def demo_rerolled_blocks_def Let_def)
qed

lemma demo_rerolled:
  "\<exists>b'. loop_reroll demo_reroll demo_unrolled = Inr (True, b') \<and> ir_blocks b' = demo_rerolled_blocks"
proof -
  have "ir_blocks demo_unrolled = [rev demo_stream]" by (simp add: demo_unrolled_def)
  then have "loop_reroll demo_reroll demo_unrolled =
      Inr (True, erase_unrolled demo_reroll demo_loop (fst demo_copied) (snd demo_copied))"
    by (simp add: loop_reroll_def demo_find reroll_def demo_make_blocks demo_phis demo_make_header demo_make_body case_prod_beta)
  then show ?thesis using demo_erased by simp
qed

theorem rerolled_iterations_are_erased_witness:
  "\<exists>b' (loop :: unrolled_loop_t). loop_reroll demo_reroll demo_unrolled = Inr (True, b') \<and> ir_blocks b' = demo_rerolled_blocks \<and>
     iteration_count loop = length (loop_blocks loop) \<and> length (loop_blocks loop) > 3 \<and>
     successively (repeats demo_reroll) (loop_blocks loop)"
proof -
  obtain b' where b': "loop_reroll demo_reroll demo_unrolled = Inr (True, b')" "ir_blocks b' = demo_rerolled_blocks"
    using demo_rerolled by (elim exE conjE) (rule that)
  obtain loop :: unrolled_loop_t where "iteration_count loop = length (loop_blocks loop)" "length (loop_blocks loop) > 3"
      "successively (repeats demo_reroll) (loop_blocks loop)"
    using rerolled_iterations_are_erased [OF b'(1)] by (elim exE conjE) (rule that)
  then show ?thesis using b' by (intro exI [of _ b'] exI [of _ loop] conjI)
qed

end
