(* ===== verification/Recompile.thy ===== *)
theory Recompile
  imports Emulator Ir_Semantics
begin

text \<open>
  \<open>builder::recompile\<close> (recompile.cpp) with the helpers of builder.cpp that it uses: a function \<open>vexa_entry\<close> in inline
  assembly saves the registers in a state structure on the stack, calls the lifted function on it, and loads the
  registers again; then LLVM compiles the module. The code generator is an argument.
\<close>

section \<open>The inline assembly\<close>

text \<open>The lines that are written, and their text.\<close>

datatype asm_line =
    Sub_rsp u64
  | Store_reg u64 string
  | Add_slot u64 u64
  | Mov_rdi_rsp
  | Xor_rsi
  | Lea_rdx string
  | Rdfsbase_rax
  | Call string
  | Load_reg string u64
  | Add_rsp u64

abbreviation newline :: string where
  "newline \<equiv> [CHR 0x0A]"

fun asm_text :: "asm_line \<Rightarrow> string" where
  "asm_text (Sub_rsp n) = ''sub rsp, '' @ show_nat (unat n) @ newline"
| "asm_text (Store_reg off r) = ''mov qword ptr [rsp + '' @ show_nat (unat off) @ ''], '' @ r @ newline"
| "asm_text (Add_slot off n) = ''add qword ptr [rsp + '' @ show_nat (unat off) @ ''], '' @ show_nat (unat n) @ newline"
| "asm_text Mov_rdi_rsp = ''mov rdi, rsp'' @ newline"
| "asm_text Xor_rsi = ''xor rsi, rsi'' @ newline"
| "asm_text (Lea_rdx base) = ''lea rdx, [rip + '' @ base @ '']'' @ newline"
| "asm_text Rdfsbase_rax = ''rdfsbase rax'' @ newline"
| "asm_text (Call f) = ''call '' @ f @ newline"
| "asm_text (Load_reg r off) = ''mov '' @ r @ '', qword ptr [rsp + '' @ show_nat (unat off) @ '']'' @ newline"
| "asm_text (Add_rsp n) = ''add rsp, '' @ show_nat (unat n) @ newline"

definition tolower :: "char \<Rightarrow> char" where
  "tolower c = (if 65 \<le> (of_char c :: nat) \<and> (of_char c :: nat) \<le> 90 then char_of ((of_char c :: nat) + 32) else c)"

definition lower_name :: "register \<Rightarrow> string" where
  "lower_name r = map tolower (reg_name r)"

definition ends_with :: "string \<Rightarrow> string \<Rightarrow> bool" where
  "ends_with s e \<longleftrightarrow> length e \<le> length s \<and> drop (length s - length e) s = e"

definition starts_with :: "string \<Rightarrow> string \<Rightarrow> bool" where
  "starts_with s b \<longleftrightarrow> take (length b) s = b"

definition is_saved :: "register \<Rightarrow> bool" where
  "is_saved r \<longleftrightarrow>
     \<not> reg_has_parent r \<and> reg_name r \<noteq> ''RIP'' \<and> \<not> ends_with (reg_name r) ''BASE'' \<and> reg_size r = 8 \<and>
     \<not> starts_with (reg_name r) ''MM''"

definition is_restored :: "register \<Rightarrow> bool" where
  "is_restored r \<longleftrightarrow>
     \<not> reg_has_parent r \<and> reg_name r \<noteq> ''RIP'' \<and> reg_name r \<noteq> ''RSP'' \<and> \<not> ends_with (reg_name r) ''BASE'' \<and>
     reg_size r = 8 \<and> \<not> starts_with (reg_name r) ''MM''"

definition prologue :: "u64 \<Rightarrow> (reg \<times> register) list \<Rightarrow> register \<Rightarrow> register \<Rightarrow> string \<Rightarrow> asm_line list" where
  "prologue state_struct_size regs sp fsbase base =
     Sub_rsp state_struct_size #
     map (\<lambda>e. Store_reg (reg_offset (snd e)) (lower_name (snd e))) (filter (\<lambda>e. is_saved (snd e)) regs) @
     [Add_slot (reg_offset sp) state_struct_size, Mov_rdi_rsp, Xor_rsi, Lea_rdx base, Rdfsbase_rax,
      Store_reg (reg_offset fsbase) ''rax'']"

definition epilogue :: "u64 \<Rightarrow> (reg \<times> register) list \<Rightarrow> asm_line list" where
  "epilogue state_struct_size regs =
     map (\<lambda>e. Load_reg (lower_name (snd e)) (reg_offset (snd e))) (filter (\<lambda>e. is_restored (snd e)) regs) @
     [Add_rsp state_struct_size]"

definition wrapper :: "u64 \<Rightarrow> (reg \<times> register) list \<Rightarrow> register \<Rightarrow> register \<Rightarrow> string \<Rightarrow> string \<Rightarrow> asm_line list" where
  "wrapper state_struct_size regs sp fsbase base f =
     prologue state_struct_size regs sp fsbase base @ Call f # epilogue state_struct_size regs"

definition inline_asm_text :: "asm_line list \<Rightarrow> string" where
  "inline_asm_text asm_lines = ''.intel_syntax noprefix'' @ newline @ concat (map asm_text asm_lines)"

section \<open>The module\<close>

datatype arch = X86_64

record entry_function =
  ef_name :: string
  ef_naked :: bool
  ef_asm :: string
  ef_ret :: llvm_value

record llvm_module =
  lm_lifted :: "ir_builder option"
  lm_lifted_name :: string
  lm_sysv :: bool
  lm_functions :: "entry_function list"
  lm_globals :: "string list"
  lm_linux_gnu_elf :: bool

text \<open>What is asked of LLVM: whether the module is broken, the name a new symbol gets, whether there is a target and a
  machine for it, and the object file for an optimization level.\<close>

record llvm_backend =
  lb_broken :: "llvm_module \<Rightarrow> bool"
  lb_unique :: "string list \<Rightarrow> string \<Rightarrow> string"
  lb_target :: bool
  lb_machine :: "bool \<Rightarrow> bool"
  lb_emit :: "bool \<Rightarrow> llvm_module \<Rightarrow> byte list option"

definition symbols :: "llvm_module \<Rightarrow> string list" where
  "symbols M = lm_lifted_name M # map ef_name (lm_functions M) @ lm_globals M"

definition create_function :: "llvm_backend \<Rightarrow> string \<Rightarrow> llvm_module \<Rightarrow> llvm_module" where
  "create_function B name M =
     M\<lparr>lm_functions := lm_functions M @
         [\<lparr>ef_name = lb_unique B (symbols M) name, ef_naked = False, ef_asm = [], ef_ret = LConstantInt 0 0\<rparr>]\<rparr>"

definition global_var :: "llvm_backend \<Rightarrow> string \<Rightarrow> llvm_module \<Rightarrow> string \<times> llvm_module" where
  "global_var B name M =
     (let n = lb_unique B (symbols M) name in (n, M\<lparr>lm_globals := lm_globals M @ [n]\<rparr>))"

text \<open>The function that was made last is the one the builder works on.\<close>

definition update_function :: "(entry_function \<Rightarrow> entry_function) \<Rightarrow> llvm_module \<Rightarrow> llvm_module" where
  "update_function f M = M\<lparr>lm_functions := butlast (lm_functions M) @ [f (last (lm_functions M))]\<rparr>"

definition add_attribute_naked :: "llvm_module \<Rightarrow> llvm_module" where
  "add_attribute_naked = update_function (ef_naked_update (\<lambda>_. True))"

definition inline_asm :: "string \<Rightarrow> llvm_module \<Rightarrow> llvm_module" where
  "inline_asm code = update_function (ef_asm_update (\<lambda>a. a @ code))"

text \<open>\<open>registers[r]\<close> of a number that is not in the table is a null pointer.\<close>

definition register_at :: "(reg \<times> register) list \<Rightarrow> reg \<Rightarrow> register res" where
  "register_at regs r = (case map_of regs r of None \<Rightarrow> Inl Null_dereference | Some x \<Rightarrow> Inr x)"

text \<open>\<open>getIntN(0, 64)\<close> is a number of no bits.\<close>

definition build_entry :: "llvm_backend \<Rightarrow> u64 \<Rightarrow> (reg \<times> register) list \<Rightarrow> llvm_module \<Rightarrow> llvm_module res" where
  "build_entry B state_struct_size regs M =
     (let M1 = add_attribute_naked (create_function B ''vexa_entry'' M) in
      res_bind (register_at regs (reg_of ''SP'')) (\<lambda>sp.
      case global_var B ''IMAGE_BASE'' M1 of (base, M2) \<Rightarrow>
      res_bind (register_at regs (reg_of ''FSBASE'')) (\<lambda>fsbase.
      let code = inline_asm_text (wrapper state_struct_size regs sp fsbase base (lm_lifted_name M)) in
      Inr (update_function (ef_ret_update (\<lambda>_. LConstantInt 0 0)) (inline_asm code M2)))))"

definition recompile ::
  "llvm_backend \<Rightarrow> u64 \<Rightarrow> (reg \<times> register) list \<Rightarrow> arch \<Rightarrow> bool \<Rightarrow> llvm_module \<Rightarrow> (byte list \<times> llvm_module) res" where
  "recompile B state_struct_size regs a optimize M =
     res_bind (vexa_assert ''func != nullptr'' (lm_lifted M \<noteq> None)) (\<lambda>_.
     if lb_broken B M then Inl (Throw ''Module invalid before codegen!'')
     else
       res_bind (build_entry B state_struct_size regs (M\<lparr>lm_sysv := True\<rparr>)) (\<lambda>M1.
       let M2 = M1\<lparr>lm_linux_gnu_elf := True\<rparr> in
       res_bind (vexa_assert ''Target'' (lb_target B)) (\<lambda>_.
       res_bind (vexa_assert ''TM'' (lb_machine B optimize)) (\<lambda>_.
       case lb_emit B optimize M2 of
         None \<Rightarrow> Inl (Throw ''compilation passes failed'')
       | Some obj \<Rightarrow> Inr (obj, M2)))))"

section \<open>What the assembly does\<close>

record x86 =
  x_regs :: "string \<Rightarrow> u64"
  x_mem :: ir_mem
  x_fsbase :: u64

abbreviation rsp :: "x86 \<Rightarrow> u64" where
  "rsp m \<equiv> x_regs m ''rsp''"

definition set_reg :: "string \<Rightarrow> u64 \<Rightarrow> x86 \<Rightarrow> x86" where
  "set_reg r v m = m\<lparr>x_regs := (x_regs m)(r := v)\<rparr>"

definition load64 :: "ir_mem \<Rightarrow> u64 \<Rightarrow> u64" where
  "load64 mem a = word_of_int (le_val (load_bytes mem a 8))"

definition store64 :: "u64 \<Rightarrow> u64 \<Rightarrow> x86 \<Rightarrow> x86" where
  "store64 a v m = m\<lparr>x_mem := store_bytes a (le_bytes 8 (uint v)) (x_mem m)\<rparr>"

text \<open>The addresses of symbols and what a call does to the machine are arguments.\<close>

fun asm_step :: "(string \<Rightarrow> u64) \<Rightarrow> (string \<Rightarrow> x86 \<Rightarrow> x86) \<Rightarrow> asm_line \<Rightarrow> x86 \<Rightarrow> x86" where
  "asm_step syms callee (Sub_rsp n) m = set_reg ''rsp'' (rsp m - n) m"
| "asm_step syms callee (Store_reg off r) m = store64 (rsp m + off) (x_regs m r) m"
| "asm_step syms callee (Add_slot off n) m = store64 (rsp m + off) (load64 (x_mem m) (rsp m + off) + n) m"
| "asm_step syms callee Mov_rdi_rsp m = set_reg ''rdi'' (rsp m) m"
| "asm_step syms callee Xor_rsi m = set_reg ''rsi'' 0 m"
| "asm_step syms callee (Lea_rdx base) m = set_reg ''rdx'' (syms base) m"
| "asm_step syms callee Rdfsbase_rax m = set_reg ''rax'' (x_fsbase m) m"
| "asm_step syms callee (Call f) m = callee f m"
| "asm_step syms callee (Load_reg r off) m = set_reg r (load64 (x_mem m) (rsp m + off)) m"
| "asm_step syms callee (Add_rsp n) m = set_reg ''rsp'' (rsp m + n) m"

definition asm_run :: "(string \<Rightarrow> u64) \<Rightarrow> (string \<Rightarrow> x86 \<Rightarrow> x86) \<Rightarrow> asm_line list \<Rightarrow> x86 \<Rightarrow> x86" where
  "asm_run syms callee asm_lines m = fold (asm_step syms callee) asm_lines m"

section \<open>Slots of the state\<close>

text \<open>Two slots of eight bytes that do not overlap.\<close>

definition slots_apart :: "u64 \<Rightarrow> u64 \<Rightarrow> bool" where
  "slots_apart a b \<longleftrightarrow> 8 \<le> unat (a - b) \<and> 8 \<le> unat (b - a)"

lemma slots_apart_sym: "slots_apart a b \<Longrightarrow> slots_apart b a"
  by (simp add: slots_apart_def)

lemma slots_apart_shift [simp]: "slots_apart (c + a) (c + b) = slots_apart a b"
  by (simp add: slots_apart_def)

lemma unat_diff_swap: "(a::u64) \<noteq> b \<Longrightarrow> unat (a - b) + unat (b - a) = 2 ^ 64"
proof -
  assume "a \<noteq> b"
  have "a - b = - (b - a)" by simp
  then have "uint (a - b) = (- uint (b - a)) mod 2 ^ 64" using uint_word_ariths(4) [of "b - a"] by simp
  moreover have "0 < uint (b - a)" "uint (b - a) < 2 ^ 64"
    using \<open>a \<noteq> b\<close> unsigned_less [of "b - a"] by (auto simp: less_le unsigned_eq_0_iff)
  ultimately have "uint (a - b) = 2 ^ 64 - uint (b - a)" by (simp add: zmod_zminus1_eq_if)
  then have "int (unat (a - b)) = 2 ^ 64 - int (unat (b - a))" by (simp only: of_nat_unat)
  then have "int (unat (a - b) + unat (b - a)) = int (2 ^ 64)" by simp
  then show ?thesis by (simp only: of_nat_eq_iff)
qed

lemma slots_apart_byte:
  assumes "slots_apart a b" and "k < 8"
  shows "8 \<le> unat (a + of_nat k - b)"
proof -
  have ne: "a \<noteq> b" using assms(1) by (auto simp: slots_apart_def)
  have "unat (b - a) < 2 ^ 64" using unsigned_less [of "b - a"] by simp
  then have "unat (a - b) + k < 2 ^ 64"
    using assms unat_diff_swap [OF ne] unfolding slots_apart_def by linarith
  then have "unat (a - b + of_nat k) = unat (a - b) + k" by (simp add: unat_word_ariths unat_of_nat)
  moreover have "a + of_nat k - b = a - b + of_nat k" by simp
  ultimately have "unat (a + of_nat k - b) = unat (a - b) + k" by (simp only:)
  then show ?thesis using assms(1) unfolding slots_apart_def by linarith
qed

lemma load64_store_other: "slots_apart a b \<Longrightarrow> load64 (x_mem (store64 b v m)) a = load64 (x_mem m) a"
proof -
  assume "slots_apart a b"
  note far = slots_apart_byte [OF this]
  then have "load_bytes (store_bytes b (le_bytes 8 (uint v)) (x_mem m)) a 8 = load_bytes (x_mem m) a 8"
    by (fastforce simp: load_bytes_def store_bytes_def)
  then show ?thesis by (simp add: load64_def store64_def)
qed

lemma load64_store_same: "load64 (x_mem (store64 a v m)) a = v"
proof -
  have "unat (a + of_nat k - a) = k" if "k < 8" for k using that by (simp add: unat_of_nat)
  then have "load_bytes (store_bytes a (le_bytes 8 (uint v)) (x_mem m)) a 8 = map (\<lambda>k. le_bytes 8 (uint v) ! k) [0..<8]"
    by (auto simp: load_bytes_def store_bytes_def)
  also have "\<dots> = le_bytes 8 (uint v)" by (metis length_le_bytes map_nth)
  finally have "le_val (load_bytes (store_bytes a (le_bytes 8 (uint v)) (x_mem m)) a 8) = uint v"
    using unsigned_less [of v] by (simp add: le_val_le_bytes take_bit_int_eq_self_iff)
  then show ?thesis by (simp add: load64_def store64_def)
qed

lemma store64_regs [simp]: "x_regs (store64 a v m) = x_regs m" "x_fsbase (store64 a v m) = x_fsbase m"
  by (simp_all add: store64_def)

lemma set_reg_simps [simp]:
  "x_regs (set_reg r v m) = (x_regs m)(r := v)" "x_mem (set_reg r v m) = x_mem m" "x_fsbase (set_reg r v m) = x_fsbase m"
  by (simp_all add: set_reg_def)

text \<open>Storing a list of registers, and loading one.\<close>

definition store_lines :: "register list \<Rightarrow> asm_line list" where
  "store_lines rs = map (\<lambda>r. Store_reg (reg_offset r) (lower_name r)) rs"

definition load_lines :: "register list \<Rightarrow> asm_line list" where
  "load_lines rs = map (\<lambda>r. Load_reg (lower_name r) (reg_offset r)) rs"

lemma asm_run_simps [simp]:
  "asm_run syms callee [] m = m" "asm_run syms callee (l # ls) m = asm_run syms callee ls (asm_step syms callee l m)"
  "asm_run syms callee (ls @ ls') m = asm_run syms callee ls' (asm_run syms callee ls m)"
  by (simp_all add: asm_run_def)

lemma store_lines_other:
  "\<forall>r \<in> set rs. slots_apart off (reg_offset r) \<Longrightarrow>
     load64 (x_mem (asm_run syms callee (store_lines rs) m)) (rsp m + off) = load64 (x_mem m) (rsp m + off) \<and>
     x_regs (asm_run syms callee (store_lines rs) m) = x_regs m \<and> x_fsbase (asm_run syms callee (store_lines rs) m) = x_fsbase m"
proof (induction rs arbitrary: m)
  case (Cons r rs)
  let ?m = "store64 (rsp m + reg_offset r) (x_regs m (lower_name r)) m"
  have "load64 (x_mem ?m) (rsp m + off) = load64 (x_mem m) (rsp m + off)"
    by (rule load64_store_other) (use Cons.prems in simp)
  with Cons.IH [of ?m] Cons.prems show ?case by (simp add: store_lines_def)
qed (simp add: store_lines_def)

lemma store_lines_slot:
  "pairwise (\<lambda>r r'. slots_apart (reg_offset r) (reg_offset r')) (set rs) \<Longrightarrow> distinct rs \<Longrightarrow> r \<in> set rs \<Longrightarrow>
     load64 (x_mem (asm_run syms callee (store_lines rs) m)) (rsp m + reg_offset r) = x_regs m (lower_name r)"
proof (induction rs arbitrary: m)
  case (Cons x rs)
  let ?m = "store64 (rsp m + reg_offset x) (x_regs m (lower_name x)) m"
  have step: "asm_run syms callee (store_lines (x # rs)) m = asm_run syms callee (store_lines rs) ?m" by (simp add: store_lines_def)
  show ?case
  proof (cases "r = x")
    case True
    have "\<forall>r' \<in> set rs. slots_apart (reg_offset x) (reg_offset r')" using Cons.prems by (auto simp: pairwise_def)
    from store_lines_other [OF this, of syms callee ?m] show ?thesis by (simp add: step True load64_store_same)
  next
    case False
    then show ?thesis using Cons.IH [of ?m] Cons.prems by (simp add: step pairwise_insert)
  qed
qed simp

lemma load_lines_result:
  "distinct (map lower_name rs) \<Longrightarrow> ''rsp'' \<notin> lower_name ` set rs \<Longrightarrow>
     x_mem (asm_run syms callee (load_lines rs) m) = x_mem m \<and> rsp (asm_run syms callee (load_lines rs) m) = rsp m \<and>
     (\<forall>r \<in> set rs. x_regs (asm_run syms callee (load_lines rs) m) (lower_name r) = load64 (x_mem m) (rsp m + reg_offset r)) \<and>
     (\<forall>n. n \<notin> lower_name ` set rs \<longrightarrow> x_regs (asm_run syms callee (load_lines rs) m) n = x_regs m n)"
proof (induction rs arbitrary: m)
  case (Cons r rs)
  let ?m = "set_reg (lower_name r) (load64 (x_mem m) (rsp m + reg_offset r)) m"
  have "rsp ?m = rsp m" using Cons.prems by auto
  with Cons.IH [of ?m] Cons.prems show ?case by (auto simp: load_lines_def)
qed (simp add: load_lines_def)

section \<open>The wrapper is transparent\<close>

definition saved :: "(reg \<times> register) list \<Rightarrow> register list" where
  "saved regs = filter is_saved (map snd regs)"

definition restored :: "(reg \<times> register) list \<Rightarrow> register list" where
  "restored regs = filter is_restored (map snd regs)"

text \<open>The registers that are saved have slots and names of their own, \<open>RSP\<close> is one of them and lies where \<open>SP\<close> does, and
  the base of \<open>fs\<close> has another slot.\<close>

definition slots_ok :: "(reg \<times> register) list \<Rightarrow> register \<Rightarrow> register \<Rightarrow> bool" where
  "slots_ok regs sp fsbase \<longleftrightarrow>
     pairwise (\<lambda>r r'. slots_apart (reg_offset r) (reg_offset r')) (set (saved regs)) \<and>
     distinct (map lower_name (saved regs)) \<and>
     (\<exists>r \<in> set (saved regs). reg_name r = ''RSP'' \<and> reg_offset r = reg_offset sp) \<and>
     (\<forall>r \<in> set (saved regs). slots_apart (reg_offset fsbase) (reg_offset r))"

lemma lower_rsp: "reg_name r = ''RSP'' \<Longrightarrow> lower_name r = ''rsp''"
  by (simp add: lower_name_def) code_simp

lemma restored_saved: "restored regs = filter (\<lambda>r. reg_name r \<noteq> ''RSP'') (saved regs)"
  by (auto simp: restored_def saved_def is_restored_def is_saved_def filter_filter intro!: filter_cong)

lemma restored_names:
  assumes "slots_ok regs sp fsbase"
  shows "distinct (map lower_name (restored regs))" and "''rsp'' \<notin> lower_name ` set (restored regs)"
proof -
  have names: "distinct (map lower_name (saved regs))" using assms by (simp add: slots_ok_def)
  then show "distinct (map lower_name (restored regs))" by (simp add: restored_saved distinct_map_filter)
  obtain q where q: "q \<in> set (saved regs)" "reg_name q = ''RSP''" using assms by (auto simp: slots_ok_def)
  have "r = q" if "r \<in> set (saved regs)" "lower_name r = ''rsp''" for r
    using names that q lower_rsp [OF q(2)] by (metis distinct_map inj_on_eq_iff)
  then show "''rsp'' \<notin> lower_name ` set (restored regs)" using q by (force simp: restored_saved)
qed

lemma prologue_lines:
  "prologue n regs sp fsbase base =
     Sub_rsp n # store_lines (saved regs) @
     [Add_slot (reg_offset sp) n, Mov_rdi_rsp, Xor_rsi, Lea_rdx base, Rdfsbase_rax, Store_reg (reg_offset fsbase) ''rax'']"
  by (simp add: prologue_def store_lines_def saved_def filter_map o_def)

lemma epilogue_lines: "epilogue n regs = load_lines (restored regs) @ [Add_rsp n]"
  by (simp add: epilogue_def load_lines_def restored_def filter_map o_def)

lemma prologue_result:
  assumes ok: "slots_ok regs sp fsbase" and s: "s = asm_run syms callee (prologue n regs sp fsbase base) m"
  shows "rsp s = rsp m - n" and "x_regs s ''rdi'' = rsp m - n" and "x_regs s ''rsi'' = 0" and "x_regs s ''rdx'' = syms base"
    and "\<And>r. r \<in> set (saved regs) \<Longrightarrow> load64 (x_mem s) (rsp m - n + reg_offset r) = x_regs m (lower_name r)"
    and "load64 (x_mem s) (rsp m - n + reg_offset fsbase) = x_fsbase m"
proof -
  define m1 where "m1 = set_reg ''rsp'' (rsp m - n) m"
  define m2 where "m2 = asm_run syms callee (store_lines (saved regs)) m1"
  define m3 where "m3 = store64 (rsp m2 + reg_offset sp) (load64 (x_mem m2) (rsp m2 + reg_offset sp) + n) m2"
  define m4 where "m4 = set_reg ''rax'' (x_fsbase m3) (set_reg ''rdx'' (syms base) (set_reg ''rsi'' 0 (set_reg ''rdi'' (rsp m3) m3)))"
  have s4: "s = store64 (rsp m4 + reg_offset fsbase) (x_regs m4 ''rax'') m4"
    by (simp add: s prologue_lines m1_def m2_def m3_def m4_def)
  have apart: "pairwise (\<lambda>r r'. slots_apart (reg_offset r) (reg_offset r')) (set (saved regs))" "distinct (saved regs)"
    using ok by (simp_all add: slots_ok_def distinct_map)
  have fs: "\<forall>r \<in> set (saved regs). slots_apart (reg_offset fsbase) (reg_offset r)" using ok by (simp add: slots_ok_def)
  note other = store_lines_other [OF fs, of syms callee m1]
  have r1: "rsp m1 = rsp m - n" by (simp add: m1_def)
  have r2: "x_regs m2 = x_regs m1" "x_fsbase m2 = x_fsbase m" using other by (simp_all add: m2_def m1_def)
  have r4: "rsp m4 = rsp m - n" "x_regs m4 ''rdi'' = rsp m - n" "x_regs m4 ''rsi'' = 0" "x_regs m4 ''rdx'' = syms base"
      "x_regs m4 ''rax'' = x_fsbase m"
    using r1 r2 by (simp_all add: m4_def m3_def)
  then show "rsp s = rsp m - n" "x_regs s ''rdi'' = rsp m - n" "x_regs s ''rsi'' = 0" "x_regs s ''rdx'' = syms base"
    by (simp_all add: s4)
  show "load64 (x_mem s) (rsp m - n + reg_offset fsbase) = x_fsbase m" using r4 by (simp add: s4 load64_store_same)
  fix r assume r: "r \<in> set (saved regs)"
  have m4: "load64 (x_mem s) (rsp m - n + reg_offset r) = load64 (x_mem m3) (rsp m - n + reg_offset r)"
    using load64_store_other [of "rsp m4 + reg_offset r" "rsp m4 + reg_offset fsbase"] fs r r4
    by (simp add: s4 slots_apart_sym) (simp add: m4_def)
  have m2: "load64 (x_mem m2) (rsp m - n + reg_offset r) = x_regs m1 (lower_name r)"
    using store_lines_slot [OF apart r, of syms callee m1] r1 by (simp add: m2_def)
  obtain q where q: "q \<in> set (saved regs)" "lower_name q = ''rsp''" "reg_offset q = reg_offset sp"
    using ok lower_rsp by (auto simp: slots_ok_def)
  show "load64 (x_mem s) (rsp m - n + reg_offset r) = x_regs m (lower_name r)"
  proof (cases "r = q")
    case True
    then show ?thesis using m4 m2 q r1 r2 by (simp add: m3_def load64_store_same)
  next
    case False
    then have "slots_apart (reg_offset r) (reg_offset q)" using apart(1) r q(1) by (simp add: pairwise_def)
    then have "slots_apart (reg_offset r) (reg_offset sp)" by (simp add: q(3))
    moreover have "lower_name r \<noteq> ''rsp''"
      using False ok r q(1,2) unfolding slots_ok_def by (metis distinct_map inj_on_eq_iff)
    ultimately show ?thesis using m4 m2 r1 r2 by (simp add: m3_def load64_store_other) (simp add: m1_def)
  qed
qed

text \<open>C13: the entry function hands the state over and takes it back: when the lifted function is called, its first argument
  is the state structure on the stack, in which every general register has the value it had on entry, the stack pointer
  included, and the base of \<open>fs\<close> is there too; the other arguments are zero and the image base. If the lifted function keeps the stack pointer, every
  general register ends with what its slot of the structure then holds, and the stack pointer is what it was.\<close>

theorem entry_function_passes_registers:
  assumes ok: "slots_ok regs sp fsbase"
    and s: "s = asm_run syms callee (prologue n regs sp fsbase base) m"
    and s': "s' = asm_run syms callee (wrapper n regs sp fsbase base f) m"
    and keeps: "rsp (callee f s) = rsp s"
  shows "x_regs s ''rdi'' = rsp m - n \<and> x_regs s ''rsi'' = 0 \<and> x_regs s ''rdx'' = syms base \<and>
    (\<forall>r \<in> set (saved regs). load64 (x_mem s) (x_regs s ''rdi'' + reg_offset r) = x_regs m (lower_name r)) \<and>
    load64 (x_mem s) (x_regs s ''rdi'' + reg_offset fsbase) = x_fsbase m \<and>
    (\<forall>r \<in> set (restored regs). x_regs s' (lower_name r) = load64 (x_mem (callee f s)) (x_regs s ''rdi'' + reg_offset r)) \<and>
    rsp s' = rsp m"
proof -
  note start = prologue_result [OF ok s]
  let ?c = "callee f s"
  note loads = load_lines_result [OF restored_names [OF ok], of syms callee ?c]
  have s'': "s' = set_reg ''rsp'' (rsp (asm_run syms callee (load_lines (restored regs)) ?c) + n)
      (asm_run syms callee (load_lines (restored regs)) ?c)"
    by (simp add: s' wrapper_def epilogue_lines flip: s)
  have "lower_name r \<noteq> ''rsp''" if "r \<in> set (restored regs)" for r using that restored_names(2) [OF ok] by (metis imageI)
  then show ?thesis using start loads keeps by (simp add: s'')
qed

text \<open>Two general registers, the low half of the stack pointer, and the base of \<open>fs\<close>.\<close>

definition demo_sp :: register where
  "demo_sp = \<lparr>reg_name = ''SP'', reg_offset = 2312, reg_size = 2, reg_has_parent = True\<rparr>"

definition demo_fsbase :: register where
  "demo_fsbase = \<lparr>reg_name = ''FSBASE'', reg_offset = 2168, reg_size = 8, reg_has_parent = False\<rparr>"

definition demo_regs :: "(reg \<times> register) list" where
  "demo_regs =
     [(0, \<lparr>reg_name = ''RAX'', reg_offset = 2216, reg_size = 8, reg_has_parent = False\<rparr>),
      (6, \<lparr>reg_name = ''RSP'', reg_offset = 2312, reg_size = 8, reg_has_parent = False\<rparr>), (48, demo_sp), (79, demo_fsbase)]"

definition demo_x86 :: x86 where
  "demo_x86 = \<lparr>x_regs = (\<lambda>_. 7)(''rsp'' := 0x8000), x_mem = (\<lambda>_. 0), x_fsbase = 9\<rparr>"

lemma demo_saved:
  "saved demo_regs =
     [\<lparr>reg_name = ''RAX'', reg_offset = 2216, reg_size = 8, reg_has_parent = False\<rparr>,
      \<lparr>reg_name = ''RSP'', reg_offset = 2312, reg_size = 8, reg_has_parent = False\<rparr>]"
  by (simp add: saved_def demo_regs_def is_saved_def demo_sp_def demo_fsbase_def ends_with_def starts_with_def)

lemma demo_slots_ok: "slots_ok demo_regs demo_sp demo_fsbase"
proof -
  have "distinct (map lower_name (saved demo_regs))" unfolding demo_saved by code_simp
  then show ?thesis unfolding slots_ok_def demo_saved
    by (simp add: pairwise_insert slots_apart_def demo_sp_def demo_fsbase_def)
qed

theorem entry_function_passes_registers_witness:
  "\<exists>s'. s' = asm_run (\<lambda>_. 0x400000) (\<lambda>f m. m) (wrapper 4096 demo_regs demo_sp demo_fsbase ''IMAGE_BASE'' ''vexa_lifted'') demo_x86 \<and>
     x_regs s' ''rax'' = 7 \<and> rsp s' = 0x8000"
proof -
  define rax where "rax = \<lparr>reg_name = ''RAX'', reg_offset = 2216, reg_size = 8, reg_has_parent = False\<rparr>"
  define s where "s = asm_run (\<lambda>_. 0x400000) (\<lambda>f m. m) (prologue 4096 demo_regs demo_sp demo_fsbase ''IMAGE_BASE'') demo_x86"
  note run = entry_function_passes_registers [where f = "''vexa_lifted''", OF demo_slots_ok s_def refl refl]
  have "rax \<in> set (saved demo_regs)" "rax \<in> set (restored demo_regs)" by (simp_all add: restored_saved demo_saved rax_def)
  moreover have "lower_name rax = ''rax''" unfolding rax_def by code_simp
  ultimately show ?thesis using run by (force simp: demo_x86_def)
qed

section \<open>The function that is built\<close>

text \<open>The object is compiled from a module whose last function is this wrapper.\<close>

lemma recompile_entry:
  assumes "recompile B n regs a optimize M = Inr (obj, M')"
  shows "\<exists>sp fsbase base. map_of regs (reg_of ''SP'') = Some sp \<and> map_of regs (reg_of ''FSBASE'') = Some fsbase \<and>
    lb_emit B optimize M' = Some obj \<and> lm_sysv M' \<and> lm_linux_gnu_elf M' \<and> base \<in> set (lm_globals M') \<and>
    ef_naked (last (lm_functions M')) \<and>
    ef_asm (last (lm_functions M')) = inline_asm_text (wrapper n regs sp fsbase base (lm_lifted_name M))"
  using assms
  by (auto simp: recompile_def build_entry_def register_at_def global_var_def create_function_def add_attribute_naked_def
      update_function_def inline_asm_def Let_def split: if_splits option.splits elim!: res_bindE)

end
