(* ===== verification/Engine.thy ===== *)
theory Engine
  imports Engine_Map Engine_Patch Pass_Manager Block_Order State_Cleanup Const_Prop Memory_Scalarizer State2alloca Recompile Loop_Reroll
begin

text \<open>
  \<open>vexa::engine\<close> (engine.hpp, engine.cpp): the object that a user of the library holds. It owns the context with the cpu, the
  memory and the builder, runs the exploration, runs the pipeline of passes, and has the lifted function compiled.
\<close>

section \<open>The engine\<close>

text \<open>What an engine works with: the solver, remill, LLVM's printer, its two pipelines and its verifier, its traversal of
  the blocks, the types it gives to instructions, what the passes ask of LLVM, and the code generator.\<close>

record engine_env =
  ev_solver :: solver
  ev_host :: host
  ev_arch :: arch_env
  ev_print :: "ir_builder \<Rightarrow> string"
  ev_simplify :: "ir_builder \<Rightarrow> ir_builder"
  ev_oz :: "ir_builder \<Rightarrow> ir_builder"
  ev_reroll :: reroll_env
  ev_broken :: "ir_builder \<Rightarrow> bool"
  ev_rpo :: "ir_blocks \<Rightarrow> block_id list"
  ev_pointer :: "ir_inst \<Rightarrow> bool"
  ev_fold_env :: "ir_builder \<Rightarrow> fold_env"
  ev_same_op :: same_op
  ev_map_order :: "alloca_map \<Rightarrow> alloca_map"
  ev_backend :: llvm_backend
  ev_state_size :: u64

text \<open>What the pass manager does when the passes have settled.\<close>

abbreviation ev_tidy :: "engine_env \<Rightarrow> ir_builder \<Rightarrow> ir_builder" where
  "ev_tidy V \<equiv> tidy_function (ev_rpo V) (ev_pointer V)"

record engine =
  en_cpu :: cpu
  en_module :: llvm_module
  en_callbacks :: "event_kind \<Rightarrow> (cpu \<Rightarrow> cpu res) option"
  en_ir :: string
  en_instr_count :: nat

text \<open>The constructor makes the context; so does \<open>reset\<close>, which leaves the text and the count of the last run.\<close>

definition new_context :: "engine_env \<Rightarrow> engine res" where
  "new_context V =
     res_bind (initialize_arch (ev_solver V) (ev_arch V) (cpu_new (ev_arch V) default_options)) (\<lambda>(semantics, c).
     Inr \<lparr>en_cpu = c,
          en_module = \<lparr>lm_lifted = Some (cp_ir c), lm_lifted_name = ''vexa_lifted'', lm_sysv = False, lm_functions = [],
            lm_globals = [], lm_linux_gnu_elf = False\<rparr>,
          en_callbacks = (\<lambda>_. None), en_ir = [], en_instr_count = 0\<rparr>)"

definition engine_new :: "engine_env \<Rightarrow> engine res" where
  "engine_new V = new_context V"

definition engine_reset :: "engine_env \<Rightarrow> engine \<Rightarrow> engine res" where
  "engine_reset V e =
     res_bind (new_context V) (\<lambda>e1. Inr (e1\<lparr>en_ir := en_ir e, en_instr_count := en_instr_count e\<rparr>))"

definition engine_set_option :: "option_kind \<Rightarrow> int \<Rightarrow> engine \<Rightarrow> engine res" where
  "engine_set_option opt v e =
     res_bind (set_option opt v (cp_options (en_cpu e))) (\<lambda>os. Inr (e\<lparr>en_cpu := (en_cpu e)\<lparr>cp_options := os\<rparr>\<rparr>))"

definition engine_get_option :: "option_kind \<Rightarrow> engine \<Rightarrow> int res" where
  "engine_get_option opt e = get_option opt (cp_options (en_cpu e))"

definition set_callback :: "event_kind \<Rightarrow> (cpu \<Rightarrow> cpu res) \<Rightarrow> engine \<Rightarrow> engine" where
  "set_callback k f e = e\<lparr>en_callbacks := (en_callbacks e)(k := Some f)\<rparr>"

definition engine_map_binary :: "vexa_binary \<Rightarrow> engine \<Rightarrow> engine res" where
  "engine_map_binary b e = res_bind (map_binary b (en_cpu e)) (\<lambda>c. Inr (e\<lparr>en_cpu := c\<rparr>))"

definition seal_memory :: "cpu \<Rightarrow> cpu" where
  "seal_memory c = with_memory (page_seal (global_memory c) (cp_memory c)) c"

definition engine_run :: "engine_env \<Rightarrow> nat \<Rightarrow> u64 \<Rightarrow> engine \<Rightarrow> engine res" where
  "engine_run V fuel pc e =
     res_bind (cpu_run (ev_solver V) ((ev_host V)\<lparr>event_callbacks := en_callbacks e\<rparr>) fuel pc (seal_memory (en_cpu e))) (\<lambda>c.
     Inr (e\<lparr>en_cpu := c, en_ir := ev_print V (cp_ir c), en_instr_count := instr_count (cp_ir c)\<rparr>))"

text \<open>The symbols of \<open>mark_symbolic\<close> are made and dropped: the write is commented out.\<close>

definition mark_symbolic :: "u64 \<Rightarrow> 32 word \<Rightarrow> engine \<Rightarrow> engine res" where
  "mark_symbolic address sz e =
     res_bind (res_fold (\<lambda>i sx.
         res_bind (sx_concrete (address + of_nat i) 64) (\<lambda>addr.
         res_bind (sx_symbolic (''input_'' @ show_nat (unat (address + of_nat i))) 8 sx) (\<lambda>(v, sx1). Inr sx1)))
       [0..<unat sz] (cp_symex (en_cpu e))) (\<lambda>sx.
     Inr (e\<lparr>en_cpu := (en_cpu e)\<lparr>cp_machine := (cp_machine (en_cpu e))\<lparr>mc_symex := sx\<rparr>\<rparr>\<rparr>))"

definition engine_recompile :: "engine_env \<Rightarrow> bool \<Rightarrow> engine \<Rightarrow> (byte list \<times> engine) res" where
  "engine_recompile V optimize e =
     res_bind (recompile (ev_backend V) (ev_state_size V) (cp_registers (en_cpu e)) X86_64 optimize
       ((en_module e)\<lparr>lm_lifted := Some (cp_ir (en_cpu e))\<rparr>)) (\<lambda>(obj, M). Inr (obj, e\<lparr>en_module := M\<rparr>))"

section \<open>The code that is fetched\<close>

text \<open>The bytes of the image of a binary from an address on, up to the first one that is not mapped.\<close>

fun image_bytes :: "(u64 \<times> byte list) list \<Rightarrow> u64 \<Rightarrow> nat \<Rightarrow> byte list" where
  "image_bytes rs a 0 = []"
| "image_bytes rs a (Suc n) = (case image_byte rs a of None \<Rightarrow> [] | Some x \<Rightarrow> x # image_bytes rs (a + 1) n)"

lemma fetch_bytes_image:
  assumes "\<And>a. page_find m p a = (case image_byte rs a of Some x \<Rightarrow> Some (byte_cell (byte_value x)) | None \<Rightarrow> None)"
  shows "fetch_bytes m p a n = Inr (image_bytes rs a n)"
proof (induction n arbitrary: a)
  case (Suc n)
  show ?case
  proof (cases "image_byte rs a")
    case (Some x)
    have "take_bit 8 (ucast x :: u64) = ucast x" by (rule bit_word_eqI) (auto simp: bit_simps dest: bit_imp_le_length)
    then have "as_uint64 (byte_value x) = Inr (ucast x)" using concrete_as_uint64 [of 8 "ucast x"] sx_concrete_byte [of x] by simp
    moreover have "ucast (ucast x :: u64) = x" by (rule bit_word_eqI) (simp add: bit_simps)
    ultimately show ?thesis using assms [of a] Some Suc.IH by (simp add: byte_cell_def byte_value_def value_new_def)
  qed (use assms [of a] in simp)
qed simp

lemma page_find_seal: "p < length (page_objs m) \<Longrightarrow> page_find (page_seal p m) q a = page_find m q a"
  by (cases "q = p") (simp_all add: page_find_def page_seal_def page_storage_def split: option.split)



section \<open>The pipeline\<close>

definition make_pass :: "(ir_builder \<Rightarrow> (bool \<times> ir_builder) res) \<Rightarrow> bool \<Rightarrow> ir_builder pass" where
  "make_pass f r = \<lparr>pass_run = f, is_recursive = r, did_run = False\<rparr>"

text \<open>The passes that only run a pipeline of LLVM report no change.\<close>

definition simplify_cfg_and_dce_run :: "engine_env \<Rightarrow> ir_builder \<Rightarrow> (bool \<times> ir_builder) res" where
  "simplify_cfg_and_dce_run V b = Inr (False, ev_simplify V b)"

definition Oz_run :: "engine_env \<Rightarrow> ir_builder \<Rightarrow> (bool \<times> ir_builder) res" where
  "Oz_run V b = Inr (False, ev_oz V b)"

definition simplify_cfg_and_dce :: "engine_env \<Rightarrow> ir_builder pass" where
  "simplify_cfg_and_dce V = make_pass (simplify_cfg_and_dce_run V) True"

definition Oz :: "engine_env \<Rightarrow> ir_builder pass" where
  "Oz V = make_pass (Oz_run V) True"

definition loop_reroll_pass :: "engine_env \<Rightarrow> ir_builder pass" where
  "loop_reroll_pass V = make_pass (loop_reroll (ev_reroll V)) True"

definition fold_env_of :: "engine_env \<Rightarrow> cpu \<Rightarrow> ir_builder \<Rightarrow> fold_env" where
  "fold_env_of V c b =
     (ev_fold_env V b)\<lparr>fe_cp := (fe_cp (ev_fold_env V b))\<lparr>ce_solver := ev_solver V, ce_symex := cp_symex c, ce_ir := b\<rparr>\<rparr>"

definition constant_propagation_pass :: "engine_env \<Rightarrow> (ir_builder \<Rightarrow> nat) \<Rightarrow> cpu \<Rightarrow> ir_builder pass" where
  "constant_propagation_pass V cp_fuel c =
     make_pass (\<lambda>b. constant_propagation_run (cp_fuel b) (fold_env_of V c b)) False"

definition state2alloca_pass :: "engine_env \<Rightarrow> cpu \<Rightarrow> ir_builder pass" where
  "state2alloca_pass V c =
     make_pass (state2alloca (ev_map_order V) (d_l (state_ptr c)) (ae_registers (ev_arch V))) False"

definition state_cleanup_pass :: "engine_env \<Rightarrow> cpu \<Rightarrow> ir_builder pass" where
  "state_cleanup_pass V c =
     make_pass (\<lambda>b.
       res_bind (get_register (reg_of ''RAX'') c) (\<lambda>r.
       case state_cleanup (ev_same_op V) (d_l (state_ptr c)) (reg_offset r) (ir_blocks b) of
         (blocks, changed) \<Rightarrow> Inr (changed, b\<lparr>ir_blocks := blocks\<rparr>))) True"

definition memory_scalarizer_pass :: "ir_builder pass" where
  "memory_scalarizer_pass = make_pass memory_scalarizer False"

definition pipeline :: "engine_env \<Rightarrow> (ir_builder \<Rightarrow> nat) \<Rightarrow> cpu \<Rightarrow> ir_builder pass list res" where
  "pipeline V cp_fuel c =
     res_bind (get_option LOOP_REROLL (cp_options c)) (\<lambda>reroll.
     res_bind (get_option CONSTANT_PROPAGATION (cp_options c)) (\<lambda>cprop.
     res_bind (get_option STATE_CLEANUP (cp_options c)) (\<lambda>cleanup.
     Inr (simplify_cfg_and_dce V # (if reroll \<noteq> 0 then [loop_reroll_pass V] else []) @
          (if cprop \<noteq> 0 then [constant_propagation_pass V cp_fuel c] else []) @
          [state2alloca_pass V c, Oz V] @ (if cleanup \<noteq> 0 then [state_cleanup_pass V c] else []) @
          [memory_scalarizer_pass]))))"

definition engine_optimize :: "engine_env \<Rightarrow> (ir_builder \<Rightarrow> nat) \<Rightarrow> nat \<Rightarrow> engine \<Rightarrow> engine res" where
  "engine_optimize V cp_fuel fuel e =
     res_bind (pipeline V cp_fuel (en_cpu e)) (\<lambda>ps.
     res_bind (manager_run (ev_broken V) (ev_tidy V) fuel ps (cp_ir (en_cpu e))) (\<lambda>(ps1, b).
     Inr (e\<lparr>en_cpu := (en_cpu e)\<lparr>cp_ir := b\<rparr>, en_ir := ev_print V b\<rparr>)))"

text \<open>The engine has a function of its own to read a file, with the text of that of the binaries.\<close>

definition engine_read_binary_file :: "file_system \<Rightarrow> string \<Rightarrow> byte list res" where
  "engine_read_binary_file fs name =
     (if \<not> fs_can_open fs name then Inl (Throw (quoted ''open'' name))
      else
        (case fs_files fs name of
           Some bytes \<Rightarrow> if fs_can_read fs name then Inr bytes else Inl (Throw (quoted ''read'' name))
         | None \<Rightarrow> Inl (Throw (quoted ''open'' name))))"

lemma engine_read_binary_file_same: "engine_read_binary_file = read_binary_file"
  by (simp add: engine_read_binary_file_def read_binary_file_def fun_eq_iff)

section \<open>Passes come back\<close>

lemma res_fold_returns: "(\<And>x s. f x s \<noteq> Inl Diverges) \<Longrightarrow> res_fold f xs s \<noteq> Inl Diverges"
  by (induction xs arbitrary: s) (auto simp: res_bind_eq_Inl)

lemma state2alloca_returns: "state2alloca order state regs b \<noteq> Inl Diverges"
proof -
  have "init_alloca state m r b \<noteq> Inl Diverges" for m r b
    by (auto simp: init_alloca_def split: option.split)
  then have "res_fold (init_alloca state m) rs b \<noteq> Inl Diverges" for m rs b by (rule res_fold_returns)
  then have "entry_block state regs b \<noteq> Inl Diverges"
    by (auto simp: entry_block_def res_bind_eq_Inl case_prod_beta)
  moreover have "copy_back state m bb b \<noteq> Inl Diverges" for m bb b
    by (auto simp: copy_back_def Let_def split: ir_inst.split)
  then have "res_fold (copy_back state m) rs b \<noteq> Inl Diverges" for m rs b by (rule res_fold_returns)
  ultimately show ?thesis by (auto simp: state2alloca_def res_bind_eq_Inl Let_def)
qed

lemma memory_scalarizer_returns: "memory_scalarizer b \<noteq> Inl Diverges"
proof -
  have "scalarize_inst x b \<noteq> Inl Diverges" for x b
    by (auto simp: scalarize_inst_def scalarize_store_def scalarize_load_def Let_def split: prod.splits ir_inst.splits option.splits)
  then have "res_fold scalarize_inst xs b \<noteq> Inl Diverges" for xs b by (rule res_fold_returns)
  then show ?thesis by (auto simp: memory_scalarizer_def res_bind_eq_Inl)
qed

section \<open>The pipeline ends\<close>

definition inst_count :: "ir_builder \<Rightarrow> nat" where
  "inst_count b = inst_total (ir_blocks b)"

text \<open>LLVM's pipelines do not add instructions.\<close>

definition llvm_shrinks :: "engine_env \<Rightarrow> bool" where
  "llvm_shrinks V \<longleftrightarrow> (\<forall>b. inst_count (ev_simplify V b) \<le> inst_count b \<and> inst_count (ev_oz V b) \<le> inst_count b)"

text \<open>The definitions of memory that MemorySSA gives lead back to the entry of the function.\<close>

definition memory_ssa_ok :: "engine_env \<Rightarrow> cpu \<Rightarrow> bool" where
  "memory_ssa_ok V c \<longleftrightarrow> (\<forall>b. \<exists>depth n. 0 < n \<and> def_forest (fe_cp (fold_env_of V c b)) depth n)"

lemma state_cleanup_pass_ok: "pass_ok inst_count (state_cleanup_pass V c)"
proof -
  have less: "state_cleanup same l off (ir_blocks b) = (blocks, True) \<Longrightarrow> inst_total blocks < inst_total (ir_blocks b)"
    and le: "state_cleanup same l off (ir_blocks b) = (blocks, ch) \<Longrightarrow> inst_total blocks \<le> inst_total (ir_blocks b)"
    for same l off b blocks ch
    using state_cleanup_total by blast+
  then show ?thesis
    by (auto simp: pass_ok_def state_cleanup_pass_def make_pass_def inst_count_def get_register_def res_bind_eq_Inl
        split: option.splits prod.splits elim!: res_bindE)
qed

lemma pipeline_ok:
  assumes "llvm_shrinks V" and "get_option LOOP_REROLL (cp_options c) = Inr 0" and "pipeline V cp_fuel c = Inr ps"
    and "\<And>b. constant_propagation_run (cp_fuel b) (fold_env_of V c b) \<noteq> Inl Diverges"
  shows "\<forall>p \<in> set ps. pass_ok inst_count p"
proof -
  have "pass_ok inst_count (simplify_cfg_and_dce V)" "pass_ok inst_count (Oz V)"
    using assms(1) by (simp_all add: pass_ok_def simplify_cfg_and_dce_def simplify_cfg_and_dce_run_def Oz_def Oz_run_def make_pass_def llvm_shrinks_def)
  moreover have "pass_ok inst_count (constant_propagation_pass V cp_fuel c)" "pass_ok inst_count (state2alloca_pass V c)"
      "pass_ok inst_count memory_scalarizer_pass"
    using assms(4) state2alloca_returns memory_scalarizer_returns
    by (simp_all add: pass_ok_def constant_propagation_pass_def state2alloca_pass_def memory_scalarizer_pass_def make_pass_def)
  ultimately show ?thesis using assms(2,3) state_cleanup_pass_ok
    by (auto simp: pipeline_def split: if_splits elim!: res_bindE)
qed


section \<open>What is left\<close>

lemma settles_append: "settles (ps @ qs) f f' \<Longrightarrow> \<exists>f1. settles qs f1 f'"
  by (induction ps arbitrary: f) (auto split: if_splits)

lemma memory_scalarizer_reports: "memory_scalarizer b \<noteq> Inr (False, b')"
  by (auto simp: memory_scalarizer_def elim!: res_bindE)

lemma settled_cleanup:
  assumes "same_passes (ps @ [state_cleanup_pass V c, memory_scalarizer_pass]) qs" and "settles qs f f'"
  shows "\<exists>f1. pass_run (state_cleanup_pass V c) f1 = Inr (False, f')"
proof -
  obtain ps' cl ms where qs: "qs = ps' @ [cl, ms]"
      and same: "pass_run cl = pass_run (state_cleanup_pass V c)" "is_recursive cl" "pass_run ms = memory_scalarizer" "\<not> is_recursive ms"
    using assms(1)
    by (auto simp: same_passes_def list_all2_append1 list_all2_Cons1 state_cleanup_pass_def memory_scalarizer_pass_def make_pass_def)
  obtain f1 where "settles [cl, ms] f1 f'" using settles_append [of ps' "[cl, ms]" f f'] assms(2) qs by blast
  then show ?thesis using same memory_scalarizer_reports by (auto split: if_splits)
qed

text \<open>C15: when the optimization returns and the cleanup of the state is on, no dead store to a register is left but those to
  the return register: the function, before its blocks are put in order, has no store that the cleanup would erase.\<close>

theorem optimize_leaves_no_dead_store:
  assumes "engine_optimize V cp_fuel fuel e = Inr e'" and "get_option STATE_CLEANUP (cp_options (en_cpu e)) = Inr k" and "k \<noteq> 0"
  shows "\<exists>b ret. cp_ir (en_cpu e') = ev_tidy V b \<and> en_ir e' = ev_print V (ev_tidy V b) \<and>
    get_register (reg_of ''RAX'') (en_cpu e) = Inr ret \<and>
    (\<forall>bb < length (ir_blocks b). \<forall>pos < length (ir_blocks b ! bb).
       \<not> is_dead_store (ev_same_op V) (d_l (state_ptr (en_cpu e))) (reg_offset ret) (ir_blocks b) bb pos)"
proof -
  let ?c = "en_cpu e"
  obtain ps qs b where p: "pipeline V cp_fuel ?c = Inr ps" "manager_run (ev_broken V) (ev_tidy V) fuel ps (cp_ir ?c) = Inr (qs, b)"
      and e': "e' = e\<lparr>en_cpu := ?c\<lparr>cp_ir := b\<rparr>, en_ir := ev_print V b\<rparr>"
    using assms(1) by (auto simp: engine_optimize_def elim!: res_bindE)
  obtain pre where pre: "ps = pre @ [state_cleanup_pass V ?c, memory_scalarizer_pass]"
    using p(1) assms(2,3) by (auto simp: pipeline_def elim!: res_bindE)
  obtain qs' f0 f1 where "same_passes ps qs'" "settles qs' f0 f1" "b = ev_tidy V f1" using manager_settles [OF p(2)] by blast
  then obtain f2 where "pass_run (state_cleanup_pass V ?c) f2 = Inr (False, f1)" using settled_cleanup pre by blast
  then obtain ret blocks where r: "get_register (reg_of ''RAX'') ?c = Inr ret" "f1 = f2\<lparr>ir_blocks := blocks\<rparr>"
      "state_cleanup (ev_same_op V) (d_l (state_ptr ?c)) (reg_offset ret) (ir_blocks f2) = (blocks, False)"
    by (auto simp: state_cleanup_pass_def make_pass_def split: prod.splits elim!: res_bindE)
  have "ir_blocks f1 = ir_blocks f2" using state_cleanup_unchanged [OF r(3)] r(2) by simp
  then have "\<forall>bb < length (ir_blocks f1). \<forall>pos < length (ir_blocks f1 ! bb).
      \<not> is_dead_store (ev_same_op V) (d_l (state_ptr ?c)) (reg_offset ret) (ir_blocks f1) bb pos"
    using state_cleanup_unchanged [OF r(3)] by simp
  then show ?thesis using r(1) \<open>b = ev_tidy V f1\<close> e' by (intro exI [of _ f1] exI [of _ ret]) simp
qed

section \<open>An example\<close>

text \<open>A store to the state that nobody reads, and a pipeline of LLVM that only keeps the instructions of the original function.\<close>

definition demo_function :: ir_builder where
  "demo_function =
     \<lparr>ir_next = 20, ir_sizes = (\<lambda>_. 8), ir_names = (\<lambda>_. None),
      ir_blocks = [[(10, IGep (LValue 9) (Some 2300)), (11, IStore (LConstantInt 8 0) (LValue 10)), (12, IRet (LValue 9))]],
      ir_ip = (0, None), insert_points = [], to_delete = []\<rparr>"

definition demo_keep :: "ir_builder \<Rightarrow> ir_builder" where
  "demo_keep b = b\<lparr>ir_blocks := map (filter (\<lambda>n. fst n < 20)) (ir_blocks b)\<rparr>"

definition demo_arch :: arch_env where
  "demo_arch =
     \<lparr>ae_registers = [demo_rax], ae_loaded = True, ae_lifted = demo_function, ae_state_arg = LValue 9, ae_pc_arg = LValue 8,
      ae_mem_arg = LValue 7, ae_address_of = (\<lambda>r l b. b), ae_intrinsics = demo_table, ae_semantics = demo_semantics,
      ae_undef = (\<lambda>w. LValue (100 + w))\<rparr>"

definition demo_backend :: llvm_backend where
  "demo_backend = \<lparr>lb_broken = (\<lambda>_. False), lb_unique = (\<lambda>_ n. n), lb_target = True, lb_machine = (\<lambda>_. True), lb_emit = (\<lambda>_ _. Some [0xC3])\<rparr>"

definition demo_remill :: host where
  "demo_remill = \<lparr>rm_decode = (\<lambda>_ _. None), rm_lift = (\<lambda>i bb b. (True, b)), rm_hyper = (\<lambda>_. Other_hyper_call), rm_address_of = (\<lambda>r l b. (l, b)),
     event_callbacks = (\<lambda>_. None)\<rparr>"

definition demo_env :: engine_env where
  "demo_env =
     \<lparr>ev_solver = reference_solver, ev_host = demo_remill, ev_arch = demo_arch, ev_print = (\<lambda>_. ''ir''), ev_simplify = (\<lambda>b. b), ev_oz = demo_keep,
      ev_reroll = demo_reroll, ev_broken = (\<lambda>_. False), ev_rpo = (\<lambda>_. [0]), ev_pointer = (\<lambda>_. True), ev_fold_env = (\<lambda>_. demo_fold),
      ev_same_op = (\<lambda>_ _. True), ev_map_order = rev, ev_backend = demo_backend, ev_state_size = 4096\<rparr>"

lemma demo_tidy: "ev_tidy demo_env = (\<lambda>b. b)"
proof
  fix b :: ir_builder
  have "ir_names (strip_names (\<lambda>_. True) b) = ir_names b" by (auto simp: strip_names_def split: option.split)
  then have "strip_names (\<lambda>_. True) b = b" by (simp add: strip_names_def)
  then show "ev_tidy demo_env b = b" by (simp add: demo_env_def tidy_function_def reorder_blocks_def)
qed

definition demo_engine :: engine where
  "demo_engine =
     \<lparr>en_cpu = demo_cpu\<lparr>cp_ir := demo_function, state_ptr := \<lparr>d_l = LValue 9, d_v = d_v (state_ptr demo_cpu)\<rparr>,
        cp_registers := [(0, register_of demo_rax)], cp_options := default_options(CONSTANT_PROPAGATION \<mapsto> 0)\<rparr>,
      en_module = \<lparr>lm_lifted = None, lm_lifted_name = ''vexa_lifted'', lm_sysv = False, lm_functions = [], lm_globals = [],
        lm_linux_gnu_elf = False\<rparr>,
      en_callbacks = (\<lambda>_. None), en_ir = [], en_instr_count = 0\<rparr>"

lemma demo_first_round:
  "\<exists>b. state2alloca rev (LValue 9) [demo_rax] demo_function = Inr (True, b) \<and> to_delete b = [] \<and>
     ir_blocks (demo_keep b) = [[], [(10, IGep (LValue 9) (Some 2300)), (11, IStore (LConstantInt 8 0) (LValue 10)), (12, IRet (LValue 9))]]"
  by (simp add: demo_state2alloca_defs demo_function_def demo_keep_def upt_rec)

lemma demo_cleanup:
  "state_cleanup (\<lambda>_ _. True) (LValue 9) 2216
     [[], [(10, IGep (LValue 9) (Some 2300)), (11, IStore (LConstantInt 8 0) (LValue 10)), (12, IRet (LValue 9))]] =
   ([[], [(10, IGep (LValue 9) (Some 2300)), (12, IRet (LValue 9))]], True)"
  "state_cleanup (\<lambda>_ _. True) (LValue 9) 2216 [[], [(10, IGep (LValue 9) (Some 2300)), (12, IRet (LValue 9))]] =
   ([[], [(10, IGep (LValue 9) (Some 2300)), (12, IRet (LValue 9))]], False)"
  by (simp_all add: state_cleanup_def cleanup_block_def is_dead_store_def const_gep_def insts_of_def upt_rec scan_blocks.simps successors_def)

definition demo_cleaned :: "ir_builder \<Rightarrow> bool" where
  "demo_cleaned b \<longleftrightarrow> ir_blocks b = [[], [(10, IGep (LValue 9) (Some 2300)), (12, IRet (LValue 9))]] \<and> to_delete b = []"

lemma demo_cleaned_passes:
  assumes "demo_cleaned b"
  shows "memory_scalarizer b = Inr (True, b\<lparr>ir_ip := (1, Some 12)\<rparr>)" and "demo_cleaned (b\<lparr>ir_ip := ip\<rparr>)" and "demo_keep b = b"
    and "state_cleanup (\<lambda>_ _. True) (LValue 9) 2216 (ir_blocks b) = (ir_blocks b, False)"
  using assms
  by (simp_all add: demo_cleaned_def memory_scalarizer_def positions_def scalarize_inst_def upt_rec eraseDeletedInstructions_def
      insts_of_def set_insert_point_def demo_keep_def demo_cleanup)

lemma demo_pipeline_passes:
  "pipeline demo_env f (en_cpu demo_engine) =
     Inr [simplify_cfg_and_dce demo_env, state2alloca_pass demo_env (en_cpu demo_engine), Oz demo_env,
       state_cleanup_pass demo_env (en_cpu demo_engine), memory_scalarizer_pass]"
  by (simp add: pipeline_def get_option_def demo_engine_def default_options_def)

lemma demo_passes:
  "simplify_cfg_and_dce demo_env = make_pass (\<lambda>b. Inr (False, b)) True" "Oz demo_env = make_pass (\<lambda>b. Inr (False, demo_keep b)) True"
  "state2alloca_pass demo_env (en_cpu demo_engine) = make_pass (state2alloca rev (LValue 9) [demo_rax]) False"
  "state_cleanup_pass demo_env (en_cpu demo_engine) =
     make_pass (\<lambda>b. case state_cleanup (\<lambda>_ _. True) (LValue 9) 2216 (ir_blocks b) of
       (blocks, changed) \<Rightarrow> Inr (changed, b\<lparr>ir_blocks := blocks\<rparr>)) True"
proof -
  have "reg_of ''RAX'' = 0" by code_simp
  then show "state_cleanup_pass demo_env (en_cpu demo_engine) =
     make_pass (\<lambda>b. case state_cleanup (\<lambda>_ _. True) (LValue 9) 2216 (ir_blocks b) of
       (blocks, changed) \<Rightarrow> Inr (changed, b\<lparr>ir_blocks := blocks\<rparr>)) True"
    by (simp add: state_cleanup_pass_def demo_env_def demo_engine_def get_register_def register_of_def demo_rax_def)
qed (simp_all add: simplify_cfg_and_dce_def simplify_cfg_and_dce_run_def [abs_def] Oz_def Oz_run_def [abs_def] state2alloca_pass_def demo_env_def demo_engine_def demo_arch_def)

lemma demo_optimized: "\<exists>e'. engine_optimize demo_env f 4 demo_engine = Inr e' \<and> demo_cleaned (cp_ir (en_cpu e'))"
proof -
  obtain b where b: "state2alloca rev (LValue 9) [demo_rax] demo_function = Inr (True, b)" "to_delete b = []"
      "ir_blocks (demo_keep b) = [[], [(10, IGep (LValue 9) (Some 2300)), (11, IStore (LConstantInt 8 0) (LValue 10)), (12, IRet (LValue 9))]]"
    using demo_first_round by blast
  define b1 where "b1 = (demo_keep b)\<lparr>ir_blocks := [[], [(10, IGep (LValue 9) (Some 2300)), (12, IRet (LValue 9))]]\<rparr>"
  have b1: "demo_cleaned b1" using b(2) by (simp add: demo_cleaned_def b1_def demo_keep_def)
  have ir: "cp_ir (en_cpu demo_engine) = demo_function" by (simp add: demo_engine_def)
  have broken: "ev_broken demo_env = (\<lambda>_. False)" by (simp add: demo_env_def)
  have same: "b1\<lparr>ir_ip := ip, ir_blocks := ir_blocks b1\<rparr> = b1\<lparr>ir_ip := ip\<rparr>" "b1\<lparr>ir_blocks := ir_blocks b1\<rparr> = b1" for ip by simp_all
  have "manager_run (ev_broken demo_env) (ev_tidy demo_env) (Suc (Suc (Suc (Suc 0))))
      [simplify_cfg_and_dce demo_env, state2alloca_pass demo_env (en_cpu demo_engine), Oz demo_env,
       state_cleanup_pass demo_env (en_cpu demo_engine), memory_scalarizer_pass] demo_function =
      Inr (map (\<lambda>p. p\<lparr>did_run := True\<rparr>) [simplify_cfg_and_dce demo_env, state2alloca_pass demo_env (en_cpu demo_engine), Oz demo_env,
       state_cleanup_pass demo_env (en_cpu demo_engine), memory_scalarizer_pass], b1\<lparr>ir_ip := (1, Some 12)\<rparr>)"
    unfolding demo_passes memory_scalarizer_pass_def
    using b demo_cleaned_passes [OF b1] demo_cleaned_passes(3,4) [OF demo_cleaned_passes(2) [OF b1]]
    by (simp add: manager_run_def demo_tidy broken make_pass_def demo_cleanup flip: b1_def)
  moreover have four: "(4::nat) = Suc (Suc (Suc (Suc 0)))" by simp
  ultimately show ?thesis unfolding four
    using demo_cleaned_passes(2) [OF b1] ir by (simp add: engine_optimize_def demo_pipeline_passes)
qed

theorem optimize_leaves_no_dead_store_witness:
  "\<exists>e' b ret. engine_optimize demo_env (\<lambda>_. 0) 4 demo_engine = Inr e' \<and> cp_ir (en_cpu e') = b \<and> ir_blocks b ! 1 ! 1 = (12, IRet (LValue 9)) \<and>
     get_register (reg_of ''RAX'') (en_cpu demo_engine) = Inr ret \<and>
     \<not> is_dead_store (\<lambda>_ _. True) (LValue 9) (reg_offset ret) (ir_blocks b) 1 1"
proof -
  obtain e' where e': "engine_optimize demo_env (\<lambda>_. 0) 4 demo_engine = Inr e'" "demo_cleaned (cp_ir (en_cpu e'))"
    using demo_optimized by blast
  have opt: "get_option STATE_CLEANUP (cp_options (en_cpu demo_engine)) = Inr 1"
    by (simp add: get_option_def demo_engine_def default_options_def)
  have env: "ev_same_op demo_env = (\<lambda>_ _. True)" "d_l (state_ptr (en_cpu demo_engine)) = LValue 9"
    by (simp_all add: demo_env_def demo_engine_def)
  from optimize_leaves_no_dead_store [OF e'(1) opt] obtain ret where
    "get_register (reg_of ''RAX'') (en_cpu demo_engine) = Inr ret"
    "\<forall>bb < length (ir_blocks (cp_ir (en_cpu e'))). \<forall>pos < length (ir_blocks (cp_ir (en_cpu e')) ! bb).
       \<not> is_dead_store (\<lambda>_ _. True) (LValue 9) (reg_offset ret) (ir_blocks (cp_ir (en_cpu e'))) bb pos"
    unfolding demo_tidy by (auto simp: env)
  then show ?thesis using e' by (auto simp: demo_cleaned_def)
qed


end
