(* ===== verification/Logging.thy ===== *)
theory Logging
  imports Vexa_Prelude
begin

text \<open>
  The start of the library and its logger (vexa.cpp, vexa.h): the levels, \<open>init\<close>, \<open>set_logging_mode\<close>, the error mode that
  \<open>THROW\<close> switches to, and the text of an exception; and \<open>global\<close> (global.cpp). Quill, which keeps the loggers and writes the
  lines, is an argument.
\<close>

section \<open>Levels\<close>

datatype logging_mode = NONE | DEFAULT | DEBUG

datatype log_level = Level_debug | Level_info | Level_error | Level_none

text \<open>The order of quill: a logger writes a line when its own level is not above that of the line.\<close>

fun level_rank :: "log_level \<Rightarrow> nat" where
  "level_rank Level_debug = 0"
| "level_rank Level_info = 1"
| "level_rank Level_error = 2"
| "level_rank Level_none = 3"

instantiation log_level :: linorder
begin

definition less_eq_log_level :: "log_level \<Rightarrow> log_level \<Rightarrow> bool" where
  "l \<le> l' \<longleftrightarrow> level_rank l \<le> level_rank l'"

definition less_log_level :: "log_level \<Rightarrow> log_level \<Rightarrow> bool" where
  "l < l' \<longleftrightarrow> level_rank l < level_rank l'"

instance
proof
  fix x y :: log_level
  show "x \<le> y \<Longrightarrow> y \<le> x \<Longrightarrow> x = y" by (cases x; cases y) (simp_all add: less_eq_log_level_def)
qed (auto simp: less_eq_log_level_def less_log_level_def)

end

fun vexa2quill_log_level :: "logging_mode \<Rightarrow> log_level" where
  "vexa2quill_log_level NONE = Level_none"
| "vexa2quill_log_level DEFAULT = Level_info"
| "vexa2quill_log_level DEBUG = Level_debug"

section \<open>The logger\<close>

text \<open>What the code calls of quill, on a state of quill. A logger is a number; the pattern is the one of the options.\<close>

record 'q quill =
  ql_start :: "'q \<Rightarrow> 'q"
  ql_create_or_get :: "string \<Rightarrow> string \<Rightarrow> 'q \<Rightarrow> nat \<times> 'q"
  ql_remove :: "nat \<Rightarrow> 'q \<Rightarrow> 'q"
  ql_set_level :: "log_level \<Rightarrow> nat \<Rightarrow> 'q \<Rightarrow> 'q"
  ql_immediate_flush :: "nat \<Rightarrow> nat \<Rightarrow> 'q \<Rightarrow> 'q"
  ql_log :: "log_level \<Rightarrow> string \<Rightarrow> nat \<Rightarrow> 'q \<Rightarrow> 'q"

text \<open>The globals of the library: the pointer \<open>logger\<close>, whether LIEF was told to be silent, and quill.\<close>

record 'q library =
  lib_logger :: "nat option"
  lib_lief_off :: bool
  lib_quill :: 'q

definition plain_pattern :: string where
  "plain_pattern = ''%(logger:<6) %(log_level:<8) %(message)''"

definition error_pattern :: string where
  "error_pattern = ''%(logger:<6) %(log_level:<8) %(short_source_location:<15) %(message)''"

definition init :: "'q quill \<Rightarrow> logging_mode \<Rightarrow> 'q library \<Rightarrow> 'q library" where
  "init Q mode s =
     (case ql_create_or_get Q ''vexa'' plain_pattern (ql_start Q (lib_quill s)) of (l, q) \<Rightarrow>
       s\<lparr>lib_lief_off := True, lib_logger := Some l, lib_quill := ql_set_level Q (vexa2quill_log_level mode) l q\<rparr>)"

definition set_logging_mode :: "'q quill \<Rightarrow> logging_mode \<Rightarrow> 'q library \<Rightarrow> 'q library res" where
  "set_logging_mode Q mode s =
     (case lib_logger s of None \<Rightarrow> Inl Null_dereference
      | Some l \<Rightarrow> Inr (s\<lparr>lib_quill := ql_set_level Q (vexa2quill_log_level mode) l (lib_quill s)\<rparr>))"

definition set_logger_error_mode :: "'q quill \<Rightarrow> 'q library \<Rightarrow> 'q library res" where
  "set_logger_error_mode Q s =
     (case lib_logger s of None \<Rightarrow> Inl Null_dereference
      | Some old \<Rightarrow>
          (case ql_create_or_get Q ''vexa'' error_pattern (ql_remove Q old (lib_quill s)) of (l, q) \<Rightarrow>
             Inr (s\<lparr>lib_logger := Some l, lib_quill := ql_immediate_flush Q 1 l q\<rparr>)))"

text \<open>A line of the code: \<open>LOG_INFO\<close>, \<open>LOG_DEBUG\<close>, \<open>LOG_ERROR\<close>.\<close>

definition log_line :: "'q quill \<Rightarrow> log_level \<Rightarrow> string \<Rightarrow> 'q library \<Rightarrow> 'q library res" where
  "log_line Q level msg s =
     (case lib_logger s of None \<Rightarrow> Inl Null_dereference
      | Some l \<Rightarrow> Inr (s\<lparr>lib_quill := ql_log Q level msg l (lib_quill s)\<rparr>))"

text \<open>\<open>THROW\<close> logs its message in the error mode; what is thrown is a \<open>std::runtime_error\<close> without a text.\<close>

definition throw_macro :: "'q quill \<Rightarrow> string \<Rightarrow> 'q library \<Rightarrow> (string \<times> 'q library) res" where
  "throw_macro Q msg s =
     res_bind (set_logger_error_mode Q s) (\<lambda>s1. res_bind (log_line Q Level_error msg s1) (\<lambda>s2. Inr ([], s2)))"

definition vexa_assert_macro :: "'q quill \<Rightarrow> bool \<Rightarrow> string \<Rightarrow> 'q library \<Rightarrow> (string option \<times> 'q library) res" where
  "vexa_assert_macro Q c text s =
     (if c then Inr (None, s)
      else res_bind (throw_macro Q (''assert failed: '' @ text) s) (\<lambda>(what, s1). Inr (Some what, s1)))"

text \<open>\<open>std::hex\<close>: lower case digits without a prefix.\<close>

definition hex_digit :: "nat \<Rightarrow> char" where
  "hex_digit d = (if d < 10 then char_of (48 + d) else char_of (87 + d))"

fun show_hex :: "nat \<Rightarrow> string" where
  "show_hex n = (if n < 16 then [hex_digit n] else show_hex (n div 16) @ [hex_digit (n mod 16)])"

declare show_hex.simps [simp del]

definition addr_to_str :: "u64 \<Rightarrow> string" where
  "addr_to_str addr = show_hex (unat addr)"

section \<open>Exceptions\<close>

text \<open>\<open>path::filename\<close>: what follows the last slash.\<close>

definition file_name :: "string \<Rightarrow> string" where
  "file_name path = rev (takeWhile (\<lambda>c. c \<noteq> CHR ''/'') (rev path))"

definition escape :: "string \<Rightarrow> string" where
  "escape code = CHR 0x1B # ''['' @ code @ ''m''"

definition show_int :: "int \<Rightarrow> string" where
  "show_int n = (if n < 0 then ''-'' @ show_nat (nat (- n)) else show_nat (nat n))"

definition vexa_exception :: "string \<Rightarrow> int \<Rightarrow> string \<Rightarrow> string" where
  "vexa_exception file line msg =
     escape ''91'' @ ''[exception]'' @ escape ''0'' @ escape ''96'' @ ''['' @ file_name file @ '':'' @ show_int line @ '']'' @
     escape ''0'' @ '' '' @ msg"

section \<open>Global variables\<close>

text \<open>The variable has a type of its own, but \<open>getType\<close> is that of its address.\<close>

record global =
  gl_name :: string
  gl_address_bits :: u64
  gl_value_bits :: u64

definition global_size :: "global \<Rightarrow> u64" where
  "global_size g = gl_address_bits g"

definition global_name :: "global \<Rightarrow> string" where
  "global_name g = gl_name g"

section \<open>Errors change the level\<close>

text \<open>What is documented of quill, for a function that gives the loggers by their names, each with its pattern and its level, and one
  that gives the lines that were written: a logger that exists is handed out as it is, a new one has the level info; a logger
  that was removed is gone; a line is written when the level of the logger is not above that of the line.\<close>

record 'q quill_view =
  vw_loggers :: "'q \<Rightarrow> nat \<rightharpoonup> string \<times> string \<times> log_level"
  vw_lines :: "'q \<Rightarrow> (string \<times> log_level \<times> string) list"

definition logger_named :: "(nat \<rightharpoonup> string \<times> string \<times> log_level) \<Rightarrow> string \<Rightarrow> nat \<Rightarrow> bool" where
  "logger_named m name l \<longleftrightarrow> (\<exists>p v. m l = Some (name, p, v))"

definition quill_laws :: "'q quill \<Rightarrow> 'q quill_view \<Rightarrow> bool" where
  "quill_laws Q V \<longleftrightarrow>
     (\<forall>q. vw_loggers V (ql_start Q q) = vw_loggers V q \<and> vw_lines V (ql_start Q q) = vw_lines V q) \<and>
     (\<forall>q name p l q'. ql_create_or_get Q name p q = (l, q') \<longrightarrow> vw_lines V q' = vw_lines V q \<and>
        (if \<exists>k. logger_named (vw_loggers V q) name k then logger_named (vw_loggers V q) name l \<and> vw_loggers V q' = vw_loggers V q
         else vw_loggers V q l = None \<and> vw_loggers V q' = (vw_loggers V q)(l \<mapsto> (name, p, Level_info)))) \<and>
     (\<forall>q l. vw_loggers V (ql_remove Q l q) = (vw_loggers V q)(l := None) \<and> vw_lines V (ql_remove Q l q) = vw_lines V q) \<and>
     (\<forall>q l v. vw_lines V (ql_set_level Q v l q) = vw_lines V q \<and>
        vw_loggers V (ql_set_level Q v l q) =
          (vw_loggers V q)(l := map_option (\<lambda>(name, p, w). (name, p, v)) (vw_loggers V q l))) \<and>
     (\<forall>q n l. vw_loggers V (ql_immediate_flush Q n l q) = vw_loggers V q \<and> vw_lines V (ql_immediate_flush Q n l q) = vw_lines V q) \<and>
     (\<forall>q v msg l. vw_loggers V (ql_log Q v msg l q) = vw_loggers V q \<and>
        vw_lines V (ql_log Q v msg l q) = vw_lines V q @
          (case vw_loggers V q l of Some (name, p, w) \<Rightarrow> if w \<le> v then [(p, v, msg)] else [] | None \<Rightarrow> []))"

text \<open>The library owns the only logger of its name.\<close>

definition library_ok :: "'q quill_view \<Rightarrow> 'q library \<Rightarrow> bool" where
  "library_ok V s \<longleftrightarrow> (\<forall>k. logger_named (vw_loggers V (lib_quill s)) ''vexa'' k \<longleftrightarrow> lib_logger s = Some k)"

definition level_of :: "'q quill_view \<Rightarrow> 'q library \<Rightarrow> log_level option" where
  "level_of V s =
     (case lib_logger s of None \<Rightarrow> None | Some l \<Rightarrow> map_option (\<lambda>e. snd (snd e)) (vw_loggers V (lib_quill s) l))"

abbreviation log_output :: "'q quill_view \<Rightarrow> 'q library \<Rightarrow> (string \<times> log_level \<times> string) list" where
  "log_output V s \<equiv> vw_lines V (lib_quill s)"

lemma quill_set_level:
  assumes "quill_laws Q V"
  shows "vw_lines V (ql_set_level Q v l q) = vw_lines V q"
    and "vw_loggers V (ql_set_level Q v l q) = (vw_loggers V q)(l := map_option (\<lambda>(name, p, w). (name, p, v)) (vw_loggers V q l))"
  using assms unfolding quill_laws_def by blast+

lemma quill_create:
  assumes "quill_laws Q V" and "ql_create_or_get Q name p q = (l, q')"
  shows "vw_lines V q' = vw_lines V q" and "logger_named (vw_loggers V q') name l"
    and "\<not> (\<exists>k. logger_named (vw_loggers V q) name k) \<Longrightarrow> vw_loggers V q' = (vw_loggers V q)(l \<mapsto> (name, p, Level_info))"
    and "logger_named (vw_loggers V q) name k \<Longrightarrow> logger_named (vw_loggers V q) name l \<and> vw_loggers V q' = vw_loggers V q"
proof -
  have law: "vw_lines V q' = vw_lines V q \<and>
      (if \<exists>k. logger_named (vw_loggers V q) name k then logger_named (vw_loggers V q) name l \<and> vw_loggers V q' = vw_loggers V q
       else vw_loggers V q l = None \<and> vw_loggers V q' = (vw_loggers V q)(l \<mapsto> (name, p, Level_info)))"
    using assms unfolding quill_laws_def by blast
  then show "vw_lines V q' = vw_lines V q" by blast
  show "logger_named (vw_loggers V q') name l" using law by (auto simp: logger_named_def split: if_splits)
  show "\<not> (\<exists>k. logger_named (vw_loggers V q) name k) \<Longrightarrow> vw_loggers V q' = (vw_loggers V q)(l \<mapsto> (name, p, Level_info))" using law by simp
  show "logger_named (vw_loggers V q) name k \<Longrightarrow> logger_named (vw_loggers V q) name l \<and> vw_loggers V q' = vw_loggers V q"
    using law by (auto split: if_splits)
qed

lemma quill_rest:
  assumes "quill_laws Q V"
  shows "vw_loggers V (ql_start Q q) = vw_loggers V q" and "vw_lines V (ql_start Q q) = vw_lines V q"
    and "vw_loggers V (ql_remove Q l q) = (vw_loggers V q)(l := None)" and "vw_lines V (ql_remove Q l q) = vw_lines V q"
    and "vw_loggers V (ql_immediate_flush Q n l q) = vw_loggers V q" and "vw_lines V (ql_immediate_flush Q n l q) = vw_lines V q"
    and "vw_loggers V (ql_log Q v msg l q) = vw_loggers V q"
    and "vw_lines V (ql_log Q v msg l q) = vw_lines V q @
      (case vw_loggers V q l of Some (name, p, w) \<Rightarrow> if w \<le> v then [(p, v, msg)] else [] | None \<Rightarrow> [])"
  using assms unfolding quill_laws_def by blast+

lemmas quill_simps = quill_set_level quill_rest

lemma set_logging_mode_level:
  assumes "quill_laws Q V" and "library_ok V s" and "set_logging_mode Q mode s = Inr s'"
  shows "level_of V s' = Some (vexa2quill_log_level mode)" and "library_ok V s'" and "log_output V s' = log_output V s"
proof -
  obtain l where l: "lib_logger s = Some l" "s' = s\<lparr>lib_quill := ql_set_level Q (vexa2quill_log_level mode) l (lib_quill s)\<rparr>"
    using assms(3) by (auto simp: set_logging_mode_def split: option.splits)
  then obtain p v where "vw_loggers V (lib_quill s) l = Some (''vexa'', p, v)"
    using assms(2) unfolding library_ok_def logger_named_def by blast
  then show "level_of V s' = Some (vexa2quill_log_level mode)" "library_ok V s'" "log_output V s' = log_output V s"
    using assms(2) l(1) unfolding l(2)
    by (auto simp: level_of_def library_ok_def logger_named_def quill_simps [OF assms(1)] split: if_splits)
qed

lemma init_level:
  assumes "quill_laws Q V" and "library_ok V s" and "s' = init Q mode s"
  shows "level_of V s' = Some (vexa2quill_log_level mode)" and "library_ok V s'" and "log_output V s' = log_output V s"
proof -
  obtain l q where c: "ql_create_or_get Q ''vexa'' plain_pattern (ql_start Q (lib_quill s)) = (l, q)" by fastforce
  note new = quill_create [OF assms(1) c]
  have only: "logger_named (vw_loggers V q) ''vexa'' k \<longleftrightarrow> k = l" for k
  proof (cases "\<exists>j. logger_named (vw_loggers V (lib_quill s)) ''vexa'' j")
    case True
    then show ?thesis using new(4) new(2) assms(2) by (auto simp: quill_simps [OF assms(1)] library_ok_def)
  next
    case False
    then have "vw_loggers V q = (vw_loggers V (lib_quill s))(l \<mapsto> (''vexa'', plain_pattern, Level_info))"
      using new(3) by (simp add: quill_simps [OF assms(1)])
    then show ?thesis using False by (auto simp: logger_named_def)
  qed
  obtain p v where "vw_loggers V q l = Some (''vexa'', p, v)" using new(2) by (auto simp: logger_named_def)
  then show "level_of V s' = Some (vexa2quill_log_level mode)" "library_ok V s'" "log_output V s' = log_output V s"
    using only new(1) unfolding assms(3)
    by (auto simp: init_def c level_of_def library_ok_def logger_named_def quill_simps [OF assms(1)] split: if_splits)
qed

text \<open>C38: an error is always reported, and it changes the level. Whatever the mode is, also \<open>NONE\<close>, \<open>THROW\<close> writes its message with the
  place in the source, and the exception that it throws has no text. The logger is then a new one with the
  level of quill: lines of the level info are written, also when the mode was \<open>NONE\<close>, and lines of the level debug are
  not, also when it was \<open>DEBUG\<close>; setting the mode again undoes that.\<close>

theorem throwing_changes_the_level:
  assumes "quill_laws Q V" and "library_ok V s0" and "s = init Q mode s0"
  shows "\<exists>s1. throw_macro Q msg s = Inr ([], s1) \<and> log_output V s1 = log_output V s @ [(error_pattern, Level_error, msg)] \<and>
    level_of V s1 = Some Level_info \<and> library_ok V s1 \<and>
    (\<exists>s2. log_line Q Level_info line s1 = Inr s2 \<and> log_output V s2 = log_output V s1 @ [(error_pattern, Level_info, line)]) \<and>
    (\<exists>s2. log_line Q Level_debug line s1 = Inr s2 \<and> log_output V s2 = log_output V s1) \<and>
    (\<exists>s2. set_logging_mode Q mode s1 = Inr s2 \<and> level_of V s2 = Some (vexa2quill_log_level mode))"
proof -
  have ok: "library_ok V s" using init_level [OF assms] by blast
  obtain old where old: "lib_logger s = Some old" using assms(3) by (auto simp: init_def split: prod.splits)
  obtain l q where c: "ql_create_or_get Q ''vexa'' error_pattern (ql_remove Q old (lib_quill s)) = (l, q)" by fastforce
  note simps = quill_simps [OF assms(1)]
  have "\<not> logger_named (vw_loggers V (ql_remove Q old (lib_quill s))) ''vexa'' k" for k
    using ok old by (auto simp: library_ok_def logger_named_def simps split: if_splits)
  then have new: "vw_loggers V q = (vw_loggers V (lib_quill s))(old := None, l \<mapsto> (''vexa'', error_pattern, Level_info))"
    using quill_create(3) [OF assms(1) c] by (auto simp: simps)
  have lines: "vw_lines V q = log_output V s" using quill_create(1) [OF assms(1) c] by (simp add: simps)
  define s1 where "s1 = s\<lparr>lib_logger := Some l, lib_quill := ql_log Q Level_error msg l (ql_immediate_flush Q 1 l q)\<rparr>"
  have throw: "throw_macro Q msg s = Inr ([], s1)"
    by (simp add: throw_macro_def set_logger_error_mode_def log_line_def old c s1_def)
  have s1: "vw_loggers V (lib_quill s1) l = Some (''vexa'', error_pattern, Level_info)" "lib_logger s1 = Some l"
    and w: "log_output V s1 = log_output V s @ [(error_pattern, Level_error, msg)]"
    by (simp_all add: s1_def simps new lines less_eq_log_level_def)
  have ok1: "library_ok V s1" using ok old by (auto simp: library_ok_def logger_named_def s1_def simps new split: if_splits)
  obtain s2 where s2: "set_logging_mode Q mode s1 = Inr s2" by (simp add: set_logging_mode_def s1(2))
  note again = set_logging_mode_level(1) [OF assms(1) ok1 s2]
  show ?thesis
    using throw w ok1 s2 again by (simp add: log_line_def level_of_def s1 simps less_eq_log_level_def)
qed

text \<open>A quill that keeps its loggers in a list.\<close>

type_synonym demo_quill = "(nat \<rightharpoonup> string \<times> string \<times> log_level) \<times> nat \<times> (string \<times> log_level \<times> string) list"

definition list_quill :: "demo_quill quill" where
  "list_quill =
     \<lparr>ql_start = (\<lambda>q. q),
      ql_create_or_get = (\<lambda>name p (m, n, ls).
        case List.find (logger_named m name) [0..<n] of Some l \<Rightarrow> (l, m, n, ls)
        | None \<Rightarrow> (n, m(n \<mapsto> (name, p, Level_info)), Suc n, ls)),
      ql_remove = (\<lambda>l (m, n, ls). (m(l := None), n, ls)),
      ql_set_level = (\<lambda>v l (m, n, ls). (m(l := map_option (\<lambda>(name, p, w). (name, p, v)) (m l)), n, ls)),
      ql_immediate_flush = (\<lambda>k l q. q),
      ql_log = (\<lambda>v msg l (m, n, ls).
        (m, n, ls @ (case (if l < n then m l else None) of Some (name, p, w) \<Rightarrow> if w \<le> v then [(p, v, msg)] else [] | None \<Rightarrow> [])))\<rparr>"

text \<open>Numbers from the counter on belong to no logger.\<close>

definition list_view :: "demo_quill quill_view" where
  "list_view = \<lparr>vw_loggers = (\<lambda>(m, n, ls) k. if k < n then m k else None), vw_lines = (\<lambda>(m, n, ls). ls)\<rparr>"

lemma list_create:
  assumes "ql_create_or_get list_quill name p (m, n, ls) = (l, m', n', ls')"
  shows "ls' = ls" and "if \<exists>k < n. logger_named m name k then logger_named m name l \<and> l < n \<and> m' = m \<and> n' = n
    else l = n \<and> m' = m(n \<mapsto> (name, p, Level_info)) \<and> n' = Suc n"
proof -
  have "(\<exists>k < n. logger_named m name k) \<longleftrightarrow> List.find (logger_named m name) [0..<n] \<noteq> None" by (auto simp: find_None_iff)
  moreover have "logger_named m name k \<and> k < n" if "List.find (logger_named m name) [0..<n] = Some k" for k
    using that by (auto simp: find_Some_iff)
  ultimately show "ls' = ls" "if \<exists>k < n. logger_named m name k then logger_named m name l \<and> l < n \<and> m' = m \<and> n' = n
    else l = n \<and> m' = m(n \<mapsto> (name, p, Level_info)) \<and> n' = Suc n"
    using assms by (auto simp: list_quill_def split: option.splits)
qed

lemma list_quill_laws: "quill_laws list_quill list_view"
  unfolding quill_laws_def
proof (intro conjI allI impI)
  fix q name p l q' assume c: "ql_create_or_get list_quill name p q = (l, q')"
  obtain m n ls where q: "q = (m, n, ls)" by (metis prod_cases3)
  obtain m' n' ls' where q': "q' = (m', n', ls')" by (metis prod_cases3)
  note new = list_create [OF c [unfolded q q']]
  show "vw_lines list_view q' = vw_lines list_view q" using new(1) by (simp add: list_view_def q q')
  have named: "logger_named (vw_loggers list_view q) name k \<longleftrightarrow> k < n \<and> logger_named m name k" for k
    by (auto simp: list_view_def q logger_named_def)
  show "if \<exists>k. logger_named (vw_loggers list_view q) name k
      then logger_named (vw_loggers list_view q) name l \<and> vw_loggers list_view q' = vw_loggers list_view q
      else vw_loggers list_view q l = None \<and> vw_loggers list_view q' = (vw_loggers list_view q)(l \<mapsto> (name, p, Level_info))"
    unfolding named using new(2) by (auto simp: list_view_def q q' fun_eq_iff less_Suc_eq split: if_splits)
qed (auto simp: list_quill_def list_view_def fun_eq_iff split: prod.splits)

definition demo_library :: "demo_quill library" where
  "demo_library = \<lparr>lib_logger = None, lib_lief_off = False, lib_quill = (Map.empty, 0, [])\<rparr>"

lemma demo_library_ok: "library_ok list_view demo_library"
  by (simp add: library_ok_def demo_library_def list_view_def logger_named_def)

theorem throwing_changes_the_level_witness:
  "\<exists>s1. throw_macro list_quill ''bad'' (init list_quill NONE demo_library) = Inr ([], s1) \<and>
     log_output list_view s1 = [(error_pattern, Level_error, ''bad'')] \<and> level_of list_view s1 = Some Level_info"
proof -
  have "log_output list_view (init list_quill NONE demo_library) = []"
    using init_level(3) [OF list_quill_laws demo_library_ok refl, of NONE] by (simp add: demo_library_def list_view_def)
  then show ?thesis using throwing_changes_the_level [OF list_quill_laws demo_library_ok refl, where msg = "''bad''" and line = "''more''" and mode = NONE] by auto
qed

section \<open>Texts\<close>

text \<open>The text of an exception ends with its message, and names the file without its directories.\<close>

lemma file_name_path: "CHR ''/'' \<notin> set name \<Longrightarrow> file_name (dir @ ''/'' @ name) = name"
  by (simp add: file_name_def takeWhile_append)

lemma file_name_plain: "CHR ''/'' \<notin> set name \<Longrightarrow> file_name name = name"
proof -
  assume "CHR ''/'' \<notin> set name"
  then have "takeWhile (\<lambda>c. c \<noteq> CHR ''/'') (rev name) = rev name" unfolding takeWhile_eq_all_conv by auto
  then show ?thesis unfolding file_name_def by (simp only: rev_rev_ident)
qed

lemma vexa_exception_file:
  "CHR ''/'' \<notin> set name \<Longrightarrow> vexa_exception (dir @ ''/'' @ name) line msg = vexa_exception name line msg"
  using file_name_path [of name dir] file_name_plain [of name] by (simp add: vexa_exception_def)

end
