(* ===== verification/Cli.thy ===== *)
theory Cli
  imports Engine Logging
begin

text \<open>
  The command line tool (cli.cpp): from the parsed arguments to the options of the
  engine, the run, and the patched file. The parser of the arguments (CLI11) is left out: its results are an argument.
\<close>

section \<open>The arguments\<close>

record cli_args =
  input_file :: string
  output_file :: string
  arg_address :: u64
  no_opt :: bool
  no_statistics :: bool
  quiet :: bool
  no_constant_propagation :: bool
  no_opaque_solving :: bool
  arg_cfg_recovery :: bool
  arg_vcfg_recovery :: bool
  vcfg_path_sensitive :: bool
  no_fork_at_cmovs :: bool
  recompile_given :: bool

definition set_if :: "bool \<Rightarrow> option_kind \<Rightarrow> int \<Rightarrow> engine \<Rightarrow> engine res" where
  "set_if c opt v e = (if c then engine_set_option opt v e else Inr e)"

definition configure :: "cli_args \<Rightarrow> engine \<Rightarrow> engine res" where
  "configure args e =
     res_bind (engine_set_option MODE
       (if arg_cfg_recovery args then CFG_RECOVERY
        else if arg_vcfg_recovery args then VCFG_RECOVERY else SYMBOLIC_EXPLORATION) e) (\<lambda>e1.
     res_bind (set_if (vcfg_path_sensitive args) CFG_JOIN_POLICY SPECIALIZE_BY_PATH e1) (\<lambda>e2.
     res_bind (set_if (no_fork_at_cmovs args) FORK_AT_CMOVS 0 e2) (\<lambda>e3.
     res_bind (engine_set_option OPAQUE_SOLVING (of_bool (\<not> no_opaque_solving args)) e3) (\<lambda>e4.
     res_bind (engine_set_option CONSTANT_PROPAGATION (of_bool (\<not> no_constant_propagation args)) e4) (\<lambda>e5.
     res_bind (engine_set_option LOOP_REROLL 0 e5) (\<lambda>e6.
     engine_set_option STATE_CLEANUP 1 e6))))))"

section \<open>The tool\<close>

text \<open>\<open>engine::print\<close> writes the text of the function with the statistics of the run.\<close>

record tool_env =
  te_engine :: engine_env
  te_lief :: lief
  te_edit :: lief_edit
  te_statistics :: "engine \<Rightarrow> string"

definition explore :: "tool_env \<Rightarrow> (ir_builder \<Rightarrow> nat) \<Rightarrow> nat \<Rightarrow> cli_args \<Rightarrow> file_system \<Rightarrow> (vexa_binary \<times> engine) res" where
  "explore T cp_fuel fuel args fs =
     res_bind (new_context (te_engine T)) (\<lambda>e.
     res_bind (binary_of_file (te_lief T) fs (input_file args)) (\<lambda>bin.
     res_bind (engine_map_binary bin e) (\<lambda>e1.
     res_bind (configure args e1) (\<lambda>e2.
     res_bind (engine_run (te_engine T) fuel (arg_address args) e2) (\<lambda>e3.
     res_bind (if no_opt args then Inr e3 else engine_optimize (te_engine T) cp_fuel fuel e3) (\<lambda>e4.
     Inr (bin, e4)))))))"

definition printed :: "tool_env \<Rightarrow> cli_args \<Rightarrow> engine \<Rightarrow> string" where
  "printed T args e = (if no_statistics args then en_ir e @ [CHR 0x0A] else te_statistics T e)"

definition output_name :: "cli_args \<Rightarrow> string" where
  "output_name args = (if output_file args = [] then ''output.bin'' else output_file args)"

definition patched_binary :: "tool_env \<Rightarrow> cli_args \<Rightarrow> vexa_binary \<Rightarrow> engine \<Rightarrow> vexa_binary res" where
  "patched_binary T args bin e =
     res_bind (engine_recompile (te_engine T) True e) (\<lambda>(recompiled, e1).
     patch (te_lief T) (te_edit T) recompiled (arg_address args) bin)"

text \<open>The file system afterwards, and the exit code with the level of the logger (none when it was not started) and the text,
  or the exception that ends the tool.\<close>

definition main ::
  "tool_env \<Rightarrow> (ir_builder \<Rightarrow> nat) \<Rightarrow> nat \<Rightarrow> cli_args \<Rightarrow> file_system \<Rightarrow> file_system \<times> (int \<times> log_level option \<times> string) res" where
  "main T cp_fuel fuel args fs =
     (let level = Some (vexa2quill_log_level (if quiet args then NONE else DEBUG)) in
      if arg_cfg_recovery args \<and> arg_vcfg_recovery args then (fs, Inr (-1, None, []))
      else
        (case explore T cp_fuel fuel args fs of
           Inl err \<Rightarrow> (fs, Inl err)
         | Inr (bin, e) \<Rightarrow>
             let text = printed T args e in
             if \<not> recompile_given args then (fs, Inr (0, level, text))
             else
               (case patched_binary T args bin e of
                  Inl err \<Rightarrow> (fs, Inl err)
                | Inr bin1 \<Rightarrow>
                    (case binary_write (te_lief T) bin1 (output_name args) fs of
                       (fs1, Inl err) \<Rightarrow> (fs1, Inl err)
                     | (fs1, Inr u) \<Rightarrow> (fs1, Inr (0, level, text))))))"

section \<open>The options of a run\<close>

text \<open>What every flag means, as a table of all options.\<close>

fun option_of_flags :: "cli_args \<Rightarrow> option_kind \<Rightarrow> int" where
  "option_of_flags args CONCRETIZE_RDTSC = 1"
| "option_of_flags args FORK_AT_CMOVS = of_bool (\<not> no_fork_at_cmovs args)"
| "option_of_flags args OPAQUE_SOLVING = of_bool (\<not> no_opaque_solving args)"
| "option_of_flags args MODE =
     (if arg_cfg_recovery args then CFG_RECOVERY else if arg_vcfg_recovery args then VCFG_RECOVERY else SYMBOLIC_EXPLORATION)"
| "option_of_flags args CFG_JOIN_POLICY = (if vcfg_path_sensitive args then SPECIALIZE_BY_PATH else MERGE_BY_PC)"
| "option_of_flags args STATE_CLEANUP = 1"
| "option_of_flags args CONSTANT_PROPAGATION = of_bool (\<not> no_constant_propagation args)"
| "option_of_flags args LOOP_REROLL = 0"
| "option_of_flags args OPTION_COUNT = 0"

lemma engine_set_option_eq:
  "opt \<noteq> OPTION_COUNT \<Longrightarrow> engine_set_option opt v e = Inr (e\<lparr>en_cpu := (en_cpu e)\<lparr>cp_options := (cp_options (en_cpu e))(opt \<mapsto> v)\<rparr>\<rparr>)"
  by (simp add: engine_set_option_def set_option_def)

text \<open>the flags of the command line become the options of the engine, each one its own and no other; an option without a
  flag keeps its default, re-rolling loops is off and the cleanup of the state is on.\<close>

theorem cli_options_applied:
  assumes "cp_options (en_cpu e) = default_options"
  shows "\<exists>e'. configure args e = Inr e' \<and>
    (\<forall>opt. opt \<noteq> OPTION_COUNT \<longrightarrow> engine_get_option opt e' = Inr (option_of_flags args opt))"
proof -
  define m where "m = option_of_flags args MODE"
  define os where "os = default_options(MODE \<mapsto> m)"
  define os2 where "os2 = (if vcfg_path_sensitive args then os(CFG_JOIN_POLICY \<mapsto> SPECIALIZE_BY_PATH) else os)"
  define os3 where "os3 = (if no_fork_at_cmovs args then os2(FORK_AT_CMOVS \<mapsto> 0) else os2)"
  define os4 where "os4 = os3(OPAQUE_SOLVING \<mapsto> of_bool (\<not> no_opaque_solving args),
      CONSTANT_PROPAGATION \<mapsto> of_bool (\<not> no_constant_propagation args), LOOP_REROLL \<mapsto> 0, STATE_CLEANUP \<mapsto> 1)"
  have "configure args e = Inr (e\<lparr>en_cpu := (en_cpu e)\<lparr>cp_options := os4\<rparr>\<rparr>)"
    using assms
    by (simp add: configure_def engine_set_option_eq set_if_def os4_def os3_def os2_def os_def m_def)
  moreover have "os4 opt = Some (option_of_flags args opt)" if "opt \<noteq> OPTION_COUNT" for opt
    using that
    by (cases opt) (simp_all add: os4_def os3_def os2_def os_def m_def default_options_def mode_defs)
  then have "engine_get_option opt (e\<lparr>en_cpu := (en_cpu e)\<lparr>cp_options := os4\<rparr>\<rparr>) = Inr (option_of_flags args opt)"
    if "opt \<noteq> OPTION_COUNT" for opt using that by (simp add: engine_get_option_def get_option_def)
  ultimately show ?thesis by blast
qed

section \<open>The files that are written\<close>

lemma patch_kind: "patch P L obj va b = Inr b' \<Longrightarrow> (\<exists>l. bin_lief b' = Some l \<and> (\<exists>e. l = Lief_ELF e) \<or> (\<exists>p. bin_lief b' = Some (Lief_PE p)))"
  by (auto simp: patch_def Let_def split: if_splits option.splits elim!: res_bindE)

lemma binary_write_patched:
  assumes "patch P L obj va b = Inr b'"
  shows "\<exists>l. binary_write Q b' name fs =
    (fs\<lparr>fs_files := (fs_files fs)(name \<mapsto> lf_write Q l), fs_executable := (fs_executable fs)(name := True)\<rparr>, Inr ())"
  using patch_kind [OF assms] by (auto simp: binary_write_outcome)


definition demo_args :: cli_args where
  "demo_args =
     \<lparr>input_file = ''a.out'', output_file = [], arg_address = 0x1000, no_opt = False, no_statistics = True, quiet = False,
      no_constant_propagation = True, no_opaque_solving = False, arg_cfg_recovery = True, arg_vcfg_recovery = True,
      vcfg_path_sensitive = True, no_fork_at_cmovs = False, recompile_given = True\<rparr>"

definition demo_tool :: tool_env where
  "demo_tool =
     \<lparr>te_engine = demo_env,
      te_lief = \<lparr>lf_parse_file = (\<lambda>_. None), lf_parse_bytes = (\<lambda>_. None), lf_write = (\<lambda>_. [])\<rparr>,
      te_edit = \<lparr>le_relocate_phdr = (\<lambda>_ e. e), le_add_segment = (\<lambda>_ _. None), le_segment_content = (\<lambda>_ e. e), le_patch_elf = (\<lambda>_ _ e. e),
        le_add_section = (\<lambda>_ _. None), le_section_content = (\<lambda>_ p. p), le_patch_pe = (\<lambda>_ _ p. p)\<rparr>,
      te_statistics = (\<lambda>e. ''lifted'' @ en_ir e)\<rparr>"

definition demo_files :: file_system where
  "demo_files = \<lparr>fs_files = [''a.out'' \<mapsto> [0x7F]], fs_can_open = (\<lambda>_. True), fs_can_read = (\<lambda>_. True), fs_executable = (\<lambda>_. False)\<rparr>"


theorem cli_options_applied_witness:
  "\<exists>e'. configure demo_args (demo_engine\<lparr>en_cpu := demo_cpu\<rparr>) = Inr e' \<and> engine_get_option MODE e' = Inr 1 \<and>
     engine_get_option CFG_JOIN_POLICY e' = Inr 1 \<and> engine_get_option CONSTANT_PROPAGATION e' = Inr 0 \<and>
     engine_get_option OPAQUE_SOLVING e' = Inr 1"
proof -
  have "cp_options (en_cpu (demo_engine\<lparr>en_cpu := demo_cpu\<rparr>)) = default_options" by (simp add: demo_cpu_def)
  from cli_options_applied [OF this, of demo_args] show ?thesis by (auto simp: demo_args_def mode_defs)
qed

end
