(* ===== verification/Spec2Isabelle.thy ===== *)
theory Spec2Isabelle
  imports Reference_Solver Intrinsics Context Amd64 Emulator_Instructions Emulator_Types Cpu_Paths Exploration
    Ite Remill Binary Engine_Map Engine_Patch
    Fuel_Loop Pass_Manager Block_Order Ir_Graph State_Cleanup
    Const_Prop_Memory Const_Prop_Walk Const_Prop_Loads Const_Prop_Correct
    Ir_Semantics Memory_Scalarizer Scalarizer_Correct State2alloca_Correct Loop_Reroll Recompile Engine Logging Cli
begin

text \<open>
  \<^bold>\<open>VEXA\<close>: a symbolic execution engine that lifts machine code to LLVM IR.

  \<^bold>\<open>The program.\<close> The engine (src/src/engine) maps a binary into symbolic memory and runs a cpu on
  a function. The cpu (src/src/arch/arch.cpp) fetches and decodes an instruction, lets remill lift
  it into a fresh block, emulates the block on symbolic values (src/src/arch/emulator.cpp), and
  follows the control flow; an undecided branch forks the path with a snapshot of the memory. The lifted function is optimised by
  LLVM and the passes of src/src/passes under a pass manager (src/src/ir/pass_manager.cpp), compiled
  (src/src/ir/recompile.cpp) and patched into the binary; the command line tool (src/cli) does all of this in order. Values
  (src/src/value) are Bitwuzla terms, memory (src/src/memory) is made of pages whose storages are
  shared copy-on-write between the running path and the snapshots.

  \<^bold>\<open>The theories.\<close>
  \<^item> Vexa_Prelude: exceptions as values, byte strings in little-endian order.
  \<^item> Bw_Term: the terms of Bitwuzla with their meaning, and what the code relies on in the solver
    (\<open>sound_solver\<close>, \<open>folds_constants\<close>). The solver is an argument of every definition that uses it.
    Reference_Solver is an executable solver that satisfies the hypotheses.
  \<^item> Value (value.cpp, value.hpp): operators, comparisons, \<open>simplify\<close>, \<open>possible_values\<close>.
    Symex (symex.cpp): the makers of values and the table from LLVM values to them.
  \<^item> Memory (memory.cpp, memory.hpp): the definitions. Memory_Snapshots: the reference counts, copy on
    write, and that a snapshot shows what it showed when it was taken, as the locale
    \<open>snapshot_store\<close> with its interpretation \<open>cow\<close>. Memory_Bytes: reads and writes as bytes.
  \<^item> Intrinsics (emulator.cpp, \<open>handle_llvm_intrinsics\<close>), Ir (builder.cpp and the instructions),
    Context (options and modes), Amd64 (the register tables).
  \<^item> Emulator (emulator.cpp and the address arithmetic of arch.cpp); Symbolic_Access: loads and
    stores through symbolic addresses; Emulator_Instructions: comparisons, casts, errors.
  \<^item> Cpu (arch.cpp): snapshots of the cpu, control flow recovery, fetching, branching, conditional
    moves, the main loop. Cpu_Frame: what the operations of the emulator leave alone.
    Cpu_Paths: a path that waits on the stack is resumed as it was saved.
    Exploration: with control flow recovery and paths that join by the program counter the loop ends, with a bound on its rounds.
  \<^item> Emulator_Types: the typing rules of the instructions that compute, and that a well-typed block is emulated without an exception.
  \<^item> Ite (arch.cpp, \<open>resolve_ite\<close>): the two targets of a conditional term. Remill (arch.cpp, \<open>initialize_arch\<close>,
    \<open>replace_remill_intrinsics\<close>): the registers, the arguments of the lifted function, the removal of remill's intrinsics.
  \<^item> Binary (binary.cpp): files, and the kinds of binaries. Engine_Map (engine.cpp, \<open>map_binary\<close>, \<open>write_memory\<close>) and Engine_Patch
    (engine.cpp, \<open>patch\<close>, \<open>fix_relocations\<close>): loading an image; the layout of the compiled sections, the relocations, the jump.
  \<^item> Ir_Graph: blocks as a graph, replacing and erasing instructions. Ir_Semantics: what instructions do to a memory of bytes, with
    the instructions a pass does not touch left to an argument. Both are shared by the passes.
  \<^item> Fuel_Loop: the library of loops that end for a reason that is not structural, as the locales \<open>fuel_rounds\<close>, \<open>fuel_loop\<close> and
    \<open>bounded_loop\<close>, interpreted for the rounds of the pass manager, the worklist of the constant propagation, its walk over memory,
    and the exploration.
  \<^item> Pass_Manager (pass_manager.cpp): the repetition of the pipeline. Block_Order (pass_manager.cpp): the order of the blocks
    and the names at its end. State_Cleanup, Const_Prop_Memory, Const_Prop_Walk,
    Const_Prop_Loads, Const_Prop and Const_Prop_Correct, Memory_Scalarizer and Scalarizer_Correct, State2alloca and State2alloca_Correct, Loop_Reroll: the passes.
  \<^item> Recompile (recompile.cpp, builder.cpp): the entry function as assembly, with a machine that runs it. Engine (engine.cpp,
    context.cpp): the whole engine. Logging (vexa.cpp, vexa.h, global.cpp): the start of the library, the levels, errors, global
    variables. Cli (cli.cpp): the tool.

  \<^bold>\<open>What is shown.\<close> Memory: snapshots, counts, bytes. Values: every operator and intrinsic is the machine operation; the
  enumeration of values is sound and complete. Emulator: symbolic loads and stores, type safety. Cpu: paths resume as they were
  saved, the exploration ends. Engine: a mapped image is what the cpu fetches, relocations and jumps go where they should, and
  when not. Passes: the memory scalarizer and the walk of the constant propagation refine their specifications, replaced loads are
  justified, constants change no path on which the emulation was right, no dead store is left and none is erased that is observed on a path the pass looks at, register addresses are replaced and
  a function computes with the variables what it computed with the registers,
  a loop is re-rolled from iterations that repeat each other and are erased, the pipeline ends and settles, and
  putting the blocks in order keeps the function. Recompiler: registers pass through the entry function. Tool: options, and the one file it
  writes. Library: an error is written in every mode and changes the level.

  \<^bold>\<open>Conventions.\<close> A call that may throw, fail an assertion, or run into undefined behaviour returns
  \<open>Inl\<close> of the exception; objects behind pointers are numbers into lists of the state; a loop that
  does not end for a structural reason has fuel and \<open>Diverges\<close> is its value when the fuel runs out: \<open>cpu::run\<close> (enough fuel is
  \<open>rounds_left\<close> plus one), the rounds of the pass manager and the walk and the worklist of the constant propagation (enough fuel
  exists, by a well-founded order), and \<open>write_memory\<close> (enough fuel is the size of the buffer, below \<open>2 ^ 32\<close>). \<open>simplify\<close> rewrites a value
  in place; the model returns the simplified value, which has the same meaning.

  \<^bold>\<open>Not modelled.\<close> The text of \<open>print\<close>, which is output only; the parser of the command line; the pipelines of LLVM and its traversal of the
  blocks, the code generator, quill, remill, LIEF and Bitwuzla, which are arguments
  of the definitions, with what the code relies on as named hypotheses; the tests.
\<close>

end
